(* ===== verification/Prelude.thy ===== *)
theory Prelude
  imports Main "HOL-Library.Word" "HOL-Library.Char_ord" "HOL-Library.List_Lexorder"
begin

text \<open>
  Shared vocabulary of the development: Go's byte strings, its unsigned 64-bit
  integers, the few functions of \<^verbatim>\<open>strings\<close>, \<^verbatim>\<open>strconv\<close> and \<^verbatim>\<open>encoding/binary\<close>
  the sources call, and the generic lemmas about them that the component
  theories use.  A Go \<^verbatim>\<open>string\<close> and a Go \<^verbatim>\<open>[]byte\<close> are both sequences of
  bytes, so both are \<^typ>\<open>string\<close> (a list of 8-bit \<^typ>\<open>char\<close>) and the
  conversions between them are the identity.
\<close>

type_synonym bytes = string
type_synonym u16 = "16 word"
type_synonym u32 = "32 word"
type_synonym u64 = "64 word"

named_theorems res \<open>inversion of results: what a nil error says about each step\<close>
named_theorems go_str \<open>rewriting with the Go string functions\<close>
named_theorems go_num \<open>decimal and big-endian number facts\<close>

section \<open>Results\<close>

text \<open>A Go function returning \<^verbatim>\<open>(T, error)\<close> is a sum: \<^const>\<open>Inl\<close> is the non-nil error.\<close>

abbreviation is_ok :: "'e + 'a \<Rightarrow> bool" where
  "is_ok r \<equiv> \<not> isl r"

lemma is_ok_iff: "is_ok r \<longleftrightarrow> (\<exists>v. r = Inr v)"
  by (cases r) auto

text \<open>
  \<open>bindR r f\<close> is \<^verbatim>\<open>x, err := r; if err != nil { return err }\<close> followed by \<open>f x\<close>;
  \<open>orErr o e\<close> is a comma-ok lookup whose miss returns \<open>e\<close>; \<open>wrapErr\<close> is
  \<^verbatim>\<open>fmt.Errorf("...: %w", err)\<close>.
\<close>

definition bindR :: "'e + 'a \<Rightarrow> ('a \<Rightarrow> 'e + 'b) \<Rightarrow> 'e + 'b" where
  "bindR r f = (case r of Inl e \<Rightarrow> Inl e | Inr x \<Rightarrow> f x)"

definition orErr :: "'a option \<Rightarrow> 'e \<Rightarrow> 'e + 'a" where
  "orErr r e = (case r of None \<Rightarrow> Inl e | Some x \<Rightarrow> Inr x)"

definition wrapErr :: "('e \<Rightarrow> 'f) \<Rightarrow> 'e + 'a \<Rightarrow> 'f + 'a" where
  "wrapErr g r = map_sum g (\<lambda>x. x) r"

lemma bindR_simps [simp]: "bindR (Inl e) f = Inl e" "bindR (Inr x) f = f x"
  by (simp_all add: bindR_def)

lemma orErr_simps [simp]: "orErr None e = Inl e" "orErr (Some x) e = Inr x"
  by (simp_all add: orErr_def)

lemma wrapErr_simps [simp]: "wrapErr g (Inl e) = Inl (g e)" "wrapErr g (Inr x) = Inr x"
  by (simp_all add: wrapErr_def)

lemma bindR_eq_Inr [res]: "bindR r f = Inr y \<longleftrightarrow> (\<exists>x. r = Inr x \<and> f x = Inr y)"
  by (cases r) auto

lemma bindR_eq_Inl: "bindR r f = Inl e \<longleftrightarrow> r = Inl e \<or> (\<exists>x. r = Inr x \<and> f x = Inl e)"
  by (cases r) auto

lemma orErr_eq_Inr [res]: "orErr r e = Inr x \<longleftrightarrow> r = Some x"
  by (cases r) auto

lemma wrapErr_eq_Inr [res]: "wrapErr g r = Inr x \<longleftrightarrow> r = Inr x"
  by (cases r) auto

lemma if_Inl_eq_Inr [res]:
  "(if b then Inl e else r) = Inr y \<longleftrightarrow> \<not> b \<and> r = Inr y"
  by auto

section \<open>Words and characters\<close>

lemma unat_u64_less: "unat (n :: u64) < 18446744073709551616"
  using unsigned_less [of n, where ?'a = nat] by simp

lemma unat_u32_less: "unat (n :: u32) < 4294967296"
  using unsigned_less [of n, where ?'a = nat] by simp

lemma unat_u16_less: "unat (n :: u16) < 65536"
  using unsigned_less [of n, where ?'a = nat] by simp

lemma of_char_lt_256: "(of_char c :: nat) < 256"
proof -
  have "(of_char (char_of (of_char c :: nat) :: char) :: nat) = of_char c mod 256"
    by (rule of_char_of)
  then show ?thesis by (simp add: mod_eq_self_iff_div_eq_0)
qed

abbreviation byte_val :: "char \<Rightarrow> nat" where
  "byte_val c \<equiv> of_char c"

definition is_digit :: "char \<Rightarrow> bool" where
  "is_digit c \<longleftrightarrow> 48 \<le> byte_val c \<and> byte_val c \<le> 57"

definition is_lower :: "char \<Rightarrow> bool" where
  "is_lower c \<longleftrightarrow> 97 \<le> byte_val c \<and> byte_val c \<le> 122"

definition is_upper :: "char \<Rightarrow> bool" where
  "is_upper c \<longleftrightarrow> 65 \<le> byte_val c \<and> byte_val c \<le> 90"

text \<open>\<^verbatim>\<open>strings.ToLower\<close> on ASCII bytes; the sources fold validated bus ids only.\<close>

definition lower_char :: "char \<Rightarrow> char" where
  "lower_char c = (if is_upper c then char_of (byte_val c + 32) else c)"

definition to_lower :: "string \<Rightarrow> string" where
  "to_lower s = map lower_char s"

text \<open>\<^verbatim>\<open>strings.EqualFold\<close> on ASCII bytes.\<close>

definition equal_fold :: "string \<Rightarrow> string \<Rightarrow> bool" where
  "equal_fold s t \<longleftrightarrow> to_lower s = to_lower t"

lemma lower_char_idem [simp]: "lower_char (lower_char c) = lower_char c"
  by (auto simp: lower_char_def is_upper_def)

lemma to_lower_idem [simp]: "to_lower (to_lower s) = to_lower s"
  by (simp add: to_lower_def comp_def)

lemma length_to_lower [simp]: "length (to_lower s) = length s"
  by (simp add: to_lower_def)

lemma equal_fold_refl [simp]: "equal_fold s s"
  by (simp add: equal_fold_def)

lemma equal_fold_sym: "equal_fold s t \<Longrightarrow> equal_fold t s"
  by (simp add: equal_fold_def)

section \<open>Searching and splitting\<close>

text \<open>
  \<^verbatim>\<open>strings.Index\<close> / \<^verbatim>\<open>IndexByte\<close> and \<^verbatim>\<open>strings.LastIndex\<close> with a one-byte
  separator; \<^const>\<open>None\<close> is Go's -1.
\<close>

fun index_of :: "char \<Rightarrow> string \<Rightarrow> nat option" where
  "index_of c [] = None"
| "index_of c (x # xs) = (if x = c then Some 0 else map_option Suc (index_of c xs))"

fun last_index_of :: "char \<Rightarrow> string \<Rightarrow> nat option" where
  "last_index_of c [] = None"
| "last_index_of c (x # xs) =
     (case last_index_of c xs of
        Some i \<Rightarrow> Some (Suc i)
      | None \<Rightarrow> if x = c then Some 0 else None)"

text \<open>\<^verbatim>\<open>strings.Split(s, sep)\<close> for a one-byte separator.\<close>

fun split_on :: "char \<Rightarrow> string \<Rightarrow> string list" where
  "split_on c [] = [[]]"
| "split_on c (x # xs) =
     (if x = c then [] # split_on c xs
      else (case split_on c xs of [] \<Rightarrow> [[x]] | p # ps \<Rightarrow> (x # p) # ps))"

text \<open>\<^verbatim>\<open>strings.HasPrefix\<close> and \<^verbatim>\<open>strings.TrimSuffix\<close>.\<close>

definition has_prefix :: "string \<Rightarrow> string \<Rightarrow> bool" where
  "has_prefix s p \<longleftrightarrow> take (length p) s = p"

definition trim_suffix :: "string \<Rightarrow> string \<Rightarrow> string" where
  "trim_suffix s p =
     (if length p \<le> length s \<and> drop (length s - length p) s = p
      then take (length s - length p) s else s)"

lemma index_of_None [go_str]: "index_of c s = None \<longleftrightarrow> c \<notin> set s"
  by (induction s) auto

lemma last_index_of_None [go_str]: "last_index_of c s = None \<longleftrightarrow> c \<notin> set s"
  by (induction s) (auto split: option.splits)

lemma index_of_append [go_str]: "c \<notin> set a \<Longrightarrow> index_of c (a @ c # b) = Some (length a)"
  by (induction a) auto

lemma last_index_of_append [go_str]:
  assumes "c \<notin> set b" shows "last_index_of c (a @ c # b) = Some (length a)"
proof (induction a)
  case Nil
  have "last_index_of c b = None" using assms by (simp add: last_index_of_None)
  then show ?case by simp
qed simp

lemma index_of_SomeD:
  "index_of c s = Some i \<Longrightarrow>
     i < length s \<and> s = take i s @ c # drop (Suc i) s \<and> c \<notin> set (take i s)"
  by (induction s arbitrary: i) (auto split: if_splits)

lemma last_index_of_SomeD:
  "last_index_of c s = Some i \<Longrightarrow>
     i < length s \<and> s = take i s @ c # drop (Suc i) s \<and> c \<notin> set (drop (Suc i) s)"
proof (induction s arbitrary: i)
  case (Cons x xs)
  show ?case
  proof (cases "last_index_of c xs")
    case None
    with Cons.prems show ?thesis by (auto simp: last_index_of_None split: if_splits)
  next
    case (Some j)
    with Cons.prems have "i = Suc j" by simp
    with Cons.IH [OF Some] show ?thesis by simp
  qed
qed simp

lemma split_on_neq_Nil [simp]: "split_on c s \<noteq> []"
  by (induction s) (auto split: list.splits)

lemma split_on_single [go_str]: "c \<notin> set s \<Longrightarrow> split_on c s = [s]"
  by (induction s) auto

lemma split_on_append [go_str]: "c \<notin> set a \<Longrightarrow> split_on c (a @ c # b) = a # split_on c b"
  by (induction a) auto

lemma split_on_no_sep: "p \<in> set (split_on c s) \<Longrightarrow> c \<notin> set p"
  by (induction s arbitrary: p) (auto split: if_splits list.splits)

lemma has_prefix_append [simp, go_str]: "has_prefix (p @ s) p"
  by (simp add: has_prefix_def)

lemma trim_suffix_append [simp, go_str]: "trim_suffix (s @ p) p = s"
  by (simp add: trim_suffix_def)

section \<open>Decimal numbers\<close>

text \<open>\<^verbatim>\<open>strconv.FormatUint(n, 10)\<close>, and the accumulation loop of \<^verbatim>\<open>strconv.ParseUint\<close>.\<close>

definition digit_char :: "nat \<Rightarrow> char" where
  "digit_char d = char_of (48 + d)"

fun show_nat :: "nat \<Rightarrow> string" where
  "show_nat n = (if n < 10 then [digit_char n] else show_nat (n div 10) @ [digit_char (n mod 10)])"

declare show_nat.simps [simp del]

definition FormatUint :: "u64 \<Rightarrow> string" where
  "FormatUint n = show_nat (unat n)"

definition digits_val :: "string \<Rightarrow> nat" where
  "digits_val s = foldl (\<lambda>n c. 10 * n + (byte_val c - 48)) 0 s"

datatype num_error = ErrSyntax | ErrRange

definition ParseUint :: "string \<Rightarrow> num_error + u64" where
  "ParseUint s =
     (if s = [] \<or> \<not> list_all is_digit s then Inl ErrSyntax
      else if 2 ^ 64 \<le> digits_val s then Inl ErrRange
      else Inr (word_of_nat (digits_val s)))"

lemma digit_char_props [go_num]:
  "d < 10 \<Longrightarrow> is_digit (digit_char d)"
  "d < 10 \<Longrightarrow> byte_val (digit_char d) - 48 = d"
  by (auto simp: digit_char_def is_digit_def)

lemma digit_char_eq_0 [go_num]: "d < 10 \<Longrightarrow> digit_char d = CHR ''0'' \<longleftrightarrow> d = 0"
proof -
  assume "d < 10"
  then have "byte_val (digit_char d) = 48 + d" by (simp add: digit_char_def)
  moreover have "byte_val (CHR ''0'') = 48" by simp
  ultimately show ?thesis by (metis add_cancel_right_right of_char_eq_iff)
qed

lemma digit_char_literals [simp]:
  "digit_char 0 = CHR ''0''"
  "digit_char (Suc 0) = CHR ''1''"
  "digit_char 2 = CHR ''2''"
  "digit_char 3 = CHR ''3''"
  "digit_char 4 = CHR ''4''"
  "digit_char 5 = CHR ''5''"
  "digit_char 6 = CHR ''6''"
  "digit_char 7 = CHR ''7''"
  "digit_char 8 = CHR ''8''"
  "digit_char 9 = CHR ''9''"
  by (simp_all add: digit_char_def char_of_eq_iff)

lemma show_nat_neq_Nil [simp]: "show_nat n \<noteq> []"
  by (subst show_nat.simps) simp

lemma show_nat_digits [go_num]: "list_all is_digit (show_nat n)"
proof (induction n rule: show_nat.induct)
  case (1 n)
  then show ?case
    by (subst show_nat.simps) (auto simp: go_num)
qed

lemma digits_val_snoc [go_num]: "digits_val (s @ [c]) = 10 * digits_val s + (byte_val c - 48)"
  by (simp add: digits_val_def)

lemma digits_val_show_nat [simp, go_num]: "digits_val (show_nat n) = n"
proof (induction n rule: show_nat.induct)
  case (1 n)
  show ?case
  proof (cases "n < 10")
    case True
    then show ?thesis by (subst show_nat.simps) (simp add: digits_val_def go_num)
  next
    case False
    with 1 show ?thesis by (subst show_nat.simps) (simp add: go_num)
  qed
qed

lemma show_nat_hd_zero: "hd (show_nat n) = CHR ''0'' \<Longrightarrow> n = 0"
proof (induction n rule: show_nat.induct)
  case (1 n)
  show ?case
  proof (cases "n < 10")
    case True
    with "1.prems" show ?thesis by (subst (asm) show_nat.simps) (simp add: go_num)
  next
    case False
    with "1.prems" have "hd (show_nat (n div 10)) = CHR ''0''"
      by (subst (asm) show_nat.simps) simp
    with 1 False have "n div 10 = 0" by blast
    with False show ?thesis by simp
  qed
qed

lemma length_show_nat: "0 < k \<Longrightarrow> n < 10 ^ k \<Longrightarrow> length (show_nat n) \<le> k"
proof (induction n arbitrary: k rule: show_nat.induct)
  case (1 n)
  show ?case
  proof (cases "n < 10")
    case True
    with 1 show ?thesis by (subst show_nat.simps) simp
  next
    case False
    then obtain k' where k: "k = Suc k'" "0 < k'"
      using 1 by (cases k; cases "k - 1") auto
    with False 1 have "length (show_nat (n div 10)) \<le> k'" by auto
    with False k show ?thesis by (subst show_nat.simps) simp
  qed
qed

lemma digits_val_lt: "list_all is_digit s \<Longrightarrow> digits_val s < 10 ^ length s"
proof (induction s rule: rev_induct)
  case (snoc c s)
  then have "byte_val c - 48 < 10" by (auto simp: is_digit_def)
  with snoc show ?case by (simp add: go_num)
qed (simp add: digits_val_def)

lemma byte_val_eq_48: "byte_val c = 48 \<longleftrightarrow> c = CHR ''0''"
proof -
  have "byte_val (CHR ''0'') = 48" by simp
  then show ?thesis by (metis of_char_eq_iff)
qed

lemma digits_val_Cons_ge:
  assumes "list_all is_digit (c # s)" "c \<noteq> CHR ''0''"
  shows "10 ^ length s \<le> digits_val (c # s)"
  using assms
proof (induction s rule: rev_induct)
  case Nil
  then have "byte_val c \<noteq> 48" by (simp add: byte_val_eq_48)
  with Nil show ?case by (auto simp: digits_val_def is_digit_def)
next
  case (snoc d s)
  then have "10 ^ length s \<le> digits_val (c # s)" by simp
  then show ?case using digits_val_snoc [of "c # s" d] by simp
qed

lemma digit_char_val: "is_digit c \<Longrightarrow> digit_char (byte_val c - 48) = c"
  by (auto simp: digit_char_def is_digit_def)

text \<open>A canonical spelling (digits only, no leading zero) is the one the printer writes.\<close>

lemma show_nat_digits_val:
  assumes "list_all is_digit s" "s \<noteq> []" "length s = 1 \<or> hd s \<noteq> CHR ''0''"
  shows "show_nat (digits_val s) = s"
  using assms
proof (induction s rule: rev_induct)
  case (snoc c s)
  have c: "byte_val c - 48 < 10" using snoc.prems by (auto simp: is_digit_def)
  show ?case
  proof (cases "s = []")
    case True
    with snoc.prems c show ?thesis
      by (subst show_nat.simps) (simp add: digits_val_def digit_char_val)
  next
    case False
    then obtain a t where s: "s = a # t" by (cases s) auto
    with snoc.prems have a: "a \<noteq> CHR ''0''" by auto
    have "1 \<le> digits_val s"
      using digits_val_Cons_ge [of a t] snoc.prems a s
      by (auto intro: order_trans [of _ "10 ^ length t"])
    moreover have "show_nat (digits_val s) = s"
      using snoc s a by auto
    ultimately show ?thesis
      using c snoc.prems
      by (subst show_nat.simps) (simp add: go_num digit_char_val)
  qed
qed simp

lemma show_nat_inj [simp]: "show_nat m = show_nat n \<longleftrightarrow> m = n"
  by (metis digits_val_show_nat)

lemma length_FormatUint: "length (FormatUint n) \<le> 20"
proof -
  have "unat n < 10 ^ 20" using unat_u64_less [of n] by simp
  then show ?thesis unfolding FormatUint_def by (rule length_show_nat [rotated]) simp
qed

lemma FormatUint_inj [simp]: "FormatUint m = FormatUint n \<longleftrightarrow> m = n"
  by (simp add: FormatUint_def word_unat_eq_iff)

lemma FormatUint_neq_Nil [simp]: "FormatUint n \<noteq> []"
  by (simp add: FormatUint_def)

lemma FormatUint_digits [go_num]: "list_all is_digit (FormatUint n)"
  by (simp add: FormatUint_def show_nat_digits)

lemma FormatUint_no_char: "\<not> is_digit c \<Longrightarrow> c \<notin> set (FormatUint n)"
  using FormatUint_digits [of n] by (auto simp: list_all_iff)

lemma FormatUint_hd_zero: "hd (FormatUint n) = CHR ''0'' \<Longrightarrow> n = 0"
  unfolding FormatUint_def by (drule show_nat_hd_zero) (simp add: unat_eq_zero)

lemma ParseUint_FormatUint [simp, go_num]: "ParseUint (FormatUint n) = Inr n"
  using unat_u64_less [of n] show_nat_digits [of "unat n"]
  by (simp add: ParseUint_def FormatUint_def)

lemma ParseUint_canonical:
  assumes "ParseUint s = Inr n" "length s = 1 \<or> hd s \<noteq> CHR ''0''"
  shows "s = FormatUint n"
proof -
  have s: "s \<noteq> []" "list_all is_digit s" "digits_val s < 2 ^ 64" "n = word_of_nat (digits_val s)"
    using assms(1) by (auto simp: ParseUint_def split: if_splits)
  then have "unat n = digits_val s" by (simp add: unat_of_nat)
  with s assms(2) show ?thesis
    by (simp add: FormatUint_def show_nat_digits_val)
qed

section \<open>Big-endian integers\<close>

text \<open>
  \<^verbatim>\<open>binary.BigEndian.PutUintN\<close> and \<^verbatim>\<open>binary.BigEndian.UintN\<close> at \<open>k\<close> bytes, on the
  natural value of the word.
\<close>

fun be_put :: "nat \<Rightarrow> nat \<Rightarrow> bytes" where
  "be_put 0 n = []"
| "be_put (Suc k) n = be_put k (n div 256) @ [char_of (n mod 256)]"

definition be_get :: "bytes \<Rightarrow> nat" where
  "be_get b = foldl (\<lambda>n c. 256 * n + byte_val c) 0 b"

definition PutUint16 :: "u16 \<Rightarrow> bytes" where
  "PutUint16 w = be_put 2 (unat w)"

definition PutUint32 :: "u32 \<Rightarrow> bytes" where
  "PutUint32 w = be_put 4 (unat w)"

definition PutUint64 :: "u64 \<Rightarrow> bytes" where
  "PutUint64 w = be_put 8 (unat w)"

definition Uint16 :: "bytes \<Rightarrow> u16" where
  "Uint16 b = word_of_nat (be_get b)"

definition Uint32 :: "bytes \<Rightarrow> u32" where
  "Uint32 b = word_of_nat (be_get b)"

definition Uint64 :: "bytes \<Rightarrow> u64" where
  "Uint64 b = word_of_nat (be_get b)"

lemma length_be_put [simp]: "length (be_put k n) = k"
  by (induction k arbitrary: n) auto

lemma be_get_snoc [simp]: "be_get (b @ [c]) = 256 * be_get b + byte_val c"
  by (simp add: be_get_def)

lemma be_get_be_put [simp, go_num]: "n < 256 ^ k \<Longrightarrow> be_get (be_put k n) = n"
proof (induction k arbitrary: n)
  case 0
  then show ?case by (simp add: be_get_def)
next
  case (Suc k)
  then have "n div 256 < 256 ^ k" by (simp add: less_mult_imp_div_less mult.commute)
  with Suc.IH show ?case by simp
qed

lemma be_put_inj: "m < 256 ^ k \<Longrightarrow> n < 256 ^ k \<Longrightarrow> be_put k m = be_put k n \<longleftrightarrow> m = n"
  by (metis be_get_be_put)

lemma be_get_lt: "be_get b < 256 ^ length b"
proof (induction b rule: rev_induct)
  case (snoc c b)
  have "byte_val c < 256" by (rule of_char_lt_256)
  with snoc have "256 * be_get b + byte_val c < 256 * 256 ^ length b" by linarith
  then show ?case by simp
qed (simp add: be_get_def)

lemma be_put_be_get [simp, go_num]: "be_put (length b) (be_get b) = b"
proof (induction b rule: rev_induct)
  case (snoc c b)
  have "byte_val c < 256" by (rule of_char_lt_256)
  then show ?case using snoc by simp
qed simp

lemma length_PutUint [simp]:
  "length (PutUint16 a) = 2" "length (PutUint32 b) = 4" "length (PutUint64 c) = 8"
  by (simp_all add: PutUint16_def PutUint32_def PutUint64_def)

lemma PutUint_neq_Nil [simp]: "PutUint16 a \<noteq> []" "PutUint32 b \<noteq> []" "PutUint64 c \<noteq> []"
  using length_PutUint by (metis length_0_conv zero_neq_numeral)+

lemma Uint_PutUint [simp]:
  "Uint16 (PutUint16 a) = a" "Uint32 (PutUint32 b) = b" "Uint64 (PutUint64 c) = c"
  using unat_u16_less [of a] unat_u32_less [of b] unat_u64_less [of c]
  by (simp_all add: PutUint16_def Uint16_def PutUint32_def Uint32_def PutUint64_def Uint64_def)

lemma PutUint_inj [simp]:
  "PutUint16 a = PutUint16 a' \<longleftrightarrow> a = a'"
  "PutUint32 b = PutUint32 b' \<longleftrightarrow> b = b'"
  "PutUint64 c = PutUint64 c' \<longleftrightarrow> c = c'"
  by (metis Uint_PutUint)+

lemma PutUint_Uint:
  "length b = 2 \<Longrightarrow> PutUint16 (Uint16 b) = b"
  "length b = 4 \<Longrightarrow> PutUint32 (Uint32 b) = b"
  "length b = 8 \<Longrightarrow> PutUint64 (Uint64 b) = b"
  using be_get_lt [of b] be_put_be_get [of b]
  by (simp_all add: PutUint16_def Uint16_def PutUint32_def Uint32_def PutUint64_def Uint64_def
      unat_of_nat)

end
