(* ===== verification/Ids.thy ===== *)
theory Ids
  imports Prelude
begin

text \<open>
  The identifiers of \<^verbatim>\<open>internal/ids\<close>: bus ids (\<^verbatim>\<open>busid.go\<close>), fully-qualified agent
  ids \<open><bus>.<name>-<n>\<close> (\<^verbatim>\<open>agentid.go\<close>), message ids \<open><bus>-<seq>\<close>
  (\<^verbatim>\<open>messageid.go\<close>) and the message sequence allocator (\<^verbatim>\<open>sequence.go\<close>).
  The error strings are the constructors of \<open>ids_error\<close>; every return of the
  source is one branch.
\<close>

section \<open>Errors and constants\<close>

datatype ids_error =
    BusIDEmpty | BusIDPattern
  | NameEmpty | NameOversized | NamePattern
  | SuffixZero
  | AgentIDOversized | NoBusSeparator | NoSuffixSeparator
  | SpellingEmpty | SpellingNotDigit | SpellingLeadingZero
  | NumberInvalid num_error
  | MessageIDOversized | NoSequenceSeparator | SequenceZero

definition agentIDSep :: char where
  "agentIDSep = CHR ''.''"

definition agentSuffixSep :: char where
  "agentSuffixSep = CHR ''-''"

definition messageIDSep :: char where
  "messageIDSep = CHR ''-''"

definition maxAgentNameLen :: nat where
  "maxAgentNameLen = 64"

definition MaxAgentIDLen :: nat where
  "MaxAgentIDLen = 64 + 1 + maxAgentNameLen + 1 + 20"

definition MaxMessageIDLen :: nat where
  "MaxMessageIDLen = 64 + 1 + 20"

section \<open>Bus ids and agent names\<close>

text \<open>\<^verbatim>\<open>BusIDPattern\<close> is \<open>^[A-Za-z0-9_-]{1,64}$\<close>.\<close>

definition bus_id_char :: "char \<Rightarrow> bool" where
  "bus_id_char c \<longleftrightarrow> is_upper c \<or> is_lower c \<or> is_digit c \<or> c = CHR ''_'' \<or> c = CHR ''-''"

definition bus_id_matches :: "string \<Rightarrow> bool" where
  "bus_id_matches s \<longleftrightarrow> 1 \<le> length s \<and> length s \<le> 64 \<and> list_all bus_id_char s"

definition ValidateBusID :: "string \<Rightarrow> ids_error + unit" where
  "ValidateBusID aid =
     (if aid = [] then Inl BusIDEmpty
      else if \<not> bus_id_matches aid then Inl BusIDPattern
      else Inr ())"

text \<open>\<^verbatim>\<open>AgentNamePattern\<close> is \<open>^[a-z0-9][a-z0-9_-]{0,63}$\<close>.\<close>

definition name_head_char :: "char \<Rightarrow> bool" where
  "name_head_char c \<longleftrightarrow> is_lower c \<or> is_digit c"

definition name_tail_char :: "char \<Rightarrow> bool" where
  "name_tail_char c \<longleftrightarrow> is_lower c \<or> is_digit c \<or> c = CHR ''_'' \<or> c = CHR ''-''"

fun agent_name_matches :: "string \<Rightarrow> bool" where
  "agent_name_matches [] = False"
| "agent_name_matches (c # cs) =
     (name_head_char c \<and> length cs \<le> 63 \<and> list_all name_tail_char cs)"

definition ValidateAgentName :: "string \<Rightarrow> ids_error + unit" where
  "ValidateAgentName name =
     (if name = [] then Inl NameEmpty
      else if maxAgentNameLen < length name then Inl NameOversized
      else if \<not> agent_name_matches name then Inl NamePattern
      else Inr ())"

section \<open>Agent ids\<close>

definition AgentID :: "string \<Rightarrow> string \<Rightarrow> u64 \<Rightarrow> ids_error + string" where
  "AgentID busID name n =
     bindR (ValidateBusID busID) (\<lambda>_.
     bindR (ValidateAgentName name) (\<lambda>_.
     if n = 0 then Inl SuffixZero
     else Inr (busID @ [agentIDSep] @ name @ [agentSuffixSep] @ FormatUint n)))"

text \<open>\<^verbatim>\<open>strings.TrimLeft(s, "0")\<close>.\<close>

definition trim_left_zeros :: "string \<Rightarrow> string" where
  "trim_left_zeros s = dropWhile (\<lambda>c. c = CHR ''0'') s"

text \<open>
  The digit loop stops at the first byte outside \<open>0..9\<close>; an all-zero spelling is let
  through on purpose, so that the caller's zero check reports it.
\<close>

definition validateSuffixSpelling :: "string \<Rightarrow> ids_error + unit" where
  "validateSuffixSpelling suffixPart =
     (if suffixPart = [] then Inl SpellingEmpty
      else if \<not> list_all is_digit suffixPart then Inl SpellingNotDigit
      else if 1 < length suffixPart \<and> hd suffixPart = CHR ''0''
           then (if trim_left_zeros suffixPart = [] then Inr () else Inl SpellingLeadingZero)
      else Inr ())"

definition ParseAgentID :: "string \<Rightarrow> ids_error + (string \<times> string \<times> u64)" where
  "ParseAgentID aid =
     (if MaxAgentIDLen < length aid then Inl AgentIDOversized else
      bindR (orErr (index_of agentIDSep aid) NoBusSeparator) (\<lambda>i.
      let busPart = take i aid; rest = drop (i + 1) aid in
      bindR (ValidateBusID busPart) (\<lambda>_.
      bindR (orErr (last_index_of agentSuffixSep rest) NoSuffixSeparator) (\<lambda>j.
      let namePart = take j rest; suffixPart = drop (j + 1) rest in
      bindR (ValidateAgentName namePart) (\<lambda>_.
      bindR (validateSuffixSpelling suffixPart) (\<lambda>_.
      bindR (wrapErr NumberInvalid (ParseUint suffixPart)) (\<lambda>n.
      if n = 0 then Inl SuffixZero
      else Inr (busPart, namePart, n))))))))"

section \<open>Message ids\<close>

definition MessageID :: "string \<Rightarrow> u64 \<Rightarrow> ids_error + string" where
  "MessageID busID seq =
     bindR (ValidateBusID busID) (\<lambda>_.
     if seq = 0 then Inl SequenceZero
     else Inr (busID @ [messageIDSep] @ FormatUint seq))"

definition validateSeqSpelling :: "string \<Rightarrow> ids_error + unit" where
  "validateSeqSpelling seqPart =
     (if seqPart = [] then Inl SpellingEmpty
      else if \<not> list_all is_digit seqPart then Inl SpellingNotDigit
      else if 1 < length seqPart \<and> hd seqPart = CHR ''0''
           then (if trim_left_zeros seqPart = [] then Inr () else Inl SpellingLeadingZero)
      else Inr ())"

definition ParseMessageID :: "string \<Rightarrow> ids_error + (string \<times> u64)" where
  "ParseMessageID mid =
     (if MaxMessageIDLen < length mid then Inl MessageIDOversized else
      bindR (orErr (last_index_of messageIDSep mid) NoSequenceSeparator) (\<lambda>i.
      let busID = take i mid; seqPart = drop (i + 1) mid in
      bindR (ValidateBusID busID) (\<lambda>_.
      bindR (validateSeqSpelling seqPart) (\<lambda>_.
      bindR (wrapErr NumberInvalid (ParseUint seqPart)) (\<lambda>seq.
      if seq = 0 then Inl SequenceZero
      else Inr (busID, seq))))))"

section \<open>Facts about the validators\<close>

lemma ValidateBusID_ok [res]: "ValidateBusID s = Inr u \<longleftrightarrow> bus_id_matches s"
  by (auto simp: ValidateBusID_def bus_id_matches_def)

lemma ValidateAgentName_ok [res]: "ValidateAgentName s = Inr u \<longleftrightarrow> agent_name_matches s"
  by (cases s) (auto simp: ValidateAgentName_def maxAgentNameLen_def)

lemma sep_not_bus_id_char: "bus_id_matches s \<Longrightarrow> agentIDSep \<notin> set s"
  by (auto simp: bus_id_matches_def list_all_iff bus_id_char_def agentIDSep_def is_upper_def
      is_lower_def is_digit_def)

lemma sep_not_name_char: "agent_name_matches s \<Longrightarrow> agentIDSep \<notin> set s"
  by (cases s) (auto simp: list_all_iff name_head_char_def name_tail_char_def agentIDSep_def
      is_lower_def is_digit_def)

lemma seps_not_digit [simp]: "\<not> is_digit agentIDSep" "\<not> is_digit agentSuffixSep" "\<not> is_digit messageIDSep"
  by (simp_all add: is_digit_def agentIDSep_def agentSuffixSep_def messageIDSep_def)

lemma length_bus_id: "bus_id_matches s \<Longrightarrow> length s \<le> 64"
  by (simp add: bus_id_matches_def)

lemma length_agent_name: "agent_name_matches s \<Longrightarrow> length s \<le> 64"
  by (cases s) auto

lemma trim_left_zeros_Nil: "trim_left_zeros s = [] \<longleftrightarrow> (\<forall>c\<in>set s. c = CHR ''0'')"
  by (auto simp: trim_left_zeros_def dropWhile_eq_Nil_conv)

lemma digits_val_zeros: "(\<forall>c\<in>set s. c = CHR ''0'') \<Longrightarrow> digits_val s = 0"
  by (induction s rule: rev_induct) (auto simp: digits_val_def)

text \<open>
  What the two spelling checks and the zero check amount to: the accepted spelling is
  exactly the printer's.
\<close>

lemma validateSuffixSpelling_Format [simp]: "n \<noteq> 0 \<Longrightarrow> validateSuffixSpelling (FormatUint n) = Inr ()"
  using FormatUint_digits [of n] FormatUint_hd_zero [of n]
  by (auto simp: validateSuffixSpelling_def)

lemma validateSeqSpelling_eq: "validateSeqSpelling s = validateSuffixSpelling s"
  by (simp add: validateSeqSpelling_def validateSuffixSpelling_def)

lemma spelling_canonical:
  assumes "validateSuffixSpelling s = Inr ()" "ParseUint s = Inr n" "n \<noteq> 0"
  shows "s = FormatUint n"
proof (cases "1 < length s \<and> hd s = CHR ''0''")
  case True
  with assms(1) have "trim_left_zeros s = []"
    by (auto simp: validateSuffixSpelling_def split: if_splits)
  then have "digits_val s = 0" by (simp add: trim_left_zeros_Nil digits_val_zeros)
  with assms(2,3) show ?thesis by (auto simp: ParseUint_def split: if_splits)
next
  case False
  moreover have "s \<noteq> []" using assms(1) by (auto simp: validateSuffixSpelling_def)
  ultimately have "length s = 1 \<or> hd s \<noteq> CHR ''0''" by (cases s) auto
  with assms(2) show ?thesis by (rule ParseUint_canonical)
qed

section \<open>Round trips of the identifiers\<close>

lemma AgentID_ok_iff:
  "AgentID b s n = Inr aid \<longleftrightarrow>
     bus_id_matches b \<and> agent_name_matches s \<and> n \<noteq> 0 \<and>
     aid = b @ [agentIDSep] @ s @ [agentSuffixSep] @ FormatUint n"
  by (auto simp: AgentID_def res)

lemma MessageID_ok_iff:
  "MessageID b n = Inr aid \<longleftrightarrow>
     bus_id_matches b \<and> n \<noteq> 0 \<and> aid = b @ [messageIDSep] @ FormatUint n"
  by (auto simp: MessageID_def res)

lemma length_AgentID:
  assumes "AgentID b s n = Inr aid" shows "length aid \<le> MaxAgentIDLen"
  using assms length_FormatUint [of n] length_bus_id [of b] length_agent_name [of s]
  by (auto simp: AgentID_ok_iff MaxAgentIDLen_def maxAgentNameLen_def)

lemma length_MessageID:
  assumes "MessageID b n = Inr aid" shows "length aid \<le> MaxMessageIDLen"
  using assms length_FormatUint [of n] length_bus_id [of b]
  by (auto simp: MessageID_ok_iff MaxMessageIDLen_def)

lemma parse_of_AgentID:
  assumes "AgentID b s n = Inr aid"
  shows "ParseAgentID aid = Inr (b, s, n)"
proof -
  from assms have ok: "bus_id_matches b" "agent_name_matches s" "n \<noteq> 0"
    and aid: "aid = b @ agentIDSep # s @ agentSuffixSep # FormatUint n"
    by (auto simp: AgentID_ok_iff)
  have i: "index_of agentIDSep aid = Some (length b)"
    using sep_not_bus_id_char [OF ok(1)] by (simp add: aid index_of_append)
  have j: "last_index_of agentSuffixSep (s @ agentSuffixSep # FormatUint n) = Some (length s)"
    using FormatUint_no_char [OF seps_not_digit(2)] by (rule last_index_of_append)
  have v: "ValidateBusID b = Inr ()" "ValidateAgentName s = Inr ()"
    using ok by (simp_all add: res)
  show ?thesis
    using length_AgentID [OF assms] i j v ok(3)
    by (simp add: ParseAgentID_def aid)
qed

lemma AgentID_of_parse:
  assumes "ParseAgentID aid = Inr (b, s, n)"
  shows "AgentID b s n = Inr aid"
proof -
  from assms obtain i where i: "index_of agentIDSep aid = Some i"
    by (auto simp: ParseAgentID_def res)
  let ?rest = "drop (i + 1) aid"
  from assms i obtain j where j: "last_index_of agentSuffixSep ?rest = Some j"
    by (auto simp: ParseAgentID_def Let_def res)
  let ?suf = "drop (j + 1) ?rest"
  from assms i j have p: "b = take i aid" "s = take j ?rest" "ValidateBusID b = Inr ()"
    "ValidateAgentName s = Inr ()" "validateSuffixSpelling ?suf = Inr ()"
    "ParseUint ?suf = Inr n" "n \<noteq> 0"
    by (auto simp: ParseAgentID_def Let_def res)
  have "?suf = FormatUint n" using p(5-7) by (rule spelling_canonical)
  moreover have "aid = b @ agentIDSep # ?rest"
    using index_of_SomeD [OF i] p(1) by simp
  moreover have "?rest = s @ agentSuffixSep # ?suf"
    using last_index_of_SomeD [OF j] p(2) by simp
  ultimately have "aid = b @ [agentIDSep] @ s @ [agentSuffixSep] @ FormatUint n" by simp
  with p(3,4,7) show ?thesis by (simp add: AgentID_ok_iff res)
qed

lemma parse_of_MessageID:
  assumes "MessageID b n = Inr aid"
  shows "ParseMessageID aid = Inr (b, n)"
proof -
  from assms have ok: "bus_id_matches b" "n \<noteq> 0"
    and aid: "aid = b @ messageIDSep # FormatUint n"
    by (auto simp: MessageID_ok_iff)
  have i: "last_index_of messageIDSep aid = Some (length b)"
    unfolding aid using FormatUint_no_char [OF seps_not_digit(3)] by (rule last_index_of_append)
  have v: "ValidateBusID b = Inr ()" using ok by (simp_all add: res)
  show ?thesis
    using length_MessageID [OF assms] i v ok(2)
    by (simp add: ParseMessageID_def aid validateSeqSpelling_eq)
qed

lemma MessageID_of_parse:
  assumes "ParseMessageID aid = Inr (b, n)"
  shows "MessageID b n = Inr aid"
proof -
  from assms obtain i where i: "last_index_of messageIDSep aid = Some i"
    by (auto simp: ParseMessageID_def res)
  let ?suf = "drop (i + 1) aid"
  from assms i have p: "b = take i aid" "ValidateBusID b = Inr ()"
    "validateSuffixSpelling ?suf = Inr ()" "ParseUint ?suf = Inr n" "n \<noteq> 0"
    by (auto simp: ParseMessageID_def Let_def validateSeqSpelling_eq res)
  have "?suf = FormatUint n" using p(3-5) by (rule spelling_canonical)
  moreover have "aid = b @ messageIDSep # ?suf"
    using last_index_of_SomeD [OF i] p(1) by simp
  ultimately have "aid = b @ [messageIDSep] @ FormatUint n" by simp
  with p(2,5) show ?thesis by (simp add: MessageID_ok_iff res)
qed

lemma ParseAgentID_iff: "ParseAgentID aid = Inr (b, s, n) \<longleftrightarrow> AgentID b s n = Inr aid"
  using parse_of_AgentID AgentID_of_parse by blast

lemma ParseMessageID_iff: "ParseMessageID aid = Inr (b, n) \<longleftrightarrow> MessageID b n = Inr aid"
  using parse_of_MessageID MessageID_of_parse by blast

section \<open>Properties\<close>

text \<open>
  Agent ids have one spelling: a string parses to bus id \<open>b\<close>, name \<open>s\<close> and suffix
  \<open>n\<close> exactly when it is what the formatter writes for them, so parsing inverts
  formatting, no second string names the same agent, and every id fits the length bound.
\<close>

theorem agent_id_one_spelling:
  "(ParseAgentID aid = Inr (b, s, n) \<longleftrightarrow> AgentID b s n = Inr aid) \<and>
   \<not> (AgentID b s n = Inr aid \<and> MaxAgentIDLen < length aid)"
  using ParseAgentID_iff length_AgentID by (meson not_le)

text \<open>
  Message ids have one spelling: parsing accepts exactly the strings the formatter
  writes, recovers the bus id and the sequence number, and stays within the length bound.
\<close>

theorem message_id_one_spelling:
  "(ParseMessageID mid = Inr (b, n) \<longleftrightarrow> MessageID b n = Inr mid) \<and>
   \<not> (MessageID b n = Inr mid \<and> MaxMessageIDLen < length mid)"
  using ParseMessageID_iff length_MessageID by (meson not_le)

end
