(* ===== verification/Machine.thy ===== *)
theory Machine
  imports Prelude
begin

text \<open>
  Sequential machines and the contract of a never-reusing allocator.

  Every stateful component of the bus runs its operations under one mutex, so a
  concurrent history is a list of operations: \<open>run\<close> folds a step function over it and
  collects what the steps put out.  The locale \<open>allocator\<close> is the interface shared by
  the components that hand out numbers (message sequences, agent-name suffixes, record
  indices): what one step promises about its floor, and, proved once, what follows for
  every history.
\<close>

fun run :: "('s \<Rightarrow> 'x \<Rightarrow> 'o list \<times> 's) \<Rightarrow> 's \<Rightarrow> 'x list \<Rightarrow> 'o list \<times> 's" where
  "run step s [] = ([], s)"
| "run step s (x # xs) =
     (let (ys, s') = step s x; (zs, t) = run step s' xs in (ys @ zs, t))"

lemma fst_run_Cons:
  "fst (run step s (x # xs)) = fst (step s x) @ fst (run step (snd (step s x)) xs)"
  by (simp add: case_prod_beta Let_def)

lemma snd_run_Cons: "snd (run step s (x # xs)) = snd (run step (snd (step s x)) xs)"
  by (simp add: case_prod_beta Let_def)

lemmas run_Cons = fst_run_Cons snd_run_Cons

lemma run_append:
  "fst (run step s (xs @ ys)) = fst (run step s xs) @ fst (run step (snd (run step s xs)) ys)"
  "snd (run step s (xs @ ys)) = snd (run step (snd (run step s xs)) ys)"
  by (induction xs arbitrary: s) (simp_all add: run_Cons del: run.simps(2))

text \<open>A step relation whose invariant every step keeps.\<close>

locale invariant_machine =
  fixes step :: "'s \<Rightarrow> 'x \<Rightarrow> 'o list \<times> 's"
    and inv :: "'s \<Rightarrow> bool"
  assumes inv_step: "inv s \<Longrightarrow> inv (snd (step s x))"
begin

lemma inv_run: "inv s \<Longrightarrow> inv (snd (run step s xs))"
  by (induction xs arbitrary: s) (simp_all add: snd_run_Cons inv_step del: run.simps(2))

end

text \<open>
  An allocator: \<open>floor\<close> is the highest number burned, \<open>issued\<close> picks the numbers out
  of a step's outputs.  A step never lowers the floor, and whatever it issues lies
  strictly above the old floor and at or below the new one, in increasing order.
\<close>

locale allocator = invariant_machine step inv
  for step :: "'s \<Rightarrow> 'x \<Rightarrow> 'o list \<times> 's" and inv :: "'s \<Rightarrow> bool" +
  fixes floor :: "'s \<Rightarrow> 'n::linorder"
    and issued :: "'o \<Rightarrow> 'n option"
  assumes floor_step: "inv s \<Longrightarrow> floor s \<le> floor (snd (step s x))"
    and issued_sorted: "inv s \<Longrightarrow> sorted_wrt (<) (List.map_filter issued (fst (step s x)))"
    and issued_above:
      "inv s \<Longrightarrow> n \<in> set (List.map_filter issued (fst (step s x))) \<Longrightarrow>
         floor s < n \<and> n \<le> floor (snd (step s x))"
begin

lemma floor_run: "inv s \<Longrightarrow> floor s \<le> floor (snd (run step s xs))"
proof (induction xs arbitrary: s)
  case (Cons x xs)
  then show ?case
    using floor_step [of s x] Cons.IH [OF inv_step, of s x]
    by (simp add: snd_run_Cons del: run.simps(2))
qed simp

lemma run_issued_above:
  "inv s \<Longrightarrow> n \<in> set (List.map_filter issued (fst (run step s xs))) \<Longrightarrow>
     floor s < n \<and> n \<le> floor (snd (run step s xs))"
proof (induction xs arbitrary: s)
  case Nil
  then show ?case by (simp add: map_filter_simps)
next
  case (Cons x xs)
  let ?s = "snd (step s x)"
  have i: "inv ?s" using Cons.prems(1) by (rule inv_step)
  consider "n \<in> set (List.map_filter issued (fst (step s x)))"
    | "n \<in> set (List.map_filter issued (fst (run step ?s xs)))"
    using Cons.prems(2) by (auto simp: fst_run_Cons map_filter_def simp del: run.simps(2))
  then show ?case
  proof cases
    case 1
    then show ?thesis
      using issued_above [OF Cons.prems(1)] floor_run [OF i, of xs]
      by (fastforce simp: snd_run_Cons simp del: run.simps(2))
  next
    case 2
    then show ?thesis
      using Cons.IH [OF i] floor_step [OF Cons.prems(1), of x]
      by (fastforce simp: snd_run_Cons simp del: run.simps(2))
  qed
qed

lemma run_issued_sorted: "inv s \<Longrightarrow> sorted_wrt (<) (List.map_filter issued (fst (run step s xs)))"
proof (induction xs arbitrary: s)
  case Nil
  then show ?case by (simp add: map_filter_simps)
next
  case (Cons x xs)
  let ?s = "snd (step s x)"
  have i: "inv ?s" using Cons.prems(1) by (rule inv_step)
  have "\<forall>m\<in>set (List.map_filter issued (fst (step s x))).
        \<forall>n\<in>set (List.map_filter issued (fst (run step ?s xs))). m < n"
    using issued_above [OF Cons.prems(1)] run_issued_above [OF i] by fastforce
  then show ?case
    using issued_sorted [OF Cons.prems(1)] Cons.IH [OF i]
    by (simp add: fst_run_Cons map_filter_def sorted_wrt_append del: run.simps(2))
qed

lemma run_issued_distinct: "inv s \<Longrightarrow> distinct (List.map_filter issued (fst (run step s xs)))"
  using run_issued_sorted strict_sorted_iff by blast

end

text \<open>The common case: a step issues at most one number.\<close>

lemma allocator_single:
  fixes step :: "'s \<Rightarrow> 'x \<Rightarrow> 'o list \<times> 's" and inv :: "'s \<Rightarrow> bool"
    and floor :: "'s \<Rightarrow> 'n::linorder" and issued :: "'o \<Rightarrow> 'n option"
  assumes inv: "\<And>s x. inv s \<Longrightarrow> inv (snd (step s x))"
    and floor: "\<And>s x. inv s \<Longrightarrow> floor s \<le> floor (snd (step s x))"
    and single: "\<And>s x. inv s \<Longrightarrow> List.map_filter issued (fst (step s x)) = [] \<or>
      (\<exists>n. List.map_filter issued (fst (step s x)) = [n] \<and> floor s < n \<and> n \<le> floor (snd (step s x)))"
  shows "allocator step inv floor issued"
proof unfold_locales
  fix s x n
  assume i: "inv s"
  show "inv (snd (step s x))" "floor s \<le> floor (snd (step s x))"
    using i by (rule inv, rule floor)
  show "sorted_wrt (<) (List.map_filter issued (fst (step s x)))"
    using single [OF i, of x] by auto
  show "floor s < n \<and> n \<le> floor (snd (step s x))"
    if "n \<in> set (List.map_filter issued (fst (step s x)))"
    using that single [OF i, of x] by auto
qed

end
