(* ===== verification/Sequence.thy ===== *)
theory Sequence
  imports Machine
begin

text \<open>
  The message sequence allocator of \<^verbatim>\<open>internal/ids/sequence.go\<close>: a floor that is
  assembled by \<open>RaiseFloor\<close>, closed by \<open>Seal\<close> and only then spent by \<open>Next\<close>.
  Every operation runs under the allocator's mutex, so it is one step on the state;
  a returned error leaves the state it was given.
\<close>

section \<open>State and operations\<close>

datatype seq_error = ErrFloorUnproven | ErrSequenceExhausted | ErrFloorSealed | ErrFloorBelowIssued

record seq_state =
  seq_floor :: u64
  seq_last :: u64
  seq_sealed :: bool

definition maxUint64 :: u64 where
  "maxUint64 = - 1"

definition NewSequence :: seq_state where
  "NewSequence = \<lparr>seq_floor = 0, seq_last = 0, seq_sealed = False\<rparr>"

definition Resume :: "u64 \<Rightarrow> seq_state" where
  "Resume highestOnDisk = \<lparr>seq_floor = highestOnDisk, seq_last = 0, seq_sealed = False\<rparr>"

definition Seal :: "seq_state \<Rightarrow> (seq_error + unit) \<times> seq_state" where
  "Seal s = (if seq_sealed s then (Inl ErrFloorSealed, s)
             else (Inr (), s\<lparr>seq_sealed := True\<rparr>))"

definition Next :: "seq_state \<Rightarrow> (seq_error + u64) \<times> seq_state" where
  "Next s =
     (if \<not> seq_sealed s then (Inl ErrFloorUnproven, s)
      else if seq_floor s = maxUint64 then (Inl ErrSequenceExhausted, s)
      else let f = seq_floor s + 1 in (Inr f, s\<lparr>seq_floor := f, seq_last := f\<rparr>))"

definition Peek :: "seq_state \<Rightarrow> u64" where
  "Peek s = (if \<not> seq_sealed s then 0
             else if seq_floor s = maxUint64 then 0
             else seq_floor s + 1)"

definition Last :: "seq_state \<Rightarrow> u64" where
  "Last s = seq_last s"

definition RaiseFloor :: "seq_state \<Rightarrow> u64 \<Rightarrow> (seq_error + unit) \<times> seq_state" where
  "RaiseFloor s wanted =
     (if seq_sealed s then (Inl ErrFloorSealed, s)
      else if seq_last s \<noteq> 0 \<and> wanted \<le> seq_last s then (Inl ErrFloorBelowIssued, s)
      else if seq_floor s < wanted then (Inr (), s\<lparr>seq_floor := wanted\<rparr>)
      else (Inr (), s))"

section \<open>Runs of the allocator\<close>

text \<open>
  Callers interleave the four operations in any order; the mutex makes the interleaving a
  list.  \<open>seq_run\<close> collects the numbers the successful \<open>Next\<close> calls hand out.
\<close>

datatype seq_op = DoSeal | DoNext | DoPeek | DoRaise u64

fun seq_step :: "seq_state \<Rightarrow> seq_op \<Rightarrow> u64 list \<times> seq_state" where
  "seq_step s DoSeal = ([], snd (Seal s))"
| "seq_step s DoNext = (case Next s of (Inr n, s') \<Rightarrow> ([n], s') | (Inl _, s') \<Rightarrow> ([], s'))"
| "seq_step s DoPeek = ([], s)"
| "seq_step s (DoRaise n) = ([], snd (RaiseFloor s n))"

abbreviation seq_run :: "seq_state \<Rightarrow> seq_op list \<Rightarrow> u64 list \<times> seq_state" where
  "seq_run \<equiv> run seq_step"

definition seq_inv :: "seq_state \<Rightarrow> bool" where
  "seq_inv s \<longleftrightarrow> (seq_last s \<noteq> 0 \<longrightarrow> seq_sealed s) \<and> seq_last s \<le> seq_floor s"

section \<open>Word facts\<close>

lemma u64_less_Suc: "(f :: u64) \<noteq> maxUint64 \<Longrightarrow> f < f + 1"
  by (simp add: maxUint64_def inc_less_eq_self_iff_eq flip: not_le)

lemma u64_Suc_neq_0: "(f :: u64) \<noteq> maxUint64 \<Longrightarrow> f + 1 \<noteq> 0"
  by (metis u64_less_Suc not_less word_zero_le)

section \<open>The sealing discipline\<close>

lemma seq_inv_init [simp]: "seq_inv NewSequence" "seq_inv (Resume h)"
  by (simp_all add: seq_inv_def NewSequence_def Resume_def)

lemma seq_step_inv: "seq_inv s \<Longrightarrow> seq_inv (snd (seq_step s x))"
  by (cases x)
    (auto simp: seq_inv_def Seal_def Next_def RaiseFloor_def Let_def)

lemma seq_step_sealed: "seq_sealed s \<Longrightarrow> seq_sealed (snd (seq_step s x))"
  by (cases x) (auto simp: Seal_def Next_def RaiseFloor_def Let_def)

lemma seq_step_floor_mono: "seq_floor s \<le> seq_floor (snd (seq_step s x))"
  by (cases x)
    (auto simp: Seal_def Next_def RaiseFloor_def Let_def less_imp_le u64_less_Suc)

text \<open>A step issues at most one number: strictly above the old floor, and it becomes the floor.\<close>

lemma seq_step_issued:
  "fst (seq_step s x) = [] \<or>
   (\<exists>n. fst (seq_step s x) = [n] \<and> seq_floor s < n \<and> seq_floor (snd (seq_step s x)) = n)"
  by (cases x) (auto simp: Next_def Let_def u64_less_Suc)

lemma map_filter_Some [simp]: "List.map_filter Some xs = xs"
  by (induction xs) (simp_all add: map_filter_simps)

interpretation seqalloc: allocator seq_step seq_inv seq_floor Some
  by (rule allocator_single)
    (use seq_step_inv seq_step_floor_mono seq_step_issued in \<open>auto, metis order_refl\<close>)

text \<open>
  Floor assembly is order-insensitive while unsealed: the floor is the maximum of the
  claims, whatever order they arrive in.
\<close>

definition raise_all :: "seq_state \<Rightarrow> u64 list \<Rightarrow> seq_state" where
  "raise_all s ns = snd (seq_run s (map DoRaise ns))"

lemma raise_unsealed:
  assumes "\<not> seq_sealed s" "seq_last s = 0"
  shows "RaiseFloor s n = (Inr (), s\<lparr>seq_floor := max (seq_floor s) n\<rparr>)"
  using assms by (auto simp: RaiseFloor_def max_def)

lemma raise_all_fresh:
  "raise_all \<lparr>seq_floor = f, seq_last = 0, seq_sealed = False\<rparr> ns =
     \<lparr>seq_floor = fold max ns f, seq_last = 0, seq_sealed = False\<rparr>"
  by (induction ns arbitrary: f)
    (simp_all add: raise_all_def snd_run_Cons raise_unsealed max.commute del: run.simps(2))

section \<open>Properties\<close>

text \<open>
  Message sequences are never reused: over any history of operations on an allocator
  resumed above \<open>h\<close>, the numbers handed out are strictly increasing and all above \<open>h\<close>.
\<close>

theorem sequence_never_reused:
  "sorted_wrt (<) (h # fst (seq_run (Resume h) ops))"
proof -
  have "seq_floor (Resume h) = h" by (simp add: Resume_def)
  then show ?thesis
    using seqalloc.run_issued_sorted [of "Resume h" ops] seqalloc.run_issued_above [of "Resume h" _ ops]
    by simp
qed

text \<open>
  The refusal \<open>ErrFloorBelowIssued\<close> of \<open>RaiseFloor\<close> is defence in depth: no history of
  operations of an allocator built by \<open>NewSequence\<close> or \<open>Resume\<close> makes it fire, because
  issuing a number requires the seal and the seal is checked first.
\<close>

theorem floor_below_issued_unreachable:
  "fst (RaiseFloor (snd (seq_run (Resume h) ops)) n) \<noteq> Inl ErrFloorBelowIssued \<and>
   fst (RaiseFloor (snd (seq_run NewSequence ops)) n) \<noteq> Inl ErrFloorBelowIssued"
proof -
  have "fst (RaiseFloor s n) \<noteq> Inl ErrFloorBelowIssued" if "seq_inv s" for s
    using that by (auto simp: RaiseFloor_def seq_inv_def)
  then show ?thesis using seqalloc.inv_run by simp
qed

text \<open>
  Floor assembly is insensitive to the order and repetition of the claims: after any
  list of claims the floor of an unsealed allocator is the largest of them and of the
  floor it resumed from, nothing counts as issued and the seal is still open.
\<close>

theorem floor_assembly:
  "raise_all (Resume h) ns = (Resume h)\<lparr>seq_floor := Max (insert h (set ns))\<rparr>"
proof -
  have "fold max ns h = Max (insert h (set ns))"
    by (metis Max.set_eq_fold list.set(2))
  then show ?thesis by (simp add: Resume_def raise_all_fresh)
qed

end
