(* ===== verification/GoCrypto.thy ===== *)
theory GoCrypto
  imports Prelude
begin

text \<open>
  The parts of Go's standard library the durable formats rest on, as executable
  functions: \<^verbatim>\<open>crypto/sha256\<close>, \<^verbatim>\<open>crypto/hmac\<close> over it, \<^verbatim>\<open>hash/crc32\<close> with the
  Castagnoli polynomial and \<^verbatim>\<open>encoding/hex\<close>.  The theorems about the formats use only
  that a digest has 32 bytes, that a checksum is a 32-bit word and that hex decodes what
  it encoded; nothing is assumed about collisions.
\<close>

unbundle bit_operations_syntax

section \<open>SHA-256\<close>

definition rotr32 :: "nat \<Rightarrow> u32 \<Rightarrow> u32" where
  "rotr32 n w = drop_bit n w OR push_bit (32 - n) w"

text \<open>
  The constants are the first 32 bits of the fractional parts of the cube roots of the
  first 64 primes, and of the square roots of the first 8; \<open>iroot k b n\<close> is the integer
  \<open>k\<close>-th root of \<open>n\<close>, built bit by bit from bit \<open>b\<close> down.
\<close>

fun root_bits :: "nat \<Rightarrow> nat \<Rightarrow> nat \<Rightarrow> nat \<Rightarrow> nat" where
  "root_bits k n 0 r = r"
| "root_bits k n (Suc b) r = (if (r + 2 ^ b) ^ k \<le> n then root_bits k n b (r + 2 ^ b) else root_bits k n b r)"

definition iroot :: "nat \<Rightarrow> nat \<Rightarrow> nat \<Rightarrow> nat" where
  "iroot k b n = root_bits k n b 0"

definition sha_primes :: "nat list" where
  "sha_primes = filter (\<lambda>n. \<not> list_ex (\<lambda>d. n mod d = 0) [2..<n]) [2..<312]"

definition sha_k :: "u32 list" where
  "sha_k = map (\<lambda>p. word_of_nat (iroot 3 36 (p * 2 ^ 96))) sha_primes"

definition sha_h0 :: "u32 list" where
  "sha_h0 = map (\<lambda>p. word_of_nat (iroot 2 36 (p * 2 ^ 64))) [2, 3, 5, 7, 11, 13, 17, 19]"

definition sha_pad :: "bytes \<Rightarrow> bytes" where
  "sha_pad m =
     m @ [char_of (128::nat)] @
     replicate ((119 - length m mod 64) mod 64) (char_of (0::nat)) @
     be_put 8 (8 * length m)"

text \<open>\<open>chunks_of fuel n\<close> cuts a list into pieces of \<open>n\<close>; the length of the list is fuel enough.\<close>

fun chunks_of :: "nat \<Rightarrow> nat \<Rightarrow> 'a list \<Rightarrow> 'a list list" where
  "chunks_of 0 n xs = []"
| "chunks_of (Suc k) n xs = (if xs = [] then [] else take n xs # chunks_of k n (drop n xs))"

fun sha_extend :: "nat \<Rightarrow> u32 list \<Rightarrow> u32 list" where
  "sha_extend 0 w = w"
| "sha_extend (Suc k) w =
     (let a = w ! (length w - 15); b = w ! (length w - 2);
          s0 = rotr32 7 a XOR rotr32 18 a XOR drop_bit 3 a;
          s1 = rotr32 17 b XOR rotr32 19 b XOR drop_bit 10 b
      in sha_extend k (w @ [w ! (length w - 16) + s0 + w ! (length w - 7) + s1]))"

fun sha_round :: "u32 \<times> u32 \<Rightarrow> u32 list \<Rightarrow> u32 list" where
  "sha_round (k, w) [a, b, c, d, e, f, g, h] =
     (let t1 = h + (rotr32 6 e XOR rotr32 11 e XOR rotr32 25 e) +
               ((e AND f) XOR (NOT e AND g)) + k + w;
          t2 = (rotr32 2 a XOR rotr32 13 a XOR rotr32 22 a) +
               ((a AND b) XOR (a AND c) XOR (b AND c))
      in [t1 + t2, a, b, c, d + t1, e, f, g])"
| "sha_round _ st = st"

definition sha_compress :: "u32 list \<Rightarrow> bytes \<Rightarrow> u32 list" where
  "sha_compress st blk =
     (let w = sha_extend 48 (map Uint32 (chunks_of 16 4 blk))
      in map2 (+) st (fold sha_round (zip sha_k w) st))"

definition sha256 :: "bytes \<Rightarrow> bytes" where
  "sha256 m =
     concat (map PutUint32
       (foldl sha_compress sha_h0 (chunks_of (length (sha_pad m)) 64 (sha_pad m))))"

lemma length_sha_round [simp]: "length (sha_round kw st) = length st"
  by (cases kw) (induction kw st rule: sha_round.induct, simp_all add: Let_def)

lemma length_fold_sha_round [simp]: "length (fold sha_round ks st) = length st"
  by (induction ks arbitrary: st) simp_all

lemma length_sha_compress [simp]: "length (sha_compress st blk) = length st"
  by (simp add: sha_compress_def Let_def)

lemma length_foldl_compress [simp]: "length (foldl sha_compress st bs) = length st"
  by (induction bs arbitrary: st) simp_all

lemma length_concat_PutUint32: "length (concat (map PutUint32 ws)) = 4 * length ws"
  by (induction ws) simp_all

lemma length_sha256 [simp]: "length (sha256 m) = 32"
  by (simp add: sha256_def length_concat_PutUint32 sha_h0_def)

section \<open>HMAC-SHA256\<close>

definition xor_byte :: "nat \<Rightarrow> char \<Rightarrow> char" where
  "xor_byte n c = char_of (n XOR byte_val c)"

definition hmac_key :: "bytes \<Rightarrow> bytes" where
  "hmac_key k =
     (let k' = (if 64 < length k then sha256 k else k)
      in k' @ replicate (64 - length k') (char_of (0::nat)))"

definition hmac_sha256 :: "bytes \<Rightarrow> bytes \<Rightarrow> bytes" where
  "hmac_sha256 k m =
     sha256 (map (xor_byte 92) (hmac_key k) @ sha256 (map (xor_byte 54) (hmac_key k) @ m))"

lemma length_hmac_sha256 [simp]: "length (hmac_sha256 k m) = 32"
  by (simp add: hmac_sha256_def)

section \<open>CRC-32C\<close>

definition crc_bit :: "u32 \<Rightarrow> u32" where
  "crc_bit c = (if bit c 0 then drop_bit 1 c XOR 0x82F63B78 else drop_bit 1 c)"

definition crc_byte :: "u32 \<Rightarrow> char \<Rightarrow> u32" where
  "crc_byte c b = (crc_bit ^^ 8) (c XOR word_of_nat (byte_val b))"

text \<open>\<^verbatim>\<open>crc32.Update(crc, castagnoli, p)\<close> and \<^verbatim>\<open>crc32.Checksum(p, castagnoli)\<close>.\<close>

definition crc32_update :: "u32 \<Rightarrow> bytes \<Rightarrow> u32" where
  "crc32_update crc p = NOT (foldl crc_byte (NOT crc) p)"

definition crc32_checksum :: "bytes \<Rightarrow> u32" where
  "crc32_checksum p = crc32_update 0 p"

lemma crc32_update_append: "crc32_update (crc32_update c p) q = crc32_update c (p @ q)"
  by (simp add: crc32_update_def)

section \<open>Hexadecimal\<close>

definition hex_digit :: "nat \<Rightarrow> char" where
  "hex_digit n = (if n < 10 then char_of (48 + n) else char_of (87 + n))"

definition hex_encode :: "bytes \<Rightarrow> string" where
  "hex_encode b = concat (map (\<lambda>c. [hex_digit (byte_val c div 16), hex_digit (byte_val c mod 16)]) b)"

definition unhex :: "char \<Rightarrow> nat option" where
  "unhex c =
     (let v = byte_val c in
      if 48 \<le> v \<and> v \<le> 57 then Some (v - 48)
      else if 97 \<le> v \<and> v \<le> 102 then Some (v - 87)
      else if 65 \<le> v \<and> v \<le> 70 then Some (v - 55)
      else None)"

fun hex_decode :: "string \<Rightarrow> bytes option" where
  "hex_decode [] = Some []"
| "hex_decode [c] = None"
| "hex_decode (a # b # cs) =
     (case (unhex a, unhex b, hex_decode cs) of
        (Some x, Some y, Some r) \<Rightarrow> Some (char_of (16 * x + y) # r)
      | _ \<Rightarrow> None)"

lemma unhex_hex_digit [simp]: "n < 16 \<Longrightarrow> unhex (hex_digit n) = Some n"
  by (auto simp: unhex_def hex_digit_def Let_def)

lemma hex_decode_encode [simp]: "hex_decode (hex_encode b) = Some b"
proof (induction b)
  case (Cons c b)
  have "byte_val c div 16 < 16"
    using of_char_lt_256 [of c] by (simp add: less_mult_imp_div_less)
  moreover have "16 * (byte_val c div 16) + byte_val c mod 16 = byte_val c" by simp
  ultimately show ?case using Cons by (simp add: hex_encode_def)
qed (simp add: hex_encode_def)

lemma length_hex_encode [simp]: "length (hex_encode b) = 2 * length b"
  by (induction b) (simp_all add: hex_encode_def)

lemma hex_digit_ge_48: "n < 16 \<Longrightarrow> 48 \<le> byte_val (hex_digit n)"
  by (simp add: hex_digit_def)

lemma hex_encode_ge_48: "c \<in> set (hex_encode b) \<Longrightarrow> 48 \<le> byte_val c"
proof -
  have "byte_val c div 16 < 16" for c
    using of_char_lt_256 [of c] by (simp add: less_mult_imp_div_less)
  then show "c \<in> set (hex_encode b) \<Longrightarrow> 48 \<le> byte_val c"
    using hex_digit_ge_48 by (auto simp: hex_encode_def)
qed

lemma hex_encode_no_space: "CHR '' '' \<notin> set (hex_encode b)"
  using hex_encode_ge_48 by force

lemma hex_encode_no_newline: "CHR 0x0A \<notin> set (hex_encode b)"
  using hex_encode_ge_48 by force

end
