(* ===== verification/AtomicFile.thy ===== *)
theory AtomicFile
  imports Prelude
begin

text \<open>
  Replacing a small file atomically (\<^verbatim>\<open>internal/ids/atomicfile.go\<close> and the copy of it in
  \<^verbatim>\<open>internal/wal/indexfloor.go\<close>): write a temporary, fsync it, rename it over the target
  and fsync the directory.  It can fail before the rename (the old file stays) or after
  it (the new file is in place but a crash may still revert it), so a disk is the list of
  contents a crash may leave, \<^const>\<open>None\<close> being no file.
\<close>

datatype write_outcome = WriteOk | WriteFailedBeforeRename | WriteFailedAfterRename

definition atomicWriteFile ::
  "write_outcome \<Rightarrow> bytes option list \<Rightarrow> bytes \<Rightarrow> bool \<times> bytes option list" where
  "atomicWriteFile io disk data =
     (case io of
        WriteOk \<Rightarrow> (True, [Some data])
      | WriteFailedBeforeRename \<Rightarrow> (False, disk)
      | WriteFailedAfterRename \<Rightarrow> (False, Some data # disk))"

definition atomicReplaceFile ::
  "write_outcome \<Rightarrow> bytes option list \<Rightarrow> bytes \<Rightarrow> bool \<times> bytes option list" where
  "atomicReplaceFile io disk data =
     (case io of
        WriteOk \<Rightarrow> (True, [Some data])
      | WriteFailedBeforeRename \<Rightarrow> (False, disk)
      | WriteFailedAfterRename \<Rightarrow> (False, Some data # disk))"

text \<open>
  The interface both clients rely on: a write that reports success leaves exactly the new
  content, and any write leaves only the old candidates and the new content.
\<close>

locale atomic_file =
  fixes replace :: "write_outcome \<Rightarrow> bytes option list \<Rightarrow> bytes \<Rightarrow> bool \<times> bytes option list"
  assumes replace_ok: "replace io disk data = (True, disk') \<Longrightarrow> disk' = [Some data]"
    and replace_sub: "set (snd (replace io disk data)) \<subseteq> insert (Some data) (set disk)"
    and replace_ne: "disk \<noteq> [] \<Longrightarrow> snd (replace io disk data) \<noteq> []"
begin

text \<open>
  Any property of all candidates that the new content also has is kept; if the write
  succeeds, a property of the new content alone holds of all candidates.
\<close>

lemma replace_all:
  assumes "\<forall>f\<in>set disk. P f" "P (Some data)"
  shows "\<forall>f\<in>set (snd (replace io disk data)). P f"
  using assms replace_sub by blast

lemma replace_all_ok:
  assumes "fst (replace io disk data)" "P (Some data)"
  shows "\<forall>f\<in>set (snd (replace io disk data)). P f"
  using assms replace_ok [of io disk data "snd (replace io disk data)"] by (cases "replace io disk data") auto

end

interpretation ids_file: atomic_file atomicWriteFile
  by unfold_locales (auto simp: atomicWriteFile_def split: write_outcome.splits)

interpretation wal_file: atomic_file atomicReplaceFile
  by unfold_locales (auto simp: atomicReplaceFile_def split: write_outcome.splits)

end
