(* ===== verification/SuffixStore.thy ===== *)
theory SuffixStore
  imports Ids Machine Sequence GoCrypto AtomicFile "HOL-Library.AList"
begin

text \<open>
  Agent-name suffixes: the in-memory allocator \<^verbatim>\<open>NameSuffixes\<close> and the minter
  \<^verbatim>\<open>AgentIDMinter\<close> (\<^verbatim>\<open>internal/ids/agentmint.go\<close>), and the durable allocator
  \<^verbatim>\<open>DurableNameSuffixes\<close> with its checksummed floors file
  (\<^verbatim>\<open>internal/ids/suffixstore.go\<close>, \<^verbatim>\<open>atomicfile.go\<close>).

  A Go \<^verbatim>\<open>map[string]uint64\<close> is an association list with distinct keys read by \<open>get0\<close>
  (a missing key reads 0).  File I/O can fail: the outcome of each
  \<^verbatim>\<open>atomicWriteFile\<close> is an argument of the operation, and \<open>dn_disk\<close> holds every file
  content a crash may leave behind.
\<close>

section \<open>Maps with a zero default\<close>

type_synonym 'v smap = "(string \<times> 'v) list"

definition get0 :: "u64 smap \<Rightarrow> string \<Rightarrow> u64" where
  "get0 m k = (case map_of m k of None \<Rightarrow> 0 | Some v \<Rightarrow> v)"

lemma get0_update [simp]: "get0 (AList.update k v m) j = (if j = k then v else get0 m j)"
  by (simp add: get0_def update_conv)

lemma update_absent: "map_of m k = None \<Longrightarrow> AList.update k v m = m @ [(k, v)]"
  by (induction m) (auto split: if_splits)

lemma update_absent_gen: "map_of m k = None \<Longrightarrow> AList.update k v m = m @ [(k, v)]"
  by (induction m) (auto split: if_splits)

lemma get0_Nil [simp]: "get0 [] k = 0"
  by (simp add: get0_def)

section \<open>NameSuffixes\<close>

datatype suffix_error =
    SuffixFloorUnproven | SuffixExhausted | SuffixFloorSealed | SuffixFloorBelowIssued
  | SuffixBadName ids_error | SuffixFileCorrupt | SuffixWriteFailed | SuffixInternal
  | SuffixNilAllocator

record name_suffixes =
  ns_floor :: "u64 smap"
  ns_last :: "u64 smap"
  ns_sealed :: bool

definition NewNameSuffixes :: name_suffixes where
  "NewNameSuffixes = \<lparr>ns_floor = [], ns_last = [], ns_sealed = True\<rparr>"

definition ResumeNameSuffixes :: "u64 smap \<Rightarrow> name_suffixes" where
  "ResumeNameSuffixes highestOnDisk = \<lparr>ns_floor = highestOnDisk, ns_last = [], ns_sealed = False\<rparr>"

definition ns_Seal :: "name_suffixes \<Rightarrow> (suffix_error + unit) \<times> name_suffixes" where
  "ns_Seal s = (if ns_sealed s then (Inl SuffixFloorSealed, s)
                else (Inr (), s\<lparr>ns_sealed := True\<rparr>))"

definition nextLocked :: "name_suffixes \<Rightarrow> string \<Rightarrow> bool \<Rightarrow> (suffix_error + u64) \<times> name_suffixes" where
  "nextLocked s name commit =
     (if \<not> ns_sealed s then (Inl SuffixFloorUnproven, s)
      else let f = get0 (ns_floor s) name in
      if f = maxUint64 then (Inl SuffixExhausted, s)
      else if \<not> commit then (Inr (f + 1), s)
      else (Inr (f + 1), s\<lparr>ns_floor := AList.update name (f + 1) (ns_floor s),
                           ns_last := AList.update name (f + 1) (ns_last s)\<rparr>))"

definition ns_NextSuffix :: "name_suffixes \<Rightarrow> string \<Rightarrow> (suffix_error + u64) \<times> name_suffixes" where
  "ns_NextSuffix s name = nextLocked s name True"

definition peekNext :: "name_suffixes \<Rightarrow> string \<Rightarrow> suffix_error + u64" where
  "peekNext s name = fst (nextLocked s name False)"

definition ns_LastSuffix :: "name_suffixes \<Rightarrow> string \<Rightarrow> u64" where
  "ns_LastSuffix s name = get0 (ns_last s) name"

definition ns_RaiseFloor :: "name_suffixes \<Rightarrow> string \<Rightarrow> u64 \<Rightarrow> (suffix_error + unit) \<times> name_suffixes" where
  "ns_RaiseFloor s name wanted =
     (if ns_sealed s then (Inl SuffixFloorSealed, s)
      else if get0 (ns_last s) name \<noteq> 0 \<and> wanted \<le> get0 (ns_last s) name
        then (Inl SuffixFloorBelowIssued, s)
      else if get0 (ns_floor s) name < wanted
        then (Inr (), s\<lparr>ns_floor := AList.update name wanted (ns_floor s)\<rparr>)
      else (Inr (), s))"

section \<open>AgentIDMinter\<close>

text \<open>
  The minter is parametric in its \<^verbatim>\<open>SuffixAllocator\<close>; an \<open>ids_error\<close> of the name or of
  the id's own validation is wrapped.
\<close>

definition NewAgentIDMinter :: "string \<Rightarrow> 'alloc option \<Rightarrow> suffix_error + (string \<times> 'alloc)" where
  "NewAgentIDMinter busID alloc =
     bindR (wrapErr SuffixBadName (ValidateBusID busID)) (\<lambda>_.
     bindR (orErr alloc SuffixNilAllocator) (\<lambda>a. Inr (busID, a)))"

definition Mint ::
  "string \<Rightarrow> ('s \<Rightarrow> string \<Rightarrow> (suffix_error + u64) \<times> 's) \<Rightarrow> 's \<Rightarrow> string \<Rightarrow>
     (suffix_error + string) \<times> 's" where
  "Mint busID nextSuffix s requestedName =
     (case ValidateAgentName requestedName of
        Inl e \<Rightarrow> (Inl (SuffixBadName e), s)
      | Inr _ \<Rightarrow>
     (case nextSuffix s requestedName of
        (Inl e, s') \<Rightarrow> (Inl e, s')
      | (Inr n, s') \<Rightarrow>
        (bindR (wrapErr SuffixBadName (AgentID busID requestedName n)) (\<lambda>aid.
         bindR (wrapErr SuffixBadName (ParseAgentID aid)) (\<lambda>(gotBus, gotName, gotN).
         if gotBus \<noteq> busID \<or> gotName \<noteq> requestedName \<or> gotN \<noteq> n then Inl SuffixInternal
         else Inr aid)), s')))"

section \<open>The floors file\<close>

definition suffixFileMagic :: string where
  "suffixFileMagic = ''agent-bus-agent-suffixes''"

definition suffixFileVersion :: nat where
  "suffixFileVersion = 3"

definition suffixBlockSize :: u64 where
  "suffixBlockSize = 64"

definition NL :: char where
  "NL = CHR 0x0A"

definition SP :: char where
  "SP = CHR 0x20"

definition suffix_line :: "u64 smap \<Rightarrow> string \<Rightarrow> string" where
  "suffix_line floors name = name @ [SP] @ FormatUint (get0 floors name)"

definition encodeSuffixFile :: "u64 smap \<Rightarrow> suffix_error + bytes" where
  "encodeSuffixFile floors =
     (let names = sort (map fst (filter (\<lambda>(nm, n). n \<noteq> 0) floors));
          body = concat (map (\<lambda>nm. suffix_line floors nm @ [NL]) names)
      in if \<not> list_all (\<lambda>nm. ValidateAgentName nm = Inr ()) names then Inl SuffixFileCorrupt
         else Inr (suffixFileMagic @ '' v'' @ show_nat suffixFileVersion @ '' sha256='' @
                   hex_encode (sha256 body) @ [NL] @ body))"

definition parseSuffixEntry :: "string \<Rightarrow> suffix_error + (string \<times> u64)" where
  "parseSuffixEntry line =
     bindR (orErr (index_of SP line) SuffixFileCorrupt) (\<lambda>i.
     let name = take i line; numPart = drop (i + 1) line in
     bindR (wrapErr SuffixBadName (ValidateAgentName name)) (\<lambda>_.
     if numPart = [] then Inl SuffixFileCorrupt
     else if \<not> list_all is_digit numPart then Inl SuffixFileCorrupt
     else if 1 < length numPart \<and> hd numPart = CHR ''0'' then Inl SuffixFileCorrupt
     else bindR (wrapErr (\<lambda>_. SuffixFileCorrupt) (ParseUint numPart)) (\<lambda>n.
     if n = 0 then Inl SuffixFileCorrupt else Inr (name, n))))"

fun readSuffixEntries :: "bool \<Rightarrow> string list \<Rightarrow> u64 smap \<Rightarrow> suffix_error + u64 smap" where
  "readSuffixEntries bodyEmpty [] floors = Inr floors"
| "readSuffixEntries bodyEmpty (line # rest) floors =
     (if line = [] then (if floors = [] \<and> bodyEmpty then Inr floors else Inl SuffixFileCorrupt)
      else bindR (wrapErr (\<lambda>_. SuffixFileCorrupt) (parseSuffixEntry line)) (\<lambda>(name, n).
        if map_of floors name \<noteq> None then Inl SuffixFileCorrupt
        else readSuffixEntries bodyEmpty rest (AList.update name n floors)))"

text \<open>\<open>data = None\<close> is a missing file, which is legal: no floors yet.\<close>

definition readSuffixFile :: "bytes option \<Rightarrow> suffix_error + (u64 smap \<times> bool)" where
  "readSuffixFile file =
     (case file of
        None \<Rightarrow> Inr ([], False)
      | Some data \<Rightarrow>
        bindR (orErr (index_of NL data) SuffixFileCorrupt) (\<lambda>nl.
        let header = take nl data; body = drop (nl + 1) data; fields = split_on SP header in
        if length fields \<noteq> 3 \<or> fields ! 0 \<noteq> suffixFileMagic then Inl SuffixFileCorrupt
        else if fields ! 1 \<noteq> ''v'' @ show_nat suffixFileVersion then Inl SuffixFileCorrupt
        else if \<not> has_prefix (fields ! 2) ''sha256='' then Inl SuffixFileCorrupt
        else bindR (orErr (hex_decode (drop 7 (fields ! 2))) SuffixFileCorrupt) (\<lambda>want.
        if length want \<noteq> 32 then Inl SuffixFileCorrupt
        else if sha256 body \<noteq> want then Inl SuffixFileCorrupt
        else bindR (readSuffixEntries (body = []) (split_on NL (trim_suffix body [NL])) [])
          (\<lambda>floors. Inr (floors, True)))))"

section \<open>DurableNameSuffixes\<close>

record durable_suffixes =
  dn_mem :: name_suffixes
  dn_durable :: "u64 smap"
  dn_existed :: bool
  dn_disk :: "bytes option list"

definition OpenNameSuffixes :: "bytes option \<Rightarrow> suffix_error + durable_suffixes" where
  "OpenNameSuffixes file =
     bindR (readSuffixFile file) (\<lambda>(floors, existed).
     Inr \<lparr>dn_mem = ResumeNameSuffixes floors, dn_durable = floors, dn_existed = existed,
          dn_disk = [file]\<rparr>)"

definition dn_Floors :: "durable_suffixes \<Rightarrow> u64 smap" where
  "dn_Floors d = dn_durable d"

definition writeFloors ::
  "write_outcome \<Rightarrow> durable_suffixes \<Rightarrow> u64 smap \<Rightarrow> (suffix_error + unit) \<times> durable_suffixes" where
  "writeFloors io d floors =
     (case encodeSuffixFile floors of
        Inl e \<Rightarrow> (Inl e, d)
      | Inr data \<Rightarrow>
        (case atomicWriteFile io (dn_disk d) data of
           (ok, disk) \<Rightarrow> (if ok then Inr () else Inl SuffixWriteFailed, d\<lparr>dn_disk := disk\<rparr>)))"

definition dn_RaiseFloor ::
  "durable_suffixes \<Rightarrow> string \<Rightarrow> u64 \<Rightarrow> (suffix_error + unit) \<times> durable_suffixes" where
  "dn_RaiseFloor d name wanted =
     (case ValidateAgentName name of
        Inl e \<Rightarrow> (Inl (SuffixBadName e), d)
      | Inr _ \<Rightarrow> (case ns_RaiseFloor (dn_mem d) name wanted of
                    (r, m) \<Rightarrow> (r, d\<lparr>dn_mem := m\<rparr>)))"

definition dn_Seal :: "write_outcome \<Rightarrow> durable_suffixes \<Rightarrow> (suffix_error + unit) \<times> durable_suffixes" where
  "dn_Seal io d =
     (let merged = ns_floor (dn_mem d) in
      if ns_sealed (dn_mem d) then
        (case ns_Seal (dn_mem d) of (r, m) \<Rightarrow> (r, d\<lparr>dn_mem := m\<rparr>))
      else case writeFloors io d merged of
        (Inl e, d1) \<Rightarrow> (Inl e, d1)
      | (Inr _, d1) \<Rightarrow>
        (case ns_Seal (dn_mem d1) of
           (Inl e, m) \<Rightarrow> (Inl e, d1\<lparr>dn_mem := m\<rparr>)
         | (Inr _, m) \<Rightarrow> (Inr (), d1\<lparr>dn_mem := m, dn_durable := merged\<rparr>)))"

text \<open>The block reserved on disk ahead of the suffix, saturating at the top of the range.\<close>

definition reserve_high :: "u64 \<Rightarrow> u64" where
  "reserve_high n = (let high = n + suffixBlockSize - 1 in if high < n then maxUint64 else high)"

definition dn_NextSuffix ::
  "write_outcome \<Rightarrow> durable_suffixes \<Rightarrow> string \<Rightarrow> (suffix_error + u64) \<times> durable_suffixes" where
  "dn_NextSuffix io d name =
     (case ValidateAgentName name of
        Inl e \<Rightarrow> (Inl (SuffixBadName e), d)
      | Inr _ \<Rightarrow>
     (case peekNext (dn_mem d) name of
        Inl e \<Rightarrow> (Inl e, d)
      | Inr n \<Rightarrow>
     (case (if get0 (dn_durable d) name < n
            then let durable' = AList.update name (reserve_high n) (dn_durable d) in
                 (case writeFloors io d durable' of
                    (Inl e, d1) \<Rightarrow> (Inl e, d1)
                  | (Inr _, d1) \<Rightarrow> (Inr (), d1\<lparr>dn_durable := durable'\<rparr>))
            else (Inr (), d)) of
        (Inl e, d1) \<Rightarrow> (Inl e, d1)
      | (Inr _, d1) \<Rightarrow>
     (case ns_NextSuffix (dn_mem d1) name of
        (Inl e, m) \<Rightarrow> (Inl e, d1\<lparr>dn_mem := m\<rparr>)
      | (Inr got, m) \<Rightarrow>
        (let d2 = d1\<lparr>dn_mem := m\<rparr> in
         if got \<noteq> n then (Inl SuffixInternal, d2)
         else if get0 (dn_durable d2) name < got then (Inl SuffixInternal, d2)
         else (Inr n, d2))))))"

definition dn_LastSuffix :: "durable_suffixes \<Rightarrow> string \<Rightarrow> u64" where
  "dn_LastSuffix d name = ns_LastSuffix (dn_mem d) name"

section \<open>The floors file reads back\<close>

lemma split_lines:
  assumes "\<forall>l\<in>set ls. NL \<notin> set l" "ls \<noteq> []"
  shows "split_on NL (trim_suffix (concat (map (\<lambda>l. l @ [NL]) ls)) [NL]) = ls"
proof -
  have snoc: "trim_suffix (concat (map (\<lambda>l. l @ [NL]) (ks @ [k]))) [NL] =
      concat (map (\<lambda>l. l @ [NL]) ks) @ k" for ks :: "string list" and k
    using trim_suffix_append [of "concat (map (\<lambda>l. l @ [NL]) ks) @ k" "[NL]"] by simp
  have "split_on NL (concat (map (\<lambda>l. l @ [NL]) ks) @ k) = ks @ [k]"
    if "\<forall>l\<in>set (ks @ [k]). NL \<notin> set l" for ks :: "string list" and k
    using that by (induction ks) (simp_all add: split_on_single split_on_append)
  moreover obtain ks k where "ls = ks @ [k]" using assms(2) by (metis rev_exhaust)
  ultimately show ?thesis using assms(1) snoc by metis
qed

lemma name_no_seps: "agent_name_matches s \<Longrightarrow> SP \<notin> set s \<and> NL \<notin> set s \<and> s \<noteq> []"
  by (cases s) (auto simp: list_all_iff name_head_char_def name_tail_char_def SP_def NL_def
      is_lower_def is_digit_def)

lemma digit_not_sep [simp]: "\<not> is_digit SP" "\<not> is_digit NL"
  by (simp_all add: is_digit_def SP_def NL_def)

lemma suffix_line_no_NL: "agent_name_matches nm \<Longrightarrow> NL \<notin> set (suffix_line fl nm)"
  using name_no_seps FormatUint_no_char [OF digit_not_sep(2)]
  by (auto simp: suffix_line_def SP_def NL_def)

lemma suffix_line_neq_Nil [simp]: "suffix_line fl nm \<noteq> []"
  by (simp add: suffix_line_def)

lemma parse_suffix_line:
  assumes "agent_name_matches nm" "get0 fl nm \<noteq> 0"
  shows "parseSuffixEntry (suffix_line fl nm) = Inr (nm, get0 fl nm)"
proof -
  let ?n = "get0 fl nm"
  have i: "index_of SP (suffix_line fl nm) = Some (length nm)"
    using name_no_seps [OF assms(1)] by (simp add: suffix_line_def index_of_append)
  have "\<not> (1 < length (FormatUint ?n) \<and> hd (FormatUint ?n) = CHR ''0'')"
    using FormatUint_hd_zero assms(2) by blast
  moreover have "ValidateAgentName nm = Inr ()" using assms(1) by (simp add: res)
  moreover have "take (length nm) (suffix_line fl nm) = nm"
    "drop (length nm + 1) (suffix_line fl nm) = FormatUint ?n"
    by (simp_all add: suffix_line_def)
  ultimately show ?thesis
    using i assms(2) FormatUint_digits [of ?n]
    by (simp add: parseSuffixEntry_def Let_def del: drop_eq_Nil)
qed

lemma read_suffix_lines:
  assumes "\<forall>nm\<in>set ns. agent_name_matches nm \<and> get0 fl nm \<noteq> 0"
    and "distinct ns" "\<forall>nm\<in>set ns. map_of acc nm = None"
  shows "readSuffixEntries e (map (suffix_line fl) ns) acc =
         Inr (acc @ map (\<lambda>nm. (nm, get0 fl nm)) ns)"
  using assms
proof (induction ns arbitrary: acc)
  case (Cons nm ns)
  have "AList.update nm (get0 fl nm) acc = acc @ [(nm, get0 fl nm)]"
    using Cons.prems(3) by (intro update_absent) simp
  moreover have "\<forall>m\<in>set ns. map_of (acc @ [(nm, get0 fl nm)]) m = None"
    using Cons.prems by (auto simp: map_add_def)
  ultimately show ?case using Cons by (simp add: parse_suffix_line)
qed simp

definition floor_names :: "u64 smap \<Rightarrow> string list" where
  "floor_names fl = sort (map fst (filter (\<lambda>(nm, n). n \<noteq> 0) fl))"

definition floors_ok :: "u64 smap \<Rightarrow> bool" where
  "floors_ok fl \<longleftrightarrow> distinct (map fst fl) \<and> (\<forall>nm\<in>fst ` set fl. agent_name_matches nm)"

lemma floors_ok_update [simp]: "floors_ok fl \<Longrightarrow> agent_name_matches nm \<Longrightarrow> floors_ok (AList.update nm v fl)"
  by (auto simp: floors_ok_def distinct_update dom_update)

lemma floors_ok_Nil [simp]: "floors_ok []"
  by (simp add: floors_ok_def)

lemma get0_mem: "distinct (map fst fl) \<Longrightarrow> (nm, n) \<in> set fl \<Longrightarrow> get0 fl nm = n"
  by (simp add: get0_def)

lemma floor_names_iff:
  assumes "distinct (map fst fl)"
  shows "nm \<in> set (floor_names fl) \<longleftrightarrow> get0 fl nm \<noteq> 0"
proof
  assume "nm \<in> set (floor_names fl)"
  then show "get0 fl nm \<noteq> 0" using get0_mem [OF assms] by (auto simp: floor_names_def)
next
  assume "get0 fl nm \<noteq> 0"
  then obtain n where "map_of fl nm = Some n" "n \<noteq> 0"
    by (auto simp: get0_def split: option.splits)
  then show "nm \<in> set (floor_names fl)"
    by (force simp: floor_names_def dest: map_of_SomeD)
qed

lemma floor_names_ok:
  assumes "floors_ok fl"
  shows "\<forall>nm\<in>set (floor_names fl). agent_name_matches nm \<and> get0 fl nm \<noteq> 0"
    "distinct (floor_names fl)"
  using assms floor_names_iff [of fl]
  by (auto simp: floors_ok_def floor_names_def distinct_map_filter)

lemma floors_get0: "map_of (map (\<lambda>nm. (nm, get0 fl nm)) ns) nm = (if nm \<in> set ns then Some (get0 fl nm) else None)"
  by (induction ns) auto

text \<open>
  What \<open>encodeSuffixFile\<close> writes: the magic line with the digest, then one line per
  name; reading it gives the same floors back.
\<close>

definition suffix_body :: "u64 smap \<Rightarrow> bytes" where
  "suffix_body fl = concat (map (\<lambda>l. l @ [NL]) (map (suffix_line fl) (floor_names fl)))"

definition suffix_header :: "u64 smap \<Rightarrow> bytes" where
  "suffix_header fl = suffixFileMagic @ [SP] @ ''v3'' @ [SP] @ ''sha256='' @ hex_encode (sha256 (suffix_body fl))"

lemma show_nat_version: "show_nat suffixFileVersion = ''3''"
  by (subst show_nat.simps) (simp add: suffixFileVersion_def)

lemma encodeSuffixFile_eq:
  assumes "floors_ok fl"
  shows "encodeSuffixFile fl = Inr (suffix_header fl @ NL # suffix_body fl)"
proof -
  have "list_all (\<lambda>nm. ValidateAgentName nm = Inr ()) (floor_names fl)"
    using floor_names_ok(1) [OF assms] by (simp add: list_all_iff res)
  then show ?thesis
    unfolding encodeSuffixFile_def Let_def floor_names_def [symmetric]
    by (simp add: show_nat_version suffix_header_def suffix_body_def SP_def comp_def)
qed

lemma suffix_header_split:
  "split_on SP (suffix_header fl) = [suffixFileMagic, ''v3'', ''sha256='' @ hex_encode (sha256 (suffix_body fl))]"
proof -
  let ?h = "''sha256='' @ hex_encode (sha256 (suffix_body fl))"
  have "SP \<notin> set suffixFileMagic" "SP \<notin> set ''v3''" "SP \<notin> set ?h"
    using hex_encode_no_space by (auto simp: suffixFileMagic_def SP_def)
  then have "split_on SP (suffixFileMagic @ SP # ''v3'' @ SP # ?h) = [suffixFileMagic, ''v3'', ?h]"
    by (simp only: split_on_append split_on_single not_False_eq_True)
  then show ?thesis by (simp add: suffix_header_def)
qed

lemma suffix_header_no_NL: "NL \<notin> set (suffix_header fl)"
  using hex_encode_no_newline by (auto simp: suffix_header_def suffixFileMagic_def NL_def SP_def)

lemma read_suffix_body:
  assumes "floors_ok fl"
  shows "readSuffixEntries (suffix_body fl = []) (split_on NL (trim_suffix (suffix_body fl) [NL])) [] =
         Inr (map (\<lambda>nm. (nm, get0 fl nm)) (floor_names fl))"
proof (cases "floor_names fl = []")
  case True
  then show ?thesis by (simp add: suffix_body_def trim_suffix_def)
next
  case False
  have "split_on NL (trim_suffix (suffix_body fl) [NL]) = map (suffix_line fl) (floor_names fl)"
    unfolding suffix_body_def using floor_names_ok(1) [OF assms] False suffix_line_no_NL
    by (intro split_lines) auto
  then show ?thesis
    using read_suffix_lines [OF floor_names_ok [OF assms], of "[]"] by simp
qed

lemma readSuffixFile_encode:
  assumes "floors_ok fl" "encodeSuffixFile fl = Inr data"
  shows "readSuffixFile (Some data) = Inr (map (\<lambda>nm. (nm, get0 fl nm)) (floor_names fl), True)"
proof -
  have d: "data = suffix_header fl @ NL # suffix_body fl"
    using assms(2) encodeSuffixFile_eq [OF assms(1)] by simp
  have "index_of NL data = Some (length (suffix_header fl))"
    unfolding d using suffix_header_no_NL by (rule index_of_append)
  then show ?thesis
    using read_suffix_body [OF assms(1)]
    by (simp add: readSuffixFile_def Let_def d suffix_header_split show_nat_version has_prefix_def)
qed

lemma readSuffixFile_encode_get0:
  assumes "floors_ok fl" "encodeSuffixFile fl = Inr data"
  obtains fl' where "readSuffixFile (Some data) = Inr (fl', True)" "floors_ok fl'"
    "\<And>nm. get0 fl' nm = get0 fl nm"
proof
  let ?fl = "map (\<lambda>nm. (nm, get0 fl nm)) (floor_names fl)"
  show "readSuffixFile (Some data) = Inr (?fl, True)"
    using readSuffixFile_encode [OF assms] .
  show "floors_ok ?fl"
    using floor_names_ok [OF assms(1)] by (auto simp: floors_ok_def comp_def)
  show "get0 ?fl nm = get0 fl nm" for nm
    using floor_names_iff [of fl nm] assms(1) by (simp add: get0_def [of ?fl] floors_get0 floors_ok_def)
qed

section \<open>NameSuffixes never reissues\<close>

datatype ns_op = NSNext string | NSRaise string u64 | NSSeal

fun ns_step :: "name_suffixes \<Rightarrow> ns_op \<Rightarrow> (string \<times> u64) list \<times> name_suffixes" where
  "ns_step s (NSNext nm) =
     (case ns_NextSuffix s nm of (Inr n, s') \<Rightarrow> ([(nm, n)], s') | (Inl _, s') \<Rightarrow> ([], s'))"
| "ns_step s (NSRaise nm n) = ([], snd (ns_RaiseFloor s nm n))"
| "ns_step s NSSeal = ([], snd (ns_Seal s))"

definition issued_for :: "string \<Rightarrow> string \<times> u64 \<Rightarrow> u64 option" where
  "issued_for nm p = (if fst p = nm then Some (snd p) else None)"

lemma nextLocked_commit_ok:
  "nextLocked s nm True = (Inr n, s') \<longleftrightarrow>
     ns_sealed s \<and> get0 (ns_floor s) nm \<noteq> maxUint64 \<and> n = get0 (ns_floor s) nm + 1 \<and>
     s' = s\<lparr>ns_floor := AList.update nm n (ns_floor s), ns_last := AList.update nm n (ns_last s)\<rparr>"
  by (auto simp: nextLocked_def Let_def)

lemma nextLocked_err: "nextLocked s nm c = (Inl e, s') \<Longrightarrow> s' = s"
  by (auto simp: nextLocked_def Let_def split: if_splits)

lemma peekNext_ok:
  "peekNext s nm = Inr n \<longleftrightarrow>
     ns_sealed s \<and> get0 (ns_floor s) nm \<noteq> maxUint64 \<and> n = get0 (ns_floor s) nm + 1"
  by (auto simp: peekNext_def nextLocked_def Let_def)

lemma ns_step_floor: "get0 (ns_floor s) nm \<le> get0 (ns_floor (snd (ns_step s x))) nm"
  by (cases x)
    (auto simp: ns_NextSuffix_def nextLocked_def ns_RaiseFloor_def ns_Seal_def Let_def
      less_imp_le u64_less_Suc)

lemma ns_step_issued:
  "List.map_filter (issued_for nm) (fst (ns_step s x)) = [] \<or>
   (\<exists>n. List.map_filter (issued_for nm) (fst (ns_step s x)) = [n] \<and>
        get0 (ns_floor s) nm < n \<and> n \<le> get0 (ns_floor (snd (ns_step s x))) nm)"
  by (cases x)
    (auto simp: ns_NextSuffix_def nextLocked_def Let_def issued_for_def map_filter_def u64_less_Suc)

interpretation nsalloc: allocator ns_step "\<lambda>_. True" "\<lambda>s. get0 (ns_floor s) nm" "issued_for nm"
  for nm
  by (rule allocator_single) (rule TrueI, rule ns_step_floor, rule ns_step_issued)

section \<open>The durable allocator across failures and restarts\<close>

text \<open>
  A history of the durable allocator: calls with the outcome of their file write, and
  restarts that read any content a crash may have left.  The second component of the
  state is a ghost: the highest suffix ever issued per name, over all runs.
\<close>

datatype dn_op =
    DNext write_outcome string
  | DRaise string u64
  | DSeal write_outcome
  | DRestart nat

type_synonym dn_sys = "durable_suffixes \<times> (string \<Rightarrow> u64)"

fun dn_step :: "dn_sys \<Rightarrow> dn_op \<Rightarrow> (string \<times> u64) list \<times> dn_sys" where
  "dn_step (d, hi) (DNext io nm) =
     (case dn_NextSuffix io d nm of
        (Inr n, d') \<Rightarrow> ([(nm, n)], d', hi(nm := n))
      | (Inl _, d') \<Rightarrow> ([], d', hi))"
| "dn_step (d, hi) (DRaise nm n) = ([], snd (dn_RaiseFloor d nm n), hi)"
| "dn_step (d, hi) (DSeal io) = ([], snd (dn_Seal io d), hi)"
| "dn_step (d, hi) (DRestart i) =
     (case OpenNameSuffixes (dn_disk d ! (i mod length (dn_disk d))) of
        Inl _ \<Rightarrow> ([], d, hi)
      | Inr d' \<Rightarrow> ([], d', hi))"

definition dn_fresh :: dn_sys where
  "dn_fresh =
     (\<lparr>dn_mem = ResumeNameSuffixes [], dn_durable = [], dn_existed = False, dn_disk = [None]\<rparr>,
      \<lambda>_. 0)"

text \<open>A file content that recovery can read and that covers the floors \<open>g\<close>.\<close>

definition file_covers :: "bytes option \<Rightarrow> (string \<Rightarrow> u64) \<Rightarrow> bool" where
  "file_covers f g \<longleftrightarrow>
     (\<exists>fl e. readSuffixFile f = Inr (fl, e) \<and> floors_ok fl \<and> (\<forall>nm. g nm \<le> get0 fl nm))"

definition must_cover :: "dn_sys \<Rightarrow> string \<Rightarrow> u64" where
  "must_cover s = (if ns_sealed (dn_mem (fst s)) then get0 (dn_durable (fst s)) else snd s)"

definition dn_inv :: "dn_sys \<Rightarrow> bool" where
  "dn_inv s \<longleftrightarrow>
     floors_ok (ns_floor (dn_mem (fst s))) \<and> floors_ok (dn_durable (fst s)) \<and>
     (\<forall>nm. snd s nm \<le> get0 (ns_floor (dn_mem (fst s))) nm) \<and>
     (ns_sealed (dn_mem (fst s)) \<longrightarrow>
        (\<forall>nm. get0 (ns_floor (dn_mem (fst s))) nm \<le> get0 (dn_durable (fst s)) nm)) \<and>
     dn_disk (fst s) \<noteq> [] \<and> (\<forall>f\<in>set (dn_disk (fst s)). file_covers f (must_cover s))"

lemma file_covers_mono: "file_covers f g \<Longrightarrow> (\<And>nm. h nm \<le> g nm) \<Longrightarrow> file_covers f h"
  unfolding file_covers_def by (meson order_trans)

lemma file_covers_encode: "floors_ok fl \<Longrightarrow> encodeSuffixFile fl = Inr data \<Longrightarrow> file_covers (Some data) (get0 fl)"
  by (erule (1) readSuffixFile_encode_get0) (auto simp: file_covers_def)

lemma reserve_high_ge: "n \<le> reserve_high n"
  by (auto simp: reserve_high_def Let_def maxUint64_def not_less)

lemma writeFloors_covers:
  assumes ok: "floors_ok fl" and d: "dn_disk d \<noteq> []" "\<forall>f\<in>set (dn_disk d). file_covers f g"
    and le: "\<And>nm. g nm \<le> get0 fl nm" and w: "writeFloors io d fl = (r, d')"
  obtains disk where "d' = d\<lparr>dn_disk := disk\<rparr>" "disk \<noteq> []" "\<forall>f\<in>set disk. file_covers f g"
    "r = Inr () \<Longrightarrow> \<forall>f\<in>set disk. file_covers f (get0 fl)" "r = Inr () \<or> r = Inl SuffixWriteFailed"
proof -
  obtain data where data: "encodeSuffixFile fl = Inr data"
    using encodeSuffixFile_eq [OF ok] by blast
  have c: "file_covers (Some data) (get0 fl)" using ok data by (rule file_covers_encode)
  then have "file_covers (Some data) g" using le by (rule file_covers_mono)
  with c data d w show ?thesis
    by (intro that [of "dn_disk d'"])
      (auto simp: writeFloors_def atomicWriteFile_def split: write_outcome.splits)
qed

lemma dn_inv_fresh: "dn_inv dn_fresh"
  by (auto simp: dn_inv_def dn_fresh_def ResumeNameSuffixes_def must_cover_def file_covers_def
      readSuffixFile_def intro!: exI [of _ "[]"])

lemma writeFloors_frame:
  "writeFloors io d fl = (r, d') \<Longrightarrow> dn_mem d' = dn_mem d \<and> dn_durable d' = dn_durable d"
  by (auto simp: writeFloors_def split: sum.splits prod.splits if_splits)

lemma next_after_peek:
  "peekNext m nm = Inr n \<Longrightarrow>
   ns_NextSuffix m nm = (Inr n, m\<lparr>ns_floor := AList.update nm n (ns_floor m),
                                  ns_last := AList.update nm n (ns_last m)\<rparr>)"
  by (auto simp: ns_NextSuffix_def nextLocked_commit_ok peekNext_ok)

text \<open>
  The possible results of \<open>dn_NextSuffix\<close>: refused before anything is written, refused by
  the file write, or issued from the reserved block or from a freshly written one.  The
  two internal-error branches of the source are not among them.
\<close>

lemma dn_Next_cases:
  assumes "dn_NextSuffix io d nm = (r, d')"
  obtains
    (refused) e where "r = Inl e" "d' = d"
  | (unwritten) n e where "agent_name_matches nm" "peekNext (dn_mem d) nm = Inr n" "r = Inl e"
      "get0 (dn_durable d) nm < n"
      "writeFloors io d (AList.update nm (reserve_high n) (dn_durable d)) = (Inl e, d')"
  | (fresh_block) n d1 m where "agent_name_matches nm" "peekNext (dn_mem d) nm = Inr n" "r = Inr n"
      "get0 (dn_durable d) nm < n"
      "writeFloors io d (AList.update nm (reserve_high n) (dn_durable d)) = (Inr (), d1)"
      "ns_NextSuffix (dn_mem d) nm = (Inr n, m)"
      "d' = d1\<lparr>dn_durable := AList.update nm (reserve_high n) (dn_durable d), dn_mem := m\<rparr>"
  | (reserved) n m where "agent_name_matches nm" "peekNext (dn_mem d) nm = Inr n" "r = Inr n"
      "n \<le> get0 (dn_durable d) nm"
      "ns_NextSuffix (dn_mem d) nm = (Inr n, m)" "d' = d\<lparr>dn_mem := m\<rparr>"
proof (cases "ValidateAgentName nm")
  case (Inl e)
  then show ?thesis using assms refused by (auto simp: dn_NextSuffix_def)
next
  case v: (Inr u)
  then have nm: "agent_name_matches nm" by (simp add: res)
  show ?thesis
  proof (cases "peekNext (dn_mem d) nm")
    case (Inl e)
    then have "r = Inl e" "d' = d" using assms v by (simp_all add: dn_NextSuffix_def)
    then show ?thesis by (rule refused)
  next
    case pk: (Inr n)
    show ?thesis
    proof (cases "get0 (dn_durable d) nm < n")
      case False
      obtain m where m: "ns_NextSuffix (dn_mem d) nm = (Inr n, m)"
        using next_after_peek [OF pk] by blast
      with False have "r = Inr n" "n \<le> get0 (dn_durable d) nm" "d' = d\<lparr>dn_mem := m\<rparr>"
        using assms v pk by (simp_all add: dn_NextSuffix_def Let_def)
      with nm pk m show ?thesis by (intro reserved)
    next
      case True
      let ?upd = "AList.update nm (reserve_high n) (dn_durable d)"
      obtain w d1 where w: "writeFloors io d ?upd = (w, d1)" by fastforce
      note fr = writeFloors_frame [OF w]
      show ?thesis
      proof (cases w)
        case (Inl e)
        then show ?thesis
          using assms v pk True w nm unwritten by (auto simp: dn_NextSuffix_def Let_def)
      next
        case (Inr u')
        then show ?thesis
          using assms v pk True w nm next_after_peek [OF pk] fr fresh_block reserve_high_ge [of n]
          by (auto simp: dn_NextSuffix_def Let_def not_less [symmetric])
      qed
    qed
  qed
qed

lemma dn_inv_I:
  assumes "floors_ok (ns_floor (dn_mem d))" "floors_ok (dn_durable d)"
    "\<And>nm. hi nm \<le> get0 (ns_floor (dn_mem d)) nm"
    "\<And>nm. ns_sealed (dn_mem d) \<Longrightarrow> get0 (ns_floor (dn_mem d)) nm \<le> get0 (dn_durable d) nm"
    "dn_disk d \<noteq> []" "\<forall>f\<in>set (dn_disk d). file_covers f (must_cover (d, hi))"
  shows "dn_inv (d, hi)"
  using assms by (simp add: dn_inv_def)

lemma dn_invD:
  assumes "dn_inv (d, hi)"
  shows "floors_ok (ns_floor (dn_mem d))" "floors_ok (dn_durable d)"
    "hi nm \<le> get0 (ns_floor (dn_mem d)) nm"
    "ns_sealed (dn_mem d) \<Longrightarrow> get0 (ns_floor (dn_mem d)) nm \<le> get0 (dn_durable d) nm"
    "dn_disk d \<noteq> []" "\<forall>f\<in>set (dn_disk d). file_covers f (must_cover (d, hi))"
  using assms by (simp_all add: dn_inv_def)

lemma dn_Next_inv:
  assumes inv: "dn_inv (d, hi)" and nx: "dn_NextSuffix io d nm = (r, d')"
  shows "(\<exists>e. r = Inl e \<and> dn_inv (d', hi)) \<or>
         (\<exists>n. r = Inr n \<and> hi nm < n \<and> dn_inv (d', hi(nm := n)))"
  using nx
proof (cases rule: dn_Next_cases)
  case (refused e)
  then show ?thesis using inv by simp
next
  note I = dn_invD [OF inv]
  case (unwritten n e)
  have s: "ns_sealed (dn_mem d)" using unwritten by (simp add: peekNext_ok)
  have "get0 (dn_durable d) j \<le> get0 (AList.update nm (reserve_high n) (dn_durable d)) j" for j
    using unwritten(4) reserve_high_ge [of n] by auto
  then obtain disk where "d' = d\<lparr>dn_disk := disk\<rparr>" "disk \<noteq> []"
    "\<forall>f\<in>set disk. file_covers f (must_cover (d, hi))"
    using I(2,5,6) unwritten(1,5) s by (auto simp: must_cover_def elim!: writeFloors_covers [rotated 4])
  then have "dn_inv (d', hi)" using inv s by (simp add: dn_inv_def must_cover_def)
  with unwritten show ?thesis by simp
next
  note I = dn_invD [OF inv]
  case (fresh_block n d1 m)
  let ?upd = "AList.update nm (reserve_high n) (dn_durable d)"
  have s: "ns_sealed (dn_mem d)" and n: "n = get0 (ns_floor (dn_mem d)) nm + 1"
    and lt: "get0 (ns_floor (dn_mem d)) nm < n"
    using fresh_block(2) u64_less_Suc by (auto simp: peekNext_ok)
  have le: "get0 (dn_durable d) j \<le> get0 ?upd j" for j
    using fresh_block(4) reserve_high_ge [of n] by auto
  then obtain disk where disk: "d1 = d\<lparr>dn_disk := disk\<rparr>" "disk \<noteq> []"
    "\<forall>f\<in>set disk. file_covers f (get0 ?upd)"
    using I(2,5,6) fresh_block(1,5) s by (auto simp: must_cover_def elim!: writeFloors_covers [rotated 4])
  have m: "ns_floor m = AList.update nm n (ns_floor (dn_mem d))" "ns_sealed m"
    using fresh_block(6) next_after_peek [OF fresh_block(2)] s by auto
  have "dn_inv (d', hi(nm := n))"
    unfolding fresh_block(7) disk(1)
    using I(1,2,3) I(4) [OF s] fresh_block(1) disk(2,3) m reserve_high_ge [of n]
    by (intro dn_inv_I) (auto simp: must_cover_def)
  moreover have "hi nm < n" using I(3) lt by (rule le_less_trans)
  ultimately show ?thesis using fresh_block(3) by simp
next
  note I = dn_invD [OF inv]
  case (reserved n m)
  have s: "ns_sealed (dn_mem d)" and lt: "get0 (ns_floor (dn_mem d)) nm < n"
    using reserved(2) u64_less_Suc by (auto simp: peekNext_ok)
  have m: "ns_floor m = AList.update nm n (ns_floor (dn_mem d))" "ns_sealed m"
    using reserved(5) next_after_peek [OF reserved(2)] s by auto
  have "dn_inv (d', hi(nm := n))"
    unfolding reserved(6)
    using I(1,2,3,5,6) I(4) [OF s] reserved(1,4) m s
    by (intro dn_inv_I) (auto simp: must_cover_def)
  moreover have "hi nm < n" using I(3) lt by (rule le_less_trans)
  ultimately show ?thesis using reserved(3) by simp
qed

lemma dn_Raise_inv:
  assumes "dn_inv (d, hi)"
  shows "dn_inv (snd (dn_RaiseFloor d nm n), hi)"
proof (cases "ValidateAgentName nm")
  case (Inr u)
  then have nm: "agent_name_matches nm" by (simp add: res)
  note I = dn_invD [OF assms]
  have "hi j \<le> get0 (AList.update nm n (ns_floor (dn_mem d))) j" if "get0 (ns_floor (dn_mem d)) nm < n" for j
    using I(3) [of j] that by auto
  then show ?thesis
    using assms Inr nm
    by (auto simp: dn_RaiseFloor_def ns_RaiseFloor_def dn_inv_def must_cover_def)
qed (use assms in \<open>simp add: dn_RaiseFloor_def\<close>)

lemma dn_Seal_inv:
  assumes "dn_inv (d, hi)"
  shows "dn_inv (snd (dn_Seal io d), hi)"
proof (cases "ns_sealed (dn_mem d)")
  case True
  then show ?thesis using assms by (simp add: dn_Seal_def ns_Seal_def)
next
  case False
  note I = dn_invD [OF assms]
  let ?m = "ns_floor (dn_mem d)"
  obtain r d1 where w: "writeFloors io d ?m = (r, d1)" by fastforce
  have "\<forall>f\<in>set (dn_disk d). file_covers f hi"
    using I(6) False by (simp add: must_cover_def)
  then obtain disk where disk: "d1 = d\<lparr>dn_disk := disk\<rparr>" "disk \<noteq> []" "\<forall>f\<in>set disk. file_covers f hi"
    "r = Inr () \<Longrightarrow> \<forall>f\<in>set disk. file_covers f (get0 ?m)" "r = Inr () \<or> r = Inl SuffixWriteFailed"
    using I(1,3,5) w by (elim writeFloors_covers [rotated 4]) auto
  show ?thesis
  proof (cases r)
    case (Inl e)
    then show ?thesis
      using w False I(1,2,3) disk(1,2,3) by (auto simp: dn_Seal_def dn_inv_def must_cover_def)
  next
    case (Inr u)
    then show ?thesis
      using w False I(1,2,3) disk(1,2,4)
      by (auto simp: dn_Seal_def ns_Seal_def dn_inv_def must_cover_def)
  qed
qed

lemma dn_Restart_inv:
  assumes "dn_inv (d, hi)"
  shows "\<exists>d'. OpenNameSuffixes (dn_disk d ! (i mod length (dn_disk d))) = Inr d' \<and> dn_inv (d', hi)"
proof -
  note I = dn_invD [OF assms]
  let ?f = "dn_disk d ! (i mod length (dn_disk d))"
  have "?f \<in> set (dn_disk d)" using I(5) by simp
  with I(6) have "file_covers ?f (must_cover (d, hi))" by blast
  moreover have "hi nm \<le> must_cover (d, hi) nm" for nm
    using I(3,4) [of nm] order_trans by (auto simp: must_cover_def)
  ultimately have "file_covers ?f hi" by (rule file_covers_mono)
  then show ?thesis
    by (auto simp: OpenNameSuffixes_def dn_inv_def must_cover_def ResumeNameSuffixes_def file_covers_def)
qed

lemma dn_step_inv: "dn_inv s \<Longrightarrow> dn_inv (snd (dn_step s x))"
proof (cases s; cases x)
  fix d hi io nm
  assume "dn_inv s" "s = (d, hi)" "x = DNext io nm"
  then show ?thesis using dn_Next_inv [of d hi io nm] by (auto split: prod.splits sum.splits)
next
  fix d hi i
  assume "dn_inv s" "s = (d, hi)" "x = DRestart i"
  then show ?thesis using dn_Restart_inv [of d hi i] by auto
qed (simp_all add: dn_Raise_inv dn_Seal_inv)

lemma dn_step_issued:
  assumes "dn_inv s"
  shows "List.map_filter (issued_for nm) (fst (dn_step s x)) = [] \<or>
    (\<exists>n. List.map_filter (issued_for nm) (fst (dn_step s x)) = [n] \<and>
         snd s nm < n \<and> n \<le> snd (snd (dn_step s x)) nm)"
proof (cases s; cases x)
  fix d hi io m
  assume "s = (d, hi)" "x = DNext io m"
  then show ?thesis
    using assms dn_Next_inv [of d hi io m]
    by (auto simp: map_filter_def issued_for_def split: prod.splits sum.splits)
next
  fix d hi i
  assume "s = (d, hi)" "x = DRestart i"
  then show ?thesis by (auto simp: map_filter_def split: sum.splits)
qed (simp_all add: map_filter_simps)

lemma dn_step_hi: "dn_inv s \<Longrightarrow> snd s nm \<le> snd (snd (dn_step s x)) nm"
proof (cases s; cases x)
  fix d hi io m
  assume "dn_inv s" "s = (d, hi)" "x = DNext io m"
  then show ?thesis
    using dn_Next_inv [of d hi io m] by (auto split: prod.splits sum.splits intro: less_imp_le)
next
  fix d hi i
  assume "s = (d, hi)" "x = DRestart i"
  then show ?thesis by (auto split: sum.splits)
qed simp_all

interpretation dnalloc: allocator dn_step dn_inv "\<lambda>s. snd s nm" "issued_for nm"
  for nm
  by (rule allocator_single) (rule dn_step_inv, assumption, rule dn_step_hi, assumption,
      rule dn_step_issued, assumption)

section \<open>Properties\<close>

text \<open>
  The floors file reads back: what \<open>encodeSuffixFile\<close> writes for well-formed floors is
  accepted by \<open>readSuffixFile\<close>, and every name reads the floor it had.
\<close>

theorem suffix_file_round_trip:
  assumes "floors_ok fl"
  shows "\<exists>data fl'. encodeSuffixFile fl = Inr data \<and> readSuffixFile (Some data) = Inr (fl', True) \<and>
    floors_ok fl' \<and> get0 fl' = get0 fl"
proof -
  obtain data where d: "encodeSuffixFile fl = Inr data"
    using encodeSuffixFile_eq [OF assms] by blast
  show ?thesis using readSuffixFile_encode_get0 [OF assms d] d by (metis ext)
qed

theorem suffix_file_round_trip_witness:
  "\<exists>data fl'. encodeSuffixFile [(''alice'', 128), (''bob'', 64)] = Inr data \<and>
     readSuffixFile (Some data) = Inr (fl', True) \<and> floors_ok fl' \<and>
     get0 fl' = get0 [(''alice'', 128), (''bob'', 64)]"
  by (rule suffix_file_round_trip)
    (simp add: floors_ok_def name_head_char_def name_tail_char_def is_lower_def is_digit_def)

text \<open>
  C10. A durable suffix is never issued twice: over any history of enrolments, floor
  raises, seals, failed file writes (before or after the rename) and restarts from any
  content a crash may leave, starting from an empty disk, the suffixes issued for one name
  are strictly increasing across all the runs.
\<close>

theorem durable_suffix_never_reused:
  "sorted_wrt (<) (0 # List.map_filter (issued_for nm) (fst (run dn_step dn_fresh ops)))"
  using dnalloc.run_issued_sorted [OF dn_inv_fresh] dnalloc.run_issued_above [OF dn_inv_fresh, of _ nm ops]
  by (simp add: dn_fresh_def)

text \<open>
  C32. The floors file survives every crash: after any such history, whichever of the
  possible file contents a restart finds is accepted, and the reopened allocator's floors
  lie at or above every suffix ever issued.
\<close>

theorem restart_always_recovers:
  "case snd (run dn_step dn_fresh ops) of (d, hi) \<Rightarrow>
     (\<exists>d'. OpenNameSuffixes (dn_disk d ! (i mod length (dn_disk d))) = Inr d' \<and>
        hi nm \<le> get0 (ns_floor (dn_mem d')) nm)"
proof (cases "snd (run dn_step dn_fresh ops)")
  case (Pair d hi)
  then have "dn_inv (d, hi)" using dnalloc.inv_run [OF dn_inv_fresh, of ops] by simp
  then show ?thesis using dn_Restart_inv [of d hi i] dn_invD(3) Pair by fastforce
qed

end
