(* ===== verification/AgentMint.thy ===== *)
theory AgentMint
  imports SuffixStore
begin

text \<open>
  The minter on top of its suffix allocator (\<^verbatim>\<open>internal/ids/agentmint.go\<close>).

  \<^verbatim>\<open>SuffixAllocator\<close> is a Go interface; the locale \<open>suffix_source\<close> is its contract: a
  number handed out for a name lies strictly above everything burned for that name, and
  nothing burned is ever forgotten.  What follows for \<^const>\<open>Mint\<close> is proved once, and the
  in-memory and the durable allocator (with its failed writes and restarts) are the two
  interpretations.
\<close>

text \<open>
  One mint request against an allocator: \<open>io\<close> is whatever the environment decides
  during the call.  The output is the id the client receives, if any.
\<close>

definition mint_step ::
  "string \<Rightarrow> ('io \<Rightarrow> 's \<Rightarrow> string \<Rightarrow> (suffix_error + u64) \<times> 's) \<Rightarrow>
     's \<Rightarrow> 'io \<times> string \<Rightarrow> string list \<times> 's" where
  "mint_step busID nextSuffix s req =
     (case Mint busID (nextSuffix (fst req)) s (snd req) of
        (Inl _, s') \<Rightarrow> ([], s')
      | (Inr aid, s') \<Rightarrow> ([aid], s'))"

lemma Mint_ok:
  assumes "Mint b nx s nm = (Inr aid, s')"
  obtains n where "agent_name_matches nm" "nx s nm = (Inr n, s')" "AgentID b nm n = Inr aid"
  using assms unfolding Mint_def
  by (auto simp: res split: sum.splits prod.splits if_splits elim!: meta_allE)

text \<open>The parts of an id the minter may hand out for one name, as a number.\<close>

definition minted_for :: "string \<Rightarrow> string \<Rightarrow> string \<Rightarrow> u64 option" where
  "minted_for b nm aid =
     (case ParseAgentID aid of
        Inl _ \<Rightarrow> None
      | Inr (b', nm', n) \<Rightarrow> if b' = b \<and> nm' = nm then Some n else None)"

lemma minted_for_eq: "minted_for b nm aid = Some n \<longleftrightarrow> AgentID b nm n = Inr aid"
  by (auto simp: minted_for_def ParseAgentID_iff [symmetric] split: sum.splits prod.splits)

locale suffix_source =
  fixes nextSuffix :: "'io \<Rightarrow> 's \<Rightarrow> string \<Rightarrow> (suffix_error + u64) \<times> 's"
    and inv :: "'s \<Rightarrow> bool"
    and burned :: "'s \<Rightarrow> string \<Rightarrow> u64"
  assumes next_inv: "inv s \<Longrightarrow> inv (snd (nextSuffix io s nm))"
    and next_above:
      "inv s \<Longrightarrow> nextSuffix io s nm = (Inr n, s') \<Longrightarrow> burned s nm < n \<and> n \<le> burned s' nm"
    and next_keeps: "inv s \<Longrightarrow> burned s j \<le> burned (snd (nextSuffix io s nm)) j"
begin

lemma mint_state: "snd (mint_step b nextSuffix s (io, nm)) \<in> {s, snd (nextSuffix io s nm)}"
  by (auto simp: mint_step_def Mint_def split: sum.splits prod.splits)

lemma mint_inv: "inv s \<Longrightarrow> inv (snd (mint_step b nextSuffix s req))"
  using mint_state [of b s "fst req" "snd req"] next_inv by auto

lemma mint_burned: "inv s \<Longrightarrow> burned s j \<le> burned (snd (mint_step b nextSuffix s req)) j"
  using mint_state [of b s "fst req" "snd req"] next_keeps [of s j "fst req" "snd req"] by auto

text \<open>
  Minting refuses only because the name is malformed or because the allocator refused:
  the two defensive checks at the end of the source never fire.
\<close>

lemma mint_total:
  assumes "inv s" "bus_id_matches b"
  shows "Mint b (nextSuffix io) s nm =
    (case ValidateAgentName nm of
       Inl e \<Rightarrow> (Inl (SuffixBadName e), s)
     | Inr _ \<Rightarrow> (case nextSuffix io s nm of
         (Inl e, s') \<Rightarrow> (Inl e, s')
       | (Inr n, s') \<Rightarrow> (Inr (b @ ''.'' @ nm @ ''-'' @ FormatUint n), s')))"
proof -
  have "AgentID b nm n = Inr (b @ ''.'' @ nm @ ''-'' @ FormatUint n)"
    if "agent_name_matches nm" "nextSuffix io s nm = (Inr n, s')" for n s'
  proof -
    have "n \<noteq> 0" using next_above [OF assms(1) that(2)] by auto
    then show ?thesis using that(1) assms(2)
      by (simp add: AgentID_ok_iff agentIDSep_def agentSuffixSep_def)
  qed
  moreover have "ValidateAgentName nm = Inr () \<longleftrightarrow> agent_name_matches nm" by (simp add: res)
  ultimately show ?thesis
    by (cases "ValidateAgentName nm")
      (auto simp: Mint_def parse_of_AgentID split: sum.splits prod.splits)
qed

lemma mint_issued:
  assumes "inv s"
  shows "List.map_filter (minted_for b nm) (fst (mint_step b nextSuffix s req)) = [] \<or>
    (\<exists>n. List.map_filter (minted_for b nm) (fst (mint_step b nextSuffix s req)) = [n] \<and>
         burned s nm < n \<and> n \<le> burned (snd (mint_step b nextSuffix s req)) nm)"
proof (cases "Mint b (nextSuffix (fst req)) s (snd req)")
  case (Pair r s')
  show ?thesis
  proof (cases r)
    case (Inl e)
    then show ?thesis by (simp add: mint_step_def Pair map_filter_simps)
  next
    case (Inr aid)
    with Pair obtain n where n: "nextSuffix (fst req) s (snd req) = (Inr n, s')"
      "AgentID b (snd req) n = Inr aid"
      by (auto elim: Mint_ok)
    then have "minted_for b nm aid = (if snd req = nm then Some n else None)"
      by (auto simp: minted_for_def parse_of_AgentID)
    then show ?thesis
      using next_above [OF assms n(1)] Inr Pair
      by (auto simp: mint_step_def map_filter_simps)
  qed
qed

lemma mint_allocator:
  "allocator (mint_step b nextSuffix) inv (\<lambda>s. burned s nm) (minted_for b nm)"
  by (rule allocator_single) (rule mint_inv, assumption, rule mint_burned, assumption,
      rule mint_issued, assumption)

lemma minted_parse:
  "aid \<in> set (fst (run (mint_step b nextSuffix) s reqs)) \<Longrightarrow>
     \<exists>nm n. AgentID b nm n = Inr aid \<and> minted_for b nm aid = Some n"
proof (induction reqs arbitrary: s)
  case (Cons req reqs)
  then consider "aid \<in> set (fst (mint_step b nextSuffix s req))"
    | "aid \<in> set (fst (run (mint_step b nextSuffix) (snd (mint_step b nextSuffix s req)) reqs))"
    by (auto simp: fst_run_Cons simp del: run.simps(2))
  then show ?case
  proof cases
    case 1
    then obtain s' where "Mint b (nextSuffix (fst req)) s (snd req) = (Inr aid, s')"
      by (auto simp: mint_step_def split: prod.splits sum.splits)
    then show ?thesis by (rule Mint_ok) (auto simp: minted_for_eq)
  qed (rule Cons.IH)
qed simp

text \<open>No two mint requests of a history receive the same agent id.\<close>

lemma minted_distinct:
  assumes "inv s"
  shows "distinct (fst (run (mint_step b nextSuffix) s reqs))"
proof (rule ccontr)
  let ?ids = "fst (run (mint_step b nextSuffix) s reqs)"
  assume "\<not> distinct ?ids"
  then obtain xs ys zs aid where split: "?ids = xs @ [aid] @ ys @ [aid] @ zs"
    using not_distinct_decomp by blast
  then have "aid \<in> set ?ids" by simp
  then obtain nm n where "minted_for b nm aid = Some n" using minted_parse by blast
  then have "\<not> distinct (List.map_filter (minted_for b nm) ?ids)"
    by (simp add: split map_filter_def)
  then show False
    using allocator.run_issued_distinct [OF mint_allocator assms] by blast
qed

end

section \<open>The two allocators of the bus\<close>

interpretation mem_source: suffix_source "\<lambda>_ :: unit. ns_NextSuffix" "\<lambda>_. True"
  "\<lambda>s. get0 (ns_floor s)"
  by unfold_locales
    (auto simp: ns_NextSuffix_def nextLocked_def Let_def u64_less_Suc less_imp_le split: if_splits)

text \<open>
  The durable allocator inside a running bus: before the request, any history of other
  operations, failed writes and restarts takes place.
\<close>

definition durable_next ::
  "dn_op list \<times> write_outcome \<Rightarrow> dn_sys \<Rightarrow> string \<Rightarrow> (suffix_error + u64) \<times> dn_sys" where
  "durable_next io s nm =
     (case snd (run dn_step s (fst io)) of
        (d, hi) \<Rightarrow>
          (case dn_NextSuffix (snd io) d nm of
             (Inl e, d') \<Rightarrow> (Inl e, d', hi)
           | (Inr n, d') \<Rightarrow> (Inr n, d', hi(nm := n))))"

lemma durable_next_props:
  assumes "dn_inv s"
  shows "dn_inv (snd (durable_next io s nm))"
    and "durable_next io s nm = (Inr n, s') \<Longrightarrow> snd s nm < n \<and> n \<le> snd s' nm"
    and "snd s j \<le> snd (snd (durable_next io s nm)) j"
proof -
  obtain d hi where t: "snd (run dn_step s (fst io)) = (d, hi)" by fastforce
  have i: "dn_inv (d, hi)" using dnalloc.inv_run [OF assms, of "fst io"] t by simp
  have le: "snd s j \<le> hi j" for j using dnalloc.floor_run [OF assms, of j "fst io"] t by simp
  obtain r d' where r: "dn_NextSuffix (snd io) d nm = (r, d')" by fastforce
  note N = dn_Next_inv [OF i r]
  show "dn_inv (snd (durable_next io s nm))"
    using N by (auto simp: durable_next_def t r)
  show "snd s nm < n \<and> n \<le> snd s' nm" if "durable_next io s nm = (Inr n, s')"
    using that N le [of nm] by (auto simp: durable_next_def t r intro: le_less_trans)
  show "snd s j \<le> snd (snd (durable_next io s nm)) j"
    using N le [of j] by (auto simp: durable_next_def t r intro: order_trans less_imp_le)
qed

interpretation durable_source: suffix_source durable_next dn_inv snd
  using durable_next_props by unfold_locales auto

section \<open>Properties\<close>

text \<open>
  C20. Agent ids are unique for ever: whatever the interleaving of mint requests with other
  allocator operations, failed writes and restarts, no two requests receive the same id.
\<close>

theorem minted_ids_distinct:
  "distinct (fst (run (mint_step b durable_next) dn_fresh reqs))"
  by (rule durable_source.minted_distinct) (rule dn_inv_fresh)

text \<open>
  Minting on a valid bus id fails only when the requested name is malformed or the
  allocator refuses: the id it formats always passes its own re-validation, and the
  result is the bus id, the name and the new suffix.
\<close>

theorem mint_succeeds:
  assumes "bus_id_matches b"
  shows "Mint b (durable_next io) (snd (run dn_step dn_fresh ops)) nm =
    (case ValidateAgentName nm of
       Inl e \<Rightarrow> (Inl (SuffixBadName e), snd (run dn_step dn_fresh ops))
     | Inr _ \<Rightarrow> (case durable_next io (snd (run dn_step dn_fresh ops)) nm of
         (Inl e, s') \<Rightarrow> (Inl e, s')
       | (Inr n, s') \<Rightarrow> (Inr (b @ ''.'' @ nm @ ''-'' @ FormatUint n), s')))"
  using assms by (intro durable_source.mint_total dnalloc.inv_run dn_inv_fresh)

theorem mint_succeeds_witness:
  "Mint ''bus-1'' (durable_next ([], WriteOk)) (snd (run dn_step dn_fresh [])) ''''
     = (Inl (SuffixBadName NameEmpty), dn_fresh)"
  by (subst mint_succeeds)
    (simp_all add: bus_id_matches_def bus_id_char_def is_lower_def is_digit_def ValidateAgentName_def)

end
