(* ===== verification/Utf8.thy ===== *)
theory Utf8
  imports Prelude
begin

text \<open>
  The functions of \<^verbatim>\<open>unicode/utf8\<close> and \<^verbatim>\<open>strings\<close> the sources apply to text they did not write themselves: decoding,
  the repair of invalid text, the cut at a rune boundary, and blankness.
\<close>

definition cont_byte :: "char \<Rightarrow> bool" where
  "cont_byte c \<longleftrightarrow> 0x80 \<le> byte_val c \<and> byte_val c \<le> 0xBF"

text \<open>
  The rune at the head of a byte string and what follows it, or \<open>None\<close> when no valid encoding stands there (overlong
  forms, surrogates and code points above U+10FFFF are not valid).
\<close>

fun decode_rune :: "bytes \<Rightarrow> (nat \<times> bytes) option" where
  "decode_rune [] = None"
| "decode_rune (a # s) =
     (let x = byte_val a in
      if x < 0x80 then Some (x, s)
      else if 0xC2 \<le> x \<and> x \<le> 0xDF then
        (case s of
           b # s' \<Rightarrow> if cont_byte b then Some ((x - 0xC0) * 64 + (byte_val b - 0x80), s') else None
         | [] \<Rightarrow> None)
      else if 0xE0 \<le> x \<and> x \<le> 0xEF then
        (case s of
           b # c # s' \<Rightarrow>
             if cont_byte b \<and> cont_byte c \<and> (x = 0xE0 \<longrightarrow> 0xA0 \<le> byte_val b) \<and> (x = 0xED \<longrightarrow> byte_val b \<le> 0x9F)
             then Some ((x - 0xE0) * 4096 + (byte_val b - 0x80) * 64 + (byte_val c - 0x80), s')
             else None
         | _ \<Rightarrow> None)
      else if 0xF0 \<le> x \<and> x \<le> 0xF4 then
        (case s of
           b # c # d # s' \<Rightarrow>
             if cont_byte b \<and> cont_byte c \<and> cont_byte d \<and> (x = 0xF0 \<longrightarrow> 0x90 \<le> byte_val b) \<and> (x = 0xF4 \<longrightarrow> byte_val b \<le> 0x8F)
             then Some ((x - 0xF0) * 262144 + (byte_val b - 0x80) * 4096 + (byte_val c - 0x80) * 64 + (byte_val d - 0x80), s')
             else None
         | _ \<Rightarrow> None)
      else None)"

text \<open>What is decoded is a first byte that starts a rune and at most three that continue it.\<close>

lemma decode_rune_split:
  assumes "decode_rune s = Some (r, rest)"
  obtains a us where "s = a # us @ rest" "\<not> cont_byte a" "list_all cont_byte us" "\<And>t. decode_rune (a # us @ t) = Some (r, t)"
proof (cases s)
  case Nil
  then show thesis using assms by simp
next
  case (Cons a s')
  consider (one) "byte_val a < 0x80" "rest = s'" "r = byte_val a"
    | (two) b where "0xC2 \<le> byte_val a" "byte_val a \<le> 0xDF" "s' = b # rest" "cont_byte b"
    | (three) b c where "0xE0 \<le> byte_val a" "byte_val a \<le> 0xEF" "s' = b # c # rest" "cont_byte b" "cont_byte c"
    | (four) b c d where "0xF0 \<le> byte_val a" "byte_val a \<le> 0xF4" "s' = b # c # d # rest" "cont_byte b" "cont_byte c" "cont_byte d"
    using assms Cons by (auto simp: Let_def split: if_splits list.splits)
  then show thesis
  proof cases
    case one
    show thesis by (rule that [of a "[]"]) (use one Cons in \<open>simp_all add: cont_byte_def\<close>)
  next
    case (two b)
    show thesis by (rule that [of a "[b]"]) (use two Cons assms in \<open>auto simp: Let_def cont_byte_def [of a] split: if_splits\<close>)
  next
    case (three b c)
    show thesis by (rule that [of a "[b, c]"]) (use three Cons assms in \<open>auto simp: Let_def cont_byte_def [of a] split: if_splits\<close>)
  next
    case (four b c d)
    show thesis by (rule that [of a "[b, c, d]"]) (use four Cons assms in \<open>auto simp: Let_def cont_byte_def [of a] split: if_splits\<close>)
  qed
qed

lemma decode_rune_shorter [termination_simp]: "decode_rune s = Some (r, rest) \<Longrightarrow> length rest < length s"
  by (erule decode_rune_split) simp

function utf8_runes :: "bytes \<Rightarrow> nat list option" where
  "utf8_runes s =
     (if s = [] then Some []
      else case decode_rune s of None \<Rightarrow> None | Some (r, rest) \<Rightarrow> map_option (Cons r) (utf8_runes rest))"
  by pat_completeness auto
termination
  by (relation "measure length") (auto dest: decode_rune_shorter)

declare utf8_runes.simps [simp del]

abbreviation utf8_valid :: "bytes \<Rightarrow> bool" where
  "utf8_valid s \<equiv> utf8_runes s \<noteq> None"

text \<open>\<^verbatim>\<open>strings.ToValidUTF8\<close>: each run of invalid bytes becomes one replacement.\<close>

function to_valid :: "bool \<Rightarrow> bytes \<Rightarrow> bytes \<Rightarrow> bytes" where
  "to_valid inRun rep s =
     (if s = [] then []
      else case decode_rune s of
        Some (r, rest) \<Rightarrow> take (length s - length rest) s @ to_valid False rep rest
      | None \<Rightarrow> (if inRun then [] else rep) @ to_valid True rep (tl s))"
  by pat_completeness auto
termination
  by (relation "measure (\<lambda>(_, _, s). length s)") (auto dest: decode_rune_shorter)

declare to_valid.simps [simp del]

text \<open>The loop that moves a cut back to the start of a rune.\<close>

fun rune_cut :: "bytes \<Rightarrow> nat \<Rightarrow> nat" where
  "rune_cut s 0 = 0"
| "rune_cut s (Suc n) = (if cont_byte (s ! Suc n) then rune_cut s n else Suc n)"

text \<open>\<^verbatim>\<open>unicode.IsSpace\<close>, and \<^verbatim>\<open>strings.TrimSpace(s) == ""\<close> on valid text.\<close>

definition IsSpace :: "nat \<Rightarrow> bool" where
  "IsSpace r \<longleftrightarrow> (9 \<le> r \<and> r \<le> 13) \<or> (0x2000 \<le> r \<and> r \<le> 0x200A) \<or>
     r \<in> {0x20, 0x85, 0xA0, 0x1680, 0x2028, 0x2029, 0x202F, 0x205F, 0x3000}"

definition is_blank :: "bytes \<Rightarrow> bool" where
  "is_blank s \<longleftrightarrow> (case utf8_runes s of None \<Rightarrow> False | Some rs \<Rightarrow> list_all IsSpace rs)"

section \<open>Valid text\<close>

lemma utf8_Nil [simp]: "utf8_runes [] = Some []"
  by (simp add: utf8_runes.simps)

lemma utf8_step: "decode_rune s = Some (r, rest) \<Longrightarrow> utf8_runes s = map_option (Cons r) (utf8_runes rest)"
  by (subst utf8_runes.simps) auto

lemma utf8_validE:
  assumes "utf8_valid s" "s \<noteq> []"
  obtains r rest where "decode_rune s = Some (r, rest)" "utf8_valid rest"
  using assms by (subst (asm) utf8_runes.simps) (auto split: option.splits)

lemma utf8_valid_append: "utf8_valid s \<Longrightarrow> utf8_valid t \<Longrightarrow> utf8_valid (s @ t)"
proof (induction s rule: measure_induct_rule [where f = length])
  case (less s)
  show ?case
  proof (cases "s = []")
    case False
    obtain r rest where d: "decode_rune s = Some (r, rest)" "utf8_valid rest" using utf8_validE [OF less.prems(1) False] .
    obtain a us where s: "s = a # us @ rest" "\<And>t. decode_rune (a # us @ t) = Some (r, t)"
      using d(1) by (rule decode_rune_split) (rule that)
    have "utf8_valid (rest @ t)" using less.IH [OF decode_rune_shorter [OF d(1)] d(2) less.prems(2)] .
    then show ?thesis using utf8_step [OF s(2) [of "rest @ t"]] s(1) by auto
  qed (use less in simp)
qed

lemma to_valid_valid: "utf8_valid rep \<Longrightarrow> utf8_valid (to_valid inRun rep s)"
proof (induction inRun rep s rule: to_valid.induct)
  case (1 inRun rep s)
  show ?case
  proof (cases "s = []")
    case True
    then show ?thesis by (simp add: to_valid.simps)
  next
    case False
    show ?thesis
    proof (cases "decode_rune s")
      case None
      then show ?thesis using 1(1) [OF False None 1(3)] False 1(3) by (subst to_valid.simps) (simp add: utf8_valid_append)
    next
      case (Some x)
      obtain r rest where x: "x = (r, rest)" by (cases x)
      obtain a us where s: "s = a # us @ rest" "\<And>t. decode_rune (a # us @ t) = Some (r, t)"
        using Some unfolding x by (rule decode_rune_split) (rule that)
      have "utf8_valid (a # us)" using utf8_step [OF s(2) [of "[]"]] by simp
      then have "utf8_valid ((a # us) @ to_valid False rep rest)"
        using 1(2) [OF False Some x [symmetric] 1(3)] by (rule utf8_valid_append)
      then show ?thesis using Some x s(1) by (subst to_valid.simps) simp
    qed
  qed
qed

lemma utf8_valid_take:
  "utf8_valid s \<Longrightarrow> i < length s \<Longrightarrow> \<not> cont_byte (s ! i) \<Longrightarrow> utf8_valid (take i s)"
proof (induction s arbitrary: i rule: measure_induct_rule [where f = length])
  case (less s)
  have n: "s \<noteq> []" using less.prems(2) by auto
  obtain r rest where d: "decode_rune s = Some (r, rest)" "utf8_valid rest" using utf8_validE [OF less.prems(1) n] .
  obtain a us where s: "s = a # us @ rest" "list_all cont_byte us" "\<And>t. decode_rune (a # us @ t) = Some (r, t)"
    using d(1) by (rule decode_rune_split) (rule that)
  show ?case
  proof (cases "i = 0 \<or> Suc (length us) \<le> i")
    case True
    show ?thesis
    proof (cases "i = 0")
      case False
      then have l: "Suc (length us) \<le> i" using True by simp
      let ?j = "i - Suc (length us)"
      have i: "i = Suc (length us + ?j)" using l by simp
      have "rest ! ?j = s ! i" by (subst i) (simp add: s(1) nth_append)
      moreover have "?j < length rest" using less.prems(2) l s(1) by simp
      ultimately have "utf8_valid (take ?j rest)"
        using less.prems(3) by (intro less.IH [OF decode_rune_shorter [OF d(1)] d(2)]) simp_all
      moreover have "take i s = a # us @ take ?j rest" using l s(1) by (cases i) simp_all
      ultimately show ?thesis using utf8_step [OF s(3) [of "take ?j rest"]] by auto
    qed simp
  next
    case False
    then have "s ! i \<in> set us" using s(1) by (auto simp: nth_Cons' nth_append)
    then show ?thesis using s(2) less.prems(3) by (auto simp: list_all_iff)
  qed
qed

lemma rune_cut_le: "rune_cut s n \<le> n"
  by (induction s n rule: rune_cut.induct) auto

lemma rune_cut_start: "rune_cut s n = 0 \<or> \<not> cont_byte (s ! rune_cut s n)"
  by (induction s n rule: rune_cut.induct) auto

lemma rune_cut_valid:
  assumes "utf8_valid s" "n < length s"
  shows "utf8_valid (take (rune_cut s n) s)"
  using utf8_valid_take [OF assms(1), of "rune_cut s n"] rune_cut_start [of s n] rune_cut_le [of s n] assms(2) by fastforce

end
