(* ===== verification/WalFormat.thy ===== *)
theory WalFormat
  imports GoCrypto Sequence
begin

text \<open>
  The on-disk record format of the write-ahead log and the audit log
  (\<^verbatim>\<open>internal/wal/format.go\<close>) and its sequential reader (\<^verbatim>\<open>internal/wal/reader.go\<close>).

  A file is a header followed by frames; a frame carries its payload length, index, type
  and a tag over all of them.  Version 2 tags are HMAC-SHA-256, version 1 tags CRC-32C.
  \<^verbatim>\<open>codec.mac\<close> panics when it has no key, so everything that calls it returns an
  option, \<^const>\<open>None\<close> being the panic.  Readers read a file's content as a byte list;
  read errors of the operating system are outside the model.  Offsets are naturals: an
  \<^verbatim>\<open>int64\<close> offset cannot overflow on a file that exists.
\<close>

section \<open>Constants and the codec\<close>

definition FormatVersion :: u32 where "FormatVersion = 2"
definition formatVersionV1 :: u32 where "formatVersionV1 = 1"
definition MACSize :: nat where "MACSize = 32"
definition crcSize :: nat where "crcSize = 4"
definition frameCoveredBytes :: nat where "frameCoveredBytes = 16"
definition FileHeaderSize :: nat where "FileHeaderSize = 16 + MACSize"
definition fileHeaderSizeV1 :: nat where "fileHeaderSizeV1 = 16"
definition MaxPayloadSize :: nat where "MaxPayloadSize = 1048576"

lemmas wal_sizes [simp] = MACSize_def crcSize_def frameCoveredBytes_def FileHeaderSize_def
  fileHeaderSizeV1_def

record codec =
  cd_version :: u32
  cd_key :: bytes
  cd_context :: bytes

definition isV1 :: "codec \<Rightarrow> bool" where
  "isV1 c \<longleftrightarrow> cd_version c = formatVersionV1"

definition tagSize :: "codec \<Rightarrow> nat" where
  "tagSize c = (if isV1 c then crcSize else MACSize)"

definition frameHeaderSize :: "codec \<Rightarrow> nat" where
  "frameHeaderSize c = frameCoveredBytes + tagSize c"

definition fileHeaderSize :: "codec \<Rightarrow> nat" where
  "fileHeaderSize c = (if isV1 c then fileHeaderSizeV1 else FileHeaderSize)"

definition fileHeaderCovered :: "codec \<Rightarrow> nat" where
  "fileHeaderCovered c = (if isV1 c then 12 else frameCoveredBytes)"

definition macContextPrefix :: bytes where
  "macContextPrefix = ''agent-bus/wal-checkpoint-tail/v1'' @ [CHR 0x00]"

definition mac :: "codec \<Rightarrow> bytes \<Rightarrow> bytes \<Rightarrow> bytes option" where
  "mac c covered payload =
     (if isV1 c \<or> cd_key c = [] then None
      else Some (hmac_sha256 (cd_key c)
             ((if cd_context c \<noteq> [] then macContextPrefix @ cd_context c else []) @ covered @ payload)))"

definition frameChecksum :: "bytes \<Rightarrow> bytes \<Rightarrow> u32" where
  "frameChecksum hdr16 payload = crc32_update (crc32_checksum hdr16) payload"

definition verifyTag :: "codec \<Rightarrow> bytes \<Rightarrow> bytes \<Rightarrow> bytes \<Rightarrow> bool option" where
  "verifyTag c covered payload stored =
     (if isV1 c then
        Some (length stored = crcSize \<and> frameChecksum covered payload = Uint32 stored)
      else if length stored \<noteq> MACSize then Some False
      else map_option (\<lambda>m. m = stored) (mac c covered payload))"

definition tagFor :: "codec \<Rightarrow> bytes \<Rightarrow> bytes \<Rightarrow> bytes option" where
  "tagFor c covered payload =
     (if isV1 c then Some (PutUint32 (frameChecksum covered payload)) else mac c covered payload)"

section \<open>Types, kinds and errors\<close>

definition TypePrepare :: u16 where "TypePrepare = 1"
definition TypeCommit :: u16 where "TypeCommit = 2"
definition TypeAbort :: u16 where "TypeAbort = 3"
definition TypeAuditMessage :: u16 where "TypeAuditMessage = 4"

definition Known :: "u16 \<Rightarrow> bool" where
  "Known t \<longleftrightarrow> TypePrepare \<le> t \<and> t \<le> TypeAuditMessage"

definition KindWAL :: "8 word" where "KindWAL = 1"
definition KindAudit :: "8 word" where "KindAudit = 2"
definition magicWAL :: string where "magicWAL = ''AGNTBUSW''"
definition magicAudit :: string where "magicAudit = ''AGNTBUSA''"

definition magic :: "8 word \<Rightarrow> string" where
  "magic k = (if k = KindWAL then magicWAL else if k = KindAudit then magicAudit else '''')"

definition kindForMagic :: "string \<Rightarrow> 8 word" where
  "kindForMagic m = (if m = magicWAL then KindWAL else if m = magicAudit then KindAudit else 0)"

datatype corrupt_reason =
    EmptyFile
  | HeaderTruncated nat nat
  | HeaderWrongKind "8 word"
  | HeaderBadMagic
  | HeaderVersion u32
  | HeaderTag
  | FrameHeaderTruncated nat nat
  | ReservedNonZero u16
  | PayloadTooLong nat
  | PayloadTruncated nat nat
  | TagMismatch
  | IndexNotAfter u64 u64

record corrupt_error =
  ce_offset :: nat
  ce_reason :: corrupt_reason
  ce_eof :: bool
  ce_frame_end :: nat
  ce_intact :: bool

datatype wal_error =
    WalPanic
  | ErrCorrupt corrupt_error
  | ErrUnknownKind
  | ErrUnknownType
  | ErrPayloadTooLarge
  | ErrPoisoned
  | ErrClosed
  | ErrIO
  | WalRefused

definition corruptf :: "nat \<Rightarrow> corrupt_reason \<Rightarrow> corrupt_error" where
  "corruptf off r = \<lparr>ce_offset = off, ce_reason = r, ce_eof = False, ce_frame_end = 0, ce_intact = False\<rparr>"

section \<open>Records, headers and frames\<close>

record wal_record =
  rec_index :: u64
  rec_type :: u16
  rec_payload :: bytes
  rec_offset :: nat
  rec_v1 :: bool

definition frameSize :: "wal_record \<Rightarrow> nat" where
  "frameSize r = (if rec_v1 r then frameCoveredBytes + crcSize + length (rec_payload r)
                  else frameCoveredBytes + MACSize + length (rec_payload r))"

definition pad_to :: "nat \<Rightarrow> bytes \<Rightarrow> bytes" where
  "pad_to n b = take n b @ replicate (n - length b) (CHR 0x00)"

definition header_covered :: "codec \<Rightarrow> 8 word \<Rightarrow> bytes" where
  "header_covered c k = pad_to (fileHeaderCovered c) (pad_to 8 (magic k) @ PutUint32 (cd_version c))"

definition makeFileHeader :: "codec \<Rightarrow> 8 word \<Rightarrow> bytes option" where
  "makeFileHeader c k =
     map_option (\<lambda>tag. header_covered c k @ tag) (tagFor c (header_covered c k) [])"

definition parseFileHeader :: "codec \<Rightarrow> bytes \<Rightarrow> 8 word \<Rightarrow> wal_error + unit" where
  "parseFileHeader c b want =
     (let size = fileHeaderSize c; m = take 8 b; v = Uint32 (take 4 (drop 8 b)); n = fileHeaderCovered c in
      if length b < size then Inl (ErrCorrupt (corruptf 0 (HeaderTruncated (length b) size)))
      else if m \<noteq> magic want then
        (if kindForMagic m \<noteq> 0 then Inl (ErrCorrupt (corruptf 0 (HeaderWrongKind (kindForMagic m))))
         else Inl (ErrCorrupt (corruptf 0 HeaderBadMagic)))
      else if v \<noteq> cd_version c then Inl (ErrCorrupt (corruptf 0 (HeaderVersion v)))
      else bindR (orErr (verifyTag c (take n b) [] (take (size - n) (drop n b))) WalPanic) (\<lambda>ok.
      if \<not> ok then Inl (ErrCorrupt (corruptf 0 HeaderTag)) else Inr ()))"

definition frame_covered :: "u64 \<Rightarrow> u16 \<Rightarrow> bytes \<Rightarrow> bytes" where
  "frame_covered index t payload =
     PutUint32 (word_of_nat (length payload)) @ PutUint64 index @ PutUint16 t @ PutUint16 0"

definition encodeFrame :: "codec \<Rightarrow> u64 \<Rightarrow> u16 \<Rightarrow> bytes \<Rightarrow> bytes option" where
  "encodeFrame c index t payload =
     map_option (\<lambda>tag. frame_covered index t payload @ tag @ payload)
       (tagFor c (frame_covered index t payload) payload)"

section \<open>The reader\<close>

datatype frame_result = FrameEOF | FrameErr wal_error | FrameOk wal_record bytes

definition damaged :: "nat \<Rightarrow> nat \<Rightarrow> corrupt_reason \<Rightarrow> frame_result" where
  "damaged off frameEnd r = FrameErr (ErrCorrupt ((corruptf off r)\<lparr>ce_frame_end := frameEnd\<rparr>))"

text \<open>\<open>readFrame c r off\<close> reads one frame from the unread bytes \<open>r\<close>, which start at \<open>off\<close>.\<close>

definition readFrame :: "codec \<Rightarrow> bytes \<Rightarrow> nat \<Rightarrow> frame_result" where
  "readFrame c r off =
     (let hs = frameHeaderSize c; hdr = take hs r in
      if r = [] then FrameEOF
      else if length r < hs then
        FrameErr (ErrCorrupt ((corruptf off (FrameHeaderTruncated (length r) hs))\<lparr>ce_eof := True\<rparr>))
      else
      let payloadLen = unat (Uint32 (take 4 hdr));
          index = Uint64 (take 8 (drop 4 hdr));
          typ = Uint16 (take 2 (drop 12 hdr));
          reserved = Uint16 (take 2 (drop 14 hdr));
          stored = drop frameCoveredBytes hdr;
          frameEnd = off + hs + payloadLen;
          rest = drop hs r in
      if reserved \<noteq> 0 then damaged off frameEnd (ReservedNonZero reserved)
      else if MaxPayloadSize < payloadLen then damaged off frameEnd (PayloadTooLong payloadLen)
      else if length rest < payloadLen then
        FrameErr (ErrCorrupt ((corruptf off (PayloadTruncated (length rest) payloadLen))
                    \<lparr>ce_eof := True, ce_frame_end := frameEnd\<rparr>))
      else
      let payload = take payloadLen rest in
      (case verifyTag c (take frameCoveredBytes hdr) payload stored of
         None \<Rightarrow> FrameErr WalPanic
       | Some False \<Rightarrow> damaged off frameEnd TagMismatch
       | Some True \<Rightarrow>
           FrameOk \<lparr>rec_index = index, rec_type = typ, rec_payload = payload, rec_offset = off,
                    rec_v1 = isV1 c\<rparr> (drop payloadLen rest)))"

lemma readFrame_shorter: "readFrame c r off = FrameOk rc rest \<Longrightarrow> length rest < length r"
  by (auto simp: readFrame_def Let_def damaged_def frameHeaderSize_def split: if_splits option.splits bool.splits)

text \<open>
  The frame loop of \<^verbatim>\<open>scanFrom\<close>.  The callback \<open>fn\<close> threads its own state and may stop
  the scan; the result is the offset of the first byte not accepted, the error, and the
  callback's state.
\<close>

function scan_frames ::
  "codec \<Rightarrow> ('s \<Rightarrow> wal_record \<Rightarrow> wal_error option \<times> 's) \<Rightarrow> bytes \<Rightarrow> nat \<Rightarrow> u64 \<Rightarrow> 's \<Rightarrow>
     nat \<times> wal_error option \<times> 's" where
  "scan_frames c fn r off lastIndex s =
     (case readFrame c r off of
        FrameEOF \<Rightarrow> (off, None, s)
      | FrameErr e \<Rightarrow> (off, Some e, s)
      | FrameOk rc rest \<Rightarrow>
          if rec_index rc \<le> lastIndex then
            (off, Some (ErrCorrupt ((corruptf off (IndexNotAfter (rec_index rc) lastIndex))
                          \<lparr>ce_intact := True, ce_frame_end := off + frameSize rc\<rparr>)), s)
          else (case fn s rc of
                  (Some e, s') \<Rightarrow> (off, Some e, s')
                | (None, s') \<Rightarrow> scan_frames c fn rest (off + frameSize rc) (rec_index rc) s'))"
  by pat_completeness auto
termination
  by (relation "measure (\<lambda>(c, fn, r, off, l, s). length r)") (auto dest: readFrame_shorter)

declare scan_frames.simps [simp del]

definition scanFrom ::
  "codec \<Rightarrow> bytes \<Rightarrow> 8 word \<Rightarrow> ('s \<Rightarrow> wal_record \<Rightarrow> wal_error option \<times> 's) \<Rightarrow> 's \<Rightarrow>
     nat \<times> wal_error option \<times> 's" where
  "scanFrom c r kind fn s =
     (let hs = fileHeaderSize c in
      if magic kind = '''' then (0, Some ErrUnknownKind, s)
      else if r = [] then (0, Some (ErrCorrupt ((corruptf 0 EmptyFile)\<lparr>ce_eof := True\<rparr>)), s)
      else if length r < hs then
        (0, Some (ErrCorrupt ((corruptf 0 (HeaderTruncated (length r) hs))\<lparr>ce_eof := True\<rparr>)), s)
      else case parseFileHeader c (take hs r) kind of
        Inl e \<Rightarrow> (0, Some e, s)
      | Inr _ \<Rightarrow> scan_frames c fn (drop hs r) hs 0 s)"

text \<open>\<^verbatim>\<open>ScanAll\<close>, with the codec \<^verbatim>\<open>resolveCodec\<close> found: collect every accepted record.\<close>

definition collect :: "wal_record list \<Rightarrow> wal_record \<Rightarrow> wal_error option \<times> wal_record list" where
  "collect recs rc = (None, recs @ [rc])"

definition ScanAll :: "codec \<Rightarrow> bytes \<Rightarrow> 8 word \<Rightarrow> nat \<times> wal_error option \<times> wal_record list" where
  "ScanAll c r kind = scanFrom c r kind collect []"

section \<open>Tags\<close>

text \<open>A codec that can compute its tags: version 1 needs no key, version 2 needs one.\<close>

definition codec_ready :: "codec \<Rightarrow> bool" where
  "codec_ready c \<longleftrightarrow> isV1 c \<or> cd_key c \<noteq> []"

lemma tagFor_ready: "codec_ready c \<longleftrightarrow> (\<exists>t. tagFor c a p = Some t)"
  by (auto simp: codec_ready_def tagFor_def mac_def)

lemma length_tagFor: "tagFor c a p = Some t \<Longrightarrow> length t = tagSize c"
  by (auto simp: tagFor_def mac_def tagSize_def split: if_splits)

text \<open>Verification accepts exactly the tag the encoder writes.\<close>

lemma verifyTag_iff: "verifyTag c a p st = Some True \<longleftrightarrow> tagFor c a p = Some st"
  by (auto simp: verifyTag_def tagFor_def mac_def PutUint_Uint)

lemma verifyTag_panic: "codec_ready c \<Longrightarrow> verifyTag c a p st \<noteq> None"
  by (auto simp: verifyTag_def mac_def codec_ready_def)

section \<open>Frames\<close>

lemma length_frame_covered [simp]: "length (frame_covered i t p) = 16"
  by (simp add: frame_covered_def)

lemma frameHeaderSize_ge: "16 < frameHeaderSize c"
  by (simp add: frameHeaderSize_def tagSize_def)

lemma frame_covered_fields:
  "take 4 (frame_covered i t p @ xs) = PutUint32 (word_of_nat (length p))"
  "take 8 (drop 4 (frame_covered i t p @ xs)) = PutUint64 i"
  "take 2 (drop 12 (frame_covered i t p @ xs)) = PutUint16 t"
  "take 2 (drop 14 (frame_covered i t p @ xs)) = PutUint16 0"
  by (simp_all add: frame_covered_def)

lemma unat_payload_len: "length p \<le> MaxPayloadSize \<Longrightarrow> unat (word_of_nat (length p) :: u32) = length p"
  by (simp add: unat_of_nat MaxPayloadSize_def)

lemma readFrame_encode:
  assumes "encodeFrame c i t p = Some f" "length p \<le> MaxPayloadSize"
  shows "readFrame c (f @ rest) off =
    FrameOk \<lparr>rec_index = i, rec_type = t, rec_payload = p, rec_offset = off, rec_v1 = isV1 c\<rparr> rest"
proof -
  obtain tag where tag: "tagFor c (frame_covered i t p) p = Some tag"
    and f: "f = frame_covered i t p @ tag @ p"
    using assms(1) by (auto simp: encodeFrame_def)
  let ?hdr = "frame_covered i t p @ tag"
  have len: "length ?hdr = frameHeaderSize c"
    using length_tagFor [OF tag] by (simp add: frameHeaderSize_def)
  have parts: "take (frameHeaderSize c) (f @ rest) = ?hdr" "drop (frameHeaderSize c) (f @ rest) = p @ rest"
    using len by (simp_all add: f flip: len)
  have ge: "\<not> length (f @ rest) < frameHeaderSize c" "f @ rest \<noteq> []"
    using len frameHeaderSize_ge [of c] by (auto simp: f)
  have ok: "verifyTag c (frame_covered i t p) p tag = Some True"
    using tag by (simp add: verifyTag_iff)
  show ?thesis
    unfolding readFrame_def Let_def parts frame_covered_fields
    using ge ok assms(2) by (simp add: unat_payload_len not_less)
qed

lemma covered_rebuild:
  assumes "16 \<le> length r" "Uint16 (take 2 (drop 14 r)) = 0"
    and "unat (Uint32 (take 4 r)) = length p" "length p \<le> MaxPayloadSize"
  shows "take 16 r = frame_covered (Uint64 (take 8 (drop 4 r))) (Uint16 (take 2 (drop 12 r))) p"
proof -
  have "(word_of_nat (length p) :: u32) = Uint32 (take 4 r)"
    unfolding assms(3) [symmetric] by simp
  moreover have "PutUint16 0 = take 2 (drop 14 r)"
    using assms(1,2) PutUint_Uint(1) [of "take 2 (drop 14 r)"] by simp
  moreover have "take 16 r = take 4 r @ take 8 (drop 4 r) @ take 2 (drop 12 r) @ take 2 (drop 14 r)"
    using take_add [of 4 12 r] take_add [of 8 4 "drop 4 r"] take_add [of 2 2 "drop 12 r"] by simp
  ultimately show ?thesis
    using assms(1) by (simp add: frame_covered_def PutUint_Uint)
qed

text \<open>
  The reader accepts exactly the encoder's output: a frame it hands on is the unique
  encoding of the record it hands on.
\<close>

lemma readFrame_ok_iff:
  "readFrame c r off = FrameOk rc rest \<longleftrightarrow>
     (\<exists>f. encodeFrame c (rec_index rc) (rec_type rc) (rec_payload rc) = Some f \<and> r = f @ rest) \<and>
     length (rec_payload rc) \<le> MaxPayloadSize \<and> rec_offset rc = off \<and> rec_v1 rc = isV1 c"
    (is "?L \<longleftrightarrow> ?R")
proof
  assume ?R
  then show ?L by (auto simp: readFrame_encode)
next
  assume L: ?L
  let ?hs = "frameHeaderSize c"
  let ?n = "unat (Uint32 (take 4 (take ?hs r)))"
  have acc: "\<not> length r < ?hs" "Uint16 (take 2 (drop 14 (take ?hs r))) = 0" "\<not> MaxPayloadSize < ?n"
    "\<not> length (drop ?hs r) < ?n"
    "verifyTag c (take 16 (take ?hs r)) (take ?n (drop ?hs r)) (drop 16 (take ?hs r)) = Some True"
    and rc: "rc = \<lparr>rec_index = Uint64 (take 8 (drop 4 (take ?hs r))),
      rec_type = Uint16 (take 2 (drop 12 (take ?hs r))), rec_payload = take ?n (drop ?hs r),
      rec_offset = off, rec_v1 = isV1 c\<rparr>" "rest = drop ?n (drop ?hs r)"
    using L unfolding readFrame_def Let_def damaged_def
    by (auto split: if_splits option.splits bool.splits)
  let ?p = "take ?n (drop ?hs r)"
  have lp: "length ?p = ?n" using acc(4) by simp
  have cov: "take 16 (take ?hs r) =
      frame_covered (rec_index rc) (rec_type rc) (rec_payload rc)"
    unfolding rc using acc(1,2,3) lp frameHeaderSize_ge [of c]
    by (subst covered_rebuild [of _ ?p]) auto
  have "encodeFrame c (rec_index rc) (rec_type rc) (rec_payload rc) =
      Some (take 16 (take ?hs r) @ drop 16 (take ?hs r) @ ?p)"
    using acc(5) unfolding encodeFrame_def cov [symmetric] verifyTag_iff by (simp add: rc)
  moreover have "r = (take 16 (take ?hs r) @ drop 16 (take ?hs r) @ ?p) @ rest"
    using rc(2) by (metis append.assoc append_take_drop_id)
  ultimately show ?R using acc(3) lp rc(1) by auto
qed

section \<open>Whole files\<close>

definition frame_bytes :: "codec \<Rightarrow> wal_record \<Rightarrow> bytes" where
  "frame_bytes c rc =
     (case encodeFrame c (rec_index rc) (rec_type rc) (rec_payload rc) of None \<Rightarrow> [] | Some f \<Rightarrow> f)"

lemma frame_bytes_ready:
  "codec_ready c \<Longrightarrow>
     encodeFrame c (rec_index rc) (rec_type rc) (rec_payload rc) = Some (frame_bytes c rc)"
  using tagFor_ready [of c] by (auto simp: frame_bytes_def encodeFrame_def split: option.splits)

lemma length_frame_bytes:
  assumes "codec_ready c" "rec_v1 rc = isV1 c"
  shows "length (frame_bytes c rc) = frameSize rc"
proof -
  obtain tag where "tagFor c (frame_covered (rec_index rc) (rec_type rc) (rec_payload rc))
      (rec_payload rc) = Some tag"
    using assms(1) tagFor_ready by blast
  then show ?thesis
    using assms(2) length_tagFor [of c _ _ tag]
    by (simp add: frame_bytes_def encodeFrame_def frameSize_def tagSize_def)
qed

text \<open>
  A well-formed run of records: written back to back from \<open>off\<close>, with indices strictly
  increasing above \<open>lastIndex\<close>.
\<close>

fun wal_chain :: "codec \<Rightarrow> nat \<Rightarrow> u64 \<Rightarrow> wal_record list \<Rightarrow> bool" where
  "wal_chain c off lastIndex [] \<longleftrightarrow> True"
| "wal_chain c off lastIndex (rc # rcs) \<longleftrightarrow>
     lastIndex < rec_index rc \<and> length (rec_payload rc) \<le> MaxPayloadSize \<and>
     rec_offset rc = off \<and> rec_v1 rc = isV1 c \<and>
     wal_chain c (off + frameSize rc) (rec_index rc) rcs"

definition frames_bytes :: "codec \<Rightarrow> wal_record list \<Rightarrow> bytes" where
  "frames_bytes c rcs = concat (map (frame_bytes c) rcs)"

definition chain_end :: "nat \<Rightarrow> wal_record list \<Rightarrow> nat" where
  "chain_end off rcs = off + sum_list (map frameSize rcs)"

definition chain_last :: "u64 \<Rightarrow> wal_record list \<Rightarrow> u64" where
  "chain_last l rcs = (if rcs = [] then l else rec_index (last rcs))"

lemma chain_end_Cons [simp]: "chain_end off (rc # rcs) = chain_end (off + frameSize rc) rcs"
  by (simp add: chain_end_def)

lemma chain_last_Cons [simp]: "chain_last l (rc # rcs) = chain_last (rec_index rc) rcs"
  by (simp add: chain_last_def)

lemma chain_Nil [simp]: "chain_end off [] = off" "chain_last l [] = l" "frames_bytes c [] = []"
  by (simp_all add: chain_end_def chain_last_def frames_bytes_def)

lemma frames_bytes_Cons [simp]: "frames_bytes c (rc # rcs) = frame_bytes c rc @ frames_bytes c rcs"
  by (simp add: frames_bytes_def)

lemma wal_chain_sorted: "wal_chain c off l rcs \<Longrightarrow> sorted_wrt (<) (l # map rec_index rcs)"
proof (induction rcs arbitrary: off l)
  case (Cons rc rcs)
  then have "sorted_wrt (<) (rec_index rc # map rec_index rcs)" "l < rec_index rc" by auto
  then show ?case by (auto intro: less_trans)
qed simp

lemma wal_chain_length:
  assumes "codec_ready c" "wal_chain c off l rcs"
  shows "length (frames_bytes c rcs) = sum_list (map frameSize rcs)"
  using assms(2)
  by (induction rcs arbitrary: off l) (auto simp: length_frame_bytes [OF assms(1)])

lemma scan_step_ok:
  assumes "codec_ready c" "wal_chain c off l (rc # rcs)"
  shows "scan_frames c collect (frame_bytes c rc @ r) off l acc =
         scan_frames c collect r (off + frameSize rc) (rec_index rc) (acc @ [rc])"
proof -
  have "readFrame c (frame_bytes c rc @ r) off = FrameOk rc r"
    using assms frame_bytes_ready [OF assms(1)] by (auto simp: readFrame_ok_iff)
  moreover have "\<not> rec_index rc \<le> l" using assms(2) by (simp add: not_le)
  ultimately show ?thesis by (subst scan_frames.simps) (simp add: collect_def)
qed

lemma scan_chain:
  assumes "codec_ready c" "wal_chain c off l rcs"
  shows "scan_frames c collect (frames_bytes c rcs @ r) off l acc =
         scan_frames c collect r (chain_end off rcs) (chain_last l rcs) (acc @ rcs)"
  using assms(2)
proof (induction rcs arbitrary: off l acc)
  case (Cons rc rcs)
  then show ?case using scan_step_ok [OF assms(1) Cons.prems] by simp
qed simp

lemma scan_frames_EOF [simp]: "scan_frames c fn [] off l s = (off, None, s)"
  by (subst scan_frames.simps) (simp add: readFrame_def Let_def)

text \<open>
  Whatever a scan hands on is a chain, the bytes before its stopping offset are exactly the
  encodings of those records, and only a file consumed to the end scans without an error.
\<close>

lemma scan_sound:
  assumes "codec_ready c" "scan_frames c collect r off l acc = (e, err, out)"
  shows "\<exists>rcs tail. out = acc @ rcs \<and> r = frames_bytes c rcs @ tail \<and> wal_chain c off l rcs \<and>
    e = chain_end off rcs \<and> (err = None \<longleftrightarrow> tail = [])"
  using assms(2)
proof (induction "length r" arbitrary: r off l acc rule: less_induct)
  case less
  show ?case
  proof (cases "readFrame c r off")
    case FrameEOF
    then have "r = []"
      by (auto simp: readFrame_def Let_def damaged_def split: if_splits option.splits bool.splits)
    then show ?thesis using less.prems FrameEOF by (intro exI [of _ "[]"]) auto
  next
    case (FrameErr er)
    then have "r \<noteq> []" by (auto simp: readFrame_def)
    then show ?thesis
      using less.prems FrameErr by (subst (asm) scan_frames.simps) (auto intro!: exI [of _ "[]"])
  next
    case (FrameOk rc rest)
    then have "r \<noteq> []" by (auto simp: readFrame_def)
    have ok: "r = frame_bytes c rc @ rest" "length (rec_payload rc) \<le> MaxPayloadSize"
      "rec_offset rc = off" "rec_v1 rc = isV1 c"
      using FrameOk by (auto simp: readFrame_ok_iff frame_bytes_def)
    show ?thesis
    proof (cases "rec_index rc \<le> l")
      case True
      then show ?thesis
        using less.prems FrameOk \<open>r \<noteq> []\<close>
        by (subst (asm) scan_frames.simps) (auto intro!: exI [of _ "[]"])
    next
      case False
      then have "scan_frames c collect rest (off + frameSize rc) (rec_index rc) (acc @ [rc]) = (e, err, out)"
        using less.prems FrameOk by (subst (asm) scan_frames.simps) (simp add: collect_def)
      from less.hyps [OF readFrame_shorter [OF FrameOk] this]
      obtain rcs tail where "out = acc @ rc # rcs" "rest = frames_bytes c rcs @ tail"
        "wal_chain c (off + frameSize rc) (rec_index rc) rcs"
        "e = chain_end (off + frameSize rc) rcs" "err = None \<longleftrightarrow> tail = []"
        by auto
      then show ?thesis using False ok
        by (intro exI [of _ "rc # rcs"] exI [of _ tail]) (simp add: not_le)
    qed
  qed
qed

section \<open>Headers and torn tails\<close>

lemma length_pad_to [simp]: "length (pad_to n b) = n"
  by (simp add: pad_to_def)

lemma take_pad_to: "length b \<le> n \<Longrightarrow> pad_to n b = b @ replicate (n - length b) (CHR 0x00)"
  by (simp add: pad_to_def)

lemma length_magic: "magic k \<noteq> '''' \<Longrightarrow> length (magic k) = 8"
  by (auto simp: magic_def magicWAL_def magicAudit_def split: if_splits)

lemma fileHeader_sizes:
  "fileHeaderCovered c + tagSize c = fileHeaderSize c" "12 \<le> fileHeaderCovered c"
  by (simp_all add: fileHeaderCovered_def tagSize_def fileHeaderSize_def)

lemma parse_makeFileHeader:
  assumes "codec_ready c" "magic k \<noteq> ''''"
  obtains h where "makeFileHeader c k = Some h" "length h = fileHeaderSize c"
    "parseFileHeader c h k = Inr ()"
proof -
  obtain tag where tag: "tagFor c (header_covered c k) [] = Some tag"
    using assms(1) tagFor_ready by blast
  let ?h = "header_covered c k @ tag"
  have lc: "length (header_covered c k) = fileHeaderCovered c" by (simp add: header_covered_def)
  have lt: "length tag = tagSize c" using tag by (rule length_tagFor)
  have hc: "header_covered c k = magic k @ PutUint32 (cd_version c) @
      replicate (fileHeaderCovered c - 12) (CHR 0x00)"
    using length_magic [OF assms(2)] fileHeader_sizes(2) [of c]
    by (simp add: header_covered_def take_pad_to)
  have "take 8 ?h = magic k" "take 4 (drop 8 ?h) = PutUint32 (cd_version c)"
    using length_magic [OF assms(2)] by (simp_all add: hc)
  moreover have "take (fileHeaderCovered c) ?h = header_covered c k" "drop (fileHeaderCovered c) ?h = tag"
    by (simp_all flip: lc)
  moreover have "fileHeaderSize c - fileHeaderCovered c = length tag" "length ?h = fileHeaderSize c"
    using lt lc fileHeader_sizes(1) [of c] by simp_all
  moreover have "verifyTag c (header_covered c k) [] tag = Some True"
    using tag by (simp add: verifyTag_iff)
  ultimately have "parseFileHeader c ?h k = Inr ()"
    by (simp add: parseFileHeader_def Let_def del: take_append drop_append)
  then show ?thesis
    using that [of ?h] tag lc lt fileHeader_sizes(1) [of c] by (simp add: makeFileHeader_def)
qed

lemma scanFrom_header:
  assumes "codec_ready c" "magic k \<noteq> ''''" "makeFileHeader c k = Some h"
  shows "scanFrom c (h @ r) k fn s = scan_frames c fn r (fileHeaderSize c) 0 s"
proof -
  have "length h = fileHeaderSize c" "parseFileHeader c h k = Inr ()"
    using parse_makeFileHeader [OF assms(1,2)] assms(3) by auto
  moreover have "fileHeaderSize c \<noteq> 0" by (simp add: fileHeaderSize_def)
  ultimately show ?thesis using assms(2) by (auto simp: scanFrom_def Let_def)
qed

text \<open>A frame cut anywhere inside is reported as a truncation at its own offset.\<close>

lemma readFrame_torn:
  assumes f: "encodeFrame c i t p = Some f" and p: "length p \<le> MaxPayloadSize"
    and n: "0 < n" "n < length f"
  shows "\<exists>e. readFrame c (take n f) off = FrameErr (ErrCorrupt e) \<and> ce_eof e \<and> ce_offset e = off"
proof -
  obtain tag where tag: "tagFor c (frame_covered i t p) p = Some tag"
    and f': "f = (frame_covered i t p @ tag) @ p"
    using f by (auto simp: encodeFrame_def)
  let ?hs = "frameHeaderSize c"
  have len: "length (frame_covered i t p @ tag) = ?hs"
    using length_tagFor [OF tag] by (simp add: frameHeaderSize_def)
  have ne: "take n f \<noteq> []" using n by auto
  show ?thesis
  proof (cases "n < ?hs")
    case True
    then show ?thesis using ne n
      by (simp add: readFrame_def Let_def corruptf_def)
  next
    case False
    then have hdr: "take n f = (frame_covered i t p @ tag) @ take (n - ?hs) p"
      using len by (simp add: f')
    have parts: "take ?hs (take n f) = frame_covered i t p @ tag" "drop ?hs (take n f) = take (n - ?hs) p"
      unfolding hdr by (simp_all flip: len)
    have "length (take (n - ?hs) p) < length p" using False n len by (simp add: f')
    moreover have "\<not> length (take n f) < ?hs" using False n by simp
    ultimately show ?thesis
      unfolding readFrame_def Let_def parts frame_covered_fields
      using ne p by (simp add: unat_payload_len corruptf_def del: length_take)
  qed
qed

section \<open>Properties\<close>

text \<open>
  C35. A frame is accepted exactly when it is the encoding of the record that is handed on:
  its tag, length and reserved field leave no second byte string for the same record.
\<close>

theorem frame_canonical:
  "readFrame c r off = FrameOk rc rest \<longleftrightarrow>
     (\<exists>f. encodeFrame c (rec_index rc) (rec_type rc) (rec_payload rc) = Some f \<and> r = f @ rest) \<and>
     length (rec_payload rc) \<le> MaxPayloadSize \<and> rec_offset rc = off \<and> rec_v1 rc = isV1 c"
  by (rule readFrame_ok_iff)

text \<open>
  C24. A file cut by a crash loses nothing before the cut: a header, any chain of complete
  frames and a proper, non-empty part of one more frame scan to exactly the complete
  records, with a truncation reported at the offset where the complete frames end.
\<close>

theorem torn_tail_keeps_prefix:
  assumes "codec_ready c" "makeFileHeader c k = Some h" "magic k \<noteq> ''''"
    and "wal_chain c (fileHeaderSize c) 0 rcs"
    and "encodeFrame c i t p = Some f" "length p \<le> MaxPayloadSize" "0 < n" "n < length f"
  shows "\<exists>e. ScanAll c (h @ frames_bytes c rcs @ take n f) k =
      (chain_end (fileHeaderSize c) rcs, Some (ErrCorrupt e), rcs) \<and>
    ce_eof e \<and> ce_offset e = chain_end (fileHeaderSize c) rcs"
proof -
  let ?off = "chain_end (fileHeaderSize c) rcs"
  obtain e where e: "readFrame c (take n f) ?off = FrameErr (ErrCorrupt e)" "ce_eof e" "ce_offset e = ?off"
    using readFrame_torn [OF assms(5-8)] by blast
  then show ?thesis
    by (simp add: ScanAll_def scanFrom_header [OF assms(1,3,2)] scan_chain [OF assms(1,4)]
        scan_frames.simps [of c collect "take n f"])
qed

definition demo_codec :: codec where
  "demo_codec = \<lparr>cd_version = 1, cd_key = [], cd_context = []\<rparr>"

definition demo_record :: wal_record where
  "demo_record = \<lparr>rec_index = 7, rec_type = TypePrepare, rec_payload = ''abc'', rec_offset = 16, rec_v1 = True\<rparr>"

lemma demo_ready: "codec_ready demo_codec" "isV1 demo_codec" "magic KindWAL \<noteq> ''''"
  "fileHeaderSize demo_codec = 16" "wal_chain demo_codec 16 0 [demo_record]"
  by (simp_all add: codec_ready_def isV1_def demo_codec_def formatVersionV1_def magic_def magicWAL_def
      fileHeaderSize_def demo_record_def MaxPayloadSize_def word_less_nat_alt)

theorem torn_tail_keeps_prefix_witness:
  "\<exists>e h f. makeFileHeader demo_codec KindWAL = Some h \<and>
     encodeFrame demo_codec 8 TypeCommit ''x'' = Some f \<and>
     ScanAll demo_codec (h @ frames_bytes demo_codec [demo_record] @ take 20 f) KindWAL =
       (39, Some (ErrCorrupt e), [demo_record]) \<and> ce_eof e \<and> ce_offset e = 39"
proof -
  obtain h where h: "makeFileHeader demo_codec KindWAL = Some h"
    using parse_makeFileHeader [OF demo_ready(1,3)] .
  obtain f where f: "encodeFrame demo_codec 8 TypeCommit ''x'' = Some f" and lf: "length f = 21"
    using demo_ready(2) by (simp add: encodeFrame_def tagFor_def)
  have "chain_end (fileHeaderSize demo_codec) [demo_record] = 39"
    by (simp add: demo_ready) (simp add: demo_record_def frameSize_def)
  with torn_tail_keeps_prefix [OF demo_ready(1) h demo_ready(3), of "[demo_record]" 8 TypeCommit "''x''" f 20]
  show ?thesis using h f lf demo_ready(4,5) by (auto simp: MaxPayloadSize_def)
qed

text \<open>
  C23. Scanning is sound: whatever bytes a file holds, the records a scan hands on are
  laid out back to back with strictly increasing indices, the bytes up to the reported
  offset are exactly their encodings, and the scan succeeds only if nothing is left over.
\<close>

theorem scan_accepts_only_chains:
  assumes "codec_ready c" "ScanAll c r k = (e, err, recs)" "fileHeaderSize c \<le> e"
  shows "take e r = take (fileHeaderSize c) r @ frames_bytes c recs \<and>
    wal_chain c (fileHeaderSize c) 0 recs \<and> sorted_wrt (<) (0 # map rec_index recs) \<and>
    (err = None \<longleftrightarrow> e = length r)"
proof -
  let ?hs = "fileHeaderSize c"
  have hs: "0 < ?hs" by (simp add: fileHeaderSize_def)
  then have len: "?hs \<le> length r" and
    scan: "scan_frames c collect (drop ?hs r) ?hs 0 [] = (e, err, recs)"
    using assms(2,3) by (auto simp: ScanAll_def scanFrom_def Let_def split: if_splits sum.splits)
  obtain tail where t: "drop ?hs r = frames_bytes c recs @ tail" "wal_chain c ?hs 0 recs"
    "e = chain_end ?hs recs" "err = None \<longleftrightarrow> tail = []"
    using scan_sound [OF assms(1) scan] by auto
  have l: "length (frames_bytes c recs) = sum_list (map frameSize recs)"
    using assms(1) t(2) by (rule wal_chain_length)
  then have "r = take ?hs r @ frames_bytes c recs @ tail" "e = ?hs + length (frames_bytes c recs)"
    using t(1,3) by (metis append_take_drop_id, simp add: chain_end_def)
  moreover from this have "length r = e + length tail" using len
    by (metis append_assoc length_append length_take min_absorb2)
  ultimately show ?thesis using t(2,4) wal_chain_sorted [OF t(2)] len
    by (metis (no_types, lifting) add_cancel_left_right append_assoc append_eq_conv_conj length_0_conv
        length_append length_take min_absorb2)
qed

theorem scan_accepts_only_chains_witness:
  "\<exists>h. makeFileHeader demo_codec KindWAL = Some h \<and>
     ScanAll demo_codec (h @ frame_bytes demo_codec demo_record) KindWAL = (39, None, [demo_record]) \<and>
     take 39 (h @ frame_bytes demo_codec demo_record) =
       take 16 (h @ frame_bytes demo_codec demo_record) @ frames_bytes demo_codec [demo_record]"
proof -
  obtain h where h: "makeFileHeader demo_codec KindWAL = Some h"
    using parse_makeFileHeader [OF demo_ready(1,3)] .
  have "chain_end (fileHeaderSize demo_codec) [demo_record] = 39"
    by (simp add: demo_ready) (simp add: demo_record_def frameSize_def)
  then have s: "ScanAll demo_codec (h @ frames_bytes demo_codec [demo_record] @ []) KindWAL =
      (39, None, [demo_record])"
    unfolding ScanAll_def scanFrom_header [OF demo_ready(1,3) h]
    using scan_chain [OF demo_ready(1,5), of "[]" "[]"] demo_ready(4) by simp
  then show ?thesis
    using scan_accepts_only_chains [OF demo_ready(1) s] demo_ready(4) h by (simp del: take_append)
qed

end
