(* ===== verification/IndexFloor.thy ===== *)
theory IndexFloor
  imports GoCrypto Sequence AtomicFile
begin

text \<open>
  The durable record-index floor of the write-ahead log
  (\<^verbatim>\<open>internal/wal/indexfloor.go\<close>): a small authenticated file that says how many record
  indices are burned (\<open>written\<close>), how many are authorised (\<open>reserved\<close>) and whether the
  last run closed cleanly (\<open>sealed\<close>).  As in the suffix store, the outcome of each file
  replacement is an argument and \<open>fl_disk\<close> holds the contents a crash may leave.
\<close>

section \<open>State, encoding and decoding\<close>

definition indexFloorMagic :: string where "indexFloorMagic = ''agent-bus-wal-index-floor''"
definition indexFloorFileVersion :: nat where "indexFloorFileVersion = 4"
definition indexReserveBlock :: u64 where "indexReserveBlock = 64"
definition indexFloorTagHMAC :: string where "indexFloorTagHMAC = ''hmac-sha256=''"
definition indexFloorTagLegacy :: string where "indexFloorTagLegacy = ''sha256=''"
definition maxCredibleFloorIndex :: u64 where "maxCredibleFloorIndex = 281474976710656"

datatype floor_error =
    FloorCorrupt | FloorAbsurd | FloorNoKey | FloorEmptyDir | FloorZeroStart
  | FloorInternal | FloorWriteFailed

record index_floor =
  fl_reserved :: u64
  fl_written :: u64
  fl_sealed :: bool
  fl_existed :: bool
  fl_legacy :: bool
  fl_unverif :: bool
  fl_key :: bytes
  fl_disk :: "bytes option list"

record floor_file =
  ff_reserved :: u64
  ff_written :: u64
  ff_sealed :: bool
  ff_existed :: bool
  ff_legacy :: bool
  ff_unverified :: bool

definition floor_NL :: char where "floor_NL = CHR 0x0A"

definition indexFloorHeaderPrefix :: string where
  "indexFloorHeaderPrefix = indexFloorMagic @ '' v'' @ show_nat indexFloorFileVersion"

definition indexFloorTag :: "bytes \<Rightarrow> bytes \<Rightarrow> bytes" where
  "indexFloorTag key body = hmac_sha256 key (indexFloorHeaderPrefix @ [floor_NL] @ body)"

definition floor_body :: "u64 \<Rightarrow> u64 \<Rightarrow> bool \<Rightarrow> bytes" where
  "floor_body reserved written sealed =
     ''reserved '' @ FormatUint reserved @ floor_NL # ''written '' @ FormatUint written @
     floor_NL # ''sealed '' @ (if sealed then ''1'' else ''0'') @ [floor_NL]"

definition encodeIndexFloor :: "u64 \<Rightarrow> u64 \<Rightarrow> bool \<Rightarrow> bytes \<Rightarrow> bytes" where
  "encodeIndexFloor reserved written sealed key =
     (let body = floor_body reserved written sealed in
      indexFloorHeaderPrefix @ '' '' @ indexFloorTagHMAC @ hex_encode (indexFloorTag key body) @
      [floor_NL] @ body)"

definition satAdd :: "u64 \<Rightarrow> u64 \<Rightarrow> u64" where
  "satAdd a b = (if maxUint64 - b < a then maxUint64 else a + b)"

text \<open>\<^verbatim>\<open>verifyIndexFloorTag\<close> returns (legacy, unverified).\<close>

definition verifyIndexFloorTag ::
  "string \<Rightarrow> bytes \<Rightarrow> bytes \<Rightarrow> bool \<Rightarrow> floor_error + (bool \<times> bool)" where
  "verifyIndexFloorTag field body key keyIsOriginal =
     (if has_prefix field indexFloorTagHMAC then
        (case hex_decode (drop (length indexFloorTagHMAC) field) of
           None \<Rightarrow> Inl FloorCorrupt
         | Some want \<Rightarrow>
             if length want \<noteq> 32 then Inl FloorCorrupt
             else if indexFloorTag key body = want then Inr (False, False)
             else if \<not> keyIsOriginal then Inr (False, True)
             else Inl FloorCorrupt)
      else if has_prefix field indexFloorTagLegacy then
        (case hex_decode (drop (length indexFloorTagLegacy) field) of
           None \<Rightarrow> Inl FloorCorrupt
         | Some want \<Rightarrow>
             if length want \<noteq> 32 then Inl FloorCorrupt
             else if sha256 body \<noteq> want then Inl FloorCorrupt
             else Inr (True, False))
      else Inl FloorCorrupt)"

definition parseIndexFloorSealed :: "string \<Rightarrow> floor_error + bool" where
  "parseIndexFloorSealed line =
     (if line = ''sealed 0'' then Inr False
      else if line = ''sealed 1'' then Inr True
      else Inl FloorCorrupt)"

definition parseIndexFloorLine :: "string \<Rightarrow> string \<Rightarrow> floor_error + u64" where
  "parseIndexFloorLine line field =
     (let prefix = field @ '' ''; num = drop (length prefix) line in
      if \<not> has_prefix line prefix then Inl FloorCorrupt
      else if num = [] then Inl FloorCorrupt
      else if \<not> list_all is_digit num then Inl FloorCorrupt
      else if 1 < length num \<and> hd num = CHR ''0'' then Inl FloorCorrupt
      else wrapErr (\<lambda>_. FloorCorrupt) (ParseUint num))"

definition readIndexFloorFile :: "bytes option \<Rightarrow> bytes \<Rightarrow> bool \<Rightarrow> floor_error + floor_file" where
  "readIndexFloorFile file key keyIsOriginal =
     (case file of
        None \<Rightarrow> Inr \<lparr>ff_reserved = 0, ff_written = 0, ff_sealed = False, ff_existed = False,
                     ff_legacy = False, ff_unverified = False\<rparr>
      | Some data \<Rightarrow>
        bindR (orErr (index_of floor_NL data) FloorCorrupt) (\<lambda>nl.
        let header = take nl data; body = drop (nl + 1) data; fields = split_on (CHR '' '') header in
        if length fields \<noteq> 3 \<or> fields ! 0 \<noteq> indexFloorMagic then Inl FloorCorrupt
        else if fields ! 1 \<noteq> ''v'' @ show_nat indexFloorFileVersion then Inl FloorCorrupt
        else bindR (verifyIndexFloorTag (fields ! 2) body key keyIsOriginal) (\<lambda>(legacy, unverified).
        let lines = split_on floor_NL (trim_suffix body [floor_NL]) in
        if length lines = 2 \<and> \<not> legacy then Inl FloorCorrupt
        else if length lines \<noteq> 2 \<and> length lines \<noteq> 3 then Inl FloorCorrupt
        else bindR (parseIndexFloorLine (lines ! 0) ''reserved'') (\<lambda>reserved.
        bindR (parseIndexFloorLine (lines ! 1) ''written'') (\<lambda>written.
        bindR (if length lines = 3 then parseIndexFloorSealed (lines ! 2) else Inr False) (\<lambda>sealed0.
        let sealed = (if legacy \<or> unverified then False else sealed0) in
        if reserved < written then Inl FloorCorrupt
        else if (legacy \<or> unverified) \<and> maxCredibleFloorIndex < reserved then Inl FloorAbsurd
        else if (legacy \<or> unverified) \<and> maxCredibleFloorIndex < written then Inl FloorAbsurd
        else Inr \<lparr>ff_reserved = reserved, ff_written = written, ff_sealed = sealed,
                  ff_existed = True, ff_legacy = legacy, ff_unverified = unverified\<rparr>))))))"

section \<open>Operations\<close>

definition openIndexFloor ::
  "string \<Rightarrow> bytes option \<Rightarrow> bytes \<Rightarrow> bool \<Rightarrow> floor_error + index_floor" where
  "openIndexFloor dir file key keyIsOriginal =
     (if dir = '''' then Inl FloorEmptyDir
      else if key = [] then Inl FloorNoKey
      else bindR (readIndexFloorFile file key keyIsOriginal) (\<lambda>ff.
        Inr \<lparr>fl_reserved = ff_reserved ff, fl_written = ff_written ff, fl_sealed = ff_sealed ff,
             fl_existed = ff_existed ff, fl_legacy = ff_legacy ff, fl_unverif = ff_unverified ff,
             fl_key = key, fl_disk = [file]\<rparr>))"

definition persistLocked ::
  "write_outcome \<Rightarrow> index_floor \<Rightarrow> u64 \<Rightarrow> u64 \<Rightarrow> bool \<Rightarrow> (floor_error + unit) \<times> index_floor" where
  "persistLocked io f reserved written sealed =
     (if reserved < fl_reserved f \<or> written < fl_written f then (Inl FloorInternal, f)
      else if reserved < written then (Inl FloorInternal, f)
      else if fl_key f = [] then (Inl FloorInternal, f)
      else case atomicReplaceFile io (fl_disk f) (encodeIndexFloor reserved written sealed (fl_key f)) of
        (ok, disk) \<Rightarrow>
          if \<not> ok then (Inl FloorWriteFailed, f\<lparr>fl_disk := disk\<rparr>)
          else (Inr (), f\<lparr>fl_disk := disk, fl_reserved := reserved, fl_written := written,
                          fl_sealed := sealed, fl_legacy := False, fl_unverif := False\<rparr>))"

definition floor_begin :: "write_outcome \<Rightarrow> index_floor \<Rightarrow> u64 \<Rightarrow> (floor_error + unit) \<times> index_floor" where
  "floor_begin io f start =
     (if start = 0 then (Inl FloorZeroStart, f)
      else
      let written = (if fl_written f < start - 1 then start - 1 else fl_written f);
          r = satAdd start (indexReserveBlock - 1);
          reserved0 = (if fl_reserved f < r then r else fl_reserved f);
          reserved = (if reserved0 < written then written else reserved0)
      in persistLocked io f reserved written False)"

definition floor_reserve :: "write_outcome \<Rightarrow> index_floor \<Rightarrow> u64 \<Rightarrow> (floor_error + unit) \<times> index_floor" where
  "floor_reserve io f n =
     (if n \<le> fl_reserved f then (Inr (), f)
      else persistLocked io f (satAdd n (indexReserveBlock - 1)) (fl_written f) False)"

definition floor_seal :: "write_outcome \<Rightarrow> index_floor \<Rightarrow> u64 \<Rightarrow> (floor_error + unit) \<times> index_floor" where
  "floor_seal io f highest =
     (let written = (if fl_written f < highest then highest else fl_written f);
          reserved = (if fl_reserved f < written then written else fl_reserved f)
      in persistLocked io f reserved written True)"

section \<open>The floor file reads back\<close>

lemma satAdd_ge: "a \<le> satAdd a b"
proof -
  have "a \<le> a + b" if "a \<le> maxUint64 - b"
  proof -
    have "unat (- 1 - b) = unat (- 1 :: u64) - unat b" by (rule unat_sub) simp
    moreover have "unat (- 1 :: u64) = 18446744073709551615"
      by (simp add: unsigned_minus_1_eq_mask mask_eq_exp_minus_1)
    ultimately have "unat a + unat b < 2 ^ LENGTH(64)"
      using that unat_u64_less [of b] by (simp add: maxUint64_def word_le_nat_alt)
    then show ?thesis by (simp add: no_olen_add_nat)
  qed
  then show ?thesis by (auto simp: satAdd_def maxUint64_def not_less)
qed

lemma floor_NL_not_digit [simp]: "\<not> is_digit floor_NL" "floor_NL \<noteq> CHR '' ''"
  by (simp_all add: is_digit_def floor_NL_def)

lemma floor_NL_consts:
  "floor_NL \<notin> set ''reserved ''" "floor_NL \<notin> set ''written ''" "floor_NL \<notin> set ''sealed ''"
  "floor_NL \<notin> set indexFloorHeaderPrefix" "floor_NL \<notin> set indexFloorTagHMAC"
  by (simp_all add: floor_NL_def indexFloorHeaderPrefix_def indexFloorMagic_def indexFloorTagHMAC_def
      indexFloorFileVersion_def show_nat.simps)

lemma split_floor_body:
  "split_on floor_NL (trim_suffix (floor_body r w s) [floor_NL]) =
     [''reserved '' @ FormatUint r, ''written '' @ FormatUint w,
      ''sealed '' @ (if s then ''1'' else ''0'')]"
proof -
  let ?a = "''reserved '' @ FormatUint r" and ?b = "''written '' @ FormatUint w"
  let ?c = "''sealed '' @ (if s then ''1'' else ''0'')"
  have no: "floor_NL \<notin> set ?a" "floor_NL \<notin> set ?b" "floor_NL \<notin> set ?c"
    using FormatUint_no_char [OF floor_NL_not_digit(1)] floor_NL_consts
    by (simp_all add: floor_NL_def)
  have "floor_body r w s = (?a @ floor_NL # ?b @ floor_NL # ?c) @ [floor_NL]"
    by (simp add: floor_body_def)
  then have "trim_suffix (floor_body r w s) [floor_NL] = ?a @ floor_NL # ?b @ floor_NL # ?c"
    by (metis trim_suffix_append)
  then show ?thesis
    using split_on_append [OF no(1)] split_on_append [OF no(2)] split_on_single [OF no(3)] by simp
qed

lemma parse_floor_line:
  "parseIndexFloorLine (field @ '' '' @ FormatUint n) field = Inr n"
proof -
  have "\<not> (1 < length (FormatUint n) \<and> hd (FormatUint n) = CHR ''0'')"
    using FormatUint_hd_zero [of n]
    by (metis FormatUint_def less_irrefl length_Cons list.size(3) One_nat_def show_nat.simps unat_0
        zero_less_numeral)
  then show ?thesis
    using FormatUint_digits [of n] by (simp add: parseIndexFloorLine_def Let_def has_prefix_def)
qed

lemma split_floor_header:
  "split_on (CHR '' '') (indexFloorHeaderPrefix @ '' '' @ indexFloorTagHMAC @ hex_encode t) =
     [indexFloorMagic, ''v'' @ show_nat indexFloorFileVersion, indexFloorTagHMAC @ hex_encode t]"
proof -
  have "CHR '' '' \<notin> set indexFloorMagic" "CHR '' '' \<notin> set (''v'' @ show_nat indexFloorFileVersion)"
    "CHR '' '' \<notin> set (indexFloorTagHMAC @ hex_encode t)"
    using hex_encode_no_space [of t]
    by (simp_all add: indexFloorMagic_def indexFloorTagHMAC_def indexFloorFileVersion_def show_nat.simps)
  then show ?thesis
    by (simp add: indexFloorHeaderPrefix_def split_on_append split_on_single del: set_append)
qed

lemma floor_header_index:
  "index_of floor_NL (encodeIndexFloor r w s k) =
     Some (length (indexFloorHeaderPrefix @ '' '' @ indexFloorTagHMAC @
       hex_encode (indexFloorTag k (floor_body r w s))))"
proof -
  let ?h = "indexFloorHeaderPrefix @ '' '' @ indexFloorTagHMAC @ hex_encode (indexFloorTag k (floor_body r w s))"
  have "floor_NL \<notin> set ?h"
    using floor_NL_consts hex_encode_no_newline by (simp add: floor_NL_def)
  then have "index_of floor_NL (?h @ floor_NL # floor_body r w s) = Some (length ?h)"
    by (rule index_of_append)
  then show ?thesis by (simp add: encodeIndexFloor_def Let_def)
qed

text \<open>
  What any key reads from a file this code wrote: its numbers, and its seal only if the tag
  verified.  With the key it was written under, the reading always succeeds.
\<close>

lemma read_encode_eq:
  "readIndexFloorFile (Some (encodeIndexFloor r w s k)) k' orig =
     (let unv = (indexFloorTag k' (floor_body r w s) \<noteq> indexFloorTag k (floor_body r w s)) in
      if unv \<and> orig then Inl FloorCorrupt
      else if r < w then Inl FloorCorrupt
      else if unv \<and> (maxCredibleFloorIndex < r \<or> maxCredibleFloorIndex < w) then Inl FloorAbsurd
      else Inr \<lparr>ff_reserved = r, ff_written = w, ff_sealed = (s \<and> \<not> unv), ff_existed = True,
                ff_legacy = False, ff_unverified = unv\<rparr>)"
proof -
  let ?h = "indexFloorHeaderPrefix @ '' '' @ indexFloorTagHMAC @ hex_encode (indexFloorTag k (floor_body r w s))"
  have d: "encodeIndexFloor r w s k = ?h @ floor_NL # floor_body r w s"
    by (simp add: encodeIndexFloor_def Let_def)
  have parts: "take (length ?h) (encodeIndexFloor r w s k) = ?h"
    "drop (length ?h + 1) (encodeIndexFloor r w s k) = floor_body r w s"
    unfolding d by simp_all
  have tag: "verifyIndexFloorTag (indexFloorTagHMAC @ hex_encode (indexFloorTag k b)) b k' orig =
      (if indexFloorTag k' b = indexFloorTag k b then Inr (False, False)
       else if \<not> orig then Inr (False, True) else Inl FloorCorrupt)" for b
    by (simp add: verifyIndexFloorTag_def has_prefix_def indexFloorTag_def)
  have lines: "parseIndexFloorLine (''reserved '' @ FormatUint r) ''reserved'' = Inr r"
    "parseIndexFloorLine (''written '' @ FormatUint w) ''written'' = Inr w"
    using parse_floor_line [of "''reserved''" r] parse_floor_line [of "''written''" w] by simp_all
  have seal: "parseIndexFloorSealed (''sealed '' @ (if s then ''1'' else ''0'')) = Inr s"
    by (simp add: parseIndexFloorSealed_def)
  show ?thesis
    unfolding readIndexFloorFile_def option.case floor_header_index orErr_simps bindR_simps Let_def
      parts split_floor_header split_floor_body
    using tag lines seal by auto
qed

lemma read_encode:
  "w \<le> r \<Longrightarrow> readIndexFloorFile (Some (encodeIndexFloor r w s k)) k orig =
     Inr \<lparr>ff_reserved = r, ff_written = w, ff_sealed = s, ff_existed = True,
          ff_legacy = False, ff_unverified = False\<rparr>"
  by (simp add: read_encode_eq Let_def not_less)

section \<open>What the candidates on disk cover\<close>

text \<open>
  \<open>floor_covers hi f\<close>: whoever reads the content \<open>f\<close> successfully, under whatever key,
  resumes above \<open>hi\<close>; \<open>unsealed_covers\<close> is the stronger form that holds while a writer runs.
\<close>

definition floor_covers :: "u64 \<Rightarrow> bytes option \<Rightarrow> bool" where
  "floor_covers hi f \<longleftrightarrow> (\<forall>k orig ff. readIndexFloorFile f k orig = Inr ff \<longrightarrow>
     hi \<le> ff_written ff \<or> (\<not> ff_sealed ff \<and> hi \<le> ff_reserved ff))"

definition unsealed_covers :: "u64 \<Rightarrow> bytes option \<Rightarrow> bool" where
  "unsealed_covers hi f \<longleftrightarrow> (\<forall>k orig ff. readIndexFloorFile f k orig = Inr ff \<longrightarrow>
     \<not> ff_sealed ff \<and> hi \<le> ff_reserved ff)"

lemma unsealed_floor_covers: "unsealed_covers hi f \<Longrightarrow> floor_covers hi f"
  by (auto simp: unsealed_covers_def floor_covers_def)

lemma unsealed_covers_mono: "unsealed_covers hi f \<Longrightarrow> lo \<le> hi \<Longrightarrow> unsealed_covers lo f"
  unfolding unsealed_covers_def by (meson order_trans)

lemma floor_covers_mono: "floor_covers hi f \<Longrightarrow> lo \<le> hi \<Longrightarrow> floor_covers lo f"
  unfolding floor_covers_def by (meson order_trans)

lemma read_encode_fields:
  "readIndexFloorFile (Some (encodeIndexFloor r w s k)) k' orig = Inr ff \<Longrightarrow>
     ff_reserved ff = r \<and> ff_written ff = w \<and> (ff_sealed ff \<longrightarrow> s)"
  by (auto simp: read_encode_eq Let_def split: if_splits)

lemma encode_covers:
  "unsealed_covers r (Some (encodeIndexFloor r w False k))"
  "floor_covers w (Some (encodeIndexFloor r w s k))"
  by (auto simp: unsealed_covers_def floor_covers_def dest: read_encode_fields)

lemma persistLocked_cases:
  assumes "persistLocked io f reserved written sealed = (r, f')"
  obtains
    (refused) e where "r = Inl e" "f' = f"
  | (failed) disk where "r = Inl FloorWriteFailed" "f' = f\<lparr>fl_disk := disk\<rparr>"
      "atomicReplaceFile io (fl_disk f) (encodeIndexFloor reserved written sealed (fl_key f)) = (False, disk)"
  | (written) disk where "r = Inr ()" "fl_reserved f \<le> reserved" "fl_written f \<le> written" "written \<le> reserved"
      "atomicReplaceFile io (fl_disk f) (encodeIndexFloor reserved written sealed (fl_key f)) = (True, disk)"
      "f' = f\<lparr>fl_disk := disk, fl_reserved := reserved, fl_written := written,
              fl_sealed := sealed, fl_legacy := False, fl_unverif := False\<rparr>"
proof (cases "reserved < fl_reserved f \<or> written < fl_written f \<or> reserved < written \<or> fl_key f = []")
  case True
  then have "persistLocked io f reserved written sealed = (Inl FloorInternal, f)"
    by (auto simp: persistLocked_def)
  then have "r = Inl FloorInternal" "f' = f" using assms by simp_all
  then show ?thesis by (rule refused)
next
  case False
  obtain ok disk where
    w: "atomicReplaceFile io (fl_disk f) (encodeIndexFloor reserved written sealed (fl_key f)) = (ok, disk)"
    by fastforce
  show ?thesis
  proof (cases ok)
    case True
    with False w assms have "r = Inr ()" "f' = f\<lparr>fl_disk := disk, fl_reserved := reserved,
        fl_written := written, fl_sealed := sealed, fl_legacy := False, fl_unverif := False\<rparr>"
      by (simp_all add: persistLocked_def)
    with True False w show ?thesis by (intro written) (simp_all add: not_less)
  next
    case no: False
    with False w assms show ?thesis
      by (intro failed [of disk]) (simp_all add: persistLocked_def)
  qed
qed

text \<open>
  One lemma for the three operations that persist: if the new content has the property
  every candidate has, all candidates keep it; if the write succeeded, the candidates have
  whatever the new content has.
\<close>

lemma persistLocked_disk:
  assumes "persistLocked io f reserved written sealed = (r, f')"
    and "\<forall>c\<in>set (fl_disk f). P c" "P (Some (encodeIndexFloor reserved written sealed (fl_key f)))"
  shows "\<forall>c\<in>set (fl_disk f'). P c"
  using assms(1)
proof (cases rule: persistLocked_cases)
  case (failed disk)
  then show ?thesis using wal_file.replace_all [OF assms(2,3), of io] by simp
next
  case (written disk)
  then show ?thesis using wal_file.replace_all [OF assms(2,3), of io] by simp
qed (use assms in simp)

lemma persistLocked_done:
  assumes "persistLocked io f reserved written sealed = (Inr (), f')"
  shows "fl_reserved f' = reserved" "fl_written f' = written" "fl_key f' = fl_key f"
    "fl_disk f' = [Some (encodeIndexFloor reserved written sealed (fl_key f))]" "written \<le> reserved"
    "fl_reserved f \<le> reserved"
  using assms by (auto elim!: persistLocked_cases dest: wal_file.replace_ok)

lemma persistLocked_err: "persistLocked io f reserved written sealed = (Inl e, f') \<Longrightarrow>
    \<exists>disk. f' = f\<lparr>fl_disk := disk\<rparr>"
  by (erule persistLocked_cases) (auto intro: exI [of _ "fl_disk f"])

lemma persistLocked_ne:
  assumes "persistLocked io f reserved written sealed = (r, f')" "fl_disk f \<noteq> []"
  shows "fl_disk f' \<noteq> []"
  using assms(1)
  by (cases rule: persistLocked_cases)
    (use assms(2) wal_file.replace_ne [of "fl_disk f" io] in \<open>auto, (metis snd_conv)+\<close>)

text \<open>
  Every operation is monotone: whatever its outcome, neither mark in memory ever drops.
\<close>

lemma persistLocked_mono:
  "persistLocked io f reserved written sealed = (r, f') \<Longrightarrow>
     fl_reserved f \<le> fl_reserved f' \<and> fl_written f \<le> fl_written f'"
  by (erule persistLocked_cases) auto

text \<open>
  The index-floor file reads back what was written: under the key that sealed it, all
  three fields come back verified; under any other key whatever is accepted still carries
  the written marks and is never taken for a sealed file that was not sealed.
\<close>

theorem index_floor_round_trip:
  assumes "w \<le> r"
  shows "readIndexFloorFile (Some (encodeIndexFloor r w s k)) k orig =
      Inr \<lparr>ff_reserved = r, ff_written = w, ff_sealed = s, ff_existed = True,
           ff_legacy = False, ff_unverified = False\<rparr> \<and>
    (\<forall>k' ff. readIndexFloorFile (Some (encodeIndexFloor r w s k)) k' orig = Inr ff \<longrightarrow>
       ff_reserved ff = r \<and> ff_written ff = w \<and> (ff_sealed ff \<longrightarrow> s))"
  using read_encode [OF assms] read_encode_fields by blast

theorem index_floor_round_trip_witness:
  "readIndexFloorFile (Some (encodeIndexFloor 64 7 False ''key'')) ''key'' True =
     Inr \<lparr>ff_reserved = 64, ff_written = 7, ff_sealed = False, ff_existed = True,
          ff_legacy = False, ff_unverified = False\<rparr>"
  using index_floor_round_trip [of 7 64 False "''key''" True] by simp

end
