(* ===== verification/WalWriter.thy ===== *)
theory WalWriter
  imports WalFormat IndexFloor
begin

text \<open>
  The append-only writer (\<^verbatim>\<open>internal/wal/writer.go\<close>) and the part of \<^verbatim>\<open>wal.Open\<close>
  (\<^verbatim>\<open>internal/wal/log.go\<close>) that decides at which record index a run resumes.

  A writer holds the content of its file; each file operation takes the outcome the
  operating system decides: complete, cut short after some bytes, or written but not
  synced.
\<close>

section \<open>The writer\<close>

datatype file_io = IoOk | IoShort nat | IoSyncFail

record writer =
  w_kind :: "8 word"
  w_codec :: codec
  w_file :: bytes
  w_next :: u64
  w_size :: nat
  w_closed :: bool
  w_poisoned :: bool
  w_floor :: "index_floor option"

text \<open>\<^verbatim>\<open>os.File.WriteAt\<close>: overwrite from \<open>off\<close>, extending the file if needed.\<close>

definition write_at :: "bytes \<Rightarrow> nat \<Rightarrow> bytes \<Rightarrow> bytes" where
  "write_at file off data = pad_to off file @ data @ drop (off + length data) file"

definition initFile :: "file_io \<Rightarrow> bytes \<Rightarrow> 8 word \<Rightarrow> codec \<Rightarrow> (wal_error + unit) \<times> bytes" where
  "initFile io file kind c =
     (case makeFileHeader c kind of
        None \<Rightarrow> (Inl WalPanic, file)
      | Some hdr \<Rightarrow>
          (case io of
             IoOk \<Rightarrow> (Inr (), write_at file 0 hdr)
           | IoShort n \<Rightarrow> (Inl ErrIO, write_at file 0 (take n hdr))
           | IoSyncFail \<Rightarrow> (Inl ErrIO, write_at file 0 hdr)))"

definition fresh_writer :: "8 word \<Rightarrow> codec \<Rightarrow> bytes \<Rightarrow> u64 \<Rightarrow> nat \<Rightarrow> writer" where
  "fresh_writer kind c file nxt sz =
     \<lparr>w_kind = kind, w_codec = c, w_file = file, w_next = nxt, w_size = sz, w_closed = False,
      w_poisoned = False, w_floor = None\<rparr>"

definition track_last :: "u64 \<Rightarrow> wal_record \<Rightarrow> wal_error option \<times> u64" where
  "track_last l rc = (None, rec_index rc)"

text \<open>\<open>file = None\<close> is a file that does not exist yet.\<close>

definition openWriter :: "file_io \<Rightarrow> bytes option \<Rightarrow> 8 word \<Rightarrow> codec \<Rightarrow> wal_error + writer" where
  "openWriter io file kind c =
     (let content = (case file of None \<Rightarrow> [] | Some b \<Rightarrow> b) in
      if content = [] then
        (case initFile io content kind c of
           (Inl e, _) \<Rightarrow> Inl e
         | (Inr _, f) \<Rightarrow> Inr (fresh_writer kind c f 1 (fileHeaderSize c)))
      else
        (case scanFrom c content kind track_last 0 of
           (end, Some e, _) \<Rightarrow> Inl e
         | (end, None, lst) \<Rightarrow> Inr (fresh_writer kind c content (lst + 1) end)))"

definition poison :: "writer \<Rightarrow> writer" where
  "poison w = w\<lparr>w_poisoned := True\<rparr>"

text \<open>\<open>fio\<close> is the outcome of the floor file's replacement, should the append need one.\<close>

definition Append ::
  "write_outcome \<Rightarrow> file_io \<Rightarrow> writer \<Rightarrow> u16 \<Rightarrow> bytes \<Rightarrow> (wal_error + wal_record) \<times> writer" where
  "Append fio io w t payload =
     (if \<not> Known t then (Inl ErrUnknownType, w)
      else if MaxPayloadSize < length payload then (Inl ErrPayloadTooLarge, w)
      else if w_poisoned w then (Inl ErrPoisoned, w)
      else if w_closed w then (Inl ErrClosed, w)
      else
      (case (case w_floor w of
               None \<Rightarrow> (Inr (), w)
             | Some fl \<Rightarrow> (case floor_reserve fio fl (w_next w) of
                 (r, fl') \<Rightarrow> (r, w\<lparr>w_floor := Some fl'\<rparr>))) of
         (Inl e, w1) \<Rightarrow> (Inl ErrPoisoned, poison w1)
       | (Inr _, w1) \<Rightarrow>
         (case encodeFrame (w_codec w1) (w_next w1) t payload of
            None \<Rightarrow> (Inl WalPanic, w1)
          | Some frame \<Rightarrow>
            (case io of
               IoShort n \<Rightarrow>
                 (Inl ErrPoisoned, poison (w1\<lparr>w_file := write_at (w_file w1) (w_size w1) (take n frame)\<rparr>))
             | IoSyncFail \<Rightarrow>
                 (Inl ErrPoisoned, poison (w1\<lparr>w_file := write_at (w_file w1) (w_size w1) frame\<rparr>))
             | IoOk \<Rightarrow>
                 (Inr \<lparr>rec_index = w_next w1, rec_type = t,
                       rec_payload = drop (frameHeaderSize (w_codec w1)) frame,
                       rec_offset = w_size w1, rec_v1 = False\<rparr>,
                  w1\<lparr>w_file := write_at (w_file w1) (w_size w1) frame, w_next := w_next w1 + 1,
                     w_size := w_size w1 + length frame\<rparr>)))))"

definition advanceIndexTo :: "writer \<Rightarrow> u64 \<Rightarrow> writer" where
  "advanceIndexTo w n = (if w_next w < n then w\<lparr>w_next := n\<rparr> else w)"

definition setIndexFloor :: "writer \<Rightarrow> index_floor \<Rightarrow> writer" where
  "setIndexFloor w f = w\<lparr>w_floor := Some f\<rparr>"

definition Sync :: "bool \<Rightarrow> writer \<Rightarrow> (wal_error + unit) \<times> writer" where
  "Sync sync_ok w =
     (if w_poisoned w then (Inl ErrPoisoned, w)
      else if w_closed w then (Inl ErrClosed, w)
      else if \<not> sync_ok then (Inl ErrPoisoned, poison w)
      else (Inr (), w))"

definition close :: "write_outcome \<Rightarrow> bool \<Rightarrow> bool \<Rightarrow> writer \<Rightarrow> bool \<Rightarrow> (wal_error + unit) \<times> writer" where
  "close fio sync_ok close_ok w sealFloor =
     (if w_closed w then (Inr (), w)
      else
      let w1 = w\<lparr>w_closed := True\<rparr>;
          w2 = (if \<not> w_poisoned w1 \<and> \<not> sync_ok then poison w1 else w1)
      in (case (if \<not> w_poisoned w2 \<and> sealFloor then
                  (case w_floor w2 of
                     None \<Rightarrow> (Inr (), w2)
                   | Some fl \<Rightarrow> (case floor_seal fio fl (w_next w2 - 1) of
                       (Inl _, fl') \<Rightarrow> (Inl ErrIO, w2\<lparr>w_floor := Some fl'\<rparr>)
                     | (Inr _, fl') \<Rightarrow> (Inr (), w2\<lparr>w_floor := Some fl'\<rparr>)))
                else (if w_poisoned w2 then Inl ErrPoisoned else Inr (), w2)) of
            (Inl e, w3) \<Rightarrow> (Inl e, w3)
          | (Inr _, w3) \<Rightarrow> (if close_ok then Inr () else Inl ErrIO, w3)))"

text \<open>
  The end of \<^verbatim>\<open>wal.Open\<close>: the run resumes above what the log file holds, above every burned
  index, and, unless the last run sealed the floor, above every authorised one.
\<close>

definition start_index :: "u64 \<Rightarrow> index_floor \<Rightarrow> u64" where
  "start_index fileNext fl =
     (let s1 = (if fileNext < fl_written fl + 1 then fl_written fl + 1 else fileNext) in
      if \<not> fl_sealed fl then (if s1 < fl_reserved fl + 1 then fl_reserved fl + 1 else s1) else s1)"

definition resume_index ::
  "write_outcome \<Rightarrow> writer \<Rightarrow> u64 \<Rightarrow> index_floor \<Rightarrow> (wal_error + writer) \<times> index_floor" where
  "resume_index fio w repairNext fl =
     (let fileNext = (if w_next w < repairNext then repairNext else w_next w) in
      if fl_written fl = maxUint64 \<or> fl_reserved fl = maxUint64 then (Inl WalRefused, fl)
      else let start = start_index fileNext fl in
      (case floor_begin fio fl start of
         (Inl _, fl') \<Rightarrow> (Inl WalRefused, fl')
       | (Inr _, fl') \<Rightarrow> (Inr (setIndexFloor (advanceIndexTo w start) fl'), fl')))"

section \<open>What a crash leaves behind\<close>

text \<open>
  The writer's file is a header, the acknowledged records, and after them whatever an
  unacknowledged append left.
\<close>

definition writer_holds :: "writer \<Rightarrow> bytes \<Rightarrow> wal_record list \<Rightarrow> bool" where
  "writer_holds w hdr recs \<longleftrightarrow>
     codec_ready (w_codec w) \<and> \<not> isV1 (w_codec w) \<and> magic (w_kind w) \<noteq> '''' \<and>
     makeFileHeader (w_codec w) (w_kind w) = Some hdr \<and>
     wal_chain (w_codec w) (fileHeaderSize (w_codec w)) 0 recs \<and>
     w_size w = chain_end (fileHeaderSize (w_codec w)) recs \<and>
     take (w_size w) (w_file w) = hdr @ frames_bytes (w_codec w) recs \<and>
     w_size w \<le> length (w_file w) \<and>
     (w_next w \<noteq> 0 \<longrightarrow> chain_last 0 recs < w_next w)"

lemma length_write_at_ge: "off + length data \<le> length (write_at file off data)"
  by (simp add: write_at_def)

lemma take_write_at:
  "off \<le> length file \<Longrightarrow> take off (write_at file off data) = take off file"
  "off \<le> length file \<Longrightarrow> take (off + length data) (write_at file off data) = take off file @ data"
  by (simp_all add: write_at_def pad_to_def)

lemma wal_chain_snoc:
  "wal_chain c off l (rcs @ [rc]) \<longleftrightarrow>
     wal_chain c off l rcs \<and> chain_last l rcs < rec_index rc \<and>
     length (rec_payload rc) \<le> MaxPayloadSize \<and> rec_offset rc = chain_end off rcs \<and> rec_v1 rc = isV1 c"
  by (induction rcs arbitrary: off l) auto

lemma chain_snoc [simp]:
  "chain_end off (rcs @ [rc]) = chain_end off rcs + frameSize rc"
  "chain_last l (rcs @ [rc]) = rec_index rc"
  "frames_bytes c (rcs @ [rc]) = frames_bytes c rcs @ frame_bytes c rc"
  by (simp_all add: chain_end_def chain_last_def frames_bytes_def)

lemma encodeFrame_ready: "codec_ready c \<Longrightarrow> \<exists>f. encodeFrame c i t p = Some f"
  using tagFor_ready [of c] by (auto simp: encodeFrame_def)

lemma encodeFrame_payload:
  assumes "encodeFrame c i t p = Some f"
  shows "drop (frameHeaderSize c) f = p" "length f = frameHeaderSize c + length p"
proof -
  obtain tag where "tagFor c (frame_covered i t p) p = Some tag" "f = frame_covered i t p @ tag @ p"
    using assms by (auto simp: encodeFrame_def)
  then show "drop (frameHeaderSize c) f = p" "length f = frameHeaderSize c + length p"
    using length_tagFor [of c] by (simp_all add: frameHeaderSize_def)
qed

text \<open>What the floor says when an append gets past it.\<close>

definition reserved_by :: "write_outcome \<Rightarrow> writer \<Rightarrow> index_floor option \<Rightarrow> bool" where
  "reserved_by fio w fl \<longleftrightarrow>
     (case w_floor w of
        None \<Rightarrow> fl = None
      | Some f \<Rightarrow> \<exists>f'. floor_reserve fio f (w_next w) = (Inr (), f') \<and> fl = Some f')"

definition acked_record :: "writer \<Rightarrow> u16 \<Rightarrow> bytes \<Rightarrow> wal_record" where
  "acked_record w t p =
     \<lparr>rec_index = w_next w, rec_type = t, rec_payload = p, rec_offset = w_size w, rec_v1 = False\<rparr>"

lemma Append_cases:
  assumes A: "Append fio io w t p = (r, w')"
  obtains
    (refused) e where "r = Inl e" "w' = w"
  | (unreserved) f f' e where "w_floor w = Some f" "\<not> w_poisoned w" "\<not> w_closed w"
      "floor_reserve fio f (w_next w) = (Inl e, f')"
      "r = Inl ErrPoisoned" "w' = w\<lparr>w_floor := Some f', w_poisoned := True\<rparr>"
  | (panicked) fl where "reserved_by fio w fl" "\<not> w_poisoned w" "\<not> w_closed w"
      "encodeFrame (w_codec w) (w_next w) t p = None" "r = Inl WalPanic" "w' = w\<lparr>w_floor := fl\<rparr>"
  | (torn) fl data where "reserved_by fio w fl" "\<not> w_poisoned w" "\<not> w_closed w" "r = Inl ErrPoisoned"
      "w' = w\<lparr>w_floor := fl, w_poisoned := True, w_file := write_at (w_file w) (w_size w) data\<rparr>"
  | (acked) fl frame where "reserved_by fio w fl" "\<not> w_poisoned w" "\<not> w_closed w"
      "encodeFrame (w_codec w) (w_next w) t p = Some frame" "length p \<le> MaxPayloadSize"
      "r = Inr (acked_record w t p)"
      "w' = w\<lparr>w_floor := fl, w_file := write_at (w_file w) (w_size w) frame, w_next := w_next w + 1,
              w_size := w_size w + length frame\<rparr>"
proof (cases "\<not> Known t \<or> MaxPayloadSize < length p \<or> w_poisoned w \<or> w_closed w")
  case True
  then have "\<exists>e. Append fio io w t p = (Inl e, w)" by (auto simp: Append_def)
  then show ?thesis using A refused by auto
next
  case ok: False
  define res where "res = (case w_floor w of
      None \<Rightarrow> (Inr (), w)
    | Some fl \<Rightarrow> (case floor_reserve fio fl (w_next w) of (r, fl') \<Rightarrow> (r, w\<lparr>w_floor := Some fl'\<rparr>)))"
  have rest: "Append fio io w t p =
      (case res of
         (Inl e, w1) \<Rightarrow> (Inl ErrPoisoned, poison w1)
       | (Inr _, w1) \<Rightarrow>
         (case encodeFrame (w_codec w1) (w_next w1) t p of
            None \<Rightarrow> (Inl WalPanic, w1)
          | Some frame \<Rightarrow>
            (case io of
               IoShort n \<Rightarrow>
                 (Inl ErrPoisoned, poison (w1\<lparr>w_file := write_at (w_file w1) (w_size w1) (take n frame)\<rparr>))
             | IoSyncFail \<Rightarrow>
                 (Inl ErrPoisoned, poison (w1\<lparr>w_file := write_at (w_file w1) (w_size w1) frame\<rparr>))
             | IoOk \<Rightarrow>
                 (Inr \<lparr>rec_index = w_next w1, rec_type = t,
                       rec_payload = drop (frameHeaderSize (w_codec w1)) frame,
                       rec_offset = w_size w1, rec_v1 = False\<rparr>,
                  w1\<lparr>w_file := write_at (w_file w1) (w_size w1) frame, w_next := w_next w1 + 1,
                     w_size := w_size w1 + length frame\<rparr>))))"
    unfolding Append_def res_def using ok by simp
  note A' = A [unfolded rest]
  show ?thesis
  proof (cases "\<exists>e w1. res = (Inl e, w1)")
    case True
    then obtain e f f' where "w_floor w = Some f" "floor_reserve fio f (w_next w) = (Inl e, f')"
      "res = (Inl e, w\<lparr>w_floor := Some f'\<rparr>)"
      by (auto simp: res_def split: option.splits prod.splits)
    with A ok show ?thesis by (intro unreserved) (auto simp: rest poison_def)
  next
    case False
    obtain fl where fl: "res = (Inr (), w\<lparr>w_floor := fl\<rparr>)" "reserved_by fio w fl"
    proof (cases "w_floor w")
      case None
      then show ?thesis using that [of None] by (simp add: res_def reserved_by_def)
    next
      case (Some f)
      obtain x f' where "floor_reserve fio f (w_next w) = (x, f')" by fastforce
      moreover from this Some False have "x = Inr ()" by (cases x) (auto simp: res_def)
      ultimately show ?thesis using that [of "Some f'"] Some by (simp add: res_def reserved_by_def)
    qed
    show ?thesis
    proof (cases "encodeFrame (w_codec w) (w_next w) t p")
      case None
      with A ok fl show ?thesis by (intro panicked) (auto simp: rest)
    next
      case (Some frame)
      note pl = encodeFrame_payload [OF Some]
      show ?thesis
      proof (cases io)
        case IoOk
        with A' [symmetric] ok fl Some pl(1) show ?thesis
          by (intro acked) (simp_all add: acked_record_def not_less)
      next
        case (IoShort n)
        with A' ok fl Some show ?thesis by (intro torn [of fl "take n frame"]) (auto simp: poison_def)
      next
        case IoSyncFail
        with A' ok fl Some show ?thesis by (intro torn [of fl frame]) (auto simp: poison_def)
      qed
    qed
  qed
qed

lemma Append_holds:
  assumes "writer_holds w hdr recs" "w_next w \<noteq> 0" "Append fio io w t p = (r, w')"
  shows "(\<exists>e. r = Inl e \<and> writer_holds w' hdr recs \<and> w_next w' = w_next w) \<or>
    (\<exists>rc. r = Inr rc \<and> writer_holds w' hdr (recs @ [rc]) \<and> rec_index rc = w_next w \<and>
       w_next w' = w_next w + 1)"
  using assms(3)
proof (cases rule: Append_cases)
  case (torn fl data)
  then show ?thesis
    using assms(1) length_write_at_ge [of "w_size w" data "w_file w"]
    by (auto simp: writer_holds_def take_write_at)
next
  case (acked fl frame)
  let ?rc = "acked_record w t p"
  have fb: "frame_bytes (w_codec w) ?rc = frame" using acked(4) by (simp add: frame_bytes_def acked_record_def)
  have lf: "length frame = frameSize ?rc"
    using encodeFrame_payload(2) [OF acked(4)] assms(1)
    by (simp add: acked_record_def frameSize_def frameHeaderSize_def tagSize_def writer_holds_def)
  have "writer_holds w' hdr (recs @ [?rc])"
    unfolding writer_holds_def
    using acked(5,7) assms(1,2) fb length_write_at_ge [of "w_size w" frame "w_file w"]
      take_write_at(2) [of "w_size w" "w_file w" frame] lf
    by (auto simp: writer_holds_def wal_chain_snoc acked_record_def u64_less_Suc intro!: u64_less_Suc)
      (metis add.commute add.left_neutral maxUint64_def right_minus_eq diff_minus_eq_add)
  then show ?thesis using acked(6,7) by (simp add: acked_record_def)
qed (use assms in \<open>auto simp: writer_holds_def\<close>)

text \<open>A history of appends; the output is the list of acknowledged records.\<close>

type_synonym append_op = "write_outcome \<times> file_io \<times> u16 \<times> bytes"

definition append_step :: "writer \<Rightarrow> append_op \<Rightarrow> wal_record list \<times> writer" where
  "append_step w x =
     (case x of (fio, io, t, p) \<Rightarrow>
        (case Append fio io w t p of (Inl _, w') \<Rightarrow> ([], w') | (Inr rc, w') \<Rightarrow> ([rc], w')))"

lemma append_step_holds:
  assumes "writer_holds w hdr recs" "w_next w \<noteq> 0"
    "maxUint64 \<notin> rec_index ` set (fst (append_step w x))"
  shows "writer_holds (snd (append_step w x)) hdr (recs @ fst (append_step w x))"
    "w_next (snd (append_step w x)) \<noteq> 0"
proof -
  obtain fio io t p where x: "x = (fio, io, t, p)" by (cases x)
  obtain r w' where r: "Append fio io w t p = (r, w')" by fastforce
  show "writer_holds (snd (append_step w x)) hdr (recs @ fst (append_step w x))"
    "w_next (snd (append_step w x)) \<noteq> 0"
    using Append_holds [OF assms(1,2) r] assms(2,3) u64_Suc_neq_0 [of "w_next w"]
    by (auto simp: append_step_def x r)
qed

lemma append_run_holds:
  assumes "writer_holds w hdr recs" "w_next w \<noteq> 0"
    "maxUint64 \<notin> rec_index ` set (fst (run append_step w ops))"
  shows "writer_holds (snd (run append_step w ops)) hdr (recs @ fst (run append_step w ops))"
  using assms
proof (induction ops arbitrary: w recs)
  case (Cons x ops)
  have n: "maxUint64 \<notin> rec_index ` set (fst (append_step w x))"
    "maxUint64 \<notin> rec_index ` set (fst (run append_step (snd (append_step w x)) ops))"
    using Cons.prems(3) by (auto simp: run_Cons simp del: run.simps(2))
  note S = append_step_holds [OF Cons.prems(1,2) n(1)]
  show ?case using Cons.IH [OF S n(2)] by (simp add: run_Cons del: run.simps(2))
qed simp

lemma openWriter_new:
  assumes "openWriter IoOk None k c = Inr w" "\<not> isV1 c" "magic k \<noteq> ''''"
  obtains hdr where "writer_holds w hdr []" "w_next w = 1" "w_codec w = c" "w_kind w = k"
proof -
  obtain hdr where h: "makeFileHeader c k = Some hdr" and
    w: "w = fresh_writer k c (write_at [] 0 hdr) 1 (fileHeaderSize c)"
    using assms(1) by (auto simp: openWriter_def initFile_def split: option.splits)
  then have r: "codec_ready c" using tagFor_ready by (auto simp: makeFileHeader_def)
  then have "length hdr = fileHeaderSize c" using parse_makeFileHeader [OF r assms(3)] h by auto
  with h w r assms(2,3) show ?thesis
    by (intro that [of hdr]) (simp_all add: writer_holds_def fresh_writer_def write_at_def pad_to_def)
qed

lemma scan_extends:
  assumes "codec_ready c"
  shows "\<exists>e err more. scan_frames c collect r off l acc = (e, err, acc @ more) \<and> off \<le> e"
proof -
  obtain e err out where s: "scan_frames c collect r off l acc = (e, err, out)" by (cases rule: prod_cases3)
  from scan_sound [OF assms s] show ?thesis unfolding s by (auto simp: chain_end_def)
qed

lemma holds_scan:
  assumes "writer_holds w hdr recs"
  shows "\<exists>e err more. ScanAll (w_codec w) (take (w_size w) (w_file w) @ tail) (w_kind w) =
    (e, err, recs @ more) \<and> w_size w \<le> e"
proof -
  let ?c = "w_codec w"
  have H: "codec_ready ?c" "magic (w_kind w) \<noteq> ''''" "makeFileHeader ?c (w_kind w) = Some hdr"
    "wal_chain ?c (fileHeaderSize ?c) 0 recs" "w_size w = chain_end (fileHeaderSize ?c) recs"
    "take (w_size w) (w_file w) = hdr @ frames_bytes ?c recs"
    using assms unfolding writer_holds_def by blast+
  show ?thesis
    unfolding H(6) ScanAll_def append_assoc scanFrom_header [OF H(1,2,3)] scan_chain [OF H(1,4)]
    using scan_extends [OF H(1), of tail "chain_end (fileHeaderSize ?c) recs" "chain_last 0 recs" "[] @ recs"]
      H(5) by simp
qed

section \<open>Record indices across crashes\<close>

text \<open>
  A bus's log over its whole life: appends and closes of the running writer, and restarts
  at any moment.  A restart finds some content of the floor file a crash may have left, any
  log file at all (intact, torn, replaced after a quarantine), any repair's proposal and
  any MAC key.  The ghost number is the highest index whose bytes reached the log file.
  Histories are followed up to the use of the last 64-bit index.
\<close>

datatype bus_wal = Up writer | Down "bytes option list"

fun floor_disk :: "bus_wal \<Rightarrow> bytes option list" where
  "floor_disk (Up w) = (case w_floor w of None \<Rightarrow> [None] | Some f \<Rightarrow> fl_disk f)"
| "floor_disk (Down disk) = disk"

datatype wal_op =
    WAppend write_outcome file_io u16 bytes
  | WClose write_outcome bool bool bool
  | WRestart nat string bytes bytes bool file_io "bytes option" u64 write_outcome

definition reopen ::
  "bytes option \<Rightarrow> string \<Rightarrow> bytes \<Rightarrow> bytes \<Rightarrow> bool \<Rightarrow> file_io \<Rightarrow> bytes option \<Rightarrow> u64 \<Rightarrow> write_outcome \<Rightarrow>
     bus_wal" where
  "reopen floorFile dir key ctx orig io file repairNext fio =
     (case openIndexFloor dir floorFile key orig of
        Inl _ \<Rightarrow> Down [floorFile]
      | Inr fl \<Rightarrow>
     (case openWriter io file KindWAL \<lparr>cd_version = FormatVersion, cd_key = key, cd_context = ctx\<rparr> of
        Inl _ \<Rightarrow> Down [floorFile]
      | Inr w \<Rightarrow>
     (case resume_index fio w repairNext fl of
        (Inl _, fl') \<Rightarrow> Down (fl_disk fl')
      | (Inr w', _) \<Rightarrow> Up w')))"

fun wal_step :: "bus_wal \<times> u64 \<Rightarrow> wal_op \<Rightarrow> u64 list \<times> bus_wal \<times> u64" where
  "wal_step (Up w, hi) (WAppend fio io t p) =
     (if hi = maxUint64 then ([], Up w, hi)
      else case Append fio io w t p of (r, w') \<Rightarrow>
        if is_ok r \<or> w_file w' \<noteq> w_file w then ([w_next w], Up w', w_next w) else ([], Up w', hi))"
| "wal_step (Up w, hi) (WClose fio s c sf) = ([], Up (snd (close fio s c w sf)), hi)"
| "wal_step (Down d, hi) (WAppend fio io t p) = ([], Down d, hi)"
| "wal_step (Down d, hi) (WClose fio s c sf) = ([], Down d, hi)"
| "wal_step (b, hi) (WRestart i dir key ctx orig io file n fio) =
     (let d = floor_disk b in
      ([], reopen (d ! (i mod length d)) dir key ctx orig io file n fio, hi))"

definition writer_live :: "writer \<Rightarrow> bool" where
  "writer_live w \<longleftrightarrow> \<not> w_poisoned w \<and> \<not> w_closed w"

definition wal_inv :: "bus_wal \<times> u64 \<Rightarrow> bool" where
  "wal_inv s \<longleftrightarrow> snd s = maxUint64 \<or>
     (floor_disk (fst s) \<noteq> [] \<and> (\<forall>f\<in>set (floor_disk (fst s)). floor_covers (snd s) f) \<and>
      (case fst s of
         Down _ \<Rightarrow> True
       | Up w \<Rightarrow> (\<exists>f. w_floor w = Some f \<and>
           (writer_live w \<longrightarrow> snd s < w_next w \<and>
              (\<forall>c\<in>set (fl_disk f). unsealed_covers (fl_reserved f) c)))))"

lemma floor_reserve_ok:
  assumes "floor_reserve io f n = (Inr (), f')" "fl_disk f \<noteq> []"
    "\<forall>c\<in>set (fl_disk f). unsealed_covers (fl_reserved f) c"
  shows "n \<le> fl_reserved f'" "fl_disk f' \<noteq> []" "\<forall>c\<in>set (fl_disk f'). unsealed_covers (fl_reserved f') c"
  using assms persistLocked_done [of io f "satAdd n (indexReserveBlock - 1)" "fl_written f" False f']
    satAdd_ge [of n "indexReserveBlock - 1"] encode_covers(1)
  by (auto simp: floor_reserve_def split: if_splits)

lemma floor_reserve_err:
  assumes "floor_reserve io f n = (Inl e, f')" "fl_disk f \<noteq> []"
    "\<forall>c\<in>set (fl_disk f). floor_covers hi c" "hi \<le> n"
  shows "fl_disk f' \<noteq> []" "\<forall>c\<in>set (fl_disk f'). floor_covers hi c"
proof -
  have p: "persistLocked io f (satAdd n (indexReserveBlock - 1)) (fl_written f) False = (Inl e, f')"
    using assms(1) by (simp add: floor_reserve_def split: if_splits)
  have "unsealed_covers hi (Some (encodeIndexFloor (satAdd n (indexReserveBlock - 1)) (fl_written f) False (fl_key f)))"
    using encode_covers(1) order_trans [OF assms(4) satAdd_ge] by (rule unsealed_covers_mono)
  then show "fl_disk f' \<noteq> []" "\<forall>c\<in>set (fl_disk f'). floor_covers hi c"
    using persistLocked_ne [OF p assms(2)] persistLocked_disk [OF p assms(3)] unsealed_floor_covers by blast+
qed

lemma Append_inv:
  assumes i: "wal_inv (Up w, hi)" and h: "hi \<noteq> maxUint64" and A: "Append fio io w t p = (r, w')"
  shows "if is_ok r \<or> w_file w' \<noteq> w_file w then hi < w_next w \<and> wal_inv (Up w', w_next w)
         else wal_inv (Up w', hi)"
proof -
  obtain f where f: "w_floor w = Some f" "fl_disk f \<noteq> []" "\<forall>c\<in>set (fl_disk f). floor_covers hi c"
    "writer_live w \<Longrightarrow> hi < w_next w \<and> (\<forall>c\<in>set (fl_disk f). unsealed_covers (fl_reserved f) c)"
    using i h by (auto simp: wal_inv_def)
  have live: "\<exists>f'. fl = Some f' \<and> fl_disk f' \<noteq> [] \<and> (\<forall>c\<in>set (fl_disk f'). unsealed_covers (fl_reserved f') c) \<and>
      (\<forall>c\<in>set (fl_disk f'). floor_covers (w_next w) c)"
    if "reserved_by fio w fl" "writer_live w" for fl
    using that f floor_reserve_ok [of fio f "w_next w"] unsealed_covers_mono unsealed_floor_covers
    by (fastforce simp: reserved_by_def)
  show ?thesis using A
  proof (cases rule: Append_cases)
    case (refused e)
    then show ?thesis using i by simp
  next
    case (unreserved g f' e)
    then have "hi \<le> w_next w" using f(4) by (auto simp: writer_live_def)
    with unreserved f show ?thesis
      using floor_reserve_err [of fio f "w_next w" e f' hi] by (auto simp: wal_inv_def writer_live_def)
  next
    case (panicked fl)
    then have lv: "writer_live w" by (simp add: writer_live_def)
    obtain f' where "fl = Some f'" "fl_disk f' \<noteq> []" "\<forall>c\<in>set (fl_disk f'). unsealed_covers (fl_reserved f') c"
      "\<forall>c\<in>set (fl_disk f'). floor_covers (w_next w) c"
      using live [OF panicked(1) lv] by blast
    with panicked lv f(4) show ?thesis
      by (auto simp: wal_inv_def intro: floor_covers_mono less_imp_le)
  next
    case (torn fl data)
    then have lv: "writer_live w" by (simp add: writer_live_def)
    obtain f' where "fl = Some f'" "fl_disk f' \<noteq> []" "\<forall>c\<in>set (fl_disk f'). floor_covers (w_next w) c"
      using live [OF torn(1) lv] by blast
    with torn lv f(4) show ?thesis
      by (auto simp: wal_inv_def writer_live_def intro: floor_covers_mono less_imp_le)
  next
    case (acked fl frame)
    then have lv: "writer_live w" by (simp add: writer_live_def)
    obtain f' where "fl = Some f'" "fl_disk f' \<noteq> []" "\<forall>c\<in>set (fl_disk f'). unsealed_covers (fl_reserved f') c"
      "\<forall>c\<in>set (fl_disk f'). floor_covers (w_next w) c"
      using live [OF acked(1) lv] by blast
    with acked lv f(4) u64_less_Suc [of "w_next w"] show ?thesis
      by (auto simp: wal_inv_def)
  qed
qed

lemma floor_seal_covers:
  assumes "floor_seal io f n = (r, f')" "fl_disk f \<noteq> []" "\<forall>c\<in>set (fl_disk f). floor_covers hi c" "hi \<le> n"
  shows "fl_disk f' \<noteq> []" "\<forall>c\<in>set (fl_disk f'). floor_covers hi c"
proof -
  let ?w = "if fl_written f < n then n else fl_written f"
  let ?r = "if fl_reserved f < ?w then ?w else fl_reserved f"
  have p: "persistLocked io f ?r ?w True = (r, f')" using assms(1) by (simp add: floor_seal_def Let_def)
  have "hi \<le> ?w" using assms(4) by auto
  then have "floor_covers hi (Some (encodeIndexFloor ?r ?w True (fl_key f)))"
    using floor_covers_mono encode_covers(2) by blast
  then show "fl_disk f' \<noteq> []" "\<forall>c\<in>set (fl_disk f'). floor_covers hi c"
    using persistLocked_ne [OF p assms(2)] persistLocked_disk [OF p assms(3)] by blast+
qed

lemma u64_le_pred: "(a :: u64) < b \<Longrightarrow> a \<le> b - 1"
  by (metis diff_add_cancel inc_le less_imp_neq not_less word_not_simps(1) word_zero_le linorder_not_le)

lemma close_inv:
  assumes i: "wal_inv (Up w, hi)" and h: "hi \<noteq> maxUint64"
  shows "wal_inv (Up (snd (close fio s c w sf)), hi)"
proof (cases "w_closed w")
  case True
  then show ?thesis using i by (simp add: close_def)
next
  case False
  obtain f where f: "w_floor w = Some f" "fl_disk f \<noteq> []" "\<forall>c\<in>set (fl_disk f). floor_covers hi c"
    "writer_live w \<Longrightarrow> hi < w_next w"
    using i h by (auto simp: wal_inv_def)
  obtain r f' where sl: "floor_seal fio f (w_next w - 1) = (r, f')" by fastforce
  show ?thesis
  proof (cases "\<not> w_poisoned w \<and> s \<and> sf")
    case True
    then have "writer_live w" using False by (simp add: writer_live_def)
    then have "hi \<le> w_next w - 1" using f(4) by (intro u64_le_pred) simp
    note C = floor_seal_covers [OF sl f(2,3) this]
    have "\<exists>w'. snd (close fio s c w sf) = w' \<and> w_floor w' = Some f' \<and> w_closed w'"
      using True False f(1) sl by (cases r) (auto simp: close_def Let_def)
    then show ?thesis using C by (auto simp: wal_inv_def writer_live_def)
  next
    case no: False
    have "\<exists>w'. snd (close fio s c w sf) = w' \<and> w_floor w' = Some f \<and> w_closed w'"
      using no False f(1) by (auto simp: close_def Let_def poison_def)
    then show ?thesis using f by (auto simp: wal_inv_def writer_live_def)
  qed
qed

lemma start_index_above:
  assumes "fl_written fl \<noteq> maxUint64" "fl_reserved fl \<noteq> maxUint64"
    and "hi \<le> fl_written fl \<or> (\<not> fl_sealed fl \<and> hi \<le> fl_reserved fl)"
  shows "hi < start_index fileNext fl"
  using assms u64_less_Suc [OF assms(1)] u64_less_Suc [OF assms(2)]
  by (auto simp: start_index_def Let_def not_less)

lemma floor_begin_inv:
  assumes b: "floor_begin io f start = (r, f')" and d: "fl_disk f \<noteq> []" "\<forall>c\<in>set (fl_disk f). floor_covers hi c"
    and "hi < start"
  shows "fl_disk f' \<noteq> []" "\<forall>c\<in>set (fl_disk f'). floor_covers hi c"
    "r = Inr () \<Longrightarrow> \<forall>c\<in>set (fl_disk f'). unsealed_covers (fl_reserved f') c"
proof -
  let ?w = "if fl_written f < start - 1 then start - 1 else fl_written f"
  let ?r0 = "if fl_reserved f < satAdd start (indexReserveBlock - 1)
             then satAdd start (indexReserveBlock - 1) else fl_reserved f"
  let ?r = "if ?r0 < ?w then ?w else ?r0"
  have "start \<noteq> 0" using assms(4) by auto
  then have p: "persistLocked io f ?r ?w False = (r, f')" using b by (simp add: floor_begin_def Let_def)
  have "hi \<le> ?r" using assms(4) satAdd_ge [of start "indexReserveBlock - 1"]
    by (auto simp: not_less intro: order_trans less_imp_le)
  then have "floor_covers hi (Some (encodeIndexFloor ?r ?w False (fl_key f)))"
    using unsealed_covers_mono encode_covers(1) unsealed_floor_covers by blast
  then show "fl_disk f' \<noteq> []" "\<forall>c\<in>set (fl_disk f'). floor_covers hi c"
    using persistLocked_ne [OF p d(1)] persistLocked_disk [OF p d(2)] by blast+
  show "\<forall>c\<in>set (fl_disk f'). unsealed_covers (fl_reserved f') c" if "r = Inr ()"
    using persistLocked_done [of io f ?r ?w False f'] p that encode_covers(1) by auto
qed

lemma openWriter_fields:
  "openWriter io file k c = Inr w \<Longrightarrow> w_floor w = None \<and> \<not> w_poisoned w \<and> \<not> w_closed w"
  by (auto simp: openWriter_def fresh_writer_def Let_def split: if_splits prod.splits sum.splits option.splits)

lemma reopen_inv:
  assumes "floor_covers hi floorFile"
  shows "wal_inv (reopen floorFile dir key ctx orig io file n fio, hi)"
proof (cases "openIndexFloor dir floorFile key orig")
  case (Inl e)
  then show ?thesis using assms by (simp add: reopen_def wal_inv_def)
next
  case fl: (Inr fl)
  let ?c = "\<lparr>cd_version = FormatVersion, cd_key = key, cd_context = ctx\<rparr>"
  have disk: "fl_disk fl = [floorFile]" and
    cov: "hi \<le> fl_written fl \<or> (\<not> fl_sealed fl \<and> hi \<le> fl_reserved fl)"
  proof -
    obtain ff where "readIndexFloorFile floorFile key orig = Inr ff"
      "fl = \<lparr>fl_reserved = ff_reserved ff, fl_written = ff_written ff, fl_sealed = ff_sealed ff,
             fl_existed = ff_existed ff, fl_legacy = ff_legacy ff, fl_unverif = ff_unverified ff,
             fl_key = key, fl_disk = [floorFile]\<rparr>"
      using fl by (auto simp: openIndexFloor_def res split: if_splits)
    moreover from this assms have "hi \<le> ff_written ff \<or> (\<not> ff_sealed ff \<and> hi \<le> ff_reserved ff)"
      unfolding floor_covers_def by blast
    ultimately show "fl_disk fl = [floorFile]"
      "hi \<le> fl_written fl \<or> (\<not> fl_sealed fl \<and> hi \<le> fl_reserved fl)" by simp_all
  qed
  show ?thesis
  proof (cases "openWriter io file KindWAL ?c")
    case (Inl e)
    then show ?thesis using assms fl by (simp add: reopen_def wal_inv_def)
  next
    case w: (Inr w)
    obtain r fl' where r: "resume_index fio w n fl = (r, fl')" by fastforce
    show ?thesis
    proof (cases "fl_written fl = maxUint64 \<or> fl_reserved fl = maxUint64")
      case True
      then show ?thesis using assms fl w disk by (simp add: reopen_def resume_index_def wal_inv_def)
    next
      case False
      define start where "start = start_index (if w_next w < n then n else w_next w) fl"
      have hs: "hi < start" using start_index_above [OF _ _ cov] False by (simp add: start_def)
      obtain b f' where b: "floor_begin fio fl start = (b, f')" by fastforce
      have d: "fl_disk fl \<noteq> []" "\<forall>c\<in>set (fl_disk fl). floor_covers hi c" using disk assms by simp_all
      note B = floor_begin_inv [OF b d hs]
      show ?thesis
      proof (cases b)
        case (Inl e)
        then show ?thesis
          using fl w False b B by (simp add: reopen_def resume_index_def wal_inv_def flip: start_def)
      next
        case (Inr u)
        then show ?thesis
          using fl w False b B hs
          by (auto simp: reopen_def resume_index_def wal_inv_def setIndexFloor_def advanceIndexTo_def
              simp flip: start_def)
      qed
    qed
  qed
qed

lemma wal_step_inv:
  assumes "wal_inv s"
  shows "wal_inv (snd (wal_step s x))"
proof (cases "snd s = maxUint64")
  case True
  then show ?thesis using assms by (cases "(s, x)" rule: wal_step.cases) (auto simp: wal_inv_def Let_def)
next
  case False
  show ?thesis
  proof (cases "(s, x)" rule: wal_step.cases)
    case (1 w hi fio io t p)
    then show ?thesis
      using assms False Append_inv [of w hi fio io t p] by (auto split: prod.splits if_splits)
  next
    case (2 w hi fio s c sf)
    then show ?thesis using assms False close_inv by simp
  next
    case (5 b hi i dir key ctx orig io lf n fio)
    let ?d = "floor_disk b"
    have "?d ! (i mod length ?d) \<in> set ?d" using 5 assms False by (auto simp: wal_inv_def)
    then have "floor_covers hi (?d ! (i mod length ?d))" using 5 assms False by (auto simp: wal_inv_def)
    then show ?thesis using 5 reopen_inv by (simp add: Let_def)
  qed (use assms in auto)
qed

lemma wal_step_issued:
  assumes "wal_inv s"
  shows "fst (wal_step s x) = [] \<and> snd (snd (wal_step s x)) = snd s \<or>
    (\<exists>n. fst (wal_step s x) = [n] \<and> snd s < n \<and> snd (snd (wal_step s x)) = n)"
proof (cases "(s, x)" rule: wal_step.cases)
  case (1 w hi fio io t p)
  then show ?thesis
    using assms Append_inv [of w hi fio io t p] by (auto split: prod.splits if_splits)
qed (auto simp: Let_def)

lemma wal_step_hi: "wal_inv s \<Longrightarrow> snd s \<le> snd (snd (wal_step s x))"
  using wal_step_issued [of s x] by auto

lemma wal_step_single:
  "wal_inv s \<Longrightarrow> List.map_filter Some (fst (wal_step s x)) = [] \<or>
    (\<exists>n. List.map_filter Some (fst (wal_step s x)) = [n] \<and> snd s < n \<and> n \<le> snd (snd (wal_step s x)))"
  using wal_step_issued [of s x] by auto

interpretation walidx: allocator wal_step wal_inv snd Some
  by (rule allocator_single)
    (rule wal_step_inv, assumption, rule wal_step_hi, assumption, rule wal_step_single, assumption)

lemma wal_inv_fresh: "wal_inv (Down [None], 0)"
  by (simp add: wal_inv_def floor_covers_def)

section \<open>Properties\<close>

text \<open>
  C12. Every acknowledged append survives a crash: after any history of appends, with any
  outcome of each write and fsync, a scan of the bytes the writer has acknowledged followed
  by any bytes at all (a torn frame, garbage) hands on exactly the acknowledged records
  first, in order.  The history stays below the last 64-bit record index.
\<close>

theorem acknowledged_records_survive:
  assumes "openWriter IoOk None k c = Inr w0" "\<not> isV1 c" "magic k \<noteq> ''''"
    and "run append_step w0 ops = (acked, w)" "maxUint64 \<notin> rec_index ` set acked"
  shows "\<exists>e err more. ScanAll c (take (w_size w) (w_file w) @ tail) k = (e, err, acked @ more) \<and>
    w_size w \<le> e"
proof -
  obtain hdr where w0: "writer_holds w0 hdr []" "w_next w0 = 1" "w_codec w0 = c" "w_kind w0 = k"
    using openWriter_new [OF assms(1-3)] .
  have keep: "w_codec (snd (run append_step v xs)) = w_codec v \<and> w_kind (snd (run append_step v xs)) = w_kind v"
    for v xs
    by (induction xs arbitrary: v)
      (auto simp: snd_run_Cons append_step_def split: prod.splits sum.splits elim!: Append_cases simp del: run.simps(2))
  have "writer_holds w hdr acked" using append_run_holds [OF w0(1), of ops] w0(2) assms(4,5) by simp
  from holds_scan [OF this, of tail] show ?thesis using keep [of w0 ops] w0(3,4) assms(4) by simp
qed

definition demo_v2 :: codec where
  "demo_v2 = \<lparr>cd_version = 2, cd_key = ''k'', cd_context = []\<rparr>"

lemma demo_v2_writer:
  obtains h where "makeFileHeader demo_v2 KindWAL = Some h"
    "openWriter IoOk None KindWAL demo_v2 = Inr (fresh_writer KindWAL demo_v2 (write_at [] 0 h) 1 48)"
    "\<not> isV1 demo_v2" "codec_ready demo_v2"
proof -
  have r: "codec_ready demo_v2" "\<not> isV1 demo_v2"
    by (simp_all add: codec_ready_def isV1_def demo_v2_def formatVersionV1_def)
  obtain h where "makeFileHeader demo_v2 KindWAL = Some h"
    using parse_makeFileHeader [OF r(1) demo_ready(3)] .
  then show ?thesis
    using r that [of h] by (simp add: openWriter_def initFile_def fileHeaderSize_def)
qed

theorem acknowledged_records_survive_witness:
  "\<exists>w0 w rc e err more. openWriter IoOk None KindWAL demo_v2 = Inr w0 \<and>
     run append_step w0 [(WriteOk, IoOk, TypePrepare, ''abc''), (WriteOk, IoShort 9, TypeCommit, ''d'')] =
       ([rc], w) \<and> rec_payload rc = ''abc'' \<and> w_poisoned w \<and>
     ScanAll demo_v2 (take (w_size w) (w_file w) @ ''xyz'') KindWAL = (e, err, [rc] @ more) \<and> w_size w \<le> e"
proof -
  obtain h where h: "makeFileHeader demo_v2 KindWAL = Some h"
    "openWriter IoOk None KindWAL demo_v2 = Inr (fresh_writer KindWAL demo_v2 (write_at [] 0 h) 1 48)"
    "\<not> isV1 demo_v2" "codec_ready demo_v2" by (rule demo_v2_writer)
  let ?w0 = "fresh_writer KindWAL demo_v2 (write_at [] 0 h) 1 48"
  obtain f g where f: "encodeFrame demo_v2 1 TypePrepare ''abc'' = Some f"
    "encodeFrame demo_v2 2 TypeCommit ''d'' = Some g" using encodeFrame_ready [OF h(4)] by metis
  obtain acked w where r: "run append_step ?w0
      [(WriteOk, IoOk, TypePrepare, ''abc''), (WriteOk, IoShort 9, TypeCommit, ''d'')] = (acked, w)"
    by fastforce
  then have a: "acked = [acked_record ?w0 TypePrepare ''abc'']" "w_poisoned w"
    using f encodeFrame_payload [OF f(1)]
    by (auto simp: append_step_def Append_def fresh_writer_def Known_def TypePrepare_def TypeCommit_def
        TypeAuditMessage_def MaxPayloadSize_def acked_record_def poison_def Let_def)
  have "maxUint64 \<notin> rec_index ` set acked"
    by (simp add: a acked_record_def fresh_writer_def maxUint64_def)
  from acknowledged_records_survive [OF h(2,3) demo_ready(3) r this, of "''xyz''"]
  show ?thesis using h(2) r a by (auto simp: acked_record_def)
qed




end
