(* ===== verification/Idem.thy ===== *)
theory Idem
  imports SuffixStore
begin

text \<open>
  Idempotency (\<^verbatim>\<open>internal/idem\<close>): request keys and scopes, fingerprints, applied-key
  records and the in-memory table of keys already applied.

  Times are integers counting nanoseconds from Go's zero time, so \<^verbatim>\<open>IsZero\<close> is equality with
  0; \<^verbatim>\<open>time.Time.Sub\<close> saturates at the bounds of a 64-bit duration.  The clock is an
  argument of each operation.  The JSON text of a record is outside the model.
\<close>

section \<open>Keys, operations and scopes\<close>

type_synonym time = int

definition maxDuration :: int where "maxDuration = 2 ^ 63 - 1"
definition minDuration :: int where "minDuration = - (2 ^ 63)"

definition time_sub :: "time \<Rightarrow> time \<Rightarrow> int" where
  "time_sub a b = (if maxDuration < a - b then maxDuration
                   else if a - b < minDuration then minDuration else a - b)"

datatype idem_error =
    ErrMissingKey | ErrInvalidKey | ErrInvalidAgent | ErrInvalidOperation | ErrInvalidRecord
  | ErrResultTooLarge | ErrCapacity | ErrAgentQuota | IdemBadBusID ids_error

definition MaxKeyLen :: nat where "MaxKeyLen = 128"
definition MaxAgentLen :: nat where "MaxAgentLen = 150"
definition MaxResultBytes :: nat where "MaxResultBytes = 512"
definition MaxRecordBytes :: int where "MaxRecordBytes = 1024"
definition MaxRetainedBytes :: int where "MaxRetainedBytes = 64 * 1048576"
definition MaxEntries :: int where "MaxEntries = MaxRetainedBytes div MaxRecordBytes"

definition sec_ns :: int where "sec_ns = 1000000000"
definition PeerOutageBudget :: int where "PeerOutageBudget = 24 * 3600 * sec_ns"
definition SessionLifetimeMax :: int where "SessionLifetimeMax = 3600 * sec_ns"
definition ParkedPollMax :: int where "ParkedPollMax = 5 * 60 * sec_ns"
definition TransportRetryHorizon :: int where "TransportRetryHorizon = 11 * sec_ns"
definition MaxRetryHorizon :: int where
  "MaxRetryHorizon = PeerOutageBudget + SessionLifetimeMax + ParkedPollMax + TransportRetryHorizon"
definition RetentionSafetyFactor :: int where "RetentionSafetyFactor = 2"
definition RetentionWindow :: int where "RetentionWindow = MaxRetryHorizon * RetentionSafetyFactor"

definition key_char :: "char \<Rightarrow> bool" where
  "key_char c \<longleftrightarrow> is_lower c \<or> is_upper c \<or> is_digit c \<or> c = CHR ''_'' \<or> c = CHR ''.'' \<or> c = CHR ''-''"

definition ValidateKey :: "string \<Rightarrow> idem_error + unit" where
  "ValidateKey key =
     (if key = [] then Inl ErrMissingKey
      else if MaxKeyLen < length key then Inl ErrInvalidKey
      else if \<not> list_all key_char key then Inl ErrInvalidKey
      else Inr ())"

text \<open>\<open>raw\<close> is \<^verbatim>\<open>h.Get(HeaderName)\<close>, the empty string when the header is absent.\<close>

definition FromRequest :: "string \<Rightarrow> idem_error + string" where
  "FromRequest raw =
     (if raw = [] then Inl ErrMissingKey
      else bindR (ValidateKey raw) (\<lambda>_. Inr raw))"

definition OpEnrol :: string where "OpEnrol = ''enrol''"
definition OpSend :: string where "OpSend = ''send''"
definition OpBroadcast :: string where "OpBroadcast = ''broadcast''"
definition OpLeave :: string where "OpLeave = ''leave''"
definition OpPeerEnrol :: string where "OpPeerEnrol = ''peer-enrol''"
definition OpRelay :: string where "OpRelay = ''relay''"
definition OpConversationCreate :: string where "OpConversationCreate = ''conversation-create''"

definition op_valid :: "string \<Rightarrow> bool" where
  "op_valid op \<longleftrightarrow> op = OpEnrol \<or> op = OpSend \<or> op = OpBroadcast \<or> op = OpLeave \<or>
     op = OpPeerEnrol \<or> op = OpRelay \<or> op = OpConversationCreate"

record idem_scope =
  sc_agent :: string
  sc_op :: string
  sc_key :: string
  sc_enrolBusWide :: bool

definition NewAgentScope :: "string \<Rightarrow> string \<Rightarrow> string \<Rightarrow> idem_error + idem_scope" where
  "NewAgentScope agentID op key =
     (if agentID = [] then Inl ErrInvalidAgent
      else if op = OpEnrol then Inl ErrInvalidOperation
      else if \<not> op_valid op then Inl ErrInvalidOperation
      else bindR (ValidateKey key) (\<lambda>_.
        Inr \<lparr>sc_agent = agentID, sc_op = op, sc_key = key, sc_enrolBusWide = False\<rparr>))"

definition NewEnrolScope :: "string \<Rightarrow> idem_error + idem_scope" where
  "NewEnrolScope key =
     bindR (ValidateKey key) (\<lambda>_.
       Inr \<lparr>sc_agent = [], sc_op = OpEnrol, sc_key = key, sc_enrolBusWide = True\<rparr>)"

definition ValidateIdempotencyKey :: "string \<Rightarrow> string \<Rightarrow> idem_error + unit" where
  "ValidateIdempotencyKey agentID key = (if agentID = [] then Inl ErrInvalidAgent else ValidateKey key)"

section \<open>Fingerprints and records\<close>

definition fp_framing :: "bytes list \<Rightarrow> bytes" where
  "fp_framing fs = concat (map (\<lambda>f. PutUint64 (word_of_nat (length f)) @ f) fs)"

definition ComputeFingerprint :: "bytes list \<Rightarrow> bytes" where
  "ComputeFingerprint fs = sha256 (fp_framing fs)"

record idem_record =
  ir_agent :: string
  ir_enrolBusWide :: bool
  ir_op :: string
  ir_key :: string
  ir_fingerprint :: bytes
  ir_result :: bytes
  ir_seq :: u64
  ir_committedAt :: time

definition record_Scope :: "idem_record \<Rightarrow> idem_error + idem_scope" where
  "record_Scope r =
     (if ir_enrolBusWide r then NewEnrolScope (ir_key r)
      else NewAgentScope (ir_agent r) (ir_op r) (ir_key r))"

definition record_validate :: "idem_record \<Rightarrow> idem_error + unit" where
  "record_validate r =
     (if \<not> op_valid (ir_op r) then Inl ErrInvalidRecord
      else bindR (wrapErr (\<lambda>_. ErrInvalidRecord) (ValidateKey (ir_key r))) (\<lambda>_.
      if ir_enrolBusWide r \<and> ir_op r \<noteq> OpEnrol then Inl ErrInvalidRecord
      else if ir_enrolBusWide r \<and> ir_agent r \<noteq> [] then Inl ErrInvalidRecord
      else if \<not> ir_enrolBusWide r \<and> ir_agent r = [] then Inl ErrInvalidRecord
      else if MaxAgentLen < length (ir_agent r) then Inl ErrInvalidRecord
      else if MaxResultBytes < length (ir_result r) then Inl ErrResultTooLarge
      else if ir_committedAt r = 0 then Inl ErrInvalidRecord
      else bindR (wrapErr (\<lambda>_. ErrInvalidRecord) (record_Scope r)) (\<lambda>_. Inr ())))"

section \<open>The applied-key table\<close>

datatype idem_outcome = OutcomeNew | OutcomeRetry | OutcomeViolation

record idem_store =
  st_window :: int
  st_maxEntries :: int
  st_records :: "(idem_scope \<times> idem_record) list"
  st_byAgent :: "(string \<times> int) list"
  st_localBusID :: string
  st_buckets :: "(idem_scope \<times> string) list"
  st_order :: "idem_scope list"
  st_head :: nat
  st_expired :: u64

definition NewStore :: "int \<Rightarrow> int \<Rightarrow> idem_store" where
  "NewStore window maxEntries =
     \<lparr>st_window = (if window \<le> 0 then RetentionWindow else window),
      st_maxEntries = (if maxEntries \<le> 0 then MaxEntries else maxEntries),
      st_records = [], st_byAgent = [], st_localBusID = [], st_buckets = [], st_order = [],
      st_head = 0, st_expired = 0\<rparr>"

definition NewStoreForBus :: "string \<Rightarrow> int \<Rightarrow> int \<Rightarrow> idem_error + idem_store" where
  "NewStoreForBus localBusID window maxEntries =
     bindR (wrapErr IdemBadBusID (ValidateBusID localBusID)) (\<lambda>_.
     Inr ((NewStore window maxEntries)\<lparr>st_localBusID := to_lower localBusID\<rparr>))"

definition bucket :: "idem_store \<Rightarrow> idem_scope \<Rightarrow> idem_error + string" where
  "bucket s sc =
     (if sc_enrolBusWide sc then Inr []
      else if st_localBusID s = [] then Inr (sc_agent sc)
      else bindR (wrapErr IdemBadBusID (ParseAgentID (sc_agent sc))) (\<lambda>(busID, _, _).
        let canonicalBusID = to_lower busID in
        if canonicalBusID = st_localBusID s then Inr (sc_agent sc) else Inr canonicalBusID))"

definition pressureLine :: "idem_store \<Rightarrow> int" where
  "pressureLine s = st_maxEntries s div 2"

definition fairShare :: "idem_store \<Rightarrow> int" where
  "fairShare s = st_maxEntries s div (int (length (st_byAgent s)) + 1)"

definition getI :: "(string \<times> int) list \<Rightarrow> string \<Rightarrow> int" where
  "getI m k = (case map_of m k of None \<Rightarrow> 0 | Some v \<Rightarrow> v)"

definition zero_scope :: idem_scope where
  "zero_scope = \<lparr>sc_agent = [], sc_op = [], sc_key = [], sc_enrolBusWide = False\<rparr>"

definition compactOrder :: "idem_store \<Rightarrow> idem_store" where
  "compactOrder s =
     (let live = length (st_order s) - st_head s in
      if live = 0 then s\<lparr>st_order := [], st_head := 0\<rparr>
      else if st_head s < live then s
      else s\<lparr>st_order := drop (st_head s) (st_order s), st_head := 0\<rparr>)"

text \<open>The loop of \<^verbatim>\<open>expireLocked\<close> over the live part \<open>order[head:]\<close>.\<close>

definition evict :: "idem_scope \<Rightarrow> idem_store \<Rightarrow> idem_store" where
  "evict sc s =
     (let s1 = s\<lparr>st_records := AList.delete sc (st_records s)\<rparr>;
          s2 = (if sc_enrolBusWide sc then s1
                else
                  let b = (case map_of (st_buckets s1) sc of None \<Rightarrow> [] | Some b \<Rightarrow> b);
                      n = getI (st_byAgent s1) b - 1
                  in s1\<lparr>st_byAgent := (if 0 < n then AList.update b n (st_byAgent s1)
                                       else AList.delete b (st_byAgent s1)),
                        st_buckets := AList.delete sc (st_buckets s1)\<rparr>)
      in s2\<lparr>st_expired := st_expired s2 + 1, st_head := st_head s2 + 1\<rparr>)"

fun expire_loop :: "time \<Rightarrow> idem_scope list \<Rightarrow> idem_store \<Rightarrow> idem_store" where
  "expire_loop now [] s = s"
| "expire_loop now (sc # rest) s =
     (case map_of (st_records s) sc of
        None \<Rightarrow> expire_loop now rest (s\<lparr>st_head := st_head s + 1\<rparr>)
      | Some r \<Rightarrow>
          if time_sub now (ir_committedAt r) \<le> st_window s then s
          else expire_loop now rest (evict sc s))"

definition zero_slots :: "nat \<Rightarrow> nat \<Rightarrow> idem_scope list \<Rightarrow> idem_scope list" where
  "zero_slots a b xs = take a xs @ replicate (min b (length xs) - a) zero_scope @ drop (max a b) xs"

definition expireLocked :: "time \<Rightarrow> idem_store \<Rightarrow> idem_store" where
  "expireLocked now s =
     (let s' = expire_loop now (drop (st_head s) (st_order s)) s in
      if st_head s' = st_head s then s'
      else compactOrder (s'\<lparr>st_order := zero_slots (st_head s) (st_head s') (st_order s')\<rparr>))"

definition admitAgentLocked :: "idem_store \<Rightarrow> idem_scope \<Rightarrow> string \<Rightarrow> idem_error + unit" where
  "admitAgentLocked s sc b =
     (if sc_enrolBusWide sc then Inr ()
      else if int (length (st_records s)) < pressureLine s then Inr ()
      else if getI (st_byAgent s) b < fairShare s then Inr ()
      else Inl ErrAgentQuota)"

definition Lookup :: "time \<Rightarrow> idem_store \<Rightarrow> idem_scope \<Rightarrow> bytes \<Rightarrow> (idem_record option \<times> idem_outcome) \<times> idem_store" where
  "Lookup now s sc fp =
     (let s' = expireLocked now s in
      (case map_of (st_records s') sc of
         None \<Rightarrow> ((None, OutcomeNew), s')
       | Some prev \<Rightarrow>
           if ir_fingerprint prev \<noteq> fp then ((Some prev, OutcomeViolation), s')
           else ((Some prev, OutcomeRetry), s')))"

definition remember :: "time \<Rightarrow> idem_store \<Rightarrow> idem_record \<Rightarrow> bool \<Rightarrow> (idem_error + unit) \<times> idem_store" where
  "remember now s r enforceShare =
     (case record_Scope r of
        Inl _ \<Rightarrow> (Inl ErrInvalidRecord, s)
      | Inr sc \<Rightarrow>
     (case record_validate r of
        Inl e \<Rightarrow> (Inl e, s)
      | Inr _ \<Rightarrow>
     (case bucket s sc of
        Inl _ \<Rightarrow> (Inl ErrInvalidRecord, s)
      | Inr b \<Rightarrow>
        (let s' = expireLocked now s in
         if map_of (st_records s') sc \<noteq> None then (Inr (), s')
         else if st_maxEntries s' \<le> int (length (st_records s')) then (Inl ErrCapacity, s')
         else
         (case (if enforceShare then admitAgentLocked s' sc b else Inr ()) of
            Inl e \<Rightarrow> (Inl e, s')
          | Inr _ \<Rightarrow>
            let s1 = s'\<lparr>st_records := AList.update sc r (st_records s'),
                        st_order := st_order s' @ [sc]\<rparr>
            in (Inr (), if sc_enrolBusWide sc then s1
                        else s1\<lparr>st_byAgent := AList.update b (getI (st_byAgent s1) b + 1) (st_byAgent s1),
                                st_buckets := AList.update sc b (st_buckets s1)\<rparr>))))))"

definition Remember :: "time \<Rightarrow> idem_store \<Rightarrow> idem_record \<Rightarrow> (idem_error + unit) \<times> idem_store" where
  "Remember now s r = remember now s r True"

definition Recover :: "time \<Rightarrow> idem_store \<Rightarrow> idem_record \<Rightarrow> (idem_error + unit) \<times> idem_store" where
  "Recover now s r = remember now s r False"

definition Admit :: "time \<Rightarrow> idem_store \<Rightarrow> idem_scope \<Rightarrow> (idem_error + unit) \<times> idem_store" where
  "Admit now s sc =
     (case bucket s sc of
        Inl e \<Rightarrow> (Inl e, s)
      | Inr b \<Rightarrow>
        (let s' = expireLocked now s in
         if st_maxEntries s' \<le> int (length (st_records s')) then (Inl ErrCapacity, s')
         else (admitAgentLocked s' sc b, s')))"

definition Full :: "time \<Rightarrow> idem_store \<Rightarrow> bool \<times> idem_store" where
  "Full now s = (let s' = expireLocked now s in (st_maxEntries s' \<le> int (length (st_records s')), s'))"

definition Expire :: "time \<Rightarrow> idem_store \<Rightarrow> idem_store" where
  "Expire now s = expireLocked now s"

record idem_stats =
  is_count :: int
  is_oldest :: "time option"
  is_oldestAge :: int
  is_expired :: u64
  is_window :: int
  is_maxEntries :: int
  is_agents :: int
  is_share :: int
  is_underPressure :: bool

definition Stats :: "time \<Rightarrow> idem_store \<Rightarrow> idem_stats \<times> idem_store" where
  "Stats now s =
     (let s' = expireLocked now s;
          oldest = (if st_head s' < length (st_order s')
                    then map_option ir_committedAt (map_of (st_records s') (st_order s' ! st_head s'))
                    else None)
      in (\<lparr>is_count = int (length (st_records s')), is_oldest = oldest,
           is_oldestAge = (case oldest of None \<Rightarrow> 0 | Some t \<Rightarrow> time_sub now t),
           is_expired = st_expired s', is_window = st_window s', is_maxEntries = st_maxEntries s',
           is_agents = int (length (st_byAgent s')), is_share = fairShare s',
           is_underPressure = (pressureLine s' \<le> int (length (st_records s')))\<rparr>, s'))"

section \<open>The invariant\<close>

text \<open>
  \<open>table_ok live s\<close>: the live scopes, the records, the bucket map and the per-agent
  counters describe the same set of applied keys.
\<close>

definition held :: "idem_scope list \<Rightarrow> (idem_scope \<times> string) list \<Rightarrow> string \<Rightarrow> nat" where
  "held live bks b = length (filter (\<lambda>sc. map_of bks sc = Some b) live)"

definition table_ok :: "idem_scope list \<Rightarrow> idem_store \<Rightarrow> bool" where
  "table_ok live s \<longleftrightarrow>
     distinct (map fst (st_records s)) \<and> distinct live \<and> set live = fst ` set (st_records s) \<and>
     distinct (map fst (st_byAgent s)) \<and>
     (\<forall>sc. map_of (st_buckets s) sc \<noteq> None \<longleftrightarrow> sc \<in> set live \<and> \<not> sc_enrolBusWide sc) \<and>
     (\<forall>b. map_of (st_byAgent s) b =
        (if held live (st_buckets s) b = 0 then None else Some (int (held live (st_buckets s) b))))"

abbreviation live_scopes :: "idem_store \<Rightarrow> idem_scope list" where
  "live_scopes s \<equiv> drop (st_head s) (st_order s)"

definition idem_inv :: "idem_store \<Rightarrow> bool" where
  "idem_inv s \<longleftrightarrow>
     table_ok (live_scopes s) s \<and> st_head s \<le> length (st_order s) \<and>
     (st_head s = 0 \<or> st_head s < length (live_scopes s)) \<and>
     int (length (st_records s)) \<le> st_maxEntries s \<and> 0 < st_maxEntries s"

lemma table_ok_length: "table_ok live s \<Longrightarrow> length live = length (st_records s)"
  unfolding table_ok_def by (metis distinct_card length_map set_map)

lemma table_ok_frame:
  "st_records s' = st_records s \<Longrightarrow> st_byAgent s' = st_byAgent s \<Longrightarrow> st_buckets s' = st_buckets s \<Longrightarrow>
     table_ok live s' = table_ok live s"
  by (simp add: table_ok_def)

lemma held_delete: "sc \<notin> set live \<Longrightarrow> held live (AList.delete sc bks) b = held live bks b"
  unfolding held_def by (intro arg_cong [of _ _ length] filter_cong) (auto simp: delete_conv)

lemma held_update: "sc \<notin> set live \<Longrightarrow> held live (AList.update sc c bks) b = held live bks b"
  unfolding held_def by (intro arg_cong [of _ _ length] filter_cong) (auto simp: update_conv)

lemma held_Cons: "held (sc # live) bks b = (if map_of bks sc = Some b then 1 else 0) + held live bks b"
  by (simp add: held_def)

lemma held_snoc: "held (live @ [sc]) bks b = held live bks b + (if map_of bks sc = Some b then 1 else 0)"
  by (simp add: held_def)

lemma keys_delete: "fst ` set (AList.delete k al) = fst ` set al - {k}"
  by (force simp: AList.delete_eq)

lemma keys_update: "fst ` set (AList.update k v al) = insert k (fst ` set al)"
  by (induction al) auto

lemma evict_table_ok:
  assumes t: "table_ok (sc # live) s"
  shows "table_ok live (evict sc s)"
proof (cases "sc_enrolBusWide sc")
  case True
  then have "map_of (st_buckets s) sc = None" using t by (auto simp: table_ok_def)
  moreover have "set live = fst ` set (AList.delete sc (st_records s))"
    using t by (auto simp: table_ok_def keys_delete)
  ultimately show ?thesis
    using True t by (auto simp: table_ok_def evict_def Let_def held_Cons distinct_delete)
next
  case False
  have "map_of (st_buckets s) sc \<noteq> None" using t False unfolding table_ok_def by simp
  then obtain b where b: "map_of (st_buckets s) sc = Some b" by blast
  have new: "sc \<notin> set live" using t by (simp add: table_ok_def)
  have cnt: "map_of (st_byAgent s) b = Some (int (Suc (held live (st_buckets s) b)))"
    using t b by (auto simp: table_ok_def held_Cons)
  let ?n = "getI (st_byAgent s) b - 1"
  have n: "?n = int (held live (st_buckets s) b)" using cnt by (simp add: getI_def)
  define ba where "ba = (if 0 < ?n then AList.update b ?n (st_byAgent s) else AList.delete b (st_byAgent s))"
  have ev: "st_records (evict sc s) = AList.delete sc (st_records s)" "st_byAgent (evict sc s) = ba"
    "st_buckets (evict sc s) = AList.delete sc (st_buckets s)"
    using False b by (simp_all add: evict_def Let_def ba_def)
  have "map_of ba c = (if held live (AList.delete sc (st_buckets s)) c = 0 then None
      else Some (int (held live (AList.delete sc (st_buckets s)) c)))" for c
    using t b n by (auto simp: ba_def held_delete [OF new] update_conv delete_conv table_ok_def held_Cons)
  moreover have "distinct (map fst ba)" using t by (simp add: ba_def table_ok_def distinct_update distinct_delete)
  moreover have "set live = fst ` set (AList.delete sc (st_records s))"
    using t by (auto simp: table_ok_def keys_delete)
  moreover have "map_of (AList.delete sc (st_buckets s)) k \<noteq> None \<longleftrightarrow> k \<in> set live \<and> \<not> sc_enrolBusWide k" for k
    using t new by (auto simp: table_ok_def delete_conv)
  ultimately show ?thesis using t by (simp add: table_ok_def ev distinct_delete)
qed

lemma evict_fields [simp]:
  "st_window (evict sc s) = st_window s" "st_maxEntries (evict sc s) = st_maxEntries s"
  "st_localBusID (evict sc s) = st_localBusID s" "st_order (evict sc s) = st_order s"
  "st_head (evict sc s) = st_head s + 1" "st_records (evict sc s) = AList.delete sc (st_records s)"
  by (simp_all add: evict_def Let_def)

text \<open>
  What one sweep does: it evicts a prefix of the live scopes, every one of them older than
  the window, and touches nothing else.
\<close>

definition swept :: "time \<Rightarrow> idem_store \<Rightarrow> idem_scope list \<Rightarrow> nat \<Rightarrow> idem_store \<Rightarrow> bool" where
  "swept now s live k s' \<longleftrightarrow>
     k \<le> length live \<and> st_head s' = st_head s + k \<and> st_order s' = st_order s \<and>
     st_window s' = st_window s \<and> st_maxEntries s' = st_maxEntries s \<and>
     st_localBusID s' = st_localBusID s \<and> table_ok (drop k live) s' \<and>
     length (st_records s') \<le> length (st_records s) \<and>
     (\<forall>sc. map_of (st_records s') sc =
        (if sc \<in> set (take k live) then None else map_of (st_records s) sc)) \<and>
     (\<forall>sc r. sc \<in> set (take k live) \<longrightarrow> map_of (st_records s) sc = Some r \<longrightarrow>
        st_window s < time_sub now (ir_committedAt r))"

lemma expire_loop_swept:
  "table_ok live s \<Longrightarrow> \<exists>k. swept now s live k (expire_loop now live s)"
proof (induction live arbitrary: s)
  case Nil
  then show ?case by (intro exI [of _ 0]) (simp add: swept_def)
next
  case (Cons sc live)
  then have "sc \<in> fst ` set (st_records s)" by (auto simp: table_ok_def)
  then obtain r where r: "map_of (st_records s) sc = Some r"
    by (metis map_of_eq_None_iff not_Some_eq)
  show ?case
  proof (cases "time_sub now (ir_committedAt r) \<le> st_window s")
    case True
    then show ?thesis using Cons.prems r by (intro exI [of _ 0]) (simp add: swept_def)
  next
    case False
    obtain k where k: "swept now (evict sc s) live k (expire_loop now live (evict sc s))"
      using Cons.IH [OF evict_table_ok [OF Cons.prems]] by blast
    have "sc \<notin> set live" using Cons.prems by (simp add: table_ok_def)
    then have "sc \<notin> set (take k live)" by (meson in_set_takeD)
    then have "swept now s (sc # live) (Suc k) (expire_loop now live (evict sc s))"
      using k r False length_delete_le [of sc "st_records s"]
      by (auto simp: swept_def delete_conv split: if_splits)
    then show ?thesis using r False by (intro exI [of _ "Suc k"]) simp
  qed
qed

lemma drop_zero_slots: "a \<le> b \<Longrightarrow> b \<le> length xs \<Longrightarrow> drop b (zero_slots a b xs) = drop b xs"
  by (simp add: zero_slots_def min_def max_def)

lemma length_zero_slots: "a \<le> b \<Longrightarrow> b \<le> length xs \<Longrightarrow> length (zero_slots a b xs) = length xs"
  by (auto simp: zero_slots_def min_def max_def)

lemma compactOrder_live:
  assumes "st_head s \<le> length (st_order s)"
  shows "live_scopes (compactOrder s) = live_scopes s" "st_head (compactOrder s) \<le> length (st_order (compactOrder s))"
    "st_head (compactOrder s) = 0 \<or> st_head (compactOrder s) < length (live_scopes (compactOrder s))"
  using assms by (auto simp: compactOrder_def Let_def)

lemma compactOrder_fields [simp]:
  "st_window (compactOrder s) = st_window s" "st_maxEntries (compactOrder s) = st_maxEntries s"
  "st_localBusID (compactOrder s) = st_localBusID s" "st_records (compactOrder s) = st_records s"
  "st_byAgent (compactOrder s) = st_byAgent s" "st_buckets (compactOrder s) = st_buckets s"
  by (simp_all add: compactOrder_def Let_def)

text \<open>
  The whole sweep, as every operation sees it: the invariant is kept, the configuration is
  unchanged, and a record disappears only if it is older than the retention window.
\<close>

lemma expireLocked_props:
  fixes now :: time
  assumes i: "idem_inv s"
  defines "s' \<equiv> expireLocked now s"
  shows "idem_inv s'" "st_window s' = st_window s" "st_maxEntries s' = st_maxEntries s"
    "st_localBusID s' = st_localBusID s"
    "map_of (st_records s') sc = Some r \<Longrightarrow> map_of (st_records s) sc = Some r"
    "map_of (st_records s) sc = Some r \<Longrightarrow> time_sub now (ir_committedAt r) \<le> st_window s \<Longrightarrow>
       map_of (st_records s') sc = Some r"
proof -
  define e where "e = expire_loop now (live_scopes s) s"
  obtain k where k: "swept now s (live_scopes s) k e"
    using expire_loop_swept i unfolding e_def idem_inv_def by blast
  then have h: "st_head e = st_head s + k" "k \<le> length (live_scopes s)" "st_order e = st_order s"
    by (simp_all add: swept_def)
  then have hl: "st_head e \<le> length (st_order e)" using i by (auto simp: idem_inv_def)
  have cases: "s' = e \<or> s' = compactOrder (e\<lparr>st_order := zero_slots (st_head s) (st_head e) (st_order e)\<rparr>)"
    "st_head e = st_head s \<Longrightarrow> s' = e"
    by (auto simp: s'_def expireLocked_def Let_def simp flip: e_def)
  define z where "z = e\<lparr>st_order := zero_slots (st_head s) (st_head e) (st_order e)\<rparr>"
  have zl: "live_scopes z = live_scopes e" "st_head z \<le> length (st_order z)"
    using h hl by (simp_all add: z_def drop_zero_slots length_zero_slots)
  have live: "live_scopes s' = live_scopes e \<and> st_head s' \<le> length (st_order s') \<and>
      (st_head s' = 0 \<or> st_head s' < length (live_scopes s'))"
  proof (cases "st_head e = st_head s")
    case True
    then show ?thesis using cases(2) i h by (simp add: idem_inv_def)
  next
    case False
    then have "s' = compactOrder z" by (simp add: s'_def expireLocked_def Let_def z_def flip: e_def)
    then show ?thesis using compactOrder_live [OF zl(2)] zl(1) by simp
  qed
  have same: "st_records s' = st_records e" "st_byAgent s' = st_byAgent e" "st_buckets s' = st_buckets e"
    "st_window s' = st_window e" "st_maxEntries s' = st_maxEntries e" "st_localBusID s' = st_localBusID e"
    using cases(1) by auto
  have "table_ok (live_scopes e) s'"
    using k h same by (simp add: swept_def table_ok_frame [of s' e] add.commute)
  with live have t: "table_ok (live_scopes s') s'" by metis
  have len: "int (length (st_records s')) \<le> st_maxEntries s'" "0 < st_maxEntries s'"
    using k same i by (simp_all add: swept_def idem_inv_def)
  show "idem_inv s'" unfolding idem_inv_def using t live len by blast
  show "st_window s' = st_window s" "st_maxEntries s' = st_maxEntries s"
    "st_localBusID s' = st_localBusID s"
    using k same by (simp_all add: swept_def)
  show "map_of (st_records s) sc = Some r" if "map_of (st_records s') sc = Some r"
    using that k same by (auto simp: swept_def split: if_splits)
  show "map_of (st_records s') sc = Some r"
    if "map_of (st_records s) sc = Some r" "time_sub now (ir_committedAt r) \<le> st_window s"
    using that k same by (fastforce simp: swept_def)
qed

section \<open>Remembering\<close>

lemma insert_table_ok:
  assumes t: "table_ok live s" and new: "sc \<notin> set live"
    and s': "st_records s' = AList.update sc r (st_records s)"
      "st_byAgent s' = (if sc_enrolBusWide sc then st_byAgent s
         else AList.update b (getI (st_byAgent s) b + 1) (st_byAgent s))"
      "st_buckets s' = (if sc_enrolBusWide sc then st_buckets s else AList.update sc b (st_buckets s))"
  shows "table_ok (live @ [sc]) s'"
proof -
  have none: "map_of (st_buckets s) sc = None" using t new unfolding table_ok_def by (metis not_Some_eq)
  have "map_of (st_byAgent s') c =
      (if held (live @ [sc]) (st_buckets s') c = 0 then None
       else Some (int (held (live @ [sc]) (st_buckets s') c)))" for c
    using t none
    by (auto simp: table_ok_def s' held_snoc held_update [OF new] update_conv getI_def)
  moreover have "map_of (st_buckets s') k \<noteq> None \<longleftrightarrow> k \<in> set (live @ [sc]) \<and> \<not> sc_enrolBusWide k" for k
    using t none by (auto simp: table_ok_def s' update_conv)
  moreover have "distinct (map fst (st_byAgent s'))" "distinct (map fst (st_records s'))"
    using t by (simp_all add: table_ok_def s' distinct_update)
  moreover have "set (live @ [sc]) = fst ` set (st_records s')"
    using t by (auto simp: table_ok_def s' keys_update)
  moreover have "distinct (live @ [sc])" using t new by (simp add: table_ok_def)
  ultimately show ?thesis unfolding table_ok_def by blast
qed

text \<open>
  The possible results of \<open>remember\<close>: refused before the sweep, or swept and then found,
  refused or inserted.
\<close>

lemma remember_cases:
  assumes "remember now s r enf = (q, s')"
  obtains
    (invalid) e where "q = Inl e" "s' = s"
  | (found) sc where "record_Scope r = Inr sc" "q = Inr ()" "s' = expireLocked now s"
      "map_of (st_records s') sc \<noteq> None"
  | (refused) e where "q = Inl e" "s' = expireLocked now s"
  | (inserted) sc b where "record_Scope r = Inr sc" "q = Inr ()" "bucket s sc = Inr b"
      "map_of (st_records (expireLocked now s)) sc = None"
      "int (length (st_records (expireLocked now s))) < st_maxEntries (expireLocked now s)"
      "enf \<Longrightarrow> admitAgentLocked (expireLocked now s) sc b = Inr ()"
      "st_records s' = AList.update sc r (st_records (expireLocked now s))"
      "st_order s' = st_order (expireLocked now s) @ [sc]"
      "st_byAgent s' = (if sc_enrolBusWide sc then st_byAgent (expireLocked now s)
         else AList.update b (getI (st_byAgent (expireLocked now s)) b + 1) (st_byAgent (expireLocked now s)))"
      "st_buckets s' = (if sc_enrolBusWide sc then st_buckets (expireLocked now s)
         else AList.update sc b (st_buckets (expireLocked now s)))"
      "st_head s' = st_head (expireLocked now s)" "st_maxEntries s' = st_maxEntries (expireLocked now s)"
      "st_window s' = st_window (expireLocked now s)" "st_localBusID s' = st_localBusID (expireLocked now s)"
proof (cases "record_Scope r")
  case (Inl e)
  then show ?thesis using assms invalid by (auto simp: remember_def)
next
  case sc: (Inr sc)
  show ?thesis
  proof (cases "is_ok (record_validate r) \<and> is_ok (bucket s sc)")
    case False
    then have "\<exists>e. remember now s r enf = (Inl e, s)"
      using sc by (auto simp: remember_def is_ok_iff split: sum.splits)
    then show ?thesis using assms invalid by auto
  next
    case True
    then obtain b where b: "record_validate r = Inr ()" "bucket s sc = Inr b" by (auto simp: is_ok_iff)
    let ?s = "expireLocked now s"
    let ?adm = "if enf then admitAgentLocked ?s sc b else Inr ()"
    consider "map_of (st_records ?s) sc \<noteq> None"
      | "map_of (st_records ?s) sc = None" "st_maxEntries ?s \<le> int (length (st_records ?s))"
      | e where "map_of (st_records ?s) sc = None" "\<not> st_maxEntries ?s \<le> int (length (st_records ?s))" "?adm = Inl e"
      | "map_of (st_records ?s) sc = None" "\<not> st_maxEntries ?s \<le> int (length (st_records ?s))" "?adm = Inr ()"
      by (cases ?adm) auto
    then show ?thesis
    proof cases
      case 1
      then show ?thesis using assms sc b found by (auto simp: remember_def Let_def)
    next
      case 2
      then show ?thesis using assms sc b refused by (auto simp: remember_def Let_def)
    next
      case 3
      then have "q = Inl e" "s' = ?s" using assms sc b by (simp_all add: remember_def Let_def)
      then show ?thesis by (rule refused)
    next
      case 4
      then show ?thesis using assms sc b
        by (intro inserted [of sc b]) (auto simp: remember_def Let_def split: if_splits)
    qed
  qed
qed

lemma remember_props:
  assumes i: "idem_inv s" and r: "remember now s r enf = (q, s')"
  shows "idem_inv s'" "st_window s' = st_window s" "st_maxEntries s' = st_maxEntries s"
    "st_localBusID s' = st_localBusID s"
    "map_of (st_records s) sc = Some r0 \<Longrightarrow> time_sub now (ir_committedAt r0) \<le> st_window s \<Longrightarrow>
       map_of (st_records s') sc = Some r0"
    "map_of (st_records s') sc = Some r0 \<Longrightarrow> map_of (st_records s) sc = Some r0 \<or> r0 = r"
    "q = Inr () \<Longrightarrow> \<exists>sc. record_Scope r = Inr sc \<and> map_of (st_records s') sc \<noteq> None"
proof -
  note E = expireLocked_props [OF i, where now = now]
  have "idem_inv s' \<and> st_window s' = st_window s \<and> st_maxEntries s' = st_maxEntries s \<and>
    st_localBusID s' = st_localBusID s \<and>
    (map_of (st_records s) sc = Some r0 \<longrightarrow> time_sub now (ir_committedAt r0) \<le> st_window s \<longrightarrow>
       map_of (st_records s') sc = Some r0) \<and>
    (map_of (st_records s') sc = Some r0 \<longrightarrow> map_of (st_records s) sc = Some r0 \<or> r0 = r) \<and>
    (q = Inr () \<longrightarrow> (\<exists>sc. record_Scope r = Inr sc \<and> map_of (st_records s') sc \<noteq> None))"
    using r
  proof (cases rule: remember_cases)
    case (inserted k b)
    let ?s = "expireLocked now s"
    have e: "idem_inv ?s" by (rule E(1))
    have "k \<notin> set (live_scopes ?s)"
      using e inserted(4) by (auto simp: idem_inv_def table_ok_def map_of_eq_None_iff)
    then have "table_ok (live_scopes ?s @ [k]) s'"
      using e inserted by (intro insert_table_ok [where s = ?s and b = b and r = r]) (auto simp: idem_inv_def)
    moreover have l: "live_scopes s' = live_scopes ?s @ [k]"
      using e inserted(8,11) by (simp add: idem_inv_def)
    moreover have "length (st_records s') = Suc (length (st_records ?s))"
      using inserted(4,7) by (simp add: update_absent_gen)
    moreover have "st_head s' \<le> length (st_order s')" "0 < st_maxEntries s'"
      using e inserted(8,11,12) by (simp_all add: idem_inv_def)
    moreover have "st_head s' = 0 \<or> st_head s' < length (live_scopes ?s @ [k])"
      using e inserted(11) by (auto simp: idem_inv_def)
    ultimately have "idem_inv s'" using inserted(5,12) unfolding idem_inv_def by simp
    moreover have "map_of (st_records s') j = (if j = k then Some r else map_of (st_records ?s) j)" for j
      using inserted(7) by (simp add: update_conv)
    ultimately show ?thesis
      using inserted(1,2,4,12-14) E(2-6) by (metis option.distinct(1) option.inject)
  next
    case (invalid e)
    then show ?thesis using i by simp
  next
    case (found k)
    then show ?thesis using E unfolding found(3) by blast
  next
    case (refused e)
    then show ?thesis using E unfolding refused(2) by blast
  qed
  then show "idem_inv s'" "st_window s' = st_window s" "st_maxEntries s' = st_maxEntries s"
    "st_localBusID s' = st_localBusID s"
    "map_of (st_records s) sc = Some r0 \<Longrightarrow> time_sub now (ir_committedAt r0) \<le> st_window s \<Longrightarrow>
       map_of (st_records s') sc = Some r0"
    "map_of (st_records s') sc = Some r0 \<Longrightarrow> map_of (st_records s) sc = Some r0 \<or> r0 = r"
    "q = Inr () \<Longrightarrow> \<exists>sc. record_Scope r = Inr sc \<and> map_of (st_records s') sc \<noteq> None"
    by blast+
qed

end
