(* ===== verification/AckRecord.thy ===== *)
theory AckRecord
  imports Idem
begin

text \<open>
  The delivery lifecycle vocabulary and its durable record (\<^verbatim>\<open>internal/ack/state.go\<close>,
  \<^verbatim>\<open>vocabulary.go\<close>, \<^verbatim>\<open>record.go\<close>): states and their rank, the closed sets of refusal classes and
  attestations, the checks every record passes and the mapping between a record and the
  members of its JSON object.

  The JSON text itself is outside the model: \<open>recordJSON\<close> has the members the text carries.
  A timestamp member is a \<open>stamp\<close>: empty, an RFC3339Nano text naming an instant, or any other
  text.  Formatting an instant outside the years 0 to 9999 gives a text the parser refuses.
\<close>

section \<open>States\<close>

text \<open>\<^verbatim>\<open>State\<close> is a \<^verbatim>\<open>uint8\<close>; \<open>StateInvalid n\<close> stands for each value outside the closed set, 0 included.\<close>

datatype ack_state = StateInvalid "8 word" | StateAccepted | StateInFlight | StateDelivered
  | StateRefused | StateUndeliverable

definition stateNames :: "(ack_state \<times> string) list" where
  "stateNames = [(StateAccepted, ''accepted''), (StateInFlight, ''in_flight''),
     (StateDelivered, ''delivered''), (StateRefused, ''refused''),
     (StateUndeliverable, ''undeliverable'')]"

definition state_String :: "ack_state \<Rightarrow> string" where
  "state_String s = (case map_of stateNames s of Some n \<Rightarrow> n
     | None \<Rightarrow> (case s of StateInvalid n \<Rightarrow> ''invalid-state('' @ show_nat (unat n) @ '')'' | _ \<Rightarrow> []))"

definition Terminal :: "ack_state \<Rightarrow> bool" where
  "Terminal s \<longleftrightarrow> s = StateDelivered \<or> s = StateRefused \<or> s = StateUndeliverable"

definition Negative :: "ack_state \<Rightarrow> bool" where
  "Negative s \<longleftrightarrow> s = StateRefused \<or> s = StateUndeliverable"

definition rank :: "ack_state \<Rightarrow> int" where
  "rank s = (if Terminal s then 2 else if s = StateInFlight then 1
             else if s = StateAccepted then 0 else -1)"

datatype ack_error = ErrInvalidAckRecord | ErrNotDurable | ErrNoRecord | ErrTerminal
  | ErrAckCapacity | ErrAckQuota | ErrConcurrentTransition | AckWriteFailed | AckAlreadyAttached

definition ParseState :: "string \<Rightarrow> ack_error + ack_state" where
  "ParseState s = (case filter (\<lambda>(st, name). name = s) stateNames of
     (st, _) # _ \<Rightarrow> Inr st | [] \<Rightarrow> Inl ErrInvalidAckRecord)"

section \<open>Classes and attestations\<close>

definition busClasses :: "string list" where
  "busClasses = [''no_route'', ''no_such_recipient'', ''hop_refused'', ''hop_unauthenticated'',
     ''loop_dropped'', ''fanout_exceeded'', ''horizon_expired'', ''local_capacity'', ''obligation_lost'']"

definition recipientClasses :: "string list" where
  "recipientClasses = [''recipient_refused_policy'', ''recipient_refused_undecodable'',
     ''recipient_refused_not_addressed'']"

definition BusEmitted :: "string \<Rightarrow> bool" where "BusEmitted c \<longleftrightarrow> c \<in> set busClasses"
definition RecipientEmitted :: "string \<Rightarrow> bool" where "RecipientEmitted c \<longleftrightarrow> c \<in> set recipientClasses"

definition attestations :: "string list" where
  "attestations = [''peer_bus'', ''recipient_signature_unverified'']"

definition attestation_Valid :: "string \<Rightarrow> bool" where
  "attestation_Valid a \<longleftrightarrow> a \<in> set attestations"

definition class_Valid :: "string \<Rightarrow> bool" where
  "class_Valid c \<longleftrightarrow> BusEmitted c \<or> RecipientEmitted c"

definition ParseClass :: "string \<Rightarrow> ack_error + string" where
  "ParseClass s = (if class_Valid s then Inr s else Inl ErrInvalidAckRecord)"

definition ParseAttestation :: "string \<Rightarrow> ack_error + string" where
  "ParseAttestation s = (if attestation_Valid s then Inr s else Inl ErrInvalidAckRecord)"

definition RecipientSourced :: "ack_state \<Rightarrow> bool" where
  "RecipientSourced s \<longleftrightarrow> s = StateDelivered \<or> s = StateRefused"

section \<open>Records\<close>

record ack_record =
  ar_CorrelationKey :: string
  ar_Recipient :: string
  ar_Sender :: string
  ar_State :: ack_state
  ar_Class :: string
  ar_AttestedBy :: string
  ar_AcceptedAt :: time
  ar_SettledAt :: time

type_synonym ack_pair = "string \<times> string"

definition ack_key :: "ack_record \<Rightarrow> ack_pair" where
  "ack_key r = (ar_CorrelationKey r, ar_Recipient r)"

definition OriginBus :: "ack_record \<Rightarrow> string" where
  "OriginBus r = (case ParseMessageID (ar_CorrelationKey r) of Inl _ \<Rightarrow> [] | Inr (busID, _) \<Rightarrow> busID)"

definition anchor :: "ack_record \<Rightarrow> time" where
  "anchor r = (if Terminal (ar_State r) then ar_SettledAt r else ar_AcceptedAt r)"

definition ack_Expired :: "ack_record \<Rightarrow> time \<Rightarrow> int \<Rightarrow> bool" where
  "ack_Expired r now retention =
     (if anchor r = 0 then True else \<not> now < anchor r + retention)"

definition validateMessageID :: "string \<Rightarrow> ack_error + unit" where
  "validateMessageID v =
     (if v = [] then Inl ErrInvalidAckRecord
      else if MaxMessageIDLen < length v then Inl ErrInvalidAckRecord
      else case ParseMessageID v of Inl _ \<Rightarrow> Inl ErrInvalidAckRecord | Inr _ \<Rightarrow> Inr ())"

definition validateAgentID :: "string \<Rightarrow> ack_error + unit" where
  "validateAgentID v =
     (if v = [] then Inl ErrInvalidAckRecord
      else if MaxAgentIDLen < length v then Inl ErrInvalidAckRecord
      else case ParseAgentID v of Inl _ \<Rightarrow> Inl ErrInvalidAckRecord | Inr _ \<Rightarrow> Inr ())"

definition class_ok :: "ack_record \<Rightarrow> bool" where
  "class_ok r =
     (if Negative (ar_State r)
      then ar_Class r \<noteq> [] \<and>
        (ar_State r = StateRefused \<longrightarrow> RecipientEmitted (ar_Class r)) \<and>
        (ar_State r = StateUndeliverable \<longrightarrow> BusEmitted (ar_Class r))
      else ar_Class r = [])"

definition attested_ok :: "ack_record \<Rightarrow> bool" where
  "attested_ok r = (if Terminal (ar_State r) then attestation_Valid (ar_AttestedBy r)
                    else ar_AttestedBy r = [])"

definition ack_validate :: "ack_record \<Rightarrow> ack_error + unit" where
  "ack_validate r =
     bindR (validateMessageID (ar_CorrelationKey r)) (\<lambda>_.
     bindR (validateAgentID (ar_Recipient r)) (\<lambda>_.
     bindR (validateAgentID (ar_Sender r)) (\<lambda>_.
     if map_of stateNames (ar_State r) = None then Inl ErrInvalidAckRecord
     else if \<not> class_ok r then Inl ErrInvalidAckRecord
     else if \<not> attested_ok r then Inl ErrInvalidAckRecord
     else if ar_AcceptedAt r = 0 then Inl ErrInvalidAckRecord
     else if Terminal (ar_State r) \<noteq> (ar_SettledAt r \<noteq> 0) then Inl ErrInvalidAckRecord
     else Inr ())))"

datatype stamp = NoStamp | Stamp time | BadStamp

definition rfc3339_range :: "time \<Rightarrow> bool" where
  "rfc3339_range t \<longleftrightarrow> - (366 * 86400 * sec_ns) \<le> t \<and> t < 3652059 * 86400 * sec_ns"

definition formatTime :: "time \<Rightarrow> stamp" where
  "formatTime t = (if rfc3339_range t then Stamp t else BadStamp)"

definition parseRecordTime :: "stamp \<Rightarrow> ack_error + time" where
  "parseRecordTime v = (case v of Stamp t \<Rightarrow> Inr t | _ \<Rightarrow> Inl ErrInvalidAckRecord)"

record recordJSON =
  j_Version :: int
  j_CorrelationKey :: string
  j_Recipient :: string
  j_Sender :: string
  j_State :: string
  j_Class :: string
  j_AttestedBy :: string
  j_AcceptedAt :: stamp
  j_SettledAt :: stamp

definition recordVersion :: int where "recordVersion = 1"

definition ack_Encode :: "ack_record \<Rightarrow> ack_error + recordJSON" where
  "ack_Encode r =
     bindR (ack_validate r) (\<lambda>_.
     Inr \<lparr>j_Version = recordVersion, j_CorrelationKey = ar_CorrelationKey r,
          j_Recipient = ar_Recipient r, j_Sender = ar_Sender r,
          j_State = state_String (ar_State r), j_Class = ar_Class r,
          j_AttestedBy = ar_AttestedBy r, j_AcceptedAt = formatTime (ar_AcceptedAt r),
          j_SettledAt = (if Terminal (ar_State r) then formatTime (ar_SettledAt r) else NoStamp)\<rparr>)"

definition ack_DecodeRecord :: "recordJSON \<Rightarrow> ack_error + ack_record" where
  "ack_DecodeRecord j =
     (if j_Version j \<noteq> recordVersion then Inl ErrInvalidAckRecord else
      bindR (ParseState (j_State j)) (\<lambda>state.
      bindR (parseRecordTime (j_AcceptedAt j)) (\<lambda>acceptedAt.
      bindR (if j_SettledAt j = NoStamp then Inr 0 else parseRecordTime (j_SettledAt j)) (\<lambda>settledAt.
      let r = \<lparr>ar_CorrelationKey = j_CorrelationKey j, ar_Recipient = j_Recipient j,
               ar_Sender = j_Sender j, ar_State = state, ar_Class = j_Class j,
               ar_AttestedBy = j_AttestedBy j, ar_AcceptedAt = acceptedAt, ar_SettledAt = settledAt\<rparr>
      in bindR (ack_validate r) (\<lambda>_. Inr r)))))"

definition ack_canonical :: "ack_record \<Rightarrow> ack_error + ack_record \<times> recordJSON" where
  "ack_canonical r = bindR (ack_Encode r) (\<lambda>body. bindR (ack_DecodeRecord body) (\<lambda>back. Inr (back, body)))"

section \<open>Facts\<close>

lemma Terminal_simps [simp]:
  "Terminal StateDelivered" "Terminal StateRefused" "Terminal StateUndeliverable"
  "\<not> Terminal StateAccepted" "\<not> Terminal StateInFlight" "\<not> Terminal (StateInvalid n)"
  by (simp_all add: Terminal_def)

lemma rank_Terminal: "rank s = 2 \<longleftrightarrow> Terminal s"
  by (simp add: rank_def)

lemma rank_le_2: "rank s \<le> 2"
  by (simp add: rank_def)

lemma rank_less_nonterminal: "rank s < rank t \<Longrightarrow> \<not> Terminal s"
  by (auto simp: rank_def split: if_splits)

lemma ParseState_String:
  "map_of stateNames s \<noteq> None \<Longrightarrow> ParseState (state_String s) = Inr s"
  by (cases s) (simp_all add: stateNames_def state_String_def ParseState_def)

lemma ParseState_canonical: "ParseState n = Inr s \<Longrightarrow> state_String s = n"
  by (auto simp: stateNames_def state_String_def ParseState_def split: if_splits)

lemma ack_validate_iff [res]:
  "ack_validate r = Inr u \<longleftrightarrow>
     validateMessageID (ar_CorrelationKey r) = Inr () \<and> validateAgentID (ar_Recipient r) = Inr () \<and>
     validateAgentID (ar_Sender r) = Inr () \<and> map_of stateNames (ar_State r) \<noteq> None \<and>
     class_ok r \<and> attested_ok r \<and> ar_AcceptedAt r \<noteq> 0 \<and>
     Terminal (ar_State r) = (ar_SettledAt r \<noteq> 0)"
  by (auto simp: ack_validate_def res)

lemma anchor_nonzero: "ack_validate r = Inr u \<Longrightarrow> anchor r \<noteq> 0"
  by (auto simp: ack_validate_iff anchor_def)

lemma Expired_iff: "ack_validate r = Inr u \<Longrightarrow> ack_Expired r now ret \<longleftrightarrow> anchor r + ret \<le> now"
  using anchor_nonzero by (auto simp: ack_Expired_def)

lemma ack_canonicalD:
  "ack_canonical r = Inr (c, body) \<Longrightarrow> c = r \<and> ack_validate r = Inr () \<and> ack_Encode r = Inr body"
  by (cases r)
    (auto simp: ack_canonical_def ack_Encode_def ack_DecodeRecord_def ack_validate_iff res Let_def
      formatTime_def parseRecordTime_def ParseState_String split: if_splits)

lemma ack_canonical_total:
  assumes "ack_validate r = Inr ()" "rfc3339_range (ar_AcceptedAt r)" "rfc3339_range (ar_SettledAt r)"
  shows "\<exists>body. ack_canonical r = Inr (r, body)"
  using assms
  by (cases r)
    (auto simp: ack_canonical_def ack_Encode_def ack_DecodeRecord_def ack_validate_iff res Let_def
      formatTime_def parseRecordTime_def ParseState_String)


definition demo_ack :: "ack_state \<Rightarrow> time \<Rightarrow> time \<Rightarrow> ack_record" where
  "demo_ack st accepted settled =
     \<lparr>ar_CorrelationKey = ''b1-7'', ar_Recipient = ''b2.bob-1'', ar_Sender = ''b1.amy-1'',
      ar_State = st, ar_Class = [], ar_AttestedBy = (if Terminal st then ''peer_bus'' else []),
      ar_AcceptedAt = accepted, ar_SettledAt = settled\<rparr>"

lemma demo_ack_ids:
  "ParseAgentID ''b1.amy-1'' = Inr (''b1'', ''amy'', 1)"
  "ParseAgentID ''b2.bob-1'' = Inr (''b2'', ''bob'', 1)"
  "ParseAgentID ''b2.eve-1'' = Inr (''b2'', ''eve'', 1)"
  "ParseMessageID ''b1-7'' = Inr (''b1'', 7)"
  by (simp_all add: ParseAgentID_iff ParseMessageID_iff AgentID_ok_iff MessageID_ok_iff
      bus_id_matches_def bus_id_char_def is_lower_def is_digit_def name_head_char_def
      name_tail_char_def agentIDSep_def agentSuffixSep_def messageIDSep_def FormatUint_def
      show_nat.simps)

lemma demo_ids_valid:
  "validateAgentID ''b1.amy-1'' = Inr ()" "validateAgentID ''b2.bob-1'' = Inr ()"
  "validateAgentID ''b2.eve-1'' = Inr ()" "validateMessageID ''b1-7'' = Inr ()"
  by (simp_all add: validateAgentID_def validateMessageID_def demo_ack_ids MaxAgentIDLen_def
      MaxMessageIDLen_def)


end
