(* ===== verification/WalLog.thy ===== *)
theory WalLog
  imports WalWriter AckRecord
begin

text \<open>
  The two-phase log over the writer (\<^verbatim>\<open>internal/wal/log.go\<close>: \<^verbatim>\<open>Begin\<close>, \<^verbatim>\<open>Commit\<close>, \<^verbatim>\<open>Abort\<close>), the
  message audit record written between prepare and commit (\<^verbatim>\<open>audit.go\<close>), and the replay of the
  records of a log into memory (\<^verbatim>\<open>replay.go\<close>).

  The JSON text of the payloads is the parameter \<open>J\<close>, a record of the encoders and decoders
  \<^verbatim>\<open>encoding/json\<close> provides for the payload structs; what the code relies on, that decoding
  gives back what was encoded, is the hypothesis \<open>json_ok\<close>.  The applier is the function \<open>ap\<close>
  on the memory it maintains; it answers whether it accepted the entry.
\<close>

section \<open>Entries, payloads and audit records\<close>

record audit_record =
  au_MessageID :: string
  au_Seq :: u64
  au_Sender :: string
  au_Broadcast :: bool
  au_Recipients :: "string list"
  au_BusPath :: "string list"
  au_SentAt :: time
  au_Size :: int
  au_ContentSHA256 :: string

record entry =
  en_Kind :: string
  en_Body :: "bytes option"
  en_Idem :: "bytes option"
  en_Audit :: "audit_record option"

record committed =
  cm_PrepareIndex :: u64
  cm_CommitIndex :: u64
  cm_Entry :: entry

datatype log_error = ErrDiverged | ErrTxnDone | ErrInvalidBody | ErrInvalidKind | ErrInvalidAudit
  | KindNotOwned | EncodeFailed | AuditUnwritable | LogWrite wal_error | NoAuditLog

definition maxAuditIDBytes :: nat where "maxAuditIDBytes = 512"
definition maxAuditRecipients :: nat where "maxAuditRecipients = 1024"
definition maxAuditBusPath :: nat where "maxAuditBusPath = 256"
definition maxAuditFieldBytes :: nat where "maxAuditFieldBytes = 128 * 1024"
definition sha256HexLen :: nat where "sha256HexLen = 64"

definition auditID :: "string \<Rightarrow> log_error + unit" where
  "auditID v = (if v = [] then Inl ErrInvalidAudit
     else if maxAuditIDBytes < length v then Inl ErrInvalidAudit else Inr ())"

fun auditIDs :: "string list \<Rightarrow> log_error + unit" where
  "auditIDs [] = Inr ()"
| "auditIDs (v # vs) = bindR (auditID v) (\<lambda>_. auditIDs vs)"

definition isLowerHex :: "string \<Rightarrow> nat \<Rightarrow> bool" where
  "isLowerHex s n \<longleftrightarrow> length s = n \<and>
     list_all (\<lambda>c. CHR ''0'' \<le> c \<and> c \<le> CHR ''9'' \<or> CHR ''a'' \<le> c \<and> c \<le> CHR ''f'') s"

definition audit_total :: "audit_record \<Rightarrow> nat" where
  "audit_total a = length (au_MessageID a) + length (au_Sender a) + length (au_ContentSHA256 a) +
     sum_list (map length (au_Recipients a)) + sum_list (map length (au_BusPath a))"

definition audit_validate :: "audit_record \<Rightarrow> log_error + unit" where
  "audit_validate a =
     bindR (auditID (au_MessageID a)) (\<lambda>_.
     if au_Seq a = 0 then Inl ErrInvalidAudit else
     bindR (auditID (au_Sender a)) (\<lambda>_.
     bindR (if au_Broadcast a
            then (if au_Recipients a \<noteq> [] then Inl ErrInvalidAudit else Inr ())
            else if au_Recipients a = [] then Inl ErrInvalidAudit
            else if maxAuditRecipients < length (au_Recipients a) then Inl ErrInvalidAudit
            else auditIDs (au_Recipients a)) (\<lambda>_.
     if au_BusPath a = [] then Inl ErrInvalidAudit
     else if maxAuditBusPath < length (au_BusPath a) then Inl ErrInvalidAudit else
     bindR (auditIDs (au_BusPath a)) (\<lambda>_.
     if au_SentAt a = 0 then Inl ErrInvalidAudit
     else if au_Size a < 0 then Inl ErrInvalidAudit
     else if \<not> isLowerHex (au_ContentSHA256 a) sha256HexLen then Inl ErrInvalidAudit
     else if maxAuditFieldBytes < audit_total a then Inl ErrInvalidAudit
     else Inr ()))))"

text \<open>
  A \<^verbatim>\<open>json.RawMessage\<close> member is its text, an omitted one is empty.  The timestamp member of a
  prepare decodes to an instant or does not parse.
\<close>

record json =
  j_compact :: "bytes \<Rightarrow> bytes option"
  j_prepare :: "string \<Rightarrow> time \<Rightarrow> bytes \<Rightarrow> bytes \<Rightarrow> bytes option"
  j_commit :: "u64 \<Rightarrow> bytes option"
  j_abort :: "u64 \<Rightarrow> string \<Rightarrow> bytes option"
  j_audit :: "audit_record \<Rightarrow> u64 \<Rightarrow> bytes option"
  un_prepare :: "bytes \<Rightarrow> (string \<times> time option \<times> bytes \<times> bytes) option"
  un_commit :: "bytes \<Rightarrow> u64 option"
  un_abort :: "bytes \<Rightarrow> (u64 \<times> string) option"

definition json_null :: bytes where "json_null = ''null''"

definition canonicalBody :: "json \<Rightarrow> bytes option \<Rightarrow> log_error + bytes option" where
  "canonicalBody J body =
     (case body of
        None \<Rightarrow> Inr None
      | Some b \<Rightarrow>
          if b = [] then Inr None
          else (case j_compact J b of
                  None \<Rightarrow> Inl ErrInvalidBody
                | Some c \<Rightarrow> Inr (if c = json_null then None else Some c)))"

definition encodePrepareWithIdem :: "json \<Rightarrow> string \<Rightarrow> bytes option \<Rightarrow> bytes option \<Rightarrow> time \<Rightarrow> bytes option" where
  "encodePrepareWithIdem J kind body idem ts =
     j_prepare J kind ts (case body of None \<Rightarrow> json_null | Some b \<Rightarrow> b)
       (case idem of None \<Rightarrow> [] | Some i \<Rightarrow> i)"

definition raw_member :: "bytes \<Rightarrow> bytes option" where
  "raw_member b = (if b = [] \<or> b = json_null then None else Some b)"

definition DecodePrepare :: "json \<Rightarrow> wal_record \<Rightarrow> entry option" where
  "DecodePrepare J rc =
     (if rec_type rc \<noteq> TypePrepare then None
      else case un_prepare J (rec_payload rc) of
        None \<Rightarrow> None
      | Some (kind, ts, body, idem) \<Rightarrow>
          if kind = [] then None
          else if ts = None then None
          else Some \<lparr>en_Kind = kind, en_Body = raw_member body, en_Idem = raw_member idem, en_Audit = None\<rparr>)"

definition checkPrepareRef :: "wal_record \<Rightarrow> u64 \<Rightarrow> bool" where
  "checkPrepareRef rc prepareIndex \<longleftrightarrow> prepareIndex \<noteq> 0 \<and> prepareIndex < rec_index rc"

definition DecodeCommit :: "json \<Rightarrow> wal_record \<Rightarrow> u64 option" where
  "DecodeCommit J rc =
     (if rec_type rc \<noteq> TypeCommit then None
      else case un_commit J (rec_payload rc) of
        None \<Rightarrow> None
      | Some p \<Rightarrow> if checkPrepareRef rc p then Some p else None)"

definition DecodeAbort :: "json \<Rightarrow> wal_record \<Rightarrow> (u64 \<times> string) option" where
  "DecodeAbort J rc =
     (if rec_type rc \<noteq> TypeAbort then None
      else case un_abort J (rec_payload rc) of
        None \<Rightarrow> None
      | Some (p, reason) \<Rightarrow> if checkPrepareRef rc p then Some (p, reason) else None)"

section \<open>The log\<close>

record 'm wal_log =
  lg_w :: writer
  lg_audit :: "writer option"
  lg_mem :: 'm
  lg_lastCommit :: u64
  lg_diverged :: bool

record txn =
  tx_prepareIndex :: u64
  tx_entry :: entry

text \<open>The outcomes the operating system decides for one append.\<close>

type_synonym io = "write_outcome \<times> file_io"

text \<open>
  \<^verbatim>\<open>Begin\<close>; \<open>owns\<close> is the set of kinds the checkpoint participants registered, if there are any,
  and \<open>now\<close> the clock.  A transaction returned holds the log's mutex until it is committed or
  aborted.
\<close>

definition Begin ::
  "json \<Rightarrow> (string \<Rightarrow> bool) option \<Rightarrow> io \<Rightarrow> time \<Rightarrow> entry \<Rightarrow> 'm wal_log \<Rightarrow>
     (log_error + txn \<times> wal_record) \<times> 'm wal_log" where
  "Begin J owns io now e l =
     (if en_Kind e = [] then (Inl ErrInvalidKind, l)
      else if (case owns of None \<Rightarrow> False | Some f \<Rightarrow> \<not> f (en_Kind e)) then (Inl KindNotOwned, l)
      else case canonicalBody J (en_Body e) of
        Inl err \<Rightarrow> (Inl err, l)
      | Inr body \<Rightarrow>
     (case canonicalBody J (en_Idem e) of
        Inl err \<Rightarrow> (Inl err, l)
      | Inr idem \<Rightarrow>
     (case (case en_Audit e of
              None \<Rightarrow> Inr ()
            | Some a \<Rightarrow>
                bindR (audit_validate a) (\<lambda>_.
                case lg_audit l of
                  None \<Rightarrow> Inr ()
                | Some aw \<Rightarrow> if w_poisoned aw then Inl AuditUnwritable else Inr ())) of
        Inl err \<Rightarrow> (Inl err, l)
      | Inr _ \<Rightarrow>
     if lg_diverged l then (Inl ErrDiverged, l)
     else case encodePrepareWithIdem J (en_Kind e) body idem now of
        None \<Rightarrow> (Inl EncodeFailed, l)
      | Some payload \<Rightarrow>
     (case Append (fst io) (snd io) (lg_w l) TypePrepare payload of
        (Inl err, w) \<Rightarrow> (Inl (LogWrite err), l\<lparr>lg_w := w\<rparr>)
      | (Inr rc, w) \<Rightarrow>
          (Inr (\<lparr>tx_prepareIndex = rec_index rc,
                 tx_entry = \<lparr>en_Kind = en_Kind e, en_Body = body, en_Idem = idem, en_Audit = en_Audit e\<rparr>\<rparr>, rc),
           l\<lparr>lg_w := w\<rparr>)))))"

definition abort_reason :: string where "abort_reason = ''the audit record could not be written''"

text \<open>The records an operation had acknowledged are returned beside its result.\<close>

definition failBeforeCommit :: "json \<Rightarrow> io \<Rightarrow> txn \<Rightarrow> 'm wal_log \<Rightarrow> wal_record list \<times> 'm wal_log" where
  "failBeforeCommit J io t l =
     (case j_abort J (tx_prepareIndex t) abort_reason of
        None \<Rightarrow> ([], l)
      | Some payload \<Rightarrow>
          (case Append (fst io) (snd io) (lg_w l) TypeAbort payload of
             (Inl _, w) \<Rightarrow> ([], l\<lparr>lg_w := w\<rparr>)
           | (Inr rc, w) \<Rightarrow> ([rc], l\<lparr>lg_w := w\<rparr>)))"

text \<open>The audit step of \<^verbatim>\<open>Commit\<close>: the error, if any, and the audit record appended.\<close>

definition append_audit :: "json \<Rightarrow> io \<Rightarrow> txn \<Rightarrow> 'm wal_log \<Rightarrow> (log_error + wal_record option) \<times> 'm wal_log" where
  "append_audit J io t l =
     (case en_Audit (tx_entry t) of
        None \<Rightarrow> (Inr None, l)
      | Some a \<Rightarrow>
     (case lg_audit l of
        None \<Rightarrow> (Inl NoAuditLog, l)
      | Some aw \<Rightarrow>
     (case j_audit J a (tx_prepareIndex t) of
        None \<Rightarrow> (Inl EncodeFailed, l)
      | Some payload \<Rightarrow>
     (case Append (fst io) (snd io) aw TypeAuditMessage payload of
        (Inl err, aw') \<Rightarrow> (Inl (LogWrite err), l\<lparr>lg_audit := Some aw'\<rparr>)
      | (Inr rc, aw') \<Rightarrow> (Inr (Some rc), l\<lparr>lg_audit := Some aw'\<rparr>)))))"

record log_effect =
  ef_wal :: "wal_record list"
  ef_audit :: "wal_record list"
  ef_committed :: "committed list"

definition no_effect :: log_effect where
  "no_effect = \<lparr>ef_wal = [], ef_audit = [], ef_committed = []\<rparr>"

definition Commit ::
  "json \<Rightarrow> (committed \<Rightarrow> 'm \<Rightarrow> bool \<times> 'm) \<Rightarrow> io \<Rightarrow> io \<Rightarrow> txn \<Rightarrow> 'm wal_log \<Rightarrow>
     (log_error + committed) \<times> log_effect \<times> 'm wal_log" where
  "Commit J ap aio io t l =
     (case append_audit J aio t l of
        (Inl err, l1) \<Rightarrow>
          (case failBeforeCommit J io t l1 of
             (recs, l2) \<Rightarrow> (Inl err, no_effect\<lparr>ef_wal := recs\<rparr>, l2))
      | (Inr arc, l1) \<Rightarrow>
     let ef = no_effect\<lparr>ef_audit := (case arc of None \<Rightarrow> [] | Some rc \<Rightarrow> [rc])\<rparr> in
     (case j_commit J (tx_prepareIndex t) of
        None \<Rightarrow> (Inl EncodeFailed, ef, l1)
      | Some payload \<Rightarrow>
     (case Append (fst io) (snd io) (lg_w l1) TypeCommit payload of
        (Inl err, w) \<Rightarrow> (Inl (LogWrite err), ef, l1\<lparr>lg_w := w\<rparr>)
      | (Inr rc, w) \<Rightarrow>
          (let c = \<lparr>cm_PrepareIndex = tx_prepareIndex t, cm_CommitIndex = rec_index rc, cm_Entry = tx_entry t\<rparr>;
               ef' = ef\<lparr>ef_wal := [rc], ef_committed := [c]\<rparr>;
               (ok, m) = ap c (lg_mem l1);
               l2 = l1\<lparr>lg_w := w, lg_lastCommit := rec_index rc, lg_mem := m\<rparr>
           in if ok then (Inr c, ef', l2) else (Inl ErrDiverged, ef', l2\<lparr>lg_diverged := True\<rparr>)))))"

definition Abort :: "json \<Rightarrow> io \<Rightarrow> txn \<Rightarrow> string \<Rightarrow> 'm wal_log \<Rightarrow> (log_error + unit) \<times> wal_record list \<times> 'm wal_log" where
  "Abort J io t reason l =
     (case j_abort J (tx_prepareIndex t) reason of
        None \<Rightarrow> (Inl EncodeFailed, [], l)
      | Some payload \<Rightarrow>
          (case Append (fst io) (snd io) (lg_w l) TypeAbort payload of
             (Inl err, w) \<Rightarrow> (Inl (LogWrite err), [], l\<lparr>lg_w := w\<rparr>)
           | (Inr rc, w) \<Rightarrow> (Inr (), [rc], l\<lparr>lg_w := w\<rparr>)))"

section \<open>Replay\<close>

definition maxOpenPrepares :: nat where "maxOpenPrepares = 1024"
definition maxOpenPrepareBytes :: int where "maxOpenPrepareBytes = 8 * 1048576"

record 'm recovered =
  rv_FirstIndex :: u64
  rv_expectIndex :: u64
  rv_NextIndex :: u64
  rv_Records :: u64
  rv_Applied :: u64
  rv_Aborted :: u64
  rv_MissingRecords :: u64
  rv_DiscardCount :: nat
  rv_open :: "(u64 \<times> entry) list"
  rv_openBytes :: int
  rv_mem :: 'm

definition recovered_start :: "'m \<Rightarrow> 'm recovered" where
  "recovered_start m =
     \<lparr>rv_FirstIndex = 0, rv_expectIndex = 0, rv_NextIndex = 1, rv_Records = 0, rv_Applied = 0,
      rv_Aborted = 0, rv_MissingRecords = 0, rv_DiscardCount = 0, rv_open = [], rv_openBytes = 0, rv_mem = m\<rparr>"

definition addDiscard :: "'m recovered \<Rightarrow> 'm recovered" where
  "addDiscard r = r\<lparr>rv_DiscardCount := rv_DiscardCount r + 1\<rparr>"

fun oldestOpen :: "(u64 \<times> entry) list \<Rightarrow> u64 \<Rightarrow> u64" where
  "oldestOpen [] oldest = oldest"
| "oldestOpen ((idx, _) # rest) oldest =
     oldestOpen rest (if oldest = 0 \<or> idx < oldest then idx else oldest)"

definition entry_bytes :: "entry \<Rightarrow> int" where
  "entry_bytes e = int (length (en_Kind e)) + (case en_Body e of None \<Rightarrow> 0 | Some b \<Rightarrow> int (length b))"

definition forget_open :: "u64 \<Rightarrow> entry \<Rightarrow> 'm recovered \<Rightarrow> 'm recovered" where
  "forget_open i e r =
     r\<lparr>rv_open := AList.delete i (rv_open r), rv_openBytes := rv_openBytes r - entry_bytes e\<rparr>"

lemma oldestOpen_mem: "oldestOpen xs k \<in> insert k (fst ` set xs)"
  by (induction xs k rule: oldestOpen.induct) (auto split: if_splits)

lemma length_delete_lt: "k \<in> fst ` set xs \<Longrightarrow> length (AList.delete k xs) < length xs"
  unfolding AList.delete_eq by (rule length_filter_less [of "(k, the (map_of xs k))"])
    (auto intro: map_of_SomeD simp: weak_map_of_SomeI dest: weak_map_of_SomeI)

lemma oldestOpen_in: "xs \<noteq> [] \<Longrightarrow> oldestOpen xs 0 \<in> fst ` set xs"
  using oldestOpen_mem by (cases xs) fastforce+

function evict_open :: "'m recovered \<Rightarrow> 'm recovered" where
  "evict_open r =
     (if (maxOpenPrepares < length (rv_open r) \<or> maxOpenPrepareBytes < rv_openBytes r) \<and>
         \<not> length (rv_open r) < 2
      then let victim = oldestOpen (rv_open r) 0 in
           (case map_of (rv_open r) victim of
              None \<Rightarrow> r
            | Some ev \<Rightarrow> evict_open (addDiscard (forget_open victim ev r)))
      else r)"
  by pat_completeness auto
termination
  by (relation "measure (\<lambda>r. length (rv_open r))")
    (auto simp: forget_open_def addDiscard_def intro!: length_delete_lt oldestOpen_in)

declare evict_open.simps [simp del]

definition count_record :: "wal_record \<Rightarrow> 'm recovered \<Rightarrow> 'm recovered" where
  "count_record rc r =
     (let r1 = (if rv_FirstIndex r = 0 then r\<lparr>rv_FirstIndex := rec_index rc\<rparr> else r);
          r2 = (if rv_expectIndex r1 \<noteq> 0 \<and> rv_expectIndex r1 < rec_index rc
                then addDiscard (r1\<lparr>rv_MissingRecords := rv_MissingRecords r1 + (rec_index rc - rv_expectIndex r1)\<rparr>)
                else r1)
      in r2\<lparr>rv_expectIndex := rec_index rc + 1, rv_Records := rv_Records r2 + 1,
            rv_NextIndex := rec_index rc + 1\<rparr>)"

definition replay_record ::
  "json \<Rightarrow> (committed \<Rightarrow> 'm \<Rightarrow> bool \<times> 'm) \<Rightarrow> 'm recovered \<Rightarrow> wal_record \<Rightarrow> 'm recovered" where
  "replay_record J ap r0 rc =
     (let r = count_record rc r0 in
      if rec_type rc = TypePrepare then
        (case DecodePrepare J rc of
           None \<Rightarrow> addDiscard r
         | Some e \<Rightarrow>
             if map_of (rv_open r) (rec_index rc) \<noteq> None then addDiscard r
             else evict_open (r\<lparr>rv_openBytes := rv_openBytes r + entry_bytes e,
                                rv_open := AList.update (rec_index rc) e (rv_open r)\<rparr>))
      else if rec_type rc = TypeCommit then
        (case DecodeCommit J rc of
           None \<Rightarrow> addDiscard r
         | Some prepareIndex \<Rightarrow>
        (case map_of (rv_open r) prepareIndex of
           None \<Rightarrow> addDiscard r
         | Some e \<Rightarrow>
             (let r1 = forget_open prepareIndex e r;
                  c = \<lparr>cm_PrepareIndex = prepareIndex, cm_CommitIndex = rec_index rc, cm_Entry = e\<rparr>;
                  (ok, m) = ap c (rv_mem r1);
                  r2 = r1\<lparr>rv_mem := m\<rparr>
              in if ok then r2\<lparr>rv_Applied := rv_Applied r2 + 1\<rparr> else addDiscard r2)))
      else if rec_type rc = TypeAbort then
        (case DecodeAbort J rc of
           None \<Rightarrow> addDiscard r
         | Some (prepareIndex, _) \<Rightarrow>
        (case map_of (rv_open r) prepareIndex of
           None \<Rightarrow> addDiscard r
         | Some e \<Rightarrow>
             (let r1 = forget_open prepareIndex e r in r1\<lparr>rv_Aborted := rv_Aborted r1 + 1\<rparr>)))
      else addDiscard r)"

definition replay_records ::
  "json \<Rightarrow> (committed \<Rightarrow> 'm \<Rightarrow> bool \<times> 'm) \<Rightarrow> 'm \<Rightarrow> wal_record list \<Rightarrow> 'm recovered" where
  "replay_records J ap m recs = foldl (replay_record J ap) (recovered_start m) recs"

definition Dangling :: "'m recovered \<Rightarrow> u64 list" where
  "Dangling r = sort (map fst (rv_open r))"

text \<open>\<^verbatim>\<open>replay\<close> of a file's content: nothing for an empty file, else the scan drives the records.\<close>

definition replay_file ::
  "json \<Rightarrow> (committed \<Rightarrow> 'm \<Rightarrow> bool \<times> 'm) \<Rightarrow> 'm \<Rightarrow> codec \<Rightarrow> bytes \<Rightarrow> 'm recovered \<times> nat \<times> wal_error option" where
  "replay_file J ap m c file =
     (if file = [] then (recovered_start m, 0, None)
      else case scanFrom c file KindWAL (\<lambda>r rc. (None, replay_record J ap r rc)) (recovered_start m) of
        (end, err, r) \<Rightarrow> (r, end, err))"

section \<open>Histories\<close>

datatype log_op =
    LBegin io time entry
  | LCommit io io
  | LAbort io string

text \<open>
  The mutex is held from \<^verbatim>\<open>Begin\<close> to the end of the transaction, so at most one is open; a
  call that would have to wait for it is not a step.
\<close>

fun log_step ::
  "json \<Rightarrow> (string \<Rightarrow> bool) option \<Rightarrow> (committed \<Rightarrow> 'm \<Rightarrow> bool \<times> 'm) \<Rightarrow>
     'm wal_log \<times> txn option \<Rightarrow> log_op \<Rightarrow> log_effect list \<times> 'm wal_log \<times> txn option" where
  "log_step J owns ap (l, None) (LBegin io now e) =
     (case Begin J owns io now e l of
        (Inl _, l') \<Rightarrow> ([], l', None)
      | (Inr (t, rc), l') \<Rightarrow> ([no_effect\<lparr>ef_wal := [rc]\<rparr>], l', Some t))"
| "log_step J owns ap (l, Some t) (LCommit aio io) =
     (case Commit J ap aio io t l of (_, ef, l') \<Rightarrow> ([ef], l', None))"
| "log_step J owns ap (l, Some t) (LAbort io reason) =
     (case Abort J io t reason l of (_, recs, l') \<Rightarrow> ([no_effect\<lparr>ef_wal := recs\<rparr>], l', None))"
| "log_step J owns ap s x = ([], s)"

section \<open>Replay follows the scan\<close>

lemma scan_fold:
  "scan_frames c (\<lambda>s rc. (None, f s rc)) r off l (foldl f s0 acc) =
     (case scan_frames c collect r off l acc of (e, err, recs) \<Rightarrow> (e, err, foldl f s0 recs))"
proof (induction "length r" arbitrary: r off l acc rule: less_induct)
  case less
  show ?case
  proof (cases "readFrame c r off")
    case (FrameOk rc rest)
    have "length rest < length r" using readFrame_shorter [OF FrameOk] .
    from less [OF this, of "off + frameSize rc" "rec_index rc" "acc @ [rc]"] show ?thesis
      using FrameOk by (simp add: scan_frames.simps [of c _ r] collect_def)
  qed (simp_all add: scan_frames.simps [of c _ r])
qed

lemma replay_file_scan:
  assumes "file \<noteq> []"
  shows "replay_file J ap m c file =
    (case ScanAll c file KindWAL of (e, err, recs) \<Rightarrow> (replay_records J ap m recs, e, err))"
proof -
  let ?f = "replay_record J ap"
  have "scanFrom c file k (\<lambda>r rc. (None, ?f r rc)) (recovered_start m) =
    (case scanFrom c file k collect [] of (e, err, recs) \<Rightarrow> (e, err, foldl ?f (recovered_start m) recs))" for k
    using scan_fold [of c ?f "drop (fileHeaderSize c) file" "fileHeaderSize c" 0 "recovered_start m" "[]"]
    by (auto simp: scanFrom_def Let_def split: sum.split)
  then show ?thesis
    using assms by (auto simp: replay_file_def ScanAll_def replay_records_def split: prod.split)
qed

lemma replay_records_snoc:
  "replay_records J ap m (recs @ [rc]) = replay_record J ap (replay_records J ap m recs) rc"
  by (simp add: replay_records_def)

section \<open>Eviction spares the newest prepare\<close>

lemma oldestOpen_bounds:
  "0 \<notin> fst ` set xs \<Longrightarrow>
     (k = 0 \<or> oldestOpen xs k \<le> k) \<and> (\<forall>i\<in>fst ` set xs. oldestOpen xs k \<le> i)"
  by (induction xs k rule: oldestOpen.induct) (auto split: if_splits)

definition open_ok :: "u64 \<Rightarrow> 'm recovered \<Rightarrow> bool" where
  "open_ok n r \<longleftrightarrow> distinct (map fst (rv_open r)) \<and> (\<forall>k\<in>fst ` set (rv_open r). k \<noteq> 0 \<and> k < n)"

lemma fst_set_delete: "fst ` set (AList.delete k al) = fst ` set al - {k}"
  by (auto simp: AList.delete_eq)

lemma forget_open_ok: "open_ok n r \<Longrightarrow> open_ok n (forget_open k e r)"
  by (auto simp: open_ok_def forget_open_def fst_set_delete distinct_delete)

lemma evict_open_keeps:
  assumes "open_ok n r" "map_of (rv_open r) i = Some e" "\<forall>k\<in>fst ` set (rv_open r). k \<le> i"
  shows "open_ok n (evict_open r) \<and> map_of (rv_open (evict_open r)) i = Some e \<and>
    rv_mem (evict_open r) = rv_mem r"
  using assms
proof (induction r rule: evict_open.induct)
  case (1 r)
  let ?v = "oldestOpen (rv_open r) 0"
  show ?case
  proof (cases "(maxOpenPrepares < length (rv_open r) \<or> maxOpenPrepareBytes < rv_openBytes r) \<and>
      \<not> length (rv_open r) < 2 \<and> map_of (rv_open r) ?v \<noteq> None")
    case True
    then obtain ev where ev: "map_of (rv_open r) ?v = Some ev" by blast
    have nz: "0 \<notin> fst ` set (rv_open r)" and d: "distinct (map fst (rv_open r))"
      using 1(2) by (auto simp: open_ok_def)
    have ne: "?v \<noteq> i"
    proof
      assume v: "?v = i"
      have "k = i" if "k \<in> fst ` set (rv_open r)" for k
        using oldestOpen_bounds [OF nz, of 0] 1(4) that v by (meson order_antisym)
      then have "fst ` set (rv_open r) \<subseteq> {i}" by blast
      then have "card (fst ` set (rv_open r)) \<le> 1"
        by (metis card.empty card_insert_disjoint card_mono empty_iff finite.intros One_nat_def)
      moreover have "card (fst ` set (rv_open r)) = length (rv_open r)"
        using d distinct_card by fastforce
      ultimately show False using True by simp
    qed
    let ?r = "addDiscard (forget_open ?v ev r)"
    have r: "open_ok n ?r" "map_of (rv_open ?r) i = Some e" "\<forall>k\<in>fst ` set (rv_open ?r). k \<le> i"
      "rv_mem ?r = rv_mem r" "evict_open r = evict_open ?r"
      using forget_open_ok [OF 1(2), of ?v ev] 1(3,4) ne True ev
      by (auto simp: addDiscard_def open_ok_def forget_open_def delete_conv fst_set_delete
          evict_open.simps [of r] Let_def)
    show ?thesis
      using "1.IH" [OF _ refl ev r(1,2,3)] True r(4,5) by simp
  next
    case False
    then have "evict_open r = r"
      by (subst evict_open.simps) (auto simp: Let_def split: option.split)
    then show ?thesis using 1 by simp
  qed
qed

section \<open>The log and its replay agree\<close>

definition printable :: "string \<Rightarrow> bool" where
  "printable s \<longleftrightarrow> s \<noteq> [] \<and> list_all (\<lambda>c. CHR '' '' \<le> c \<and> c \<le> CHR ''~'') s"

text \<open>
  What the code relies on of \<^verbatim>\<open>encoding/json\<close> and \<^verbatim>\<open>time\<close>: a printable kind, an instant with a
  four-digit year and raw members come back as they were, so do the references of commits and
  aborts, and compacted JSON text is not empty.
\<close>

definition json_ok :: "json \<Rightarrow> bool" where
  "json_ok J \<longleftrightarrow>
     (\<forall>kind ts body idem p. printable kind \<longrightarrow> rfc3339_range ts \<longrightarrow>
        j_prepare J kind ts body idem = Some p \<longrightarrow> un_prepare J p = Some (kind, Some ts, body, idem)) \<and>
     (\<forall>n p. j_commit J n = Some p \<longrightarrow> un_commit J p = Some n) \<and>
     (\<forall>n reason p. j_abort J n reason = Some p \<longrightarrow> (\<exists>reason'. un_abort J p = Some (n, reason'))) \<and>
     (\<forall>b c. j_compact J b = Some c \<longrightarrow> c \<noteq> [])"

text \<open>The audit request is not part of what is replayed, so an applier must not look at it.\<close>

definition no_audit :: "entry \<Rightarrow> entry" where
  "no_audit e = e\<lparr>en_Audit := None\<rparr>"

definition audit_blind :: "(committed \<Rightarrow> 'm \<Rightarrow> bool \<times> 'm) \<Rightarrow> bool" where
  "audit_blind ap \<longleftrightarrow> (\<forall>p c e m. ap \<lparr>cm_PrepareIndex = p, cm_CommitIndex = c, cm_Entry = no_audit e\<rparr> m =
     ap \<lparr>cm_PrepareIndex = p, cm_CommitIndex = c, cm_Entry = e\<rparr> m)"

fun op_ok :: "log_op \<Rightarrow> bool" where
  "op_ok (LBegin io now e) \<longleftrightarrow> printable (en_Kind e) \<and> rfc3339_range now"
| "op_ok _ \<longleftrightarrow> True"

definition log_inv ::
  "json \<Rightarrow> (committed \<Rightarrow> 'm \<Rightarrow> bool \<times> 'm) \<Rightarrow> 'm \<Rightarrow> bytes \<Rightarrow> wal_record list \<Rightarrow> committed list \<Rightarrow>
     'm wal_log \<times> txn option \<Rightarrow> bool" where
  "log_inv J ap m0 hdr recs done s \<longleftrightarrow> (case s of (l, t) \<Rightarrow>
     writer_holds (lg_w l) hdr recs \<and>
     open_ok (w_next (lg_w l)) (replay_records J ap m0 recs) \<and>
     rv_mem (replay_records J ap m0 recs) = lg_mem l \<and>
     lg_mem l = foldl (\<lambda>m c. snd (ap c m)) m0 done \<and>
     (\<forall>x. t = Some x \<longrightarrow>
        map_of (rv_open (replay_records J ap m0 recs)) (tx_prepareIndex x) = Some (no_audit (tx_entry x))))"

lemma count_record_fields [simp]:
  "rv_open (count_record rc r) = rv_open r" "rv_openBytes (count_record rc r) = rv_openBytes r"
  "rv_mem (count_record rc r) = rv_mem r"
  by (simp_all add: count_record_def Let_def addDiscard_def)

lemma addDiscard_fields [simp]:
  "rv_open (addDiscard r) = rv_open r" "rv_mem (addDiscard r) = rv_mem r"
  by (simp_all add: addDiscard_def)

lemma open_ok_cong: "rv_open r = rv_open r' \<Longrightarrow> open_ok n r = open_ok n r'"
  by (simp add: open_ok_def)

lemma open_ok_mono: "open_ok n r \<Longrightarrow> n \<le> n' \<Longrightarrow> open_ok n' r"
  by (auto simp: open_ok_def)

lemma open_ok_neq: "open_ok n r \<Longrightarrow> map_of (rv_open r) n = None"
  by (auto simp: open_ok_def map_of_eq_None_iff)

lemma open_ok_below: "open_ok n r \<Longrightarrow> map_of (rv_open r) i = Some e \<Longrightarrow> i \<noteq> 0 \<and> i < n"
  by (force simp: open_ok_def dest: map_of_SomeD)

text \<open>One replayed record of each type.\<close>

lemma replay_prepare:
  assumes r: "open_ok n r" "n \<noteq> 0" "n < n'" and rc: "rec_index rc = n" "DecodePrepare J rc = Some e"
  shows "open_ok n' (replay_record J ap r rc) \<and> map_of (rv_open (replay_record J ap r rc)) n = Some e \<and>
    rv_mem (replay_record J ap r rc) = rv_mem r"
proof -
  let ?c = "count_record rc r"
  let ?r = "?c\<lparr>rv_openBytes := rv_openBytes ?c + entry_bytes e, rv_open := AList.update n e (rv_open ?c)\<rparr>"
  have t: "rec_type rc = TypePrepare" using rc(2) by (auto simp: DecodePrepare_def split: if_splits)
  have eq: "replay_record J ap r rc = evict_open ?r"
    using t rc open_ok_neq [OF r(1)] by (simp add: replay_record_def Let_def)
  have keys: "fst ` set (rv_open ?r) = insert n (fst ` set (rv_open r))"
    by (simp add: keys_update)
  have "open_ok n' ?r"
    using r keys by (auto simp: open_ok_def distinct_update)
  moreover have "\<forall>k\<in>fst ` set (rv_open ?r). k \<le> n"
    using r(1) unfolding keys by (auto simp: open_ok_def)
  moreover have "map_of (rv_open ?r) n = Some e" by (simp add: update_conv)
  ultimately show ?thesis unfolding eq using evict_open_keeps [of n' ?r n e] by simp
qed

lemma replay_commit:
  assumes "open_ok n r" "n \<le> n'" "rec_type rc = TypeCommit" "rec_index rc = n"
    "un_commit J (rec_payload rc) = Some i" "map_of (rv_open r) i = Some e"
  shows "open_ok n' (replay_record J ap r rc) \<and>
    rv_mem (replay_record J ap r rc) = snd (ap \<lparr>cm_PrepareIndex = i, cm_CommitIndex = n, cm_Entry = e\<rparr> (rv_mem r))"
proof -
  have "DecodeCommit J rc = Some i"
    using assms(3-5) open_ok_below [OF assms(1,6)] by (simp add: DecodeCommit_def checkPrepareRef_def)
  moreover have "open_ok n' (forget_open i e r)"
    using forget_open_ok open_ok_mono assms(1,2) by blast
  ultimately show ?thesis
    using assms(3,4,6)
    by (simp add: replay_record_def Let_def TypeCommit_def TypePrepare_def forget_open_def open_ok_def
        split: prod.split)
qed

lemma replay_abort:
  assumes "open_ok n r" "n \<le> n'" "rec_type rc = TypeAbort"
  shows "open_ok n' (replay_record J ap r rc) \<and> rv_mem (replay_record J ap r rc) = rv_mem r"
  using assms forget_open_ok [of n' r] open_ok_mono [OF assms(1,2)]
  by (auto simp: replay_record_def Let_def TypeCommit_def TypePrepare_def TypeAbort_def forget_open_def
      open_ok_def addDiscard_def split: option.split prod.split)

text \<open>One append to the log's file: refused without a trace, or acknowledged as the next record.\<close>

lemma Append_acked: "Append fio io w t p = (Inr rc, w') \<Longrightarrow> rc = acked_record w t p"
  by (erule Append_cases) auto

lemma log_append:
  assumes h: "writer_holds w hdr recs" "w_next w \<noteq> 0" and a: "Append fio io w t p = (q, w')"
  obtains (refused) e where "q = Inl e" "writer_holds w' hdr recs" "w_next w' = w_next w"
  | (acked) rc where "q = Inr rc" "writer_holds w' hdr (recs @ [rc])" "rec_index rc = w_next w"
      "rec_type rc = t" "rec_payload rc = p" "w_next w' = w_next w + 1"
proof (cases q)
  case (Inl e)
  then show ?thesis using Append_holds [OF h a] refused by auto
next
  case (Inr rc)
  then show ?thesis
    using Append_holds [OF h a] Append_acked [of fio io w t p rc w'] a acked
    by (auto simp: acked_record_def)
qed

lemma next_not_max: "n \<noteq> maxUint64 \<Longrightarrow> n < n + 1 \<and> n + 1 \<noteq> (0 :: u64)"
  using u64_less_Suc u64_Suc_neq_0 by blast

lemma canonicalBody_raw:
  "json_ok J \<Longrightarrow> canonicalBody J b = Inr c \<Longrightarrow>
     raw_member (case c of None \<Rightarrow> json_null | Some x \<Rightarrow> x) = c \<and>
     raw_member (case c of None \<Rightarrow> [] | Some x \<Rightarrow> x) = c"
  by (auto simp: canonicalBody_def json_ok_def raw_member_def split: option.splits if_splits)

lemma log_inv_append_other:
  assumes "log_inv J ap m0 hdr recs done (l, t)"
    "writer_holds w hdr recs" "w_next w = w_next (lg_w l)" "lg_mem l' = lg_mem l" "lg_w l' = w"
  shows "log_inv J ap m0 hdr recs done (l', t)"
  using assms by (simp add: log_inv_def)

text \<open>Every step keeps the agreement, with the records and entries it reports added.\<close>

definition wal_of :: "log_effect list \<Rightarrow> wal_record list" where
  "wal_of efs = concat (map ef_wal efs)"

definition committed_of :: "log_effect list \<Rightarrow> committed list" where
  "committed_of efs = concat (map ef_committed efs)"

lemma effects_simps [simp]:
  "wal_of [] = []" "wal_of (e # es) = ef_wal e @ wal_of es" "wal_of (es @ fs) = wal_of es @ wal_of fs"
  "committed_of [] = []" "committed_of (e # es) = ef_committed e @ committed_of es"
  "committed_of (es @ fs) = committed_of es @ committed_of fs"
  "ef_wal no_effect = []" "ef_audit no_effect = []" "ef_committed no_effect = []"
  by (simp_all add: wal_of_def committed_of_def no_effect_def)

lemma Begin_inv:
  assumes i: "log_inv J ap m0 hdr recs done (l, None)" and n: "w_next (lg_w l) \<noteq> 0" and J: "json_ok J"
    and e: "printable (en_Kind e)" "rfc3339_range now" and b: "Begin J owns io now e l = (q, l')"
    and top: "\<forall>t rc. q = Inr (t, rc) \<longrightarrow> rec_index rc \<noteq> maxUint64"
  shows "(\<exists>err. q = Inl err \<and> log_inv J ap m0 hdr recs done (l', None) \<and> w_next (lg_w l') = w_next (lg_w l)) \<or>
    (\<exists>t rc. q = Inr (t, rc) \<and> log_inv J ap m0 hdr (recs @ [rc]) done (l', Some t) \<and> w_next (lg_w l') \<noteq> 0)"
proof -
  have h: "writer_holds (lg_w l) hdr recs" using i by (simp add: log_inv_def)
  show ?thesis
  proof (cases "l' = l \<and> isl q")
    case True
    then show ?thesis using i by (auto simp: isl_def)
  next
    case False
    then obtain body idem p where body: "canonicalBody J (en_Body e) = Inr body"
      and idem: "canonicalBody J (en_Idem e) = Inr idem"
      and p: "encodePrepareWithIdem J (en_Kind e) body idem now = Some p"
      and ap: "(q, l') = (case Append (fst io) (snd io) (lg_w l) TypePrepare p of
        (Inl err, w) \<Rightarrow> (Inl (LogWrite err), l\<lparr>lg_w := w\<rparr>)
      | (Inr rc, w) \<Rightarrow>
          (Inr (\<lparr>tx_prepareIndex = rec_index rc,
                 tx_entry = \<lparr>en_Kind = en_Kind e, en_Body = body, en_Idem = idem, en_Audit = en_Audit e\<rparr>\<rparr>, rc),
           l\<lparr>lg_w := w\<rparr>))"
      using b by (auto simp: Begin_def split: if_splits sum.splits option.splits)
    obtain a w where a: "Append (fst io) (snd io) (lg_w l) TypePrepare p = (a, w)" by fastforce
    from h n a show ?thesis
    proof (cases rule: log_append)
      case (refused err)
      then show ?thesis
        using ap a log_inv_append_other [OF i refused(2,3), of l'] by auto
    next
      case (acked rc)
      let ?r = "replay_records J ap m0 recs"
      have q: "q = Inr (\<lparr>tx_prepareIndex = rec_index rc, tx_entry = \<lparr>en_Kind = en_Kind e, en_Body = body,
          en_Idem = idem, en_Audit = en_Audit e\<rparr>\<rparr>, rc)" "l' = l\<lparr>lg_w := w\<rparr>"
        using ap a acked(1) by simp_all
      have un: "un_prepare J p = Some (en_Kind e, Some now, case body of None \<Rightarrow> json_null | Some b \<Rightarrow> b,
          case idem of None \<Rightarrow> [] | Some i \<Rightarrow> i)"
        using J e p unfolding json_ok_def encodePrepareWithIdem_def by blast
      have dec: "DecodePrepare J rc = Some \<lparr>en_Kind = en_Kind e, en_Body = body, en_Idem = idem, en_Audit = None\<rparr>"
        using un acked(4,5) e(1) canonicalBody_raw [OF J body] canonicalBody_raw [OF J idem]
        by (simp add: DecodePrepare_def printable_def)
      have "rec_index rc \<noteq> maxUint64" using top q by blast
      then have nn: "w_next (lg_w l) < w_next w" "w_next w \<noteq> 0"
        using next_not_max acked(3,6) by simp_all
      have "open_ok (w_next (lg_w l)) ?r" using i by (simp add: log_inv_def)
      from replay_prepare [OF this n nn(1) acked(3) dec, of ap] have
        "log_inv J ap m0 hdr (recs @ [rc]) done (l', Some \<lparr>tx_prepareIndex = rec_index rc,
          tx_entry = \<lparr>en_Kind = en_Kind e, en_Body = body, en_Idem = idem, en_Audit = en_Audit e\<rparr>\<rparr>)"
        using i acked(2,3) by (simp add: log_inv_def q replay_records_snoc no_audit_def)
      then show ?thesis using nn(2) q by simp
    qed
  qed
qed

lemma abort_append_inv:
  assumes i: "log_inv J ap m0 hdr recs done (l, t)" and n: "w_next (lg_w l) \<noteq> 0"
    and a: "Append fio io (lg_w l) TypeAbort p = (q, w)"
    and top: "\<forall>rc. q = Inr rc \<longrightarrow> rec_index rc \<noteq> maxUint64"
  shows "w_next w \<noteq> 0 \<and>
    log_inv J ap m0 hdr (recs @ (case q of Inl _ \<Rightarrow> [] | Inr rc \<Rightarrow> [rc])) done (l\<lparr>lg_w := w\<rparr>, None)"
proof -
  have h: "writer_holds (lg_w l) hdr recs" using i by (simp add: log_inv_def)
  from h n a show ?thesis
  proof (cases rule: log_append)
    case (refused e)
    then show ?thesis using i n by (simp add: log_inv_def)
  next
    case (acked rc)
    then have nn: "w_next (lg_w l) < w_next w" "w_next w \<noteq> 0"
      using next_not_max [of "rec_index rc"] top by simp_all
    have "open_ok (w_next (lg_w l)) (replay_records J ap m0 recs)" using i by (simp add: log_inv_def)
    from replay_abort [OF this less_imp_le [OF nn(1)] acked(4), of J ap] show ?thesis
      using i acked nn(2) by (simp add: log_inv_def replay_records_snoc)
  qed
qed

lemma log_inv_drop_txn: "log_inv J ap m0 hdr recs done (l, t) \<Longrightarrow> log_inv J ap m0 hdr recs done (l, None)"
  by (simp add: log_inv_def)

lemma append_audit_frame:
  "append_audit J io t l = (q, l1) \<Longrightarrow> lg_w l1 = lg_w l \<and> lg_mem l1 = lg_mem l"
  by (auto simp: append_audit_def split: option.splits prod.splits sum.splits)

lemma audit_blindD:
  "audit_blind ap \<Longrightarrow> ap \<lparr>cm_PrepareIndex = p, cm_CommitIndex = c, cm_Entry = no_audit e\<rparr> m =
     ap \<lparr>cm_PrepareIndex = p, cm_CommitIndex = c, cm_Entry = e\<rparr> m"
  by (simp add: audit_blind_def)

lemma failBeforeCommit_inv:
  assumes i: "log_inv J ap m0 hdr recs done (l, t)" and n: "w_next (lg_w l) \<noteq> 0"
    and f: "failBeforeCommit J io tx l = (rs, l')" and top: "\<forall>rc\<in>set rs. rec_index rc \<noteq> maxUint64"
  shows "log_inv J ap m0 hdr (recs @ rs) done (l', None) \<and> w_next (lg_w l') \<noteq> 0"
proof (cases "j_abort J (tx_prepareIndex tx) abort_reason")
  case None
  then show ?thesis using f i n log_inv_drop_txn by (simp add: failBeforeCommit_def)
next
  case (Some p)
  obtain q w where a: "Append (fst io) (snd io) (lg_w l) TypeAbort p = (q, w)" by fastforce
  show ?thesis
    using abort_append_inv [OF i n a] f top Some a
    by (cases q) (auto simp: failBeforeCommit_def)
qed

lemma Abort_inv:
  assumes i: "log_inv J ap m0 hdr recs done (l, t)" and n: "w_next (lg_w l) \<noteq> 0"
    and f: "Abort J io tx reason l = (q, rs, l')" and top: "\<forall>rc\<in>set rs. rec_index rc \<noteq> maxUint64"
  shows "log_inv J ap m0 hdr (recs @ rs) done (l', None) \<and> w_next (lg_w l') \<noteq> 0"
proof (cases "j_abort J (tx_prepareIndex tx) reason")
  case None
  then show ?thesis using f i n log_inv_drop_txn by (simp add: Abort_def)
next
  case (Some p)
  obtain r w where a: "Append (fst io) (snd io) (lg_w l) TypeAbort p = (r, w)" by fastforce
  show ?thesis
    using abort_append_inv [OF i n a] f top Some a by (cases r) (auto simp: Abort_def)
qed

lemma Commit_inv:
  assumes i: "log_inv J ap m0 hdr recs done (l, Some t)" and n: "w_next (lg_w l) \<noteq> 0"
    and J: "json_ok J" and blind: "audit_blind ap"
    and c: "Commit J ap aio io t l = (q, ef, l')" and top: "\<forall>rc\<in>set (ef_wal ef). rec_index rc \<noteq> maxUint64"
  shows "log_inv J ap m0 hdr (recs @ ef_wal ef) (done @ ef_committed ef) (l', None) \<and> w_next (lg_w l') \<noteq> 0"
proof -
  obtain ar l1 where ar: "append_audit J aio t l = (ar, l1)" by fastforce
  note fr = append_audit_frame [OF ar]
  have i1: "log_inv J ap m0 hdr recs done (l1, Some t)" and n1: "w_next (lg_w l1) \<noteq> 0"
    using i n fr by (simp_all add: log_inv_def)
  show ?thesis
  proof (cases ar)
    case (Inl err)
    obtain rs l2 where f: "failBeforeCommit J io t l1 = (rs, l2)" by fastforce
    then have "ef = no_effect\<lparr>ef_wal := rs\<rparr>" "l' = l2" using c ar Inl by (auto simp: Commit_def)
    then show ?thesis using failBeforeCommit_inv [OF i1 n1 f] top by simp
  next
    case (Inr arc)
    show ?thesis
    proof (cases "j_commit J (tx_prepareIndex t)")
      case None
      then show ?thesis using c ar Inr i1 n1 log_inv_drop_txn by (auto simp: Commit_def Let_def)
    next
      case (Some p)
      obtain a w where a: "Append (fst io) (snd io) (lg_w l1) TypeCommit p = (a, w)" by fastforce
      have h: "writer_holds (lg_w l1) hdr recs" using i1 by (simp add: log_inv_def)
      from h n1 a show ?thesis
      proof (cases rule: log_append)
        case (refused err)
        then show ?thesis using c ar Inr Some a i1 n1 by (auto simp: Commit_def Let_def log_inv_def)
      next
        case (acked rc)
        let ?c = "\<lparr>cm_PrepareIndex = tx_prepareIndex t, cm_CommitIndex = rec_index rc, cm_Entry = tx_entry t\<rparr>"
        have l': "ef_wal ef = [rc]" "ef_committed ef = [?c]" "lg_w l' = w" "lg_mem l' = snd (ap ?c (lg_mem l1))"
          using c ar Inr Some a acked(1) by (auto simp: Commit_def Let_def split: prod.splits if_splits)
        then have nn: "w_next (lg_w l1) < w_next w" "w_next w \<noteq> 0"
          using next_not_max [of "rec_index rc"] top acked(3,6) by simp_all
        have u: "un_commit J (rec_payload rc) = Some (tx_prepareIndex t)"
          using J Some acked(5) by (simp add: json_ok_def)
        have o: "open_ok (w_next (lg_w l1)) (replay_records J ap m0 recs)"
          "map_of (rv_open (replay_records J ap m0 recs)) (tx_prepareIndex t) = Some (no_audit (tx_entry t))"
          using i1 by (simp_all add: log_inv_def)
        from replay_commit [OF o(1) less_imp_le [OF nn(1)] acked(4,3) u o(2), of ap] show ?thesis
          using i1 acked(2,3) nn(2) l' audit_blindD [OF blind]
          by (simp add: log_inv_def replay_records_snoc)
      qed
    qed
  qed
qed

lemma log_step_inv:
  assumes i: "log_inv J ap m0 hdr recs done s" and n: "w_next (lg_w (fst s)) \<noteq> 0" and J: "json_ok J"
    and blind: "audit_blind ap" and x: "op_ok x" and st: "log_step J owns ap s x = (efs, s')"
    and top: "maxUint64 \<notin> rec_index ` set (wal_of efs)"
  shows "log_inv J ap m0 hdr (recs @ wal_of efs) (done @ committed_of efs) s' \<and> w_next (lg_w (fst s')) \<noteq> 0"
proof (cases "(J, owns, ap, s, x)" rule: log_step.cases)
  case (1 J' owns' ap' l io now e)
  obtain q l' where b: "Begin J owns io now e l = (q, l')" by fastforce
  from 1 b st top Begin_inv [OF _ _ J _ _ b, of ap m0 hdr recs "done"] i n x show ?thesis
    by (cases q) (auto 0 3)
next
  case (2 J' owns' ap' l t aio io)
  obtain q ef l' where c: "Commit J ap aio io t l = (q, ef, l')" by (metis prod_cases3)
  then have s: "s = (l, Some t)" "efs = [ef]" "s' = (l', None)" using 2 st by auto
  have "\<forall>rc\<in>set (ef_wal ef). rec_index rc \<noteq> maxUint64" using top s(2) by (auto simp: image_iff)
  then show ?thesis
    using Commit_inv [OF _ _ J blind c, of m0 hdr recs "done"] i n s by simp
next
  case (3 J' owns' ap' l t io reason)
  obtain q rs l' where c: "Abort J io t reason l = (q, rs, l')" by (metis prod_cases3)
  then have s: "s = (l, Some t)" "efs = [no_effect\<lparr>ef_wal := rs\<rparr>]" "s' = (l', None)" using 3 st by auto
  have "\<forall>rc\<in>set rs. rec_index rc \<noteq> maxUint64" using top s(2) by (auto simp: image_iff)
  then show ?thesis
    using Abort_inv [OF _ _ c, of ap m0 hdr recs "done" "Some t"] i n s by simp
qed (use i n st in auto)

lemma log_run_inv:
  assumes "json_ok J" "audit_blind ap"
  shows "log_inv J ap m0 hdr recs done s \<Longrightarrow> w_next (lg_w (fst s)) \<noteq> 0 \<Longrightarrow> list_all op_ok ops \<Longrightarrow>
    run (log_step J owns ap) s ops = (efs, s') \<Longrightarrow> maxUint64 \<notin> rec_index ` set (wal_of efs) \<Longrightarrow>
    log_inv J ap m0 hdr (recs @ wal_of efs) (done @ committed_of efs) s'"
proof (induction ops arbitrary: s recs "done" efs s')
  case (Cons x ops)
  obtain e1 s1 where 1: "log_step J owns ap s x = (e1, s1)" by (cases "log_step J owns ap s x") blast
  obtain e2 s2 where 2: "run (log_step J owns ap) s1 ops = (e2, s2)"
    by (cases "run (log_step J owns ap) s1 ops") blast
  have efs: "efs = e1 @ e2" "s' = s2" using Cons.prems(4) 1 2 by auto
  have top: "maxUint64 \<notin> rec_index ` set (wal_of e1)" "maxUint64 \<notin> rec_index ` set (wal_of e2)"
    using Cons.prems(5) efs by auto
  have ok: "op_ok x" "list_all op_ok ops" using Cons.prems(3) by simp_all
  note S = log_step_inv [OF Cons.prems(1,2) assms ok(1) 1 top(1)]
  show ?case
    using Cons.IH [OF S [THEN conjunct1] S [THEN conjunct2] ok(2) 2 top(2)] efs by simp
qed simp

lemma empty_log_inv:
  assumes "writer_holds w hdr []"
  shows "log_inv J ap m0 hdr [] [] (\<lparr>lg_w = w, lg_audit = aw, lg_mem = m0, lg_lastCommit = 0, lg_diverged = False\<rparr>, None)"
  using assms by (simp add: log_inv_def replay_records_def recovered_start_def open_ok_def)

lemma Append_codec: "Append fio io w t p = (q, w') \<Longrightarrow> w_codec w' = w_codec w \<and> w_kind w' = w_kind w"
  by (erule Append_cases) auto

lemma log_step_codec:
  "log_step J owns ap s x = (efs, s') \<Longrightarrow>
     w_codec (lg_w (fst s')) = w_codec (lg_w (fst s)) \<and> w_kind (lg_w (fst s')) = w_kind (lg_w (fst s))"
  by (cases "(J, owns, ap, s, x)" rule: log_step.cases)
    (auto simp: Begin_def Commit_def Abort_def append_audit_def failBeforeCommit_def Let_def
      split: if_splits sum.splits option.splits prod.splits dest!: Append_codec)

lemma log_run_codec:
  "w_codec (lg_w (fst (snd (run (log_step J owns ap) s ops)))) = w_codec (lg_w (fst s)) \<and>
   w_kind (lg_w (fst (snd (run (log_step J owns ap) s ops)))) = w_kind (lg_w (fst s))"
proof (induction ops arbitrary: s)
  case (Cons x ops)
  obtain e1 s1 where 1: "log_step J owns ap s x = (e1, s1)" by (cases "log_step J owns ap s x") blast
  show ?case using Cons [of s1] log_step_codec [OF 1] by (simp add: snd_run_Cons 1 del: run.simps(2))
qed simp

lemma holds_nonempty: "writer_holds w hdr recs \<Longrightarrow> take (w_size w) (w_file w) \<noteq> []"
proof -
  assume "writer_holds w hdr recs"
  then have H: "codec_ready (w_codec w)" "magic (w_kind w) \<noteq> ''''" "makeFileHeader (w_codec w) (w_kind w) = Some hdr"
    "take (w_size w) (w_file w) = hdr @ frames_bytes (w_codec w) recs"
    unfolding writer_holds_def by blast+
  have "length hdr = fileHeaderSize (w_codec w)" using parse_makeFileHeader [OF H(1,2)] H(3) by auto
  moreover have "fileHeaderSize (w_codec w) \<noteq> 0" by (simp add: fileHeaderSize_def)
  ultimately have "hdr \<noteq> []" by auto
  then show ?thesis by (simp add: H(4))
qed

lemma holds_scan_exact:
  assumes "writer_holds w hdr recs"
  shows "ScanAll (w_codec w) (take (w_size w) (w_file w)) (w_kind w) = (w_size w, None, recs)"
proof -
  let ?c = "w_codec w"
  have H: "codec_ready ?c" "magic (w_kind w) \<noteq> ''''" "makeFileHeader ?c (w_kind w) = Some hdr"
    "wal_chain ?c (fileHeaderSize ?c) 0 recs" "w_size w = chain_end (fileHeaderSize ?c) recs"
    "take (w_size w) (w_file w) = hdr @ frames_bytes ?c recs"
    using assms unfolding writer_holds_def by blast+
  show ?thesis
    unfolding H(6) ScanAll_def scanFrom_header [OF H(1,2,3)]
    using scan_chain [OF H(1,4), of "[]" "[]"] H(5) by simp
qed

section \<open>Properties\<close>


definition demo_json :: json where
  "demo_json = \<lparr>j_compact = (\<lambda>b. if b = [] then None else Some b),
     j_prepare = (\<lambda>kind ts body idem. if ts = 1 \<and> body = json_null \<and> idem = [] then Some (CHR ''P'' # kind) else None),
     j_commit = (\<lambda>n. Some (PutUint64 n)), j_abort = (\<lambda>n reason. Some (PutUint64 n)), j_audit = (\<lambda>a n. Some []),
     un_prepare = (\<lambda>p. Some (tl p, Some 1, json_null, [])), un_commit = (\<lambda>p. Some (Uint64 p)),
     un_abort = (\<lambda>p. Some (Uint64 p, []))\<rparr>"

lemma demo_json_ok: "json_ok demo_json"
  by (auto simp: json_ok_def demo_json_def split: if_splits)

definition demo_apply :: "committed \<Rightarrow> string list \<Rightarrow> bool \<times> string list" where
  "demo_apply c m = (True, m @ [en_Kind (cm_Entry c)])"

definition demo_entry :: entry where
  "demo_entry = \<lparr>en_Kind = ''m'', en_Body = None, en_Idem = None, en_Audit = None\<rparr>"


section \<open>The audit trail\<close>

definition audit_of :: "log_effect list \<Rightarrow> wal_record list" where
  "audit_of efs = concat (map ef_audit efs)"

lemma audit_of_simps [simp]:
  "audit_of [] = []" "audit_of (e # es) = ef_audit e @ audit_of es" "audit_of (es @ fs) = audit_of es @ audit_of fs"
  by (simp_all add: audit_of_def)

definition audited :: "json \<Rightarrow> wal_record list \<Rightarrow> committed \<Rightarrow> bool" where
  "audited J arecs c \<longleftrightarrow> (\<forall>a. en_Audit (cm_Entry c) = Some a \<longrightarrow>
     (\<exists>rc\<in>set arecs. rec_type rc = TypeAuditMessage \<and> j_audit J a (cm_PrepareIndex c) = Some (rec_payload rc)))"

definition trail_inv :: "json \<Rightarrow> codec \<Rightarrow> bytes \<Rightarrow> wal_record list \<Rightarrow> committed list \<Rightarrow> 'm wal_log \<Rightarrow> bool" where
  "trail_inv J c hdr arecs done l \<longleftrightarrow>
     (\<exists>aw. lg_audit l = Some aw \<and> writer_holds aw hdr arecs \<and> w_next aw \<noteq> 0 \<and>
        w_codec aw = c \<and> w_kind aw = KindAudit) \<and> list_all (audited J arecs) done"

lemma audited_more: "audited J arecs c \<Longrightarrow> audited J (arecs @ xs) c"
  by (auto simp: audited_def)

lemma append_audit_trail:
  assumes i: "trail_inv J c hdr arecs done l" and a: "append_audit J io t l = (q, l1)"
    and top: "\<forall>rc. q = Inr (Some rc) \<longrightarrow> rec_index rc \<noteq> maxUint64"
  shows "trail_inv J c hdr (arecs @ (case q of Inr (Some rc) \<Rightarrow> [rc] | _ \<Rightarrow> [])) done l1 \<and>
    (\<forall>x. q = Inr x \<longrightarrow> (\<forall>ci. audited J (arecs @ (case x of Some rc \<Rightarrow> [rc] | None \<Rightarrow> []))
       \<lparr>cm_PrepareIndex = tx_prepareIndex t, cm_CommitIndex = ci, cm_Entry = tx_entry t\<rparr>))"
proof -
  obtain aw where aw: "lg_audit l = Some aw" "writer_holds aw hdr arecs" "w_next aw \<noteq> 0"
    "w_codec aw = c" "w_kind aw = KindAudit" and d: "list_all (audited J arecs) done"
    using i by (auto simp: trail_inv_def)
  show ?thesis
  proof (cases "\<exists>a p. en_Audit (tx_entry t) = Some a \<and> j_audit J a (tx_prepareIndex t) = Some p")
    case False
    then have "q = Inr None \<and> en_Audit (tx_entry t) = None \<and> l1 = l \<or> isl q \<and> l1 = l"
      using a aw(1) by (auto simp: append_audit_def split: option.splits)
    then show ?thesis using i by (auto simp: audited_def isl_def)
  next
    case True
    then obtain e p where e: "en_Audit (tx_entry t) = Some e" "j_audit J e (tx_prepareIndex t) = Some p" by blast
    obtain r w where r: "Append (fst io) (snd io) aw TypeAuditMessage p = (r, w)" by fastforce
    from aw(2,3) r show ?thesis
    proof (cases rule: log_append)
      case (refused err)
      then show ?thesis
        using a e aw r d Append_codec [OF r] by (auto simp: append_audit_def trail_inv_def)
    next
      case (acked rc)
      then have q: "q = Inr (Some rc)" "l1 = l\<lparr>lg_audit := Some w\<rparr>"
        using a e aw r by (auto simp: append_audit_def)
      moreover have "w_next w \<noteq> 0" using next_not_max [of "rec_index rc"] top q acked(3,6) by simp
      moreover have "list_all (audited J (arecs @ [rc])) done"
        using d audited_more by (auto simp: list_all_iff)
      ultimately show ?thesis
        using acked(2,4,5) aw(4,5) Append_codec [OF r] e by (auto simp: trail_inv_def audited_def)
    qed
  qed
qed

lemma trail_inv_frame: "lg_audit l' = lg_audit l \<Longrightarrow> trail_inv J c hdr arecs done l' = trail_inv J c hdr arecs done l"
  by (simp add: trail_inv_def)

lemma failBeforeCommit_audit: "failBeforeCommit J io t l = (rs, l') \<Longrightarrow> lg_audit l' = lg_audit l"
  by (auto simp: failBeforeCommit_def split: option.splits prod.splits sum.splits)

lemma Commit_trail:
  assumes i: "trail_inv J cd hdr arecs done l" and c: "Commit J ap aio io t l = (q, ef, l')"
    and top: "\<forall>rc\<in>set (ef_audit ef). rec_index rc \<noteq> maxUint64"
  shows "trail_inv J cd hdr (arecs @ ef_audit ef) (done @ ef_committed ef) l'"
proof -
  obtain ar l1 where ar: "append_audit J aio t l = (ar, l1)" by fastforce
  show ?thesis
  proof (cases ar)
    case (Inl err)
    obtain rs l2 where f: "failBeforeCommit J io t l1 = (rs, l2)" by fastforce
    then have "ef = no_effect\<lparr>ef_wal := rs\<rparr>" "l' = l2" using c ar Inl by (auto simp: Commit_def)
    then show ?thesis
      using append_audit_trail [OF i ar] Inl trail_inv_frame [OF failBeforeCommit_audit [OF f]] by simp
  next
    case (Inr x)
    have ef: "ef_audit ef = (case x of None \<Rightarrow> [] | Some rc \<Rightarrow> [rc])" and l': "lg_audit l' = lg_audit l1"
      and done': "ef_committed ef = [] \<or> (\<exists>ci. ef_committed ef =
        [\<lparr>cm_PrepareIndex = tx_prepareIndex t, cm_CommitIndex = ci, cm_Entry = tx_entry t\<rparr>])"
      using c ar Inr by (auto simp: Commit_def Let_def split: option.splits prod.splits sum.splits if_splits)
    have "\<forall>rc. ar = Inr (Some rc) \<longrightarrow> rec_index rc \<noteq> maxUint64" using top ef Inr by auto
    note A = append_audit_trail [OF i ar this]
    have "trail_inv J cd hdr (arecs @ ef_audit ef) done l1"
      using A Inr ef by (auto split: option.splits)
    then have "trail_inv J cd hdr (arecs @ ef_audit ef) (done @ ef_committed ef) l1"
      using A Inr ef done' by (cases x) (auto simp: trail_inv_def)
    then show ?thesis using trail_inv_frame [OF l'] by simp
  qed
qed

lemma log_step_trail:
  assumes i: "trail_inv J cd hdr arecs done (fst s)" and st: "log_step J owns ap s x = (efs, s')"
    and top: "maxUint64 \<notin> rec_index ` set (audit_of efs)"
  shows "trail_inv J cd hdr (arecs @ audit_of efs) (done @ committed_of efs) (fst s')"
proof (cases "(J, owns, ap, s, x)" rule: log_step.cases)
  case (1 J' owns' ap' l io now e)
  obtain q l' where b: "Begin J owns io now e l = (q, l')" by fastforce
  then have "lg_audit l' = lg_audit l"
    by (auto simp: Begin_def split: if_splits sum.splits option.splits prod.splits)
  then show ?thesis using 1 b st i by (cases q) (auto simp: trail_inv_def)
next
  case (2 J' owns' ap' l t aio io)
  obtain q ef l' where c: "Commit J ap aio io t l = (q, ef, l')" by (metis prod_cases3)
  then have s: "s = (l, Some t)" "efs = [ef]" "s' = (l', None)" using 2 st by auto
  have "\<forall>rc\<in>set (ef_audit ef). rec_index rc \<noteq> maxUint64" using top s(2) by (auto simp: image_iff)
  then show ?thesis using Commit_trail [OF _ c] i s by simp
next
  case (3 J' owns' ap' l t io reason)
  obtain q rs l' where c: "Abort J io t reason l = (q, rs, l')" by (metis prod_cases3)
  then have "lg_audit l' = lg_audit l"
    by (auto simp: Abort_def split: option.splits prod.splits sum.splits)
  then show ?thesis using 3 c st i by (auto simp: trail_inv_def)
qed (use i st in auto)

lemma log_run_trail:
  "trail_inv J cd hdr arecs done (fst s) \<Longrightarrow> run (log_step J owns ap) s ops = (efs, s') \<Longrightarrow>
    maxUint64 \<notin> rec_index ` set (audit_of efs) \<Longrightarrow>
    trail_inv J cd hdr (arecs @ audit_of efs) (done @ committed_of efs) (fst s')"
proof (induction ops arbitrary: s arecs "done" efs s')
  case (Cons x ops)
  obtain e1 s1 where 1: "log_step J owns ap s x = (e1, s1)" by (cases "log_step J owns ap s x") blast
  obtain e2 s2 where 2: "run (log_step J owns ap) s1 ops = (e2, s2)"
    by (cases "run (log_step J owns ap) s1 ops") blast
  have efs: "efs = e1 @ e2" "s' = s2" using Cons.prems(2) 1 2 by auto
  have top: "maxUint64 \<notin> rec_index ` set (audit_of e1)" "maxUint64 \<notin> rec_index ` set (audit_of e2)"
    using Cons.prems(3) efs by auto
  show ?case
    using Cons.IH [OF log_step_trail [OF Cons.prems(1) 1 top(1)] 2 top(2)] efs by simp
qed simp



end
