(* ===== verification/EventLog.thy ===== *)
theory EventLog
  imports WalLog
begin

text \<open>
  The log as the tables above it see it: a memory, the list of committed entries it was built
  from, and whether the writer still accepts writes.  \<^verbatim>\<open>Log.Write\<close> of \<^verbatim>\<open>internal/wal/log.go\<close> applies a committed
  entry to memory before it returns, and \<^verbatim>\<open>wal.Open\<close> applies the committed entries in order to
  a fresh one.  A write that fails while its commit record is being written leaves the entry in doubt: the
  writer is poisoned, and the next start either finds the record or does not.  The clock an applier reads is
  an argument.
\<close>

record 'm event_log =
  el_mem :: 'm
  el_done :: "committed list"
  el_doubt :: "committed option"
  el_up :: bool

type_synonym 'm applier = "time \<Rightarrow> committed \<Rightarrow> 'm \<Rightarrow> bool \<times> 'm"

datatype write_fate =
    Committed u64 u64
  | Refused log_error
  | Lost log_error
  | InDoubt u64 u64 log_error

definition event_Write ::
  "'m applier \<Rightarrow> write_fate \<Rightarrow> time \<Rightarrow> entry \<Rightarrow> 'm event_log \<Rightarrow> (log_error + committed) \<times> 'm event_log" where
  "event_Write ap fate now e L =
     (if \<not> el_up L then (Inl (LogWrite ErrPoisoned), L)
      else case fate of
        Refused err \<Rightarrow> (Inl err, L)
      | Lost err \<Rightarrow> (Inl err, L\<lparr>el_up := False\<rparr>)
      | InDoubt p c err \<Rightarrow>
          (Inl err, L\<lparr>el_doubt := Some \<lparr>cm_PrepareIndex = p, cm_CommitIndex = c, cm_Entry = e\<rparr>, el_up := False\<rparr>)
      | Committed p c \<Rightarrow>
          (let cm = \<lparr>cm_PrepareIndex = p, cm_CommitIndex = c, cm_Entry = e\<rparr>;
               (ok, m) = ap now cm (el_mem L);
               L' = L\<lparr>el_mem := m, el_done := el_done L @ [cm]\<rparr>
           in if ok then (Inr cm, L') else (Inl ErrDiverged, L'\<lparr>el_up := False\<rparr>)))"

fun replay_events :: "'m applier \<Rightarrow> 'm \<Rightarrow> (time \<times> committed) list \<Rightarrow> 'm" where
  "replay_events ap m [] = m"
| "replay_events ap m ((now, c) # cs) = replay_events ap (snd (ap now c m)) cs"

lemma replay_events_append [simp]:
  "replay_events ap m (xs @ ys) = replay_events ap (replay_events ap m xs) ys"
  by (induction ap m xs rule: replay_events.induct) simp_all

text \<open>
  \<open>found\<close> says whether the entry in doubt had reached the disk; \<open>clks\<close> are the clock readings of
  the replay.
\<close>

definition restart_events :: "'m event_log \<Rightarrow> bool \<Rightarrow> committed list" where
  "restart_events L found = el_done L @ (case el_doubt L of None \<Rightarrow> [] | Some c \<Rightarrow> if found then [c] else [])"

definition event_Open :: "'m applier \<Rightarrow> 'm \<Rightarrow> bool \<Rightarrow> time list \<Rightarrow> 'm event_log \<Rightarrow> 'm event_log" where
  "event_Open ap m0 found clks L =
     \<lparr>el_mem = replay_events ap m0 (zip clks (restart_events L found)), el_done = restart_events L found,
      el_doubt = None, el_up = True\<rparr>"

definition empty_log :: "'m \<Rightarrow> 'm event_log" where
  "empty_log m = \<lparr>el_mem = m, el_done = [], el_doubt = None, el_up = True\<rparr>"

lemma event_Write_cases:
  assumes "event_Write ap fate now e L = (r, L')"
  obtains
    (failed) err where "r = Inl err" "L' = L \<or> L' = L\<lparr>el_up := False\<rparr>"
  | (doubt) err p c where "el_up L" "r = Inl err"
      "L' = L\<lparr>el_doubt := Some \<lparr>cm_PrepareIndex = p, cm_CommitIndex = c, cm_Entry = e\<rparr>, el_up := False\<rparr>"
  | (committed) cm m where "el_up L" "r = Inr cm" "cm_Entry cm = e" "ap now cm (el_mem L) = (True, m)"
      "L' = L\<lparr>el_mem := m, el_done := el_done L @ [cm]\<rparr>"
  | (diverged) cm m where "el_up L" "r = Inl ErrDiverged" "cm_Entry cm = e" "ap now cm (el_mem L) = (False, m)"
      "L' = L\<lparr>el_mem := m, el_done := el_done L @ [cm], el_up := False\<rparr>"
proof -
  note A = assms [unfolded event_Write_def]
  consider "\<not> el_up L" | err where "el_up L" "fate = Refused err" | err where "el_up L" "fate = Lost err"
    | p c err where "el_up L" "fate = InDoubt p c err" | p c where "el_up L" "fate = write_fate.Committed p c"
    by (cases fate) auto
  then show thesis
  proof cases
    case 1
    show thesis by (rule failed [of "LogWrite ErrPoisoned"]) (use A 1 in auto)
  next
    case 2
    show thesis by (rule failed [of err]) (use A 2 in auto)
  next
    case 3
    show thesis by (rule failed [of err]) (use A 3 in auto)
  next
    case 4
    show thesis by (rule doubt [of err p c]) (use A 4 in auto)
  next
    case 5
    let ?c = "\<lparr>cm_PrepareIndex = p, cm_CommitIndex = c, cm_Entry = e\<rparr>"
    obtain ok m where m: "ap now ?c (el_mem L) = (ok, m)" by fastforce
    show thesis
    proof (cases ok)
      case True
      show thesis by (rule committed [of ?c m]) (use A 5 m True in \<open>simp_all add: Let_def\<close>)
    next
      case False
      show thesis by (rule diverged [of ?c m]) (use A 5 m False in \<open>simp_all add: Let_def\<close>)
    qed
  qed
qed

end
