(* ===== verification/IdemOnce.thy ===== *)
theory IdemOnce
  imports Idem
begin

text \<open>
  What idempotency buys a caller.  The locale \<open>applied_keys\<close> is the interface the bus uses
  of the applied-key table: ask whether a key has been applied, apply the operation only if
  not, and remember it.  Its client lemma is the guarantee: inside one retention window an
  operation takes effect at most once per scope.  The table of \<^verbatim>\<open>internal/idem/store.go\<close> is
  the interpretation.
\<close>

locale applied_keys =
  fixes look :: "time \<Rightarrow> 's \<Rightarrow> 'k \<Rightarrow> 'r option \<times> 's"
    and keep :: "time \<Rightarrow> 's \<Rightarrow> 'r \<Rightarrow> bool \<times> 's"
    and inv :: "'s \<Rightarrow> bool"
    and applied :: "'s \<Rightarrow> 'k \<Rightarrow> 'r option"
    and key :: "'r \<Rightarrow> 'k option"
    and stamp :: "'r \<Rightarrow> time"
    and window :: int
  assumes look_inv: "inv s \<Longrightarrow> inv (snd (look t s k))"
    and keep_inv: "inv s \<Longrightarrow> inv (snd (keep t s r))"
    and look_answer: "inv s \<Longrightarrow> fst (look t s k) = applied (snd (look t s k)) k"
    and look_old: "inv s \<Longrightarrow> applied (snd (look t s k)) j = Some r \<Longrightarrow> applied s j = Some r"
    and look_fresh:
      "inv s \<Longrightarrow> applied s j = Some r \<Longrightarrow> t - stamp r \<le> window \<Longrightarrow> applied (snd (look t s k)) j = Some r"
    and keep_old: "inv s \<Longrightarrow> applied (snd (keep t s r)) j = Some q \<Longrightarrow> applied s j = Some q \<or> q = r"
    and keep_fresh:
      "inv s \<Longrightarrow> applied s j = Some q \<Longrightarrow> t - stamp q \<le> window \<Longrightarrow> applied (snd (keep t s r)) j = Some q"
    and keep_ok: "inv s \<Longrightarrow> fst (keep t s r) \<Longrightarrow> key r = Some k \<Longrightarrow> applied (snd (keep t s r)) k \<noteq> None"
begin

text \<open>One request: the output is the key of the operation that took effect, if any.\<close>

definition request :: "'s \<Rightarrow> time \<times> 'r \<Rightarrow> 'k list \<times> 's" where
  "request s q =
     (case key (snd q) of
        None \<Rightarrow> ([], s)
      | Some k \<Rightarrow>
        (case look (fst q) s k of
           (Some _, s1) \<Rightarrow> ([], s1)
         | (None, s1) \<Rightarrow>
           (case keep (fst q) s1 (snd q) of
              (True, s2) \<Rightarrow> ([k], s2)
            | (False, s2) \<Rightarrow> ([], s2))))"

definition recent :: "time \<Rightarrow> 's \<Rightarrow> bool" where
  "recent t0 s \<longleftrightarrow> (\<forall>k r. applied s k = Some r \<longrightarrow> t0 \<le> stamp r)"

definition request_ok :: "time \<Rightarrow> time \<times> 'r \<Rightarrow> bool" where
  "request_ok t0 q \<longleftrightarrow> stamp (snd q) = fst q \<and> t0 \<le> fst q \<and> fst q \<le> t0 + window"

lemma request_step:
  assumes "inv s" "recent t0 s" "request_ok t0 q"
  shows "inv (snd (request s q))" "recent t0 (snd (request s q))"
    "applied s k \<noteq> None \<Longrightarrow> applied (snd (request s q)) k \<noteq> None"
    "k \<in> set (fst (request s q)) \<Longrightarrow> applied s k = None \<and> applied (snd (request s q)) k \<noteq> None"
    "distinct (fst (request s q))"
proof -
  obtain t r where q: "q = (t, r)" by (cases q)
  have tr: "stamp r = t" "t0 \<le> t" "t \<le> t0 + window" using assms(3) by (simp_all add: q request_ok_def)
  have keepers: "t - stamp r' \<le> window" if "applied s j = Some r'" for j r'
    using assms(2) that tr by (fastforce simp: recent_def)
  have R: "inv (snd (request s q)) \<and> recent t0 (snd (request s q)) \<and>
    (applied s k \<noteq> None \<longrightarrow> applied (snd (request s q)) k \<noteq> None) \<and>
    (k \<in> set (fst (request s q)) \<longrightarrow> applied s k = None \<and> applied (snd (request s q)) k \<noteq> None) \<and>
    distinct (fst (request s q))" for k
  proof (cases "key r")
    case None
    then show ?thesis using assms by (simp add: q request_def)
  next
    case (Some key1)
    obtain a s1 where l: "look t s key1 = (a, s1)" by fastforce
    have L: "inv s1" "a = applied s1 key1" "\<And>j r'. applied s1 j = Some r' \<Longrightarrow> applied s j = Some r'"
      "\<And>j r'. applied s j = Some r' \<Longrightarrow> applied s1 j = Some r'"
      subgoal using look_inv [OF assms(1), of t key1] l by simp
      subgoal using look_answer [OF assms(1), of t key1] l by simp
      subgoal using look_old [OF assms(1), of t key1] l by simp
      subgoal using look_fresh [OF assms(1) _ keepers, of _ _ _ key1] l by force
      done
    have rec1: "recent t0 s1" using assms(2) L(3) by (auto simp: recent_def)
    show ?thesis
    proof (cases a)
      case (Some b)
      then have "request s q = ([], s1)" using \<open>key r = Some key1\<close> l by (simp add: q request_def)
      then show ?thesis using L(1,4) rec1 by fastforce
    next
      case None
      obtain ok s2 where kp: "keep t s1 r = (ok, s2)" by fastforce
      have K: "inv s2" "\<And>j r'. applied s2 j = Some r' \<Longrightarrow> applied s1 j = Some r' \<or> r' = r"
        "\<And>j r'. applied s1 j = Some r' \<Longrightarrow> applied s2 j = Some r'" "ok \<Longrightarrow> applied s2 key1 \<noteq> None"
        subgoal using keep_inv [OF L(1), of t r] kp by simp
        subgoal using keep_old [OF L(1), of t r] kp by simp
        subgoal for j r' using keep_fresh [OF L(1) _ keepers [OF L(3)], of j r' j r] kp by simp
        subgoal using keep_ok [OF L(1), of t r key1] kp \<open>key r = Some key1\<close> by simp
        done
      have "recent t0 s2" using rec1 K(2) tr unfolding recent_def by blast
      moreover have "applied s key1 = None" using None L(2,4) by (metis not_Some_eq)
      moreover have "request s q = (if ok then [key1] else [], s2)"
        using None l kp \<open>key r = Some key1\<close> by (simp add: q request_def)
      moreover have "applied s k \<noteq> None \<longrightarrow> applied s2 k \<noteq> None" using L(4) K(3) by blast
      ultimately show ?thesis using K(1,4) by (cases ok) simp_all
    qed
  qed
  then show "inv (snd (request s q))" "recent t0 (snd (request s q))"
    "applied s k \<noteq> None \<Longrightarrow> applied (snd (request s q)) k \<noteq> None"
    "k \<in> set (fst (request s q)) \<Longrightarrow> applied s k = None \<and> applied (snd (request s q)) k \<noteq> None"
    "distinct (fst (request s q))"
    by blast+
qed

lemma requests_once:
  assumes "inv s" "recent t0 s" "\<forall>q\<in>set qs. request_ok t0 q"
  shows "distinct (fst (run request s qs)) \<and> (\<forall>k. applied s k \<noteq> None \<longrightarrow> k \<notin> set (fst (run request s qs)))"
  using assms
proof (induction qs arbitrary: s)
  case (Cons q qs)
  have q: "request_ok t0 q" using Cons.prems(3) by simp
  note S = request_step [OF Cons.prems(1,2) q]
  have IH: "distinct (fst (run request (snd (request s q)) qs))"
    "\<And>k. applied (snd (request s q)) k \<noteq> None \<Longrightarrow> k \<notin> set (fst (run request (snd (request s q)) qs))"
    using Cons.IH [OF S(1,2)] Cons.prems(3) by auto
  then show ?case using S(3,4,5) by (auto simp: fst_run_Cons simp del: run.simps(2))
qed simp

end

section \<open>The table as an applied-key interface\<close>

definition store_look :: "time \<Rightarrow> idem_store \<Rightarrow> idem_scope \<Rightarrow> idem_record option \<times> idem_store" where
  "store_look t s sc = (case Lookup t s sc [] of ((prev, _), s') \<Rightarrow> (prev, s'))"

definition store_keep :: "time \<Rightarrow> idem_store \<Rightarrow> idem_record \<Rightarrow> bool \<times> idem_store" where
  "store_keep t s r = (case Remember t s r of (q, s') \<Rightarrow> (is_ok q, s'))"

definition store_inv :: "int \<Rightarrow> idem_store \<Rightarrow> bool" where
  "store_inv w s \<longleftrightarrow> idem_inv s \<and> st_window s = w \<and> 0 \<le> w"

definition record_key :: "idem_record \<Rightarrow> idem_scope option" where
  "record_key r = (case record_Scope r of Inl _ \<Rightarrow> None | Inr sc \<Rightarrow> Some sc)"

lemma time_sub_le: "0 \<le> w \<Longrightarrow> a - b \<le> w \<Longrightarrow> time_sub a b \<le> w"
  by (auto simp: time_sub_def minDuration_def)

lemma Lookup_state: "snd (Lookup t s sc fp) = expireLocked t s"
  by (auto simp: Lookup_def Let_def split: option.splits)

lemma store_look_eq: "store_look t s sc = (map_of (st_records (expireLocked t s)) sc, expireLocked t s)"
  by (auto simp: store_look_def Lookup_def Let_def split: option.splits)

interpretation store: applied_keys store_look store_keep "store_inv w" "\<lambda>s. map_of (st_records s)"
  record_key ir_committedAt w
  for w
proof unfold_locales
  fix s t k r j q
  assume i: "store_inv w s"
  then have inv: "idem_inv s" "st_window s = w" "0 \<le> w" by (simp_all add: store_inv_def)
  note E = expireLocked_props [OF inv(1), where now = t]
  obtain x s' where k: "remember t s r True = (x, s')" by fastforce
  then have sk: "store_keep t s r = (is_ok x, s')" by (simp add: store_keep_def Remember_def)
  note K = remember_props [OF inv(1) k]
  show "store_inv w (snd (store_look t s k))" "store_inv w (snd (store_keep t s r))"
    using E(1,2) K(1,2) inv by (simp_all add: store_look_eq sk store_inv_def)
  show "fst (store_look t s k) = map_of (st_records (snd (store_look t s k))) k"
    by (simp add: store_look_eq)
  show "map_of (st_records s) j = Some r" if "map_of (st_records (snd (store_look t s k))) j = Some r"
    using that E(5) by (simp add: store_look_eq)
  show "map_of (st_records (snd (store_look t s k))) j = Some r"
    if "map_of (st_records s) j = Some r" "t - ir_committedAt r \<le> w"
    using that E(6) time_sub_le [OF inv(3)] inv(2) by (simp add: store_look_eq)
  show "map_of (st_records s) j = Some q \<or> q = r"
    if "map_of (st_records (snd (store_keep t s r))) j = Some q"
    using that K(6) by (simp add: sk)
  show "map_of (st_records (snd (store_keep t s r))) j = Some q"
    if "map_of (st_records s) j = Some q" "t - ir_committedAt q \<le> w"
    using that K(5) time_sub_le [OF inv(3)] inv(2) by (simp add: sk)
  show "map_of (st_records (snd (store_keep t s r))) k \<noteq> None"
    if "fst (store_keep t s r)" "record_key r = Some k"
  proof -
    have "x = Inr ()" using that(1) by (auto simp: sk is_ok_iff)
    then show ?thesis using K(7) that(2) by (auto simp: sk record_key_def split: sum.splits)
  qed
qed

section \<open>Properties\<close>

lemma NewStore_inv: "idem_inv (NewStore w m)"
  by (simp add: NewStore_def idem_inv_def table_ok_def held_def MaxEntries_def MaxRetainedBytes_def
      MaxRecordBytes_def)

text \<open>One request against the table: look the key up, and if it is new apply and remember it.\<close>

definition store_request :: "idem_store \<Rightarrow> time \<times> idem_record \<Rightarrow> idem_scope list \<times> idem_store" where
  "store_request s q =
     (case record_key (snd q) of
        None \<Rightarrow> ([], s)
      | Some k \<Rightarrow>
        (case store_look (fst q) s k of
           (Some _, s1) \<Rightarrow> ([], s1)
         | (None, s1) \<Rightarrow>
           (case store_keep (fst q) s1 (snd q) of
              (True, s2) \<Rightarrow> ([k], s2)
            | (False, s2) \<Rightarrow> ([], s2))))"

lemma store_request_eq: "store_request = store.request"
  by (intro ext) (simp add: store_request_def store.request_def)

text \<open>
  C9. Exactly-once within the retention window: on a fresh table, whatever requests arrive
  during one window (each stamped with its own arrival time), no idempotency scope takes
  effect twice.  Refused requests (capacity, quota, malformed) have no effect at all.
\<close>

theorem at_most_once:
  assumes "0 < w" "\<forall>q\<in>set reqs. ir_committedAt (snd q) = fst q \<and> start \<le> fst q \<and> fst q \<le> start + w"
  shows "distinct (fst (run store_request (NewStore w m) reqs))"
proof -
  let ?s = "NewStore w m"
  have "st_window ?s = w" using assms(1) by (simp add: NewStore_def)
  then have "store_inv w ?s" using assms(1) NewStore_inv by (simp add: store_inv_def)
  moreover have "store.recent start ?s" by (simp add: store.recent_def NewStore_def)
  moreover have "\<forall>q\<in>set reqs. store.request_ok w start q" using assms(2) by (simp add: store.request_ok_def)
  ultimately show ?thesis unfolding store_request_eq using store.requests_once by blast
qed

definition demo_idem :: "time \<Rightarrow> idem_record" where
  "demo_idem t = \<lparr>ir_agent = ''b.a-1'', ir_enrolBusWide = False, ir_op = OpSend, ir_key = ''k1'',
     ir_fingerprint = [], ir_result = [], ir_seq = 1, ir_committedAt = t\<rparr>"

theorem at_most_once_witness:
  "distinct (fst (run store_request (NewStore 100 8) [(5, demo_idem 5), (9, demo_idem 9)]))"
  by (rule at_most_once [where start = 5]) (simp_all add: demo_idem_def)

datatype idem_op = ILookup idem_scope bytes | IRemember idem_record | IRecover idem_record
  | IAdmit idem_scope | IExpire | IStats

fun idem_step :: "idem_store \<Rightarrow> time \<times> idem_op \<Rightarrow> idem_outcome list \<times> idem_store" where
  "idem_step s (t, ILookup sc fp) = (case Lookup t s sc fp of ((_, oc), s') \<Rightarrow> ([oc], s'))"
| "idem_step s (t, IRemember r) = ([], snd (Remember t s r))"
| "idem_step s (t, IRecover r) = ([], snd (Recover t s r))"
| "idem_step s (t, IAdmit sc) = ([], snd (Admit t s sc))"
| "idem_step s (t, IExpire) = ([], Expire t s)"
| "idem_step s (t, IStats) = ([], snd (Stats t s))"

lemma idem_step_state:
  "snd (idem_step s (t, x)) \<in> {s, expireLocked t s} \<or>
   (\<exists>r enf q. remember t s r enf = (q, snd (idem_step s (t, x))))"
proof (cases x)
  case (ILookup sc fp)
  then show ?thesis using Lookup_state [of t s sc fp] by (auto split: prod.splits)
next
  case (IRemember r)
  then show ?thesis by (auto simp: Remember_def intro!: exI [of _ r] exI [of _ True] exI [of _ "fst (remember t s r True)"])
next
  case (IRecover r)
  then show ?thesis by (auto simp: Recover_def intro!: exI [of _ r] exI [of _ False] exI [of _ "fst (remember t s r False)"])
qed (auto simp: Admit_def Expire_def Stats_def Let_def split: sum.splits)

lemma idem_step_props:
  assumes "idem_inv s"
  shows "idem_inv (snd (idem_step s (t, x)))" "st_window (snd (idem_step s (t, x))) = st_window s"
    "map_of (st_records s) sc = Some r \<Longrightarrow> time_sub t (ir_committedAt r) \<le> st_window s \<Longrightarrow>
       map_of (st_records (snd (idem_step s (t, x)))) sc = Some r"
proof -
  note E = expireLocked_props [OF assms, where now = t]
  have "\<forall>s'. s' \<in> {s, expireLocked t s} \<or> (\<exists>r enf q. remember t s r enf = (q, s')) \<longrightarrow>
    idem_inv s' \<and> st_window s' = st_window s \<and>
    (map_of (st_records s) sc = Some r \<longrightarrow> time_sub t (ir_committedAt r) \<le> st_window s \<longrightarrow>
       map_of (st_records s') sc = Some r)"
    using E(1,2,6) assms remember_props(1,2,5) [OF assms] by blast
  with idem_step_state [of s t x]
  show "idem_inv (snd (idem_step s (t, x)))" "st_window (snd (idem_step s (t, x))) = st_window s"
    "map_of (st_records s) sc = Some r \<Longrightarrow> time_sub t (ir_committedAt r) \<le> st_window s \<Longrightarrow>
       map_of (st_records (snd (idem_step s (t, x)))) sc = Some r"
    by blast+
qed

interpretation idem_machine: invariant_machine idem_step idem_inv
  by unfold_locales (metis idem_step_props(1) surj_pair)

lemma record_survives:
  assumes "idem_inv s" "map_of (st_records s) sc = Some r"
    "list_all (\<lambda>x. time_sub (fst x) (ir_committedAt r) \<le> st_window s) ops"
  shows "map_of (st_records (snd (run idem_step s ops))) sc = Some r \<and>
    st_window (snd (run idem_step s ops)) = st_window s \<and> idem_inv (snd (run idem_step s ops))"
  using assms
proof (induction ops arbitrary: s)
  case (Cons x ops)
  obtain t y where x: "x = (t, y)" by (cases x)
  note S = idem_step_props [OF Cons.prems(1), where t = t and x = y]
  have "map_of (st_records (snd (idem_step s x))) sc = Some r"
    unfolding x using Cons.prems(2,3) x by (intro S(3)) auto
  then show ?case
    using Cons.IH [of "snd (idem_step s x)"] S(1,2) Cons.prems(3) by (simp add: snd_run_Cons x del: run.simps(2))
qed simp

text \<open>
  A retry inside the window gets the original answer: after any history of operations
  on the table since the record was stored, as long as every clock reading so far is within
  the window of its commit time, a lookup with the same fingerprint returns the stored
  record as a retry, and one with another fingerprint is a violation.
\<close>

theorem retry_gets_original:
  assumes "idem_inv s" "map_of (st_records s) sc = Some r"
    and "list_all (\<lambda>x. time_sub (fst x) (ir_committedAt r) \<le> st_window s) ops"
    and "time_sub now (ir_committedAt r) \<le> st_window s"
  shows "fst (Lookup now (snd (run idem_step s ops)) sc fp) =
    (Some r, if fp = ir_fingerprint r then OutcomeRetry else OutcomeViolation)"
proof -
  let ?s = "snd (run idem_step s ops)"
  have S: "map_of (st_records ?s) sc = Some r" "st_window ?s = st_window s" "idem_inv ?s"
    using record_survives [OF assms(1-3)] by auto
  have "map_of (st_records (expireLocked now ?s)) sc = Some r"
    using expireLocked_props(6) [OF S(3,1)] assms(4) S(2) by simp
  then show ?thesis by (auto simp: Lookup_def Let_def)
qed

definition demo_store :: idem_store where
  "demo_store = snd (Remember 5 (NewStore 100 8) (demo_idem 5))"

lemma demo_store_props:
  "idem_inv demo_store" "st_window demo_store = 100"
  "map_of (st_records demo_store) \<lparr>sc_agent = ''b.a-1'', sc_op = OpSend, sc_key = ''k1'', sc_enrolBusWide = False\<rparr>
     = Some (demo_idem 5)"
proof -
  obtain q where r: "remember 5 (NewStore 100 8) (demo_idem 5) True = (q, demo_store)"
    by (simp add: demo_store_def Remember_def prod_eq_iff)
  show "idem_inv demo_store" "st_window demo_store = 100"
    using remember_props(1,2) [OF NewStore_inv r] by (simp_all add: NewStore_def)
  show "map_of (st_records demo_store) \<lparr>sc_agent = ''b.a-1'', sc_op = OpSend, sc_key = ''k1'', sc_enrolBusWide = False\<rparr>
     = Some (demo_idem 5)"
    by (simp add: demo_store_def Remember_def remember_def demo_idem_def record_Scope_def NewAgentScope_def
        record_validate_def ValidateKey_def MaxKeyLen_def key_char_def is_lower_def is_digit_def OpSend_def
        OpEnrol_def op_valid_def MaxAgentLen_def MaxResultBytes_def bucket_def NewStore_def expireLocked_def
        admitAgentLocked_def pressureLine_def Let_def)
qed

theorem retry_gets_original_witness:
  "fst (Lookup 50 (snd (run idem_step demo_store [(20, IExpire), (30, IRemember (demo_idem 30))]))
      \<lparr>sc_agent = ''b.a-1'', sc_op = OpSend, sc_key = ''k1'', sc_enrolBusWide = False\<rparr> [])
   = (Some (demo_idem 5), OutcomeRetry)"
  by (subst retry_gets_original [OF demo_store_props(1,3)])
    (simp_all add: demo_store_props demo_idem_def time_sub_def maxDuration_def minDuration_def)

text \<open>
  C29. The table stays within its bounds and its books balance: after any history on a new
  table the records never exceed the configured cap, the order slice is less than twice as
  long as the set of live keys (or all of it is live), and every per-bucket counter equals
  the number of live keys accounted to that bucket.
\<close>

theorem table_bounded_and_exact:
  "let s = snd (run idem_step (NewStore w m) ops) in
     int (length (st_records s)) \<le> st_maxEntries s \<and>
     length (st_order s) \<le> 2 * length (st_records s) \<and>
     getI (st_byAgent s) b = int (held (live_scopes s) (st_buckets s) b)"
proof -
  let ?s = "snd (run idem_step (NewStore w m) ops)"
  have i: "idem_inv ?s" by (rule idem_machine.inv_run) (rule NewStore_inv)
  then have "length (live_scopes ?s) = length (st_records ?s)"
    by (intro table_ok_length) (simp add: idem_inv_def)
  moreover have "st_head ?s \<le> length (live_scopes ?s)" using i by (auto simp: idem_inv_def)
  ultimately have "length (st_order ?s) \<le> 2 * length (st_records ?s)"
    using i by (auto simp: idem_inv_def)
  then show ?thesis using i by (auto simp: idem_inv_def table_ok_def getI_def Let_def)
qed

text \<open>
  Replay never loses an accepted key: whatever the live path \<open>Remember\<close> accepts in a
  state, the replay path \<open>Recover\<close> accepts too, with the same table as the result.
\<close>

theorem recover_accepts_remembered:
  assumes "Remember now s r = (Inr (), s')"
  shows "Recover now s r = (Inr (), s')"
  using assms
  by (auto simp: Remember_def Recover_def remember_def Let_def split: sum.splits if_splits)

theorem recover_accepts_remembered_witness:
  "Recover 5 (NewStore 100 8) (demo_idem 5) = (Inr (), demo_store)"
proof (rule recover_accepts_remembered)
  have "fst (Remember 5 (NewStore 100 8) (demo_idem 5)) = Inr ()"
    by (simp add: Remember_def remember_def demo_idem_def record_Scope_def NewAgentScope_def
        record_validate_def ValidateKey_def MaxKeyLen_def key_char_def is_lower_def is_digit_def OpSend_def
        OpEnrol_def op_valid_def MaxAgentLen_def MaxResultBytes_def bucket_def NewStore_def expireLocked_def
        admitAgentLocked_def pressureLine_def Let_def)
  then show "Remember 5 (NewStore 100 8) (demo_idem 5) = (Inr (), demo_store)"
    by (simp add: demo_store_def prod_eq_iff)
qed

text \<open>
  Fair share: when the live path admits a new key of an identity bucket while the table
  is at least half full, that bucket's count after the admission is at most the fair share
  computed before it.
\<close>

theorem fair_share_respected:
  assumes "Remember now s r = (Inr (), s')" "record_Scope r = Inr sc" "\<not> sc_enrolBusWide sc"
    and "bucket s sc = Inr b" "map_of (st_records (expireLocked now s)) sc = None"
    and "pressureLine (expireLocked now s) \<le> int (length (st_records (expireLocked now s)))"
  shows "getI (st_byAgent s') b \<le> fairShare (expireLocked now s)"
  using assms
  by (auto simp: Remember_def remember_def Let_def admitAgentLocked_def getI_def update_conv
      split: sum.splits if_splits)

theorem fair_share_respected_witness:
  "\<exists>s'. Remember 5 (NewStore 100 1) (demo_idem 5) = (Inr (), s') \<and> getI (st_byAgent s') ''b.a-1'' \<le> 1"
proof -
  let ?s = "NewStore 100 1"
  have e: "expireLocked 5 ?s = ?s" by (simp add: NewStore_def expireLocked_def Let_def)
  have sc: "record_Scope (demo_idem 5) =
      Inr \<lparr>sc_agent = ''b.a-1'', sc_op = OpSend, sc_key = ''k1'', sc_enrolBusWide = False\<rparr>"
    by (simp add: demo_idem_def record_Scope_def NewAgentScope_def ValidateKey_def MaxKeyLen_def key_char_def
        is_lower_def is_digit_def OpSend_def OpEnrol_def op_valid_def)
  obtain s' where r: "Remember 5 ?s (demo_idem 5) = (Inr (), s')"
    by (simp add: Remember_def remember_def demo_idem_def record_Scope_def NewAgentScope_def
        record_validate_def ValidateKey_def MaxKeyLen_def key_char_def is_lower_def is_digit_def OpSend_def
        OpEnrol_def op_valid_def MaxAgentLen_def MaxResultBytes_def bucket_def NewStore_def expireLocked_def
        admitAgentLocked_def pressureLine_def fairShare_def getI_def Let_def)
  from fair_share_respected [OF r sc, of "''b.a-1''"] show ?thesis
    using r unfolding e by (auto simp: bucket_def NewStore_def pressureLine_def fairShare_def)
qed

text \<open>
  Fingerprints frame their fields: two field lists that feed the hash the same bytes are
  the same list, so moving bytes from one field to the next never preserves a fingerprint's
  preimage.
\<close>

theorem fingerprint_framing_injective:
  assumes "list_all (\<lambda>f. length f < 2 ^ 64) fs" "list_all (\<lambda>f. length f < 2 ^ 64) gs"
    and "fp_framing fs = fp_framing gs"
  shows "fs = gs"
  using assms
proof (induction fs arbitrary: gs)
  case Nil
  then show ?case by (cases gs) (auto simp: fp_framing_def)
next
  case (Cons f fs)
  have "fp_framing (f # fs) \<noteq> []" by (simp add: fp_framing_def)
  then have "gs \<noteq> []" using Cons.prems(3) by (auto simp: fp_framing_def)
  then obtain g gs' where g: "gs = g # gs'" by (cases gs) auto
  have eq: "PutUint64 (word_of_nat (length f)) @ f @ fp_framing fs =
      PutUint64 (word_of_nat (length g)) @ g @ fp_framing gs'"
    using Cons.prems(3) by (simp add: g fp_framing_def)
  then have "(word_of_nat (length f) :: u64) = word_of_nat (length g)" by (auto simp: append_eq_append_conv)
  then have "unat (word_of_nat (length f) :: u64) = unat (word_of_nat (length g) :: u64)" by simp
  then have "length f = length g" using Cons.prems(1,2) g by (simp add: unat_of_nat)
  with eq have "f = g" "fp_framing fs = fp_framing gs'" by simp_all
  then show ?case using Cons g by simp
qed

theorem fingerprint_framing_injective_witness:
  "fp_framing [''ab'', ''c''] \<noteq> fp_framing [''a'', ''bc'']"
proof
  assume "fp_framing [''ab'', ''c''] = fp_framing [''a'', ''bc'']"
  then have "[''ab'', ''c''] = [''a'', ''bc'']" by (rule fingerprint_framing_injective [rotated 2]) simp_all
  then show False by simp
qed

end
