(* ===== verification/IdemReplay.thy ===== *)
theory IdemReplay
  imports IdemOnce
begin

text \<open>
  What a restart does to the applied-key table.  The abstract table is the list of every
  record ever applied, in commit order; at time \<open>now\<close> it holds what remains after dropping
  the expired records at its front.  The concrete table of \<^verbatim>\<open>internal/idem/store.go\<close>, with its order slice, head, compaction and
  counters, refines it, and so does the table rebuilt by replaying the committed records through
  \<^verbatim>\<open>Recover\<close>: the records applied before a crash are all accepted again and every later lookup
  has the same answer.
\<close>

section \<open>The table as a queue of records\<close>

type_synonym applied_queue = "(idem_scope \<times> idem_record) list"

definition queue :: "idem_store \<Rightarrow> applied_queue" where
  "queue s = map (\<lambda>sc. (sc, the (map_of (st_records s) sc))) (live_scopes s)"

definition stale :: "time \<Rightarrow> int \<Rightarrow> idem_scope \<times> idem_record \<Rightarrow> bool" where
  "stale now w x \<longleftrightarrow> w < time_sub now (ir_committedAt (snd x))"

definition at_time :: "time \<Rightarrow> int \<Rightarrow> applied_queue \<Rightarrow> applied_queue" where
  "at_time now w q = dropWhile (stale now w) q"

lemma time_sub_mono: "t \<le> t' \<Longrightarrow> time_sub t c \<le> time_sub t' c"
  by (auto simp: time_sub_def maxDuration_def minDuration_def)

lemma stale_mono: "t \<le> t' \<Longrightarrow> stale t w x \<Longrightarrow> stale t' w x"
  unfolding stale_def using time_sub_mono order_less_le_trans by blast

lemma dropWhile_dropWhile: "(\<And>x. P x \<Longrightarrow> Q x) \<Longrightarrow> dropWhile Q (dropWhile P xs) = dropWhile Q xs"
  by (induction xs) auto

lemma dropWhile_snoc_drop: "(\<And>x. P x \<Longrightarrow> Q x) \<Longrightarrow> dropWhile Q (dropWhile P xs @ ys) = dropWhile Q (xs @ ys)"
  by (induction xs) auto

lemma at_time_later: "t \<le> t' \<Longrightarrow> at_time t' w (at_time t w q) = at_time t' w q"
  unfolding at_time_def by (rule dropWhile_dropWhile) (rule stale_mono)

lemma at_time_snoc: "t \<le> t' \<Longrightarrow> at_time t' w (at_time t w q @ xs) = at_time t' w (q @ xs)"
  unfolding at_time_def by (rule dropWhile_snoc_drop) (rule stale_mono)

lemma at_time_snoc_cong:
  assumes "at_time t w q = at_time t w q'" "t \<le> t'"
  shows "at_time t' w (q @ xs) = at_time t' w (q' @ xs)"
  using at_time_snoc [OF assms(2), of w q xs] at_time_snoc [OF assms(2), of w q' xs] assms(1) by simp

lemma length_at_time: "t \<le> t' \<Longrightarrow> length (at_time t' w q) \<le> length (at_time t w q)"
  by (subst at_time_later [symmetric]) (auto simp: at_time_def intro: length_dropWhile_le)

lemma set_at_time: "t \<le> t' \<Longrightarrow> set (at_time t' w q) \<subseteq> set (at_time t w q)"
  by (subst at_time_later [symmetric]) (auto simp: at_time_def dest: set_dropWhileD)

lemma queue_keys: "map fst (queue s) = live_scopes s"
  by (simp add: queue_def comp_def)

lemma length_queue: "idem_inv s \<Longrightarrow> length (queue s) = length (st_records s)"
  using table_ok_length [of "live_scopes s" s] by (simp add: idem_inv_def queue_def)

lemma queue_records:
  assumes "idem_inv s"
  shows "map_of (queue s) sc = map_of (st_records s) sc"
proof -
  have "sc \<in> set (live_scopes s) \<longleftrightarrow> map_of (st_records s) sc \<noteq> None"
    using assms by (auto simp: idem_inv_def table_ok_def map_of_eq_None_iff)
  then show ?thesis by (auto simp: queue_def map_of_map_restrict restrict_map_def)
qed

section \<open>The sweep drops exactly the stale front\<close>

lemma expire_loop_exact:
  assumes "table_ok live s" "st_order s = o0" "st_head s \<le> length o0" "drop (st_head s) o0 = live"
  shows "queue (expire_loop now live s) = at_time now (st_window s) (queue s)"
  using assms
proof (induction live arbitrary: s)
  case Nil
  then show ?case by (simp add: queue_def at_time_def)
next
  case (Cons sc live)
  then have "sc \<in> fst ` set (st_records s)" by (auto simp: table_ok_def)
  then obtain r where r: "map_of (st_records s) sc = Some r" by (metis map_of_eq_None_iff not_Some_eq)
  have new: "sc \<notin> set live" using Cons.prems(1) by (simp add: table_ok_def)
  have q: "queue s = (sc, r) # map (\<lambda>k. (k, the (map_of (st_records s) k))) live"
    using Cons.prems(2,4) r by (simp add: queue_def)
  show ?case
  proof (cases "time_sub now (ir_committedAt r) \<le> st_window s")
    case True
    then show ?thesis using r q by (simp add: at_time_def stale_def)
  next
    case False
    have d: "drop (st_head (evict sc s)) o0 = live" "st_head (evict sc s) \<le> length o0"
      using Cons.prems(3,4) by (simp_all add: drop_Suc drop_tl)
        (metis Suc_leI drop_eq_Nil2 list.distinct(1) not_le)
    have "queue (evict sc s) = map (\<lambda>k. (k, the (map_of (st_records s) k))) live"
      using d(1) Cons.prems(2) new by (auto simp: queue_def delete_conv)
    then have "at_time now (st_window s) (queue s) = at_time now (st_window s) (queue (evict sc s))"
      using False q by (simp add: at_time_def stale_def)
    moreover have "queue (expire_loop now live (evict sc s)) = at_time now (st_window s) (queue (evict sc s))"
      using Cons.IH [OF evict_table_ok [OF Cons.prems(1)]] d Cons.prems(2) by simp
    ultimately show ?thesis using r False by simp
  qed
qed

lemma queue_expire:
  assumes "idem_inv s"
  shows "queue (expireLocked now s) = at_time now (st_window s) (queue s)"
proof -
  define e where "e = expire_loop now (live_scopes s) s"
  have t: "table_ok (live_scopes s) s" "st_head s \<le> length (st_order s)" using assms by (simp_all add: idem_inv_def)
  have qe: "queue e = at_time now (st_window s) (queue s)"
    unfolding e_def by (rule expire_loop_exact [OF t(1) refl t(2) refl])
  obtain k where k: "swept now s (live_scopes s) k e"
    using expire_loop_swept t(1) unfolding e_def by blast
  then have h: "st_head s \<le> st_head e" "st_head e \<le> length (st_order e)" using t(2) by (auto simp: swept_def)
  define z where "z = e\<lparr>st_order := zero_slots (st_head s) (st_head e) (st_order e)\<rparr>"
  have z: "live_scopes z = live_scopes e" "st_head z \<le> length (st_order z)"
    using h by (simp_all add: z_def drop_zero_slots length_zero_slots)
  have "expireLocked now s = e \<or> expireLocked now s = compactOrder z"
    by (simp add: expireLocked_def Let_def z_def flip: e_def)
  then have "queue (expireLocked now s) = queue e"
    using compactOrder_live(1) [OF z(2)] z(1) by (auto simp: queue_def z_def)
  then show ?thesis using qe by simp
qed

lemma queue_insert:
  assumes i: "idem_inv s" and r: "record_Scope r = Inr sc"
    and new: "map_of (st_records (expireLocked now s)) sc = None" and ok: "remember now s r enf = (Inr (), s')"
  shows "queue s' = at_time now (st_window s) (queue s) @ [(sc, r)]"
  using ok
proof (cases rule: remember_cases)
  case (inserted k b)
  let ?e = "expireLocked now s"
  have k: "k = sc" using inserted(1) r by simp
  have e: "idem_inv ?e" using expireLocked_props(1) [OF i] .
  have "sc \<notin> set (live_scopes ?e)" using e new by (auto simp: idem_inv_def table_ok_def map_of_eq_None_iff)
  moreover have "live_scopes s' = live_scopes ?e @ [sc]" using e inserted(8,11) k by (simp add: idem_inv_def)
  ultimately have "queue s' = queue ?e @ [(sc, r)]"
    using inserted(7) k by (auto simp: queue_def update_conv)
  then show ?thesis using queue_expire [OF i] by simp
next
  case (found k)
  then show ?thesis using r new by simp
qed auto

section \<open>Histories and their replay\<close>

text \<open>
  A commit is a record and the clock reading of its insertion.  \<open>admissible\<close>: each commit
  was acceptable to the table that held what the earlier ones left at that time.
\<close>

type_synonym commits = "(time \<times> idem_scope \<times> idem_record) list"

definition applied_all :: "commits \<Rightarrow> applied_queue" where
  "applied_all cs = map snd cs"

definition acceptable :: "idem_store \<Rightarrow> applied_queue \<Rightarrow> idem_scope \<times> idem_record \<Rightarrow> bool" where
  "acceptable s0 q x \<longleftrightarrow> record_Scope (snd x) = Inr (fst x) \<and> record_validate (snd x) = Inr () \<and>
     is_ok (bucket s0 (fst x)) \<and> fst x \<notin> fst ` set q \<and> int (length q) < st_maxEntries s0"

fun admissible :: "idem_store \<Rightarrow> commits \<Rightarrow> commits \<Rightarrow> bool" where
  "admissible s0 old [] \<longleftrightarrow> True"
| "admissible s0 old ((t, x) # cs) \<longleftrightarrow>
     acceptable s0 (at_time t (st_window s0) (applied_all old)) x \<and> admissible s0 (old @ [(t, x)]) cs"

lemma admissible_append:
  "admissible s0 old (cs @ ds) \<longleftrightarrow> admissible s0 old cs \<and> admissible s0 (old @ cs) ds"
  by (induction s0 old cs rule: admissible.induct) auto

text \<open>The relation between a table and the commits behind it, at the latest clock reading.\<close>

definition mirrors :: "idem_store \<Rightarrow> idem_store \<Rightarrow> time \<Rightarrow> commits \<Rightarrow> bool" where
  "mirrors s0 s t cs \<longleftrightarrow> idem_inv s \<and> st_window s = st_window s0 \<and> st_maxEntries s = st_maxEntries s0 \<and>
     st_localBusID s = st_localBusID s0 \<and>
     at_time t (st_window s0) (queue s) = at_time t (st_window s0) (applied_all cs)"

lemma mirrors_later:
  assumes "mirrors s0 s t cs" "t \<le> t'"
  shows "mirrors s0 s t' cs"
  using assms at_time_later [OF assms(2)] unfolding mirrors_def by metis

lemma mirrors_expire:
  assumes "mirrors s0 s t cs" "t \<le> t'"
  shows "mirrors s0 (expireLocked t' s) t' cs" "queue (expireLocked t' s) = at_time t' (st_window s0) (applied_all cs)"
proof -
  have m: "mirrors s0 s t' cs" using mirrors_later [OF assms] .
  then have i: "idem_inv s" "st_window s = st_window s0" by (simp_all add: mirrors_def)
  then show q: "queue (expireLocked t' s) = at_time t' (st_window s0) (applied_all cs)"
    using queue_expire [OF i(1), of t'] m by (simp add: mirrors_def)
  show "mirrors s0 (expireLocked t' s) t' cs"
    using m expireLocked_props(1-4) [OF i(1), where now = t'] q at_time_later [of t' t']
    unfolding mirrors_def by simp
qed

lemma bucket_cong: "st_localBusID s = st_localBusID s' \<Longrightarrow> bucket s sc = bucket s' sc"
  by (simp add: bucket_def)

lemma mirrors_lookup:
  assumes "mirrors s0 s t cs" "t \<le> t'"
  shows "map_of (st_records (expireLocked t' s)) sc = map_of (at_time t' (st_window s0) (applied_all cs)) sc"
proof -
  have "idem_inv (expireLocked t' s)" using mirrors_expire(1) [OF assms] by (simp add: mirrors_def)
  then show ?thesis using queue_records [of "expireLocked t' s" sc] mirrors_expire(2) [OF assms] by simp
qed

text \<open>A record the live table takes in is acceptable, and the table afterwards mirrors one commit more.\<close>

lemma mirrors_insert:
  assumes m: "mirrors s0 s t cs" and t: "t \<le> t'" and sc: "record_Scope r = Inr sc"
    and new: "map_of (st_records (expireLocked t' s)) sc = None" and ok: "remember t' s r enf = (Inr (), s')"
  shows "mirrors s0 s' t' (cs @ [(t', sc, r)])" "acceptable s0 (at_time t' (st_window s0) (applied_all cs)) (sc, r)"
proof -
  have i: "idem_inv s" "st_window s = st_window s0" "st_maxEntries s = st_maxEntries s0" "st_localBusID s = st_localBusID s0"
    using m by (simp_all add: mirrors_def)
  have mt: "at_time t' (st_window s0) (queue s) = at_time t' (st_window s0) (applied_all cs)"
    using mirrors_later [OF m t] by (simp add: mirrors_def)
  let ?e = "expireLocked t' s"
  have "record_validate r = Inr ()" "is_ok (bucket s sc)" "int (length (st_records ?e)) < st_maxEntries ?e"
    using ok sc new by (auto simp: remember_def Let_def split: sum.splits if_splits)
  moreover have "length (st_records ?e) = length (at_time t' (st_window s0) (applied_all cs))"
    using length_queue [of ?e] mirrors_expire [OF m t] by (simp add: mirrors_def)
  moreover have "sc \<notin> fst ` set (at_time t' (st_window s0) (applied_all cs))"
    using new mirrors_lookup [OF m t, of sc] by (simp add: map_of_eq_None_iff)
  ultimately show "acceptable s0 (at_time t' (st_window s0) (applied_all cs)) (sc, r)"
    using sc i expireLocked_props(3) [OF i(1), where now = t'] bucket_cong [OF i(4)] by (simp add: acceptable_def)
  have "queue s' = at_time t' (st_window s0) (applied_all cs) @ [(sc, r)]"
    using queue_insert [OF i(1) sc new ok] mt i(2) by simp
  then have "at_time t' (st_window s0) (queue s') = at_time t' (st_window s0) (applied_all (cs @ [(t', sc, r)]))"
    using at_time_snoc [of t' t'] by (simp add: applied_all_def)
  then show "mirrors s0 s' t' (cs @ [(t', sc, r)])"
    using remember_props(1-4) [OF i(1) ok] i unfolding mirrors_def by simp
qed

text \<open>What was acceptable then is accepted now: \<^verbatim>\<open>Recover\<close> at any later time inserts it.\<close>

lemma recover_acceptable:
  assumes m: "mirrors s0 s t cs" and t: "t \<le> t'"
    and a: "acceptable s0 (at_time u (st_window s0) (applied_all cs)) (sc, r)" "u \<le> t'"
  shows "\<exists>s'. Recover t' s r = (Inr (), s') \<and> mirrors s0 s' t' (cs @ [(u, sc, r)])"
proof -
  let ?e = "expireLocked t' s" and ?w = "st_window s0"
  have x: "record_Scope r = Inr sc" "record_validate r = Inr ()" "is_ok (bucket s0 sc)"
    "sc \<notin> fst ` set (at_time u ?w (applied_all cs))" "int (length (at_time u ?w (applied_all cs))) < st_maxEntries s0"
    using a(1) by (simp_all add: acceptable_def)
  have e: "mirrors s0 ?e t' cs" "queue ?e = at_time t' ?w (applied_all cs)" using mirrors_expire [OF m t] by simp_all
  have "sc \<notin> fst ` set (at_time t' ?w (applied_all cs))" using x(4) set_at_time [OF a(2)] by blast
  then have new: "map_of (st_records ?e) sc = None" using mirrors_lookup [OF m t] by (simp add: map_of_eq_None_iff)
  have "length (st_records ?e) \<le> length (at_time u ?w (applied_all cs))"
    using length_queue [of ?e] e length_at_time [OF a(2), of ?w "applied_all cs"] by (simp add: mirrors_def)
  then have room: "\<not> st_maxEntries ?e \<le> int (length (st_records ?e))" using x(5) e(1) by (simp add: mirrors_def)
  have "bucket s sc = bucket s0 sc" using m by (intro bucket_cong) (simp add: mirrors_def)
  then obtain s' where s': "remember t' s r False = (Inr (), s')"
    using x(1-3) new room by (auto simp: remember_def Let_def is_ok_iff)
  have "mirrors s0 s' t' (cs @ [(t', sc, r)])" by (rule mirrors_insert(1) [OF m t x(1) new s'])
  then show ?thesis using s' by (auto simp: Recover_def mirrors_def applied_all_def)
qed

fun recover_all :: "idem_store \<Rightarrow> (time \<times> idem_record) list \<Rightarrow> (idem_error + unit) list \<times> idem_store" where
  "recover_all s [] = ([], s)"
| "recover_all s ((t, r) # rs) =
     (case Recover t s r of (q, s1) \<Rightarrow> (case recover_all s1 rs of (qs, s2) \<Rightarrow> (q # qs, s2)))"

lemma recover_all_mirrors:
  assumes "mirrors s0 s t old" "admissible s0 old cs" "list_all (\<lambda>c. fst c \<le> t) cs"
    "length clks = length cs" "sorted (t # clks)"
  shows "\<exists>qs s'. recover_all s (zip clks (map (\<lambda>c. snd (snd c)) cs)) = (qs, s') \<and> list_all (\<lambda>q. q = Inr ()) qs \<and>
    mirrors s0 s' (last (t # clks)) (old @ cs)"
  using assms
proof (induction cs arbitrary: s t old clks)
  case Nil
  then show ?case by simp
next
  case (Cons c cs)
  obtain u sc r where c: "c = (u, sc, r)" by (cases c)
  obtain t' ts where k: "clks = t' # ts" using Cons.prems(4) by (cases clks) auto
  have t: "t \<le> t'" "u \<le> t'" using Cons.prems(3,5) by (auto simp: c k)
  obtain s1 where s1: "Recover t' s r = (Inr (), s1)" "mirrors s0 s1 t' (old @ [(u, sc, r)])"
    using recover_acceptable [OF Cons.prems(1) t(1) _ t(2)] Cons.prems(2) by (auto simp: c)
  have "\<exists>qs s'. recover_all s1 (zip ts (map (\<lambda>c. snd (snd c)) cs)) = (qs, s') \<and> list_all (\<lambda>q. q = Inr ()) qs \<and>
      mirrors s0 s' (last (t' # ts)) ((old @ [(u, sc, r)]) @ cs)"
  proof (rule Cons.IH [OF s1(2)])
    show "list_all (\<lambda>c. fst c \<le> t') cs" using Cons.prems(3) t(1) by (auto simp: list_all_iff)
  qed (use Cons.prems k c in auto)
  then show ?case using s1(1) by (auto simp: k c)
qed

text \<open>
  The histories of a table over restarts: sweeps, lookups, admissions, refused and repeated
  inserts, inserts of new records, and restarts that replay every record committed so far into a fresh
  table.  Clock readings do not go backwards.
\<close>

fun inserting :: "idem_op \<Rightarrow> bool" where
  "inserting (IRemember r) \<longleftrightarrow> True"
| "inserting (IRecover r) \<longleftrightarrow> True"
| "inserting _ \<longleftrightarrow> False"

inductive table_history :: "idem_store \<Rightarrow> idem_store \<Rightarrow> time \<Rightarrow> commits \<Rightarrow> bool" for s0 where
  start: "table_history s0 s0 t []"
| asked: "\<lbrakk>table_history s0 s t cs; t \<le> t'; \<not> inserting x\<rbrakk> \<Longrightarrow> table_history s0 (snd (idem_step s (t', x))) t' cs"
| applied: "\<lbrakk>table_history s0 s t cs; t \<le> t'; record_Scope r = Inr sc;
     map_of (st_records (expireLocked t' s)) sc = None; remember t' s r enf = (Inr (), s')\<rbrakk> \<Longrightarrow>
     table_history s0 s' t' (cs @ [(t', sc, r)])"
| repeated: "\<lbrakk>table_history s0 s t cs; t \<le> t'; record_Scope r = Inr sc;
     map_of (st_records (expireLocked t' s)) sc \<noteq> None; remember t' s r enf = (Inr (), s')\<rbrakk> \<Longrightarrow>
     table_history s0 s' t' cs"
| refused: "\<lbrakk>table_history s0 s t cs; t \<le> t'; remember t' s r enf = (Inl e, s')\<rbrakk> \<Longrightarrow> table_history s0 s' t' cs"
| restarted: "\<lbrakk>table_history s0 s t cs; length clks = length cs; sorted (t # clks);
     recover_all s0 (zip clks (map (\<lambda>c. snd (snd c)) cs)) = (qs, s')\<rbrakk> \<Longrightarrow>
     table_history s0 s' (last (t # clks)) cs"

definition fresh_table :: "idem_store \<Rightarrow> bool" where
  "fresh_table s0 \<longleftrightarrow> idem_inv s0 \<and> st_records s0 = []"

lemma fresh_mirrors: "fresh_table s0 \<Longrightarrow> mirrors s0 s0 t []"
  using length_queue [of s0] by (simp add: fresh_table_def mirrors_def applied_all_def)

lemma asked_state: "\<not> inserting x \<Longrightarrow> snd (idem_step s (t, x)) = s \<or> snd (idem_step s (t, x)) = expireLocked t s"
proof (cases x)
  case (ILookup sc fp)
  then show ?thesis using Lookup_state [of t s sc fp] by (auto split: prod.splits)
qed (auto simp: Admit_def Expire_def Stats_def Let_def split: sum.splits)

lemma history_mirrors:
  assumes "fresh_table s0" "table_history s0 s t cs"
  shows "mirrors s0 s t cs \<and> admissible s0 [] cs \<and> list_all (\<lambda>c. fst c \<le> t) cs"
  using assms(2)
proof induction
  case (start t)
  then show ?case using fresh_mirrors [OF assms(1)] by simp
next
  case (asked s t cs t' x)
  then show ?case
    using asked_state [OF asked(3), of s t'] mirrors_later [of s0 s t cs t'] mirrors_expire(1) [of s0 s t cs t']
    by (fastforce simp: list_all_iff)
next
  case (applied s t cs t' r sc enf s')
  then have "mirrors s0 s t cs" by simp
  note I = mirrors_insert [OF this applied(2-5)]
  then show ?case using applied by (auto simp: admissible_append list_all_iff)
next
  case (repeated s t cs t' r sc enf s')
  have "s' = expireLocked t' s" using repeated(3-5) by (auto simp: remember_def Let_def split: sum.splits if_splits)
  then show ?case using repeated mirrors_expire(1) [of s0 s t cs t'] by (fastforce simp: list_all_iff)
next
  case (refused s t cs t' r enf e s')
  from refused(3) have "s' = s \<or> s' = expireLocked t' s" by (cases rule: remember_cases) auto
  then show ?case
    using refused mirrors_later [of s0 s t cs t'] mirrors_expire(1) [of s0 s t cs t'] by (fastforce simp: list_all_iff)
next
  case (restarted s t cs clks qs s')
  have "t \<le> last (t # clks)" using restarted(3) by (cases "clks = []") simp_all
  moreover have "mirrors s0 s' (last (t # clks)) ([] @ cs)"
    using recover_all_mirrors [OF fresh_mirrors [OF assms(1), of t], of cs clks] restarted by auto
  ultimately show ?case using restarted(5) by (auto simp: list_all_iff)
qed

text \<open>
  C8. A restart forgets no applied key and brings none back.  Whatever has happened to the
  table (lookups, sweeps, refused, repeated and applied records, earlier restarts), replaying
  every record committed so far into a fresh table accepts each one of them, whatever the cap, and the
  rebuilt table gives the same answer to every later lookup as the table that never went down: the
  answer of the plain list of all the records ever committed, without the expired ones at its front.
\<close>

theorem replay_restores_applied_keys:
  assumes "fresh_table s0" "table_history s0 s t cs" "length clks = length cs" "sorted (t # clks @ [now])"
    and "recover_all s0 (zip clks (map (\<lambda>c. snd (snd c)) cs)) = (qs, s')"
  shows "list_all (\<lambda>q. q = Inr ()) qs \<and>
    fst (Lookup now s' sc fp) = fst (Lookup now s sc fp) \<and>
    fst (fst (Lookup now s sc fp)) = map_of (dropWhile (stale now (st_window s0)) (map snd cs)) sc"
proof -
  note H = history_mirrors [OF assms(1,2)]
  have so: "sorted (t # clks)" "last (t # clks) \<le> now" "t \<le> now" using assms(4) by (auto simp: sorted_append)
  obtain qs' s'' where r: "recover_all s0 (zip clks (map (\<lambda>c. snd (snd c)) cs)) = (qs', s'')"
    "list_all (\<lambda>q. q = Inr ()) qs'" "mirrors s0 s'' (last (t # clks)) ([] @ cs)"
    using recover_all_mirrors [OF fresh_mirrors [OF assms(1)] _ _ assms(3) so(1)] H by blast
  then have s': "s'' = s'" "qs' = qs" using assms(5) by simp_all
  have m: "mirrors s0 s t cs" "mirrors s0 s' (last (t # clks)) cs" using H r(3) s' by simp_all
  have "map_of (st_records (expireLocked now s')) sc = map_of (st_records (expireLocked now s)) sc"
    "map_of (st_records (expireLocked now s)) sc = map_of (dropWhile (stale now (st_window s0)) (map snd cs)) sc"
    using mirrors_lookup [OF m(1) so(3), of sc] mirrors_lookup [OF m(2) so(2), of sc]
    by (simp_all add: at_time_def applied_all_def)
  then show ?thesis using r(2) s'(2) by (auto simp: Lookup_def Let_def split: option.splits)
qed

theorem replay_restores_applied_keys_witness:
  "\<exists>qs s'. recover_all (NewStore 100 8) [(20, demo_idem 5)] = (qs, s') \<and> qs = [Inr ()] \<and>
     fst (fst (Lookup 50 s' \<lparr>sc_agent = ''b.a-1'', sc_op = OpSend, sc_key = ''k1'', sc_enrolBusWide = False\<rparr> [])) = Some (demo_idem 5)"
proof -
  let ?s0 = "NewStore 100 8"
  let ?sc = "\<lparr>sc_agent = ''b.a-1'', sc_op = OpSend, sc_key = ''k1'', sc_enrolBusWide = False\<rparr>"
  obtain qs s' where r: "recover_all ?s0 [(20, demo_idem 5)] = (qs, s')" by fastforce
  have f: "fresh_table ?s0" using NewStore_inv by (simp add: fresh_table_def) (simp add: NewStore_def)
  have sc: "record_Scope (demo_idem 5) = Inr ?sc"
    by (simp add: demo_idem_def record_Scope_def NewAgentScope_def ValidateKey_def MaxKeyLen_def key_char_def
        is_lower_def is_digit_def OpSend_def OpEnrol_def op_valid_def)
  have new: "map_of (st_records (expireLocked 5 ?s0)) ?sc = None"
    by (simp add: NewStore_def expireLocked_def Let_def)
  have ok: "remember 5 ?s0 (demo_idem 5) False = (Inr (), demo_store)"
    using recover_accepts_remembered_witness by (simp add: Recover_def)
  have h: "table_history ?s0 demo_store 5 [(5, ?sc, demo_idem 5)]"
    using table_history.applied [OF table_history.start [of ?s0 5] _ sc new ok] by simp
  have z: "recover_all ?s0 (zip [20] (map (\<lambda>c. snd (snd c)) [(5, ?sc, demo_idem 5)])) = (qs, s')" using r by simp
  from replay_restores_applied_keys [OF f h _ _ z, of 50 ?sc "[]"]
  have "list_all (\<lambda>q. q = Inr ()) qs" "fst (fst (Lookup 50 s' ?sc [])) = Some (demo_idem 5)"
    by (auto simp: stale_def time_sub_def demo_idem_def NewStore_def maxDuration_def minDuration_def)
  moreover have "length qs = 1" using r by (auto split: prod.splits)
  ultimately show ?thesis using r by (cases qs) auto
qed

end
