(* ===== verification/SeqFloor.thy ===== *)
theory SeqFloor
  imports SuffixStore
begin

text \<open>
  The durable floor under message sequence numbers (\<^verbatim>\<open>internal/hub/seqfloorfile.go\<close>): a small
  checksummed file, replaced atomically, that holds a number below which no sequence will be
  issued again.  The file is a list of the contents a crash may leave; reading a file takes one
  of them, \<^const>\<open>None\<close> being no file.  Errors of the operating system other than those of the
  replacement are outside the model.
\<close>

datatype seq_floor_error = ErrSeqFloorFileCorrupt | SeqFloorLowered | SeqFloorWriteFailed

definition seqFloorFileMagic :: string where "seqFloorFileMagic = ''agent-bus-message-seq-floor''"
definition maxSeqFloorFileSize :: nat where "maxSeqFloorFileSize = 4 * 1024"
definition seqFloorFileVersion :: nat where "seqFloorFileVersion = 5"
definition maxPlausibleSeqFloor :: u64 where "maxPlausibleSeqFloor = 2 ^ 56"

record seq_floor_file =
  sf_floor :: u64
  sf_existed :: bool
  sf_disk :: "bytes option list"

definition seq_floor_body :: "u64 \<Rightarrow> bytes" where
  "seq_floor_body floor = ''floor '' @ FormatUint floor @ [NL]"

definition encodeSeqFloor :: "u64 \<Rightarrow> bytes" where
  "encodeSeqFloor floor =
     (let body = seq_floor_body floor in
      seqFloorFileMagic @ '' v'' @ show_nat seqFloorFileVersion @ '' sha256='' @ hex_encode (sha256 body) @ [NL] @ body)"

definition parseSeqFloorLine :: "string \<Rightarrow> seq_floor_error + u64" where
  "parseSeqFloorLine line =
     (if \<not> has_prefix line ''floor '' then Inl ErrSeqFloorFileCorrupt
      else let num = drop 6 line in
      if num = [] then Inl ErrSeqFloorFileCorrupt
      else if \<not> list_all is_digit num then Inl ErrSeqFloorFileCorrupt
      else if 1 < length num \<and> hd num = CHR ''0'' then Inl ErrSeqFloorFileCorrupt
      else bindR (wrapErr (\<lambda>_. ErrSeqFloorFileCorrupt) (ParseUint num)) (\<lambda>n.
      if maxPlausibleSeqFloor < n then Inl ErrSeqFloorFileCorrupt else Inr n))"

definition readSeqFloorFile :: "bytes option \<Rightarrow> seq_floor_error + (u64 \<times> bool)" where
  "readSeqFloorFile file =
     (case file of
        None \<Rightarrow> Inr (0, False)
      | Some data \<Rightarrow>
        if maxSeqFloorFileSize < length data then Inl ErrSeqFloorFileCorrupt
        else bindR (orErr (index_of NL data) ErrSeqFloorFileCorrupt) (\<lambda>nl.
        let header = take nl data; body = drop (nl + 1) data; fields = split_on SP header in
        if length fields \<noteq> 3 \<or> fields ! 0 \<noteq> seqFloorFileMagic then Inl ErrSeqFloorFileCorrupt
        else if fields ! 1 \<noteq> ''v'' @ show_nat seqFloorFileVersion then Inl ErrSeqFloorFileCorrupt
        else if \<not> has_prefix (fields ! 2) ''sha256='' then Inl ErrSeqFloorFileCorrupt
        else bindR (orErr (hex_decode (drop 7 (fields ! 2))) ErrSeqFloorFileCorrupt) (\<lambda>want.
        if length want \<noteq> 32 then Inl ErrSeqFloorFileCorrupt
        else if sha256 body \<noteq> want then Inl ErrSeqFloorFileCorrupt
        else let lines = split_on NL (trim_suffix body [NL]) in
        if length lines \<noteq> 1 then Inl ErrSeqFloorFileCorrupt
        else bindR (parseSeqFloorLine (lines ! 0)) (\<lambda>floor. Inr (floor, True)))))"

definition openSeqFloorFile :: "bytes option \<Rightarrow> seq_floor_error + seq_floor_file" where
  "openSeqFloorFile file =
     bindR (readSeqFloorFile file) (\<lambda>(floor, existed).
     Inr \<lparr>sf_floor = floor, sf_existed = existed, sf_disk = [file]\<rparr>)"

definition atomicReplaceSeqFloor ::
  "write_outcome \<Rightarrow> bytes option list \<Rightarrow> bytes \<Rightarrow> bool \<times> bytes option list" where
  "atomicReplaceSeqFloor io disk data =
     (case io of
        WriteOk \<Rightarrow> (True, [Some data])
      | WriteFailedBeforeRename \<Rightarrow> (False, disk)
      | WriteFailedAfterRename \<Rightarrow> (False, Some data # disk))"

definition sf_persistLocked :: "write_outcome \<Rightarrow> u64 \<Rightarrow> seq_floor_file \<Rightarrow> (seq_floor_error + unit) \<times> seq_floor_file" where
  "sf_persistLocked io floor f =
     (if floor < sf_floor f then (Inl SeqFloorLowered, f)
      else case atomicReplaceSeqFloor io (sf_disk f) (encodeSeqFloor floor) of
        (ok, disk) \<Rightarrow>
          if \<not> ok then (Inl SeqFloorWriteFailed, f\<lparr>sf_disk := disk\<rparr>)
          else (Inr (), f\<lparr>sf_disk := disk, sf_floor := floor, sf_existed := True\<rparr>))"

definition burned :: "seq_floor_file \<Rightarrow> u64" where "burned f = sf_floor f"

definition sf_raise :: "write_outcome \<Rightarrow> u64 \<Rightarrow> seq_floor_file \<Rightarrow> (seq_floor_error + unit) \<times> seq_floor_file" where
  "sf_raise io n f = (if n \<le> sf_floor f then (Inr (), f) else sf_persistLocked io n f)"

definition ensureExists :: "write_outcome \<Rightarrow> seq_floor_file \<Rightarrow> (seq_floor_error + unit) \<times> seq_floor_file" where
  "ensureExists io f = (if sf_existed f then (Inr (), f) else sf_persistLocked io (sf_floor f) f)"

interpretation floor_file: atomic_file atomicReplaceSeqFloor
  by unfold_locales (auto simp: atomicReplaceSeqFloor_def split: write_outcome.splits)


section \<open>The file reads back\<close>

lemma seqFloorVersion: "show_nat seqFloorFileVersion = ''5''"
  by (subst show_nat.simps) (simp add: seqFloorFileVersion_def)

lemma parse_seq_floor_line:
  "parseSeqFloorLine (''floor '' @ FormatUint n) =
     (if maxPlausibleSeqFloor < n then Inl ErrSeqFloorFileCorrupt else Inr n)"
proof -
  have z: "\<not> (1 < length (FormatUint n) \<and> hd (FormatUint n) = CHR ''0'')"
  proof (cases "n = 0")
    case True
    then show ?thesis by (simp add: FormatUint_def show_nat.simps)
  qed (use FormatUint_hd_zero in blast)
  then show ?thesis
    using FormatUint_digits [of n] by (auto simp: parseSeqFloorLine_def has_prefix_def Let_def)
qed

lemma read_encodeSeqFloor:
  "readSeqFloorFile (Some (encodeSeqFloor n)) =
     (if maxPlausibleSeqFloor < n then Inl ErrSeqFloorFileCorrupt else Inr (n, True))"
proof -
  let ?b = "seq_floor_body n"
  let ?h = "''sha256='' @ hex_encode (sha256 ?b)"
  let ?hdr = "seqFloorFileMagic @ SP # ''v5'' @ SP # ?h"
  have e: "encodeSeqFloor n = ?hdr @ NL # ?b"
    by (simp add: encodeSeqFloor_def seqFloorVersion SP_def Let_def)
  have nn: "NL \<notin> set (FormatUint n)" by (rule FormatUint_no_char) simp
  have "SP \<notin> set seqFloorFileMagic" "SP \<notin> set ''v5''" "SP \<notin> set ?h"
    using hex_encode_no_space by (auto simp: seqFloorFileMagic_def SP_def)
  then have sp: "split_on SP ?hdr = [seqFloorFileMagic, ''v5'', ?h]"
    by (simp only: split_on_append split_on_single not_False_eq_True)
  have nl: "NL \<notin> set ?hdr"
    using hex_encode_no_newline by (auto simp: seqFloorFileMagic_def NL_def SP_def)
  have ix: "index_of NL (encodeSeqFloor n) = Some (length ?hdr)"
    unfolding e by (rule index_of_append [OF nl])
  have tk: "take (length ?hdr) (encodeSeqFloor n) = ?hdr" "drop (length ?hdr + 1) (encodeSeqFloor n) = ?b"
    unfolding e by simp_all
  have len: "length (encodeSeqFloor n) \<le> maxSeqFloorFileSize"
    using length_FormatUint [of n]
    by (simp add: e seqFloorFileMagic_def seq_floor_body_def maxSeqFloorFileSize_def)
  have nlb: "NL \<notin> set (''floor '' @ FormatUint n)" using nn by (simp add: NL_def)
  have body: "split_on NL (trim_suffix ?b [NL]) = [''floor '' @ FormatUint n]"
    using trim_suffix_append [of "''floor '' @ FormatUint n" "[NL]"] split_on_single [OF nlb]
    by (simp add: seq_floor_body_def)
  have hp: "has_prefix ?h ''sha256=''" "drop 7 ?h = hex_encode (sha256 ?b)"
    by (simp_all add: has_prefix_def)
  show ?thesis
    unfolding readSeqFloorFile_def option.case orErr_def ix bindR_simps Let_def tk sp
    using len hp parse_seq_floor_line [of n] by (simp add: seqFloorVersion body del: trim_suffix_append)
qed

text \<open>Whatever a content reads as, it is at or above \<open>n\<close>.\<close>

definition seq_covers :: "u64 \<Rightarrow> bytes option \<Rightarrow> bool" where
  "seq_covers n file \<longleftrightarrow> (\<forall>m e. readSeqFloorFile file = Inr (m, e) \<longrightarrow> n \<le> m)"

lemma seq_covers_encode: "n \<le> m \<Longrightarrow> seq_covers n (Some (encodeSeqFloor m))"
  by (auto simp: seq_covers_def read_encodeSeqFloor)

lemma seq_covers_mono: "seq_covers n f \<Longrightarrow> m \<le> n \<Longrightarrow> seq_covers m f"
  by (auto simp: seq_covers_def intro: order_trans)

definition sf_inv :: "seq_floor_file \<Rightarrow> bool" where
  "sf_inv f \<longleftrightarrow> (\<forall>d\<in>set (sf_disk f). seq_covers (sf_floor f) d) \<and> sf_disk f \<noteq> []"

lemma sf_persist_spec:
  assumes "sf_inv f" "sf_persistLocked io n f = (r, f')"
  shows "sf_inv f' \<and> sf_floor f \<le> sf_floor f' \<and> (r = Inr () \<longrightarrow> sf_floor f' = n)"
proof (cases "n < sf_floor f")
  case False
  let ?w = "atomicReplaceSeqFloor io (sf_disk f) (encodeSeqFloor n)"
  have all: "\<forall>d\<in>set (snd ?w). seq_covers (sf_floor f) d"
    by (rule floor_file.replace_all) (use assms(1) False in \<open>auto simp: sf_inv_def seq_covers_encode\<close>)
  have new: "fst ?w \<Longrightarrow> \<forall>d\<in>set (snd ?w). seq_covers n d"
    by (rule floor_file.replace_all_ok) (simp_all add: seq_covers_encode)
  have ne: "snd ?w \<noteq> []" by (rule floor_file.replace_ne) (use assms(1) in \<open>simp add: sf_inv_def\<close>)
  show ?thesis
    using assms(2) all new ne False
    by (cases ?w) (auto simp: sf_persistLocked_def sf_inv_def split: if_splits)
qed (use assms in \<open>auto simp: sf_persistLocked_def\<close>)

lemma sf_raise_spec:
  assumes "sf_inv f" "sf_raise io n f = (r, f')"
  shows "sf_inv f' \<and> sf_floor f \<le> sf_floor f' \<and> (r = Inr () \<longrightarrow> n \<le> sf_floor f')"
  using assms sf_persist_spec [OF assms(1), of io n r f'] by (auto simp: sf_raise_def split: if_splits)

lemma ensureExists_spec:
  assumes "sf_inv f" "ensureExists io f = (r, f')"
  shows "sf_inv f' \<and> sf_floor f \<le> sf_floor f'"
  using assms sf_persist_spec [OF assms(1), of io "sf_floor f" r f'] by (auto simp: ensureExists_def split: if_splits)

lemma openSeqFloorFile_spec:
  assumes "openSeqFloorFile d = Inr f"
  shows "sf_inv f \<and> (seq_covers n d \<longrightarrow> n \<le> sf_floor f) \<and> sf_disk f = [d]"
  using assms by (auto simp: openSeqFloorFile_def res sf_inv_def seq_covers_def)

end
