(* ===== verification/Signing.thy ===== *)
theory Signing
  imports Ids
begin

text \<open>
  Message and acknowledgement signatures (\<^verbatim>\<open>internal/signing\<close>): the canonical byte forms,
  their validation, and signing and verification over an Ed25519 implementation that is an
  argument (\<open>edSign\<close>, \<open>edVerify\<close>).

  An \<^verbatim>\<open>int64\<close> is a 64-bit word read with \<^const>\<open>sint\<close>.  A length prefix of a field longer
  than a \<^verbatim>\<open>uint32\<close> panics in the source; here that is the error \<open>SignPanic\<close>.
\<close>

section \<open>Length-prefixed encoding\<close>

datatype sign_error =
    ErrInvalid | ErrInvalidAck | ErrNoSignature | ErrSignatureLength | ErrPublicKeyLength
  | ErrPrivateKeyLength | ErrVerify | SignPanic

definition appendUint32 :: "bytes \<Rightarrow> u32 \<Rightarrow> bytes" where
  "appendUint32 dst v = dst @ PutUint32 v"

definition appendUint64 :: "bytes \<Rightarrow> u64 \<Rightarrow> bytes" where
  "appendUint64 dst v = dst @ PutUint64 v"

definition appendLenPrefixed :: "bytes \<Rightarrow> bytes \<Rightarrow> sign_error + bytes" where
  "appendLenPrefixed dst b =
     (if 2 ^ 32 - 1 < length b then Inl SignPanic
      else Inr (appendUint32 dst (word_of_nat (length b)) @ b))"

fun appendAll :: "bytes \<Rightarrow> bytes list \<Rightarrow> sign_error + bytes" where
  "appendAll dst [] = Inr dst"
| "appendAll dst (r # rs) = bindR (appendLenPrefixed dst r) (\<lambda>d. appendAll d rs)"

text \<open>The closed form of one length-prefixed field.\<close>

definition lp :: "bytes \<Rightarrow> bytes" where
  "lp b = PutUint32 (word_of_nat (length b)) @ b"

definition short :: "bytes \<Rightarrow> bool" where
  "short b \<longleftrightarrow> length b < 2 ^ 32"

lemma appendLenPrefixed_short [simp]: "short b \<Longrightarrow> appendLenPrefixed dst b = Inr (dst @ lp b)"
  by (auto simp: appendLenPrefixed_def appendUint32_def lp_def short_def)

lemma appendAll_short: "list_all short rs \<Longrightarrow> appendAll dst rs = Inr (dst @ concat (map lp rs))"
  by (induction rs arbitrary: dst) auto

lemma lp_append_inj: "short a \<Longrightarrow> short b \<Longrightarrow> lp a @ x = lp b @ y \<longleftrightarrow> a = b \<and> x = y"
proof -
  assume s: "short a" "short b"
  have "a = b \<and> x = y" if "lp a @ x = lp b @ y"
  proof -
    have "(word_of_nat (length a) :: u32) = word_of_nat (length b)" "a @ x = b @ y"
      using that by (auto simp: lp_def append_eq_append_conv)
    then have "unat (word_of_nat (length a) :: u32) = unat (word_of_nat (length b) :: u32)" by simp
    then have "length a = length b" using s by (simp add: short_def unat_of_nat)
    with \<open>a @ x = b @ y\<close> show ?thesis by simp
  qed
  then show ?thesis by auto
qed

lemma lp_inj: "short a \<Longrightarrow> short b \<Longrightarrow> lp a = lp b \<longleftrightarrow> a = b"
  using lp_append_inj [of a b "[]" "[]"] by simp

lemma put_append_inj [simp]:
  "PutUint64 a @ x = PutUint64 b @ y \<longleftrightarrow> a = b \<and> x = y"
  "PutUint32 c @ x = PutUint32 d @ y \<longleftrightarrow> c = d \<and> x = y"
  by (auto simp: append_eq_append_conv)

lemma lps_append_inj:
  "list_all short as \<Longrightarrow> list_all short bs \<Longrightarrow> length as = length bs \<Longrightarrow>
     concat (map lp as) @ x = concat (map lp bs) @ y \<longleftrightarrow> as = bs \<and> x = y"
proof (induction as arbitrary: bs)
  case (Cons a as)
  then obtain b bs' where "bs = b # bs'" by (cases bs) auto
  with Cons show ?case by (simp add: lp_append_inj)
qed simp

section \<open>Messages\<close>

definition Context :: string where "Context = ''agent-bus/msg-sig/1''"
definition MaxBodyLen :: nat where "MaxBodyLen = 1048576"
definition MaxRecipients :: nat where "MaxRecipients = 4096"

record message =
  m_messageID :: string
  m_sequence :: u64
  m_sender :: string
  m_recipients :: "string list"
  m_timestamp :: u64
  m_body :: bytes

fun adjacent_dup :: "string list \<Rightarrow> bool" where
  "adjacent_dup (a # b # rest) \<longleftrightarrow> a = b \<or> adjacent_dup (b # rest)"
| "adjacent_dup _ \<longleftrightarrow> False"

definition validate :: "message \<Rightarrow> sign_error + string list" where
  "validate m =
     bindR (wrapErr (\<lambda>_. ErrInvalid) (ParseMessageID (m_messageID m))) (\<lambda>(originBus, seqFromID).
     if m_sequence m = 0 then Inl ErrInvalid
     else if m_sequence m \<noteq> seqFromID then Inl ErrInvalid
     else bindR (wrapErr (\<lambda>_. ErrInvalid) (ParseAgentID (m_sender m))) (\<lambda>(senderBus, _, _).
     if senderBus \<noteq> originBus then Inl ErrInvalid
     else if m_recipients m = [] then Inl ErrInvalid
     else if MaxRecipients < length (m_recipients m) then Inl ErrInvalid
     else if \<not> list_all (\<lambda>r. is_ok (ParseAgentID r)) (m_recipients m) then Inl ErrInvalid
     else let recipients = sort (m_recipients m) in
     if adjacent_dup recipients then Inl ErrInvalid
     else if sint (m_timestamp m) \<le> 0 then Inl ErrInvalid
     else if MaxBodyLen < length (m_body m) then Inl ErrInvalid
     else Inr recipients))"

definition Canonicalize :: "message \<Rightarrow> sign_error + bytes" where
  "Canonicalize m =
     bindR (validate m) (\<lambda>recipients.
     bindR (appendLenPrefixed [] Context) (\<lambda>o1.
     bindR (appendLenPrefixed o1 (m_messageID m)) (\<lambda>o2.
     bindR (appendLenPrefixed (appendUint64 o2 (m_sequence m)) (m_sender m)) (\<lambda>o3.
     bindR (appendAll (appendUint32 o3 (word_of_nat (length recipients))) recipients) (\<lambda>o4.
     appendLenPrefixed (appendUint64 o4 (m_timestamp m)) (m_body m))))))"

definition SignatureSize :: nat where "SignatureSize = 64"
definition PublicKeySize :: nat where "PublicKeySize = 32"
definition PrivateKeySize :: nat where "PrivateKeySize = 64"

definition ValidateSignature :: "bytes \<Rightarrow> sign_error + unit" where
  "ValidateSignature sig =
     (if sig = [] then Inl ErrNoSignature
      else if length sig \<noteq> SignatureSize then Inl ErrSignatureLength
      else Inr ())"

definition ValidatePublicKey :: "bytes \<Rightarrow> sign_error + unit" where
  "ValidatePublicKey pub = (if length pub \<noteq> PublicKeySize then Inl ErrPublicKeyLength else Inr ())"

definition Sign :: "(bytes \<Rightarrow> bytes \<Rightarrow> bytes) \<Rightarrow> bytes \<Rightarrow> message \<Rightarrow> sign_error + bytes" where
  "Sign edSign priv m =
     (if length priv \<noteq> PrivateKeySize then Inl ErrPrivateKeyLength
      else bindR (Canonicalize m) (\<lambda>b. Inr (edSign priv b)))"

definition Verify :: "(bytes \<Rightarrow> bytes \<Rightarrow> bytes \<Rightarrow> bool) \<Rightarrow> bytes \<Rightarrow> message \<Rightarrow> bytes \<Rightarrow> sign_error + unit" where
  "Verify edVerify pub m sig =
     bindR (ValidatePublicKey pub) (\<lambda>_.
     bindR (ValidateSignature sig) (\<lambda>_.
     bindR (Canonicalize m) (\<lambda>b.
     if \<not> edVerify pub b sig then Inl ErrVerify else Inr ())))"

section \<open>Acknowledgements\<close>

definition AckContext :: string where "AckContext = ''agent-bus/recipient-ack/3''"
definition AckOutcomeDelivered :: string where "AckOutcomeDelivered = ''delivered''"
definition AckOutcomeRefused :: string where "AckOutcomeRefused = ''refused''"
definition AckClassRecipientRefusedPolicy :: string where
  "AckClassRecipientRefusedPolicy = ''recipient_refused_policy''"
definition AckClassRecipientRefusedUndecodable :: string where
  "AckClassRecipientRefusedUndecodable = ''recipient_refused_undecodable''"
definition AckClassRecipientRefusedNotAddressed :: string where
  "AckClassRecipientRefusedNotAddressed = ''recipient_refused_not_addressed''"

record ack =
  a_correlationKey :: string
  a_recipient :: string
  a_outcome :: string
  a_class :: string
  a_emittedAt :: u64

definition validateAck :: "ack \<Rightarrow> sign_error + unit" where
  "validateAck a =
     bindR (wrapErr (\<lambda>_. ErrInvalidAck) (ParseMessageID (a_correlationKey a))) (\<lambda>_.
     bindR (wrapErr (\<lambda>_. ErrInvalidAck) (ParseAgentID (a_recipient a))) (\<lambda>_.
     bindR (if a_outcome a = AckOutcomeDelivered then
              (if a_class a \<noteq> [] then Inl ErrInvalidAck else Inr ())
            else if a_outcome a = AckOutcomeRefused then
              (if a_class a = AckClassRecipientRefusedPolicy \<or>
                  a_class a = AckClassRecipientRefusedUndecodable \<or>
                  a_class a = AckClassRecipientRefusedNotAddressed then Inr ()
               else Inl ErrInvalidAck)
            else Inl ErrInvalidAck) (\<lambda>_.
     if sint (a_emittedAt a) \<le> 0 then Inl ErrInvalidAck else Inr ())))"

definition CanonicalizeAck :: "ack \<Rightarrow> sign_error + bytes" where
  "CanonicalizeAck a =
     bindR (validateAck a) (\<lambda>_.
     bindR (appendLenPrefixed [] AckContext) (\<lambda>o1.
     bindR (appendLenPrefixed o1 (a_correlationKey a)) (\<lambda>o2.
     bindR (appendLenPrefixed o2 (a_recipient a)) (\<lambda>o3.
     bindR (appendLenPrefixed o3 (a_outcome a)) (\<lambda>o4.
     bindR (appendLenPrefixed o4 (a_class a)) (\<lambda>o5.
     Inr (appendUint64 o5 (a_emittedAt a))))))))"

definition SignAck :: "(bytes \<Rightarrow> bytes \<Rightarrow> bytes) \<Rightarrow> bytes \<Rightarrow> ack \<Rightarrow> sign_error + bytes" where
  "SignAck edSign priv a =
     (if length priv \<noteq> PrivateKeySize then Inl ErrPrivateKeyLength
      else bindR (CanonicalizeAck a) (\<lambda>b. Inr (edSign priv b)))"

definition VerifyAck :: "(bytes \<Rightarrow> bytes \<Rightarrow> bytes \<Rightarrow> bool) \<Rightarrow> bytes \<Rightarrow> ack \<Rightarrow> bytes \<Rightarrow> sign_error + unit" where
  "VerifyAck edVerify pub a sig =
     bindR (ValidatePublicKey pub) (\<lambda>_.
     bindR (ValidateSignature sig) (\<lambda>_.
     bindR (CanonicalizeAck a) (\<lambda>b.
     if \<not> edVerify pub b sig then Inl ErrVerify else Inr ())))"

section \<open>Canonical forms\<close>

lemma parse_length:
  "ParseMessageID s = Inr p \<Longrightarrow> length s \<le> MaxMessageIDLen"
  "ParseAgentID s = Inr q \<Longrightarrow> length s \<le> MaxAgentIDLen"
  by (auto simp: ParseMessageID_def ParseAgentID_def split: if_splits)

lemma parse_short:
  "ParseMessageID s = Inr p \<Longrightarrow> short s" "ParseAgentID s = Inr q \<Longrightarrow> short s"
  using parse_length by (fastforce simp: short_def MaxMessageIDLen_def MaxAgentIDLen_def maxAgentNameLen_def)+

lemma contexts_short [simp]: "short Context" "short AckContext" "short []"
  by (simp_all add: short_def Context_def AckContext_def)

definition canonical_message :: "message \<Rightarrow> bytes" where
  "canonical_message m =
     lp Context @ lp (m_messageID m) @ PutUint64 (m_sequence m) @ lp (m_sender m) @
     PutUint32 (word_of_nat (length (m_recipients m))) @ concat (map lp (sort (m_recipients m))) @
     PutUint64 (m_timestamp m) @ lp (m_body m)"

lemma validate_ok:
  assumes "validate m = Inr rs"
  shows "rs = sort (m_recipients m)" "short (m_messageID m)" "short (m_sender m)" "short (m_body m)"
    "list_all short rs" "length (m_recipients m) \<le> MaxRecipients"
proof -
  have "list_all short (m_recipients m)" if "list_all (\<lambda>r. is_ok (ParseAgentID r)) (m_recipients m)"
    using that parse_short(2) by (fastforce simp: list_all_iff is_ok_iff)
  then show "rs = sort (m_recipients m)" "short (m_messageID m)" "short (m_sender m)" "short (m_body m)"
    "list_all short rs" "length (m_recipients m) \<le> MaxRecipients"
    using assms parse_short
    by (auto simp: validate_def res Let_def list_all_iff MaxBodyLen_def short_def split: if_splits)
qed

lemma Canonicalize_eq:
  "Canonicalize m = (case validate m of Inl e \<Rightarrow> Inl e | Inr _ \<Rightarrow> Inr (canonical_message m))"
proof (cases "validate m")
  case (Inr rs)
  note V = validate_ok [OF Inr]
  show ?thesis
    using Inr V
    by (simp add: Canonicalize_def canonical_message_def appendAll_short appendUint32_def appendUint64_def)
qed (simp add: Canonicalize_def)

definition canonical_ack :: "ack \<Rightarrow> bytes" where
  "canonical_ack a =
     lp AckContext @ lp (a_correlationKey a) @ lp (a_recipient a) @ lp (a_outcome a) @ lp (a_class a) @
     PutUint64 (a_emittedAt a)"

lemma validateAck_ok:
  assumes "validateAck a = Inr u"
  shows "short (a_correlationKey a)" "short (a_recipient a)" "short (a_outcome a)" "short (a_class a)"
  using assms parse_short
  by (auto simp: validateAck_def res split: if_splits)
    (auto simp: short_def AckOutcomeDelivered_def AckOutcomeRefused_def AckClassRecipientRefusedPolicy_def
      AckClassRecipientRefusedUndecodable_def AckClassRecipientRefusedNotAddressed_def)

lemma CanonicalizeAck_eq:
  "CanonicalizeAck a = (case validateAck a of Inl e \<Rightarrow> Inl e | Inr _ \<Rightarrow> Inr (canonical_ack a))"
proof (cases "validateAck a")
  case (Inr u)
  note V = validateAck_ok [OF Inr]
  show ?thesis using Inr V by (simp add: CanonicalizeAck_def canonical_ack_def appendUint64_def)
qed (simp add: CanonicalizeAck_def)

section \<open>Properties\<close>

lemma canonical_message_inj:
  assumes v: "validate m = Inr rs" "validate m' = Inr rs'" and eq: "canonical_message m = canonical_message m'"
  shows "m_messageID m = m_messageID m' \<and> m_sequence m = m_sequence m' \<and> m_sender m = m_sender m' \<and>
    sort (m_recipients m) = sort (m_recipients m') \<and> m_timestamp m = m_timestamp m' \<and> m_body m = m_body m'"
proof -
  note V = validate_ok [OF v(1)] and V' = validate_ok [OF v(2)]
  have e1: "m_messageID m = m_messageID m'" "m_sequence m = m_sequence m'" "m_sender m = m_sender m'"
    and e2: "PutUint32 (word_of_nat (length (m_recipients m))) @ concat (map lp (sort (m_recipients m))) @
        PutUint64 (m_timestamp m) @ lp (m_body m) =
      PutUint32 (word_of_nat (length (m_recipients m'))) @ concat (map lp (sort (m_recipients m'))) @
        PutUint64 (m_timestamp m') @ lp (m_body m')"
    using eq V V' by (auto simp: canonical_message_def lp_append_inj simp del: put_append_inj(2))
  then have "(word_of_nat (length (m_recipients m)) :: u32) = word_of_nat (length (m_recipients m'))"
    and e3: "concat (map lp (sort (m_recipients m))) @ PutUint64 (m_timestamp m) @ lp (m_body m) =
      concat (map lp (sort (m_recipients m'))) @ PutUint64 (m_timestamp m') @ lp (m_body m')"
    by simp_all
  then have "unat (word_of_nat (length (m_recipients m)) :: u32) = unat (word_of_nat (length (m_recipients m')) :: u32)"
    by simp
  then have "length (sort (m_recipients m)) = length (sort (m_recipients m'))"
    using V(6) V'(6) by (simp add: unat_of_nat MaxRecipients_def)
  then have "sort (m_recipients m) = sort (m_recipients m')"
    "PutUint64 (m_timestamp m) @ lp (m_body m) = PutUint64 (m_timestamp m') @ lp (m_body m')"
    using e3 V(1,5) V'(1,5) by (simp_all add: lps_append_inj)
  then show ?thesis using e1 V(4) V'(4) by (simp add: lp_inj)
qed

text \<open>
  C25. The signed bytes determine the message: two messages with the same canonical bytes
  have the same id, sequence, sender, timestamp and body, and the same recipients up to
  order.
\<close>

theorem canonical_form_injective:
  assumes "Canonicalize m = Inr b" "Canonicalize m' = Inr b"
  shows "m' = m\<lparr>m_recipients := m_recipients m'\<rparr> \<and> sort (m_recipients m') = sort (m_recipients m) \<and>
    set (m_recipients m') = set (m_recipients m)"
proof -
  obtain rs rs' where v: "validate m = Inr rs" "validate m' = Inr rs'" and
    "canonical_message m = canonical_message m'"
    using assms by (auto simp: Canonicalize_eq split: sum.splits)
  note I = canonical_message_inj [OF this]
  then have "set (m_recipients m') = set (m_recipients m)" by (metis set_sort)
  then show ?thesis using I by simp
qed

definition demo_message :: "string list \<Rightarrow> message" where
  "demo_message rs = \<lparr>m_messageID = ''b-7'', m_sequence = 7, m_sender = ''b.x-1'',
     m_recipients = rs, m_timestamp = 5, m_body = ''hi''\<rparr>"

lemma demo_ids:
  "ParseMessageID ''b-7'' = Inr (''b'', 7)" "ParseAgentID ''b.x-1'' = Inr (''b'', ''x'', 1)"
  "ParseAgentID ''b.y-2'' = Inr (''b'', ''y'', 2)"
  by (simp_all add: ParseMessageID_iff MessageID_ok_iff ParseAgentID_iff AgentID_ok_iff bus_id_matches_def
      bus_id_char_def name_head_char_def is_lower_def is_digit_def agentIDSep_def agentSuffixSep_def
      messageIDSep_def FormatUint_def show_nat.simps)

lemma demo_message_validate:
  "validate (demo_message [''b.x-1'', ''b.y-2'']) = Inr [''b.x-1'', ''b.y-2'']"
  "validate (demo_message [''b.y-2'', ''b.x-1'']) = Inr [''b.x-1'', ''b.y-2'']"
  by (simp_all add: validate_def demo_message_def demo_ids MaxRecipients_def MaxBodyLen_def
      less_char_def less_eq_char_def list_less_def list_le_def)

theorem canonical_form_injective_witness:
  "Canonicalize (demo_message [''b.x-1'', ''b.y-2'']) = Canonicalize (demo_message [''b.y-2'', ''b.x-1'']) \<and>
   set (m_recipients (demo_message [''b.y-2'', ''b.x-1''])) = set (m_recipients (demo_message [''b.x-1'', ''b.y-2'']))"
proof -
  let ?m = "demo_message [''b.x-1'', ''b.y-2'']" and ?n = "demo_message [''b.y-2'', ''b.x-1'']"
  have "sort (m_recipients ?m) = [''b.x-1'', ''b.y-2'']" "sort (m_recipients ?n) = [''b.x-1'', ''b.y-2'']"
    using validate_ok(1) [OF demo_message_validate(1)] validate_ok(1) [OF demo_message_validate(2)] by simp_all
  then have "canonical_message ?n = canonical_message ?m"
    by (simp add: canonical_message_def) (simp add: demo_message_def)
  then have "Canonicalize ?m = Inr (canonical_message ?m)" "Canonicalize ?n = Inr (canonical_message ?m)"
    by (simp_all add: Canonicalize_eq demo_message_validate)
  then show ?thesis using canonical_form_injective [of ?m "canonical_message ?m" ?n] by simp
qed


definition toy_verify :: "bytes \<Rightarrow> bytes \<Rightarrow> bytes \<Rightarrow> bool" where
  "toy_verify pub b sig \<longleftrightarrow> b = canonical_message (demo_message [''b.x-1'', ''b.y-2''])"


text \<open>
  Signing and verifying fit together: over a scheme whose signatures have 64 bytes and
  verify under the matching public key, every message that can be signed verifies, for
  messages and for acknowledgements.
\<close>

theorem signatures_verify:
  assumes "\<forall>b. edVerify pub b (edSign priv b) \<and> length (edSign priv b) = SignatureSize"
    and "length pub = PublicKeySize"
  shows "(Sign edSign priv m = Inr sig \<longrightarrow> Verify edVerify pub m sig = Inr ()) \<and>
    (SignAck edSign priv a = Inr sig' \<longrightarrow> VerifyAck edVerify pub a sig' = Inr ())"
proof -
  have "edSign priv b \<noteq> []" for b
  proof -
    have "length (edSign priv b) = 64" using assms(1) by (simp add: SignatureSize_def)
    then show ?thesis by auto
  qed
  then show ?thesis
    using assms
    by (auto simp: Sign_def Verify_def SignAck_def VerifyAck_def res ValidatePublicKey_def ValidateSignature_def)
qed

theorem signatures_verify_witness:
  "\<exists>sig. Sign (\<lambda>_ b. replicate 64 (CHR ''s'')) (replicate 64 (CHR ''k'')) (demo_message [''b.x-1'', ''b.y-2'']) = Inr sig \<and>
     Verify (\<lambda>_ b s. s = replicate 64 (CHR ''s'')) (replicate 32 (CHR ''p'')) (demo_message [''b.x-1'', ''b.y-2'']) sig = Inr ()"
proof -
  let ?m = "demo_message [''b.x-1'', ''b.y-2'']" and ?sig = "replicate 64 (CHR ''s'')"
  have s: "Sign (\<lambda>_ b. ?sig) (replicate 64 (CHR ''k'')) ?m = Inr ?sig"
    by (simp add: Sign_def Canonicalize_eq demo_message_validate PrivateKeySize_def)
  then have "Verify (\<lambda>_ b s. s = ?sig) (replicate 32 (CHR ''p'')) ?m ?sig = Inr ()"
    using signatures_verify [where edVerify = "\<lambda>_ b s. s = ?sig" and edSign = "\<lambda>_ b. ?sig" and
        pub = "replicate 32 (CHR ''p'')" and priv = "replicate 64 (CHR ''k'')"]
    by (simp add: SignatureSize_def PublicKeySize_def)
  then show ?thesis using s by blast
qed

end
