(* ===== verification/Attest.thy ===== *)
theory Attest
  imports Signing Idem
begin

text \<open>
  Bus attestations (\<^verbatim>\<open>internal/attest\<close>): a bus signs that an agent of its own uses a
  messaging key until an expiry; a receiver that has pinned the bus's signing key accepts it.
  The Ed25519 functions are arguments, as in the message signatures.
\<close>

section \<open>Attestations\<close>

definition AttestContext :: string where "AttestContext = ''agent-bus/bus-attest/2''"
definition ClockSkewAllowance :: int where "ClockSkewAllowance = 5 * 60 * sec_ns"
definition MaxAttestationLifetime :: int where
  "MaxAttestationLifetime = PeerOutageBudget + ClockSkewAllowance"

text \<open>Unix milliseconds, on times counted in nanoseconds from Go's zero time.\<close>

definition unixEpoch :: time where "unixEpoch = 62135596800 * sec_ns"

definition UnixMilli :: "u64 \<Rightarrow> time" where
  "UnixMilli ms = unixEpoch + sint ms * 1000000"

definition toUnixMilli :: "time \<Rightarrow> u64" where
  "toUnixMilli t = word_of_int ((t - unixEpoch) div 1000000)"

datatype attest_error =
    AttInvalid | AttAgentIDMismatch | AttOriginBusMismatch | AttUnpinned | AttVerify | AttNoClock
  | AttExpired | AttLifetimeExceeded

record attestation =
  at_agentID :: string
  at_messagingPublicKey :: bytes
  at_keyEpoch :: u64
  at_issuedAt :: u64
  at_notAfter :: u64
  at_signature :: bytes

record subject =
  su_fqAgentID :: string
  su_originBus :: string

definition attest_validate :: "attestation \<Rightarrow> attest_error + unit" where
  "attest_validate a =
     bindR (wrapErr (\<lambda>_. AttInvalid) (ParseAgentID (at_agentID a))) (\<lambda>_.
     bindR (wrapErr (\<lambda>_. AttInvalid) (ValidatePublicKey (at_messagingPublicKey a))) (\<lambda>_.
     if sint (at_issuedAt a) \<le> 0 then Inl AttInvalid
     else if sint (at_notAfter a) \<le> 0 then Inl AttInvalid
     else if sint (at_notAfter a) \<le> sint (at_issuedAt a) then Inl AttInvalid
     else Inr ()))"

definition attest_Canonicalize :: "attestation \<Rightarrow> attest_error + bytes" where
  "attest_Canonicalize a =
     bindR (attest_validate a) (\<lambda>_.
     wrapErr (\<lambda>_. AttInvalid)
      (bindR (appendLenPrefixed [] AttestContext) (\<lambda>o1.
       bindR (appendLenPrefixed o1 (at_agentID a)) (\<lambda>o2.
       bindR (appendLenPrefixed o2 (at_messagingPublicKey a)) (\<lambda>o3.
       Inr (appendUint64 (appendUint64 (appendUint64 o3 (at_keyEpoch a)) (at_issuedAt a))
              (at_notAfter a)))))))"

definition attest_Sign ::
  "(bytes \<Rightarrow> bytes \<Rightarrow> bytes) \<Rightarrow> bytes \<Rightarrow> string \<Rightarrow> string \<Rightarrow> bytes \<Rightarrow> u64 \<Rightarrow> time \<Rightarrow> time \<Rightarrow>
     attest_error + attestation" where
  "attest_Sign edSign busSigningKey busID agentID msgPub epoch issuedAt notAfter =
     (if length busSigningKey \<noteq> PrivateKeySize then Inl AttInvalid
      else bindR (wrapErr (\<lambda>_. AttInvalid) (ParseAgentID agentID)) (\<lambda>(subjectBus, _, _).
      bindR (wrapErr (\<lambda>_. AttInvalid) (ValidateBusID busID)) (\<lambda>_.
      if subjectBus \<noteq> busID then Inl AttOriginBusMismatch
      else let a = \<lparr>at_agentID = agentID, at_messagingPublicKey = msgPub, at_keyEpoch = epoch,
                    at_issuedAt = toUnixMilli issuedAt, at_notAfter = toUnixMilli notAfter,
                    at_signature = []\<rparr> in
      bindR (attest_Canonicalize a) (\<lambda>b. Inr (a\<lparr>at_signature := edSign busSigningKey b\<rparr>)))))"

definition attest_Verify ::
  "(bytes \<Rightarrow> bytes \<Rightarrow> bytes \<Rightarrow> bool) \<Rightarrow> bytes list \<Rightarrow> attestation \<Rightarrow> subject \<Rightarrow> time \<Rightarrow>
     attest_error + bytes" where
  "attest_Verify edVerify pins a want now =
     (if pins = [] then Inl AttUnpinned
      else if \<not> list_all (\<lambda>pin. is_ok (ValidatePublicKey pin)) pins then Inl AttUnpinned
      else if now = 0 then Inl AttNoClock
      else if MaxAgentIDLen < length (su_fqAgentID want) then Inl AttInvalid
      else bindR (wrapErr (\<lambda>_. AttInvalid) (ValidateSignature (at_signature a))) (\<lambda>_.
      bindR (attest_Canonicalize a) (\<lambda>canonical.
      if at_agentID a \<noteq> su_fqAgentID want then Inl AttAgentIDMismatch
      else bindR (wrapErr (\<lambda>_. AttInvalid) (ParseAgentID (at_agentID a))) (\<lambda>(subjectBus, _, _).
      if subjectBus \<noteq> su_originBus want then Inl AttOriginBusMismatch
      else if \<not> list_ex (\<lambda>pin. edVerify pin canonical (at_signature a)) pins then Inl AttVerify
      else let notAfter = UnixMilli (at_notAfter a) in
      if notAfter < now - ClockSkewAllowance then Inl AttExpired
      else if MaxAttestationLifetime < time_sub notAfter now then Inl AttLifetimeExceeded
      else Inr (at_messagingPublicKey a)))))"

section \<open>Canonical form\<close>

definition canonical_attestation :: "attestation \<Rightarrow> bytes" where
  "canonical_attestation a =
     lp AttestContext @ lp (at_agentID a) @ lp (at_messagingPublicKey a) @ PutUint64 (at_keyEpoch a) @
     PutUint64 (at_issuedAt a) @ PutUint64 (at_notAfter a)"

lemma AttestContext_short [simp]: "short AttestContext"
  by (simp add: short_def AttestContext_def)

lemma attest_validate_ok:
  assumes "attest_validate a = Inr u"
  shows "short (at_agentID a)" "short (at_messagingPublicKey a)" "length (at_messagingPublicKey a) = 32"
    "is_ok (ParseAgentID (at_agentID a))"
  using assms parse_short(2) [of "at_agentID a"]
  by (auto simp: attest_validate_def res ValidatePublicKey_def PublicKeySize_def short_def is_ok_iff
      split: if_splits)

lemma attest_Canonicalize_eq:
  "attest_Canonicalize a = (case attest_validate a of Inl e \<Rightarrow> Inl e | Inr _ \<Rightarrow> Inr (canonical_attestation a))"
proof (cases "attest_validate a")
  case (Inr u)
  note V = attest_validate_ok [OF Inr]
  show ?thesis using Inr V
    by (simp add: attest_Canonicalize_def canonical_attestation_def appendUint64_def)
qed (simp add: attest_Canonicalize_def)

lemma canonical_attestation_inj:
  assumes "attest_validate a = Inr u" "attest_validate a' = Inr u'" "canonical_attestation a = canonical_attestation a'"
  shows "a' = a\<lparr>at_signature := at_signature a'\<rparr>"
proof -
  note V = attest_validate_ok [OF assms(1)] and V' = attest_validate_ok [OF assms(2)]
  have "at_agentID a = at_agentID a' \<and> at_messagingPublicKey a = at_messagingPublicKey a' \<and>
      at_keyEpoch a = at_keyEpoch a' \<and> at_issuedAt a = at_issuedAt a' \<and> at_notAfter a = at_notAfter a'"
    using assms(3) V(1,2) V'(1,2) by (simp add: canonical_attestation_def lp_append_inj lp_inj)
  then show ?thesis by simp
qed

section \<open>Properties\<close>

text \<open>
  C26. What an accepted attestation means: it returns the attested key only if the subject
  asked for is the attested agent, that agent belongs to the origin bus whose keys are
  pinned, some pinned key verifies the canonical bytes, the expiry (with the clock-skew
  allowance) has not passed, and the remaining lifetime is within the verifier's own ceiling.
\<close>

theorem attestation_accepted_means:
  assumes "attest_Verify edVerify pins a want now = Inr key"
  shows "key = at_messagingPublicKey a \<and> length key = PublicKeySize \<and>
    at_agentID a = su_fqAgentID want \<and>
    (\<exists>nm n. ParseAgentID (su_fqAgentID want) = Inr (su_originBus want, nm, n)) \<and>
    (\<exists>pin\<in>set pins. length pin = PublicKeySize \<and> edVerify pin (canonical_attestation a) (at_signature a)) \<and>
    now \<le> UnixMilli (at_notAfter a) + ClockSkewAllowance \<and>
    time_sub (UnixMilli (at_notAfter a)) now \<le> MaxAttestationLifetime"
proof -
  have v: "\<exists>u. attest_validate a = Inr u" and c: "attest_Canonicalize a = Inr (canonical_attestation a)"
    using assms by (auto simp: attest_Verify_def res attest_Canonicalize_eq split: sum.splits)
  then have k: "length (at_messagingPublicKey a) = PublicKeySize"
    using attest_validate_ok(3) by (auto simp: PublicKeySize_def)
  show ?thesis
    using assms c k
    by (auto simp: attest_Verify_def res Let_def list_ex_iff list_all_iff is_ok_iff ValidatePublicKey_def
        split: if_splits)
qed

definition demo_attestation :: attestation where
  "demo_attestation = \<lparr>at_agentID = ''b.x-1'', at_messagingPublicKey = replicate 32 (CHR ''k''),
     at_keyEpoch = 1, at_issuedAt = 1000, at_notAfter = 2000, at_signature = replicate 64 (CHR ''s'')\<rparr>"

lemma demo_attestation_accepted:
  "attest_Verify (\<lambda>_ _ _. True) [replicate 32 (CHR ''p'')] demo_attestation
     \<lparr>su_fqAgentID = ''b.x-1'', su_originBus = ''b''\<rparr> (UnixMilli 1500) = Inr (replicate 32 (CHR ''k''))"
proof -
  have "attest_validate demo_attestation = Inr ()"
    by (simp add: attest_validate_def demo_attestation_def demo_ids ValidatePublicKey_def PublicKeySize_def)
  then show ?thesis
    by (simp add: attest_Verify_def demo_attestation_def demo_ids ValidatePublicKey_def PublicKeySize_def
        ValidateSignature_def SignatureSize_def attest_Canonicalize_eq MaxAgentIDLen_def maxAgentNameLen_def
        UnixMilli_def unixEpoch_def sec_ns_def ClockSkewAllowance_def MaxAttestationLifetime_def
        PeerOutageBudget_def time_sub_def maxDuration_def minDuration_def)
qed

theorem attestation_accepted_means_witness:
  "\<exists>key. attest_Verify (\<lambda>_ _ _. True) [replicate 32 (CHR ''p'')] demo_attestation
     \<lparr>su_fqAgentID = ''b.x-1'', su_originBus = ''b''\<rparr> (UnixMilli 1500) = Inr key \<and>
   length key = PublicKeySize \<and> at_agentID demo_attestation = ''b.x-1''"
  using attestation_accepted_means [OF demo_attestation_accepted] demo_attestation_accepted by auto

text \<open>
  C33. The three signed formats never overlap and each binds its content: no byte string is
  the canonical form of both a message and an acknowledgement, of a message and an
  attestation, or of an acknowledgement and an attestation, and two attestations with the
  same canonical bytes differ at most in their signature.
\<close>

theorem signed_formats_are_separate:
  "\<not> (Canonicalize m = Inr b \<and> CanonicalizeAck a = Inr b) \<and>
   \<not> (Canonicalize m = Inr b \<and> attest_Canonicalize t = Inr b) \<and>
   \<not> (CanonicalizeAck a = Inr b \<and> attest_Canonicalize t = Inr b) \<and>
   \<not> (attest_Canonicalize t = Inr b \<and> attest_Canonicalize t' = Inr b \<and> t' \<noteq> t\<lparr>at_signature := at_signature t'\<rparr>)"
proof -
  have ne: "Context \<noteq> AckContext" "Context \<noteq> AttestContext" "AckContext \<noteq> AttestContext"
    by (simp_all add: Context_def AckContext_def AttestContext_def)
  have m: "\<exists>x. b = lp Context @ x" if "Canonicalize m = Inr b"
    using that by (auto simp: Canonicalize_eq canonical_message_def split: sum.splits)
  have k: "\<exists>x. b = lp AckContext @ x" if "CanonicalizeAck a = Inr b"
    using that by (auto simp: CanonicalizeAck_eq canonical_ack_def split: sum.splits)
  have t: "\<exists>x. b = lp AttestContext @ x" if "attest_Canonicalize t = Inr b"
    using that by (auto simp: attest_Canonicalize_eq canonical_attestation_def split: sum.splits)
  have i: "t' = t\<lparr>at_signature := at_signature t'\<rparr>"
    if "attest_Canonicalize t = Inr b" "attest_Canonicalize t' = Inr b"
    using that canonical_attestation_inj [of t "()" t' "()"]
    by (auto simp: attest_Canonicalize_eq split: sum.splits)
  show ?thesis using m k t i ne lp_append_inj by (metis contexts_short(1,2) AttestContext_short)
qed

text \<open>
  A bus attests only its own agents: an attestation is issued only when the agent id
  parses and its bus half is exactly the attesting bus.
\<close>

theorem bus_attests_own_agents:
  assumes "attest_Sign edSign k busID agentID pub epoch issuedAt notAfter = Inr a"
  shows "at_agentID a = agentID \<and> (\<exists>nm n. AgentID busID nm n = Inr agentID) \<and>
    sint (at_issuedAt a) < sint (at_notAfter a) \<and>
    at_signature a = edSign k (canonical_attestation a)"
proof -
  obtain b where b: "attest_Canonicalize \<lparr>at_agentID = agentID, at_messagingPublicKey = pub, at_keyEpoch = epoch,
      at_issuedAt = toUnixMilli issuedAt, at_notAfter = toUnixMilli notAfter, at_signature = []\<rparr> = Inr b"
    and a: "a = \<lparr>at_agentID = agentID, at_messagingPublicKey = pub, at_keyEpoch = epoch,
      at_issuedAt = toUnixMilli issuedAt, at_notAfter = toUnixMilli notAfter, at_signature = edSign k b\<rparr>"
    and p: "\<exists>nm n. ParseAgentID agentID = Inr (busID, nm, n)"
    using assms by (auto simp: attest_Sign_def res Let_def split: if_splits)
  have "sint (toUnixMilli issuedAt) < sint (toUnixMilli notAfter)" "b = canonical_attestation a"
    using b by (auto simp: a attest_Canonicalize_eq attest_validate_def res canonical_attestation_def
        split: sum.splits if_splits)
  then show ?thesis using a p by (simp add: ParseAgentID_iff)
qed

theorem bus_attests_own_agents_witness:
  "\<exists>a. attest_Sign (\<lambda>_ _. ''sig'') (replicate 64 (CHR ''k'')) ''b'' ''b.x-1'' (replicate 32 (CHR ''p'')) 1
      (unixEpoch + 1000000000) (unixEpoch + 2000000000) = Inr a \<and> at_agentID a = ''b.x-1'' \<and>
     at_signature a = ''sig''"
proof -
  have b: "bus_id_matches ''b''" by (simp add: bus_id_matches_def bus_id_char_def is_lower_def)
  then have "ValidateBusID ''b'' = Inr ()" by (simp add: res)
  then obtain a where a: "attest_Sign (\<lambda>_ _. ''sig'') (replicate 64 (CHR ''k'')) ''b'' ''b.x-1'' (replicate 32 (CHR ''p'')) 1
      (unixEpoch + 1000000000) (unixEpoch + 2000000000) = Inr a"
    by (simp add: attest_Sign_def PrivateKeySize_def demo_ids attest_Canonicalize_eq attest_validate_def
        ValidatePublicKey_def PublicKeySize_def toUnixMilli_def Let_def)
  from bus_attests_own_agents [OF a] a show ?thesis by auto
qed

end
