(* ===== verification/RelayPath.thy ===== *)
theory RelayPath
  imports Ids Machine
begin

text \<open>
  Loop prevention between buses (\<^verbatim>\<open>internal/relay/path.go\<close>, with the limits of
  \<^verbatim>\<open>internal/store/message.go\<close>): a relayed message carries the buses it has visited; a bus
  refuses a message that has been there before and appends itself before forwarding.
\<close>

section \<open>The path checks\<close>

definition MaxBusPath :: nat where "MaxBusPath = 64"
definition MaxReceivedBusPath :: nat where "MaxReceivedBusPath = MaxBusPath - 1"
definition MaxPeerBusIDLen :: nat where "MaxPeerBusIDLen = 64"

datatype path_error = ErrInvalidBusPath | ErrBusPathTooLong | ErrRelayLoop | ErrLocalBusID

fun PathContains :: "string list \<Rightarrow> string \<Rightarrow> bool" where
  "PathContains [] busID = False"
| "PathContains (hop # path) busID = (if equal_fold hop busID then True else PathContains path busID)"

fun validate_hop_list :: "string list \<Rightarrow> string list \<Rightarrow> path_error + unit" where
  "validate_hop_list seen [] = Inr ()"
| "validate_hop_list seen (hop # path) =
     (if MaxPeerBusIDLen < length hop then Inl ErrInvalidBusPath
      else if isl (ValidateBusID hop) then Inl ErrInvalidBusPath
      else if to_lower hop \<in> set seen then Inl ErrInvalidBusPath
      else validate_hop_list (to_lower hop # seen) path)"

definition validateHops :: "string list \<Rightarrow> path_error + unit" where
  "validateHops path =
     (if MaxReceivedBusPath < length path then Inl ErrBusPathTooLong
      else validate_hop_list [] path)"

definition ValidateBusPath :: "string list \<Rightarrow> path_error + unit" where
  "ValidateBusPath path = (if path = [] then Inl ErrInvalidBusPath else validateHops path)"

definition CheckIncomingPath :: "string \<Rightarrow> string list \<Rightarrow> path_error + unit" where
  "CheckIncomingPath localBusID path =
     bindR (ValidateBusPath path) (\<lambda>_.
     if PathContains path localBusID then Inl ErrRelayLoop else Inr ())"

definition AppendHop :: "string list \<Rightarrow> string \<Rightarrow> path_error + string list" where
  "AppendHop path localBusID =
     bindR (wrapErr (\<lambda>_. ErrLocalBusID) (ValidateBusID localBusID)) (\<lambda>_.
     bindR (validateHops path) (\<lambda>_.
     if PathContains path localBusID then Inl ErrRelayLoop
     else if MaxBusPath < length path + 1 then Inl ErrBusPathTooLong
     else Inr (path @ [localBusID])))"

definition NextHopAllowed :: "string list \<Rightarrow> string \<Rightarrow> bool" where
  "NextHopAllowed path peerBusID \<longleftrightarrow> \<not> PathContains path peerBusID"

section \<open>What the checks mean\<close>

lemma PathContains_iff: "PathContains path b \<longleftrightarrow> to_lower b \<in> set (map to_lower path)"
  by (induction path) (auto simp: equal_fold_def)

lemma ValidateBusID_isl: "isl (ValidateBusID s) \<longleftrightarrow> \<not> bus_id_matches s"
  using ValidateBusID_ok [of s] by (cases "ValidateBusID s") auto

lemma validate_hop_list_ok:
  "validate_hop_list seen path = Inr u \<longleftrightarrow>
     list_all bus_id_matches path \<and> distinct (map to_lower path) \<and>
     set (map to_lower path) \<inter> set seen = {}"
proof (induction path arbitrary: seen)
  case (Cons hop path)
  have "bus_id_matches hop \<Longrightarrow> length hop \<le> MaxPeerBusIDLen"
    by (simp add: bus_id_matches_def MaxPeerBusIDLen_def)
  then show ?case using Cons by (auto simp: ValidateBusID_isl)
qed simp

definition path_ok :: "string list \<Rightarrow> bool" where
  "path_ok path \<longleftrightarrow> list_all bus_id_matches path \<and> distinct (map to_lower path)"

lemma validateHops_ok [res]: "validateHops path = Inr u \<longleftrightarrow> length path \<le> MaxReceivedBusPath \<and> path_ok path"
  by (auto simp: validateHops_def validate_hop_list_ok path_ok_def)

lemma CheckIncomingPath_ok:
  "CheckIncomingPath b path = Inr u \<longleftrightarrow>
     path \<noteq> [] \<and> length path \<le> MaxReceivedBusPath \<and> path_ok path \<and> to_lower b \<notin> set (map to_lower path)"
  by (auto simp: CheckIncomingPath_def ValidateBusPath_def res PathContains_iff)

lemma AppendHop_ok:
  "AppendHop path b = Inr path' \<longleftrightarrow>
     bus_id_matches b \<and> length path \<le> MaxReceivedBusPath \<and> path_ok path \<and>
     to_lower b \<notin> set (map to_lower path) \<and> path' = path @ [b]"
  by (auto simp: AppendHop_def res PathContains_iff MaxReceivedBusPath_def MaxBusPath_def)

section \<open>A message travelling through the network\<close>

text \<open>
  A bus that receives the message checks the path it arrived with, appends itself and
  forwards; \<open>travel\<close> runs the buses of a route in turn, whatever the topology, and stops at
  the first refusal.
\<close>

fun travel :: "string list \<Rightarrow> string list \<Rightarrow> path_error + string list" where
  "travel path [] = Inr path"
| "travel path (b # route) =
     bindR (CheckIncomingPath b path) (\<lambda>_.
     bindR (AppendHop path b) (\<lambda>path'. travel path' route))"

lemma travel_ok:
  "travel path route = Inr path' \<Longrightarrow> route \<noteq> [] \<Longrightarrow>
     path' = path @ route \<and> path_ok path' \<and> length path' \<le> MaxBusPath"
proof (induction route arbitrary: path)
  case (Cons b route)
  then obtain p where p: "AppendHop path b = Inr p" "travel p route = Inr path'"
    "CheckIncomingPath b path = Inr ()" by (auto simp: res)
  then have pok: "p = path @ [b]" "path_ok p" "length p \<le> MaxBusPath"
    by (auto simp: AppendHop_ok path_ok_def MaxReceivedBusPath_def MaxBusPath_def)
  show ?case
  proof (cases "route = []")
    case True
    then show ?thesis using p pok by simp
  next
    case False
    then show ?thesis using Cons.IH [OF p(2) False] pok(1) by auto
  qed
qed simp

lemma travel_complete:
  "path \<noteq> [] \<Longrightarrow> path_ok (path @ route) \<Longrightarrow> length (path @ route) \<le> MaxBusPath \<Longrightarrow>
     travel path route = Inr (path @ route)"
proof (induction route arbitrary: path)
  case (Cons b route)
  have "path_ok path" "bus_id_matches b" "to_lower b \<notin> set (map to_lower path)" "length path \<le> MaxReceivedBusPath"
    using Cons.prems by (auto simp: path_ok_def MaxReceivedBusPath_def MaxBusPath_def)
  then have "CheckIncomingPath b path = Inr ()" "AppendHop path b = Inr (path @ [b])"
    using Cons.prems(1) by (simp_all add: CheckIncomingPath_ok AppendHop_ok)
  then show ?case using Cons.IH [of "path @ [b]"] Cons.prems by simp
qed simp

section \<open>Properties\<close>

text \<open>
  C27. Relaying never loops: a route is travelled exactly when no bus occurs on it twice
  (letter case ignored), every bus id is well formed and the whole path fits the durable
  limit; so whatever the topology a message visits each bus at most once and at most 64
  buses in all.
\<close>

theorem relay_visits_each_bus_once:
  assumes "bus_id_matches origin" "route \<noteq> []"
  shows "travel [origin] route = Inr (origin # route) \<longleftrightarrow>
    list_all bus_id_matches route \<and> distinct (map to_lower (origin # route)) \<and>
    length (origin # route) \<le> MaxBusPath"
proof
  assume "travel [origin] route = Inr (origin # route)"
  from travel_ok [OF this assms(2)] show "list_all bus_id_matches route \<and>
      distinct (map to_lower (origin # route)) \<and> length (origin # route) \<le> MaxBusPath"
    by (simp add: path_ok_def)
next
  assume "list_all bus_id_matches route \<and> distinct (map to_lower (origin # route)) \<and>
      length (origin # route) \<le> MaxBusPath"
  then show "travel [origin] route = Inr (origin # route)"
    using travel_complete [of "[origin]" route] assms(1) by (simp add: path_ok_def)
qed

theorem relay_visits_each_bus_once_witness:
  "travel [''a''] [''b'', ''c''] = Inr [''a'', ''b'', ''c''] \<and> travel [''a''] [''b'', ''A''] \<noteq> Inr [''a'', ''b'', ''A'']"
proof -
  have l: "lower_char (CHR ''A'') = CHR ''a''" "lower_char (CHR ''a'') = CHR ''a''"
    "lower_char (CHR ''b'') = CHR ''b''" "lower_char (CHR ''c'') = CHR ''c''"
    by (simp_all add: lower_char_def is_upper_def char_of_eq_iff)
  show ?thesis
    using relay_visits_each_bus_once [of "''a''" "[''b'', ''c'']"] relay_visits_each_bus_once [of "''a''" "[''b'', ''A'']"]
    by (simp add: bus_id_matches_def bus_id_char_def is_lower_def is_upper_def to_lower_def l MaxBusPath_def)
qed

text \<open>The sender's pre-check agrees with the receiver's own check of the path it would get.\<close>

lemma next_hop_agrees_with_receiver:
  "ValidateBusPath path = Inr () \<Longrightarrow> NextHopAllowed path peer \<longleftrightarrow> CheckIncomingPath peer path = Inr ()"
  by (simp add: NextHopAllowed_def CheckIncomingPath_def)

end
