(* ===== verification/Message.thy ===== *)
theory Message
  imports Attest RelayPath
begin

text \<open>
  Messages and their durable records (\<^verbatim>\<open>internal/store/message.go\<close>): construction, the origin a
  relayed message carries, visibility to an agent, the record written to the log and the
  checks it passes on the way back.

  The JSON text is outside the model: \<open>msg_record\<close> has the members the text carries.  An absent
  attestation member is \<^term>\<open>None\<close>.  Copies of slices are the slices themselves.  A Go \<^verbatim>\<open>int64\<close>
  timestamp is a word read with \<^const>\<open>sint\<close>.
\<close>

definition RecordVersion :: int where "RecordVersion = 2"
definition MaxBodyBytes :: nat where "MaxBodyBytes = 64 * 1024"
definition MaxRecipients :: nat where "MaxRecipients = 64"
definition MaxIdempotencyKeyLen :: nat where "MaxIdempotencyKeyLen = 128"

datatype store_error = ErrInvalidMessage | ErrDuplicateSequence

text \<open>The zero value of \<^verbatim>\<open>attest.Attestation\<close>.\<close>

definition zero_attestation :: attestation where
  "zero_attestation = \<lparr>at_agentID = [], at_messagingPublicKey = [], at_keyEpoch = 0, at_issuedAt = 0,
     at_notAfter = 0, at_signature = []\<rparr>"

record msg =
  mg_Seq :: u64
  mg_Pos :: u64
  mg_ID :: string
  mg_OriginMessageID :: string
  mg_OriginAttestation :: attestation
  mg_Sender :: string
  mg_Broadcast :: bool
  mg_Recipients :: "string list"
  mg_BusPath :: "string list"
  mg_SentAt :: time
  mg_Body :: bytes
  mg_ContentSHA256 :: string
  mg_IdempotencyKey :: string
  mg_TimestampUnixMilli :: u64
  mg_Signature :: bytes

definition msg_Size :: "msg \<Rightarrow> nat" where "msg_Size m = length (mg_Body m)"

definition OriginID :: "msg \<Rightarrow> string" where
  "OriginID m = (if mg_OriginMessageID m \<noteq> [] then mg_OriginMessageID m else mg_ID m)"

definition WithOriginMessageID :: "msg \<Rightarrow> string \<Rightarrow> store_error + msg" where
  "WithOriginMessageID m originMessageID =
     (if originMessageID = [] then Inl ErrInvalidMessage else
      bindR (wrapErr (\<lambda>_. ErrInvalidMessage) (ParseMessageID originMessageID)) (\<lambda>(originBus, _).
      bindR (wrapErr (\<lambda>_. ErrInvalidMessage) (ParseMessageID (mg_ID m))) (\<lambda>(localBus, _).
      if originBus = localBus then Inl ErrInvalidMessage
      else if mg_OriginMessageID m \<noteq> [] \<and> mg_OriginMessageID m \<noteq> originMessageID then Inl ErrInvalidMessage
      else Inr (m\<lparr>mg_OriginMessageID := originMessageID\<rparr>))))"

definition validateOriginAttestation :: "attestation \<Rightarrow> string \<Rightarrow> store_error + unit" where
  "validateOriginAttestation a sender =
     bindR (wrapErr (\<lambda>_. ErrInvalidMessage) (attest_Canonicalize a)) (\<lambda>_.
     bindR (wrapErr (\<lambda>_. ErrInvalidMessage) (ValidateSignature (at_signature a))) (\<lambda>_.
     if at_agentID a \<noteq> sender then Inl ErrInvalidMessage else Inr ()))"

definition attestationIsZero :: "attestation \<Rightarrow> bool" where
  "attestationIsZero a \<longleftrightarrow> at_agentID a = [] \<and> length (at_messagingPublicKey a) = 0 \<and> at_keyEpoch a = 0 \<and>
     at_issuedAt a = 0 \<and> at_notAfter a = 0 \<and> length (at_signature a) = 0"

definition WithRelayOrigin :: "msg \<Rightarrow> string \<Rightarrow> attestation \<Rightarrow> store_error + msg" where
  "WithRelayOrigin m originMessageID originAttestation =
     bindR (WithOriginMessageID m originMessageID) (\<lambda>out.
     bindR (validateOriginAttestation originAttestation (mg_Sender m)) (\<lambda>_.
     Inr (out\<lparr>mg_OriginAttestation := originAttestation\<rparr>)))"

definition HasOriginAttestation :: "msg \<Rightarrow> bool" where
  "HasOriginAttestation m \<longleftrightarrow> \<not> attestationIsZero (mg_OriginAttestation m)"

definition VisibleTo :: "msg \<Rightarrow> string \<Rightarrow> time \<Rightarrow> bool" where
  "VisibleTo m agentID enrolledAt =
     (if agentID = [] \<or> agentID = mg_Sender m then False
      else if enrolledAt \<noteq> 0 \<and> mg_SentAt m < enrolledAt then False
      else if mg_Broadcast m then True
      else list_ex (\<lambda>r. r = agentID) (mg_Recipients m))"

definition ContentHash :: "bytes \<Rightarrow> string" where "ContentHash body = hex_encode (sha256 body)"

definition LocalBusPath :: "string \<Rightarrow> string list" where "LocalBusPath busID = [busID]"

text \<open>The loop over the hops, in \<^verbatim>\<open>NewMessageWithBusPath\<close> and in \<^verbatim>\<open>Decode\<close>.\<close>

fun check_hops :: "string list \<Rightarrow> store_error + unit" where
  "check_hops [] = Inr ()"
| "check_hops (b # rest) =
     bindR (wrapErr (\<lambda>_. ErrInvalidMessage) (ValidateBusID b)) (\<lambda>_. check_hops rest)"

definition NewMessageWithBusPath ::
  "string \<Rightarrow> string \<Rightarrow> bool \<Rightarrow> string list \<Rightarrow> u64 \<Rightarrow> time \<Rightarrow> bytes \<Rightarrow> string \<Rightarrow> u64 \<Rightarrow> bytes \<Rightarrow> string list \<Rightarrow>
     store_error + msg" where
  "NewMessageWithBusPath busID sender broadcast recipients sq sentAt body idempotencyKey ts sig busPath =
     bindR (wrapErr (\<lambda>_. ErrInvalidMessage) (MessageID busID sq)) (\<lambda>mid.
     if MaxBodyBytes < length body then Inl ErrInvalidMessage
     else if MaxRecipients < length recipients then Inl ErrInvalidMessage
     else if sint ts \<le> 0 then Inl ErrInvalidMessage
     else if length sig \<noteq> SignatureSize then Inl ErrInvalidMessage
     else if length busPath = 0 then Inl ErrInvalidMessage
     else if MaxBusPath < length busPath then Inl ErrInvalidMessage
     else bindR (check_hops busPath) (\<lambda>_.
     if last busPath \<noteq> busID then Inl ErrInvalidMessage
     else Inr \<lparr>mg_Seq = sq, mg_Pos = 0, mg_ID = mid, mg_OriginMessageID = [],
       mg_OriginAttestation = zero_attestation, mg_Sender = sender, mg_Broadcast = broadcast,
       mg_Recipients = recipients, mg_BusPath = busPath, mg_SentAt = sentAt, mg_Body = body,
       mg_ContentSHA256 = ContentHash body, mg_IdempotencyKey = idempotencyKey,
       mg_TimestampUnixMilli = ts, mg_Signature = sig\<rparr>))"

definition NewMessage ::
  "string \<Rightarrow> string \<Rightarrow> bool \<Rightarrow> string list \<Rightarrow> u64 \<Rightarrow> time \<Rightarrow> bytes \<Rightarrow> string \<Rightarrow> u64 \<Rightarrow> bytes \<Rightarrow> store_error + msg" where
  "NewMessage busID sender broadcast recipients sq sentAt body idempotencyKey ts sig =
     NewMessageWithBusPath busID sender broadcast recipients sq sentAt body idempotencyKey ts sig
       (LocalBusPath busID)"

definition SigningMessage :: "msg \<Rightarrow> message" where
  "SigningMessage m = \<lparr>m_messageID = mg_ID m, m_sequence = mg_Seq m, m_sender = mg_Sender m,
     m_recipients = mg_Recipients m, m_timestamp = mg_TimestampUnixMilli m, m_body = mg_Body m\<rparr>"

section \<open>Records\<close>

record msg_record =
  rd_V :: int
  rd_MessageID :: string
  rd_Seq :: u64
  rd_Sender :: string
  rd_Broadcast :: bool
  rd_Recipients :: "string list"
  rd_BusPath :: "string list"
  rd_SentAtUnixNs :: u64
  rd_Size :: int
  rd_ContentSHA256 :: string
  rd_OriginMessageID :: string
  rd_OriginAttestation :: "attestation option"
  rd_IdempotencyKey :: string
  rd_TimestampUnixMilli :: u64
  rd_Signature :: bytes
  rd_Body :: bytes

definition originAttestationRecord :: "attestation \<Rightarrow> attestation option" where
  "originAttestationRecord a = (if attestationIsZero a then None else Some a)"

definition decodedOriginAttestation :: "attestation option \<Rightarrow> attestation" where
  "decodedOriginAttestation a = (case a of None \<Rightarrow> zero_attestation | Some x \<Rightarrow> x)"

text \<open>\<^verbatim>\<open>UnixNano\<close> counts nanoseconds from 1970 modulo 64 bits; \<^verbatim>\<open>time.Unix(0, ns)\<close> reads them signed.\<close>

definition UnixNano :: "time \<Rightarrow> u64" where "UnixNano t = word_of_int (t - unixEpoch)"
definition unix_time :: "u64 \<Rightarrow> time" where "unix_time ns = unixEpoch + sint ns"

definition msg_Record :: "msg \<Rightarrow> msg_record" where
  "msg_Record m =
     \<lparr>rd_V = RecordVersion, rd_MessageID = mg_ID m, rd_Seq = mg_Seq m, rd_Sender = mg_Sender m,
      rd_Broadcast = mg_Broadcast m, rd_Recipients = mg_Recipients m, rd_BusPath = mg_BusPath m,
      rd_SentAtUnixNs = UnixNano (mg_SentAt m), rd_Size = int (length (mg_Body m)),
      rd_ContentSHA256 = mg_ContentSHA256 m, rd_OriginMessageID = mg_OriginMessageID m,
      rd_OriginAttestation = originAttestationRecord (mg_OriginAttestation m),
      rd_IdempotencyKey = mg_IdempotencyKey m, rd_TimestampUnixMilli = mg_TimestampUnixMilli m,
      rd_Signature = mg_Signature m, rd_Body = mg_Body m\<rparr>"

fun check_agents :: "string list \<Rightarrow> store_error + unit" where
  "check_agents [] = Inr ()"
| "check_agents (r # rest) =
     bindR (wrapErr (\<lambda>_. ErrInvalidMessage) (ParseAgentID r)) (\<lambda>_. check_agents rest)"

text \<open>The origin members of a record (\<^verbatim>\<open>Decode\<close>).\<close>

definition check_origin :: "string \<Rightarrow> msg_record \<Rightarrow> store_error + unit" where
  "check_origin busID rc =
     bindR (if rd_OriginMessageID rc = [] then Inr () else
            bindR (wrapErr (\<lambda>_. ErrInvalidMessage) (ParseMessageID (rd_OriginMessageID rc))) (\<lambda>(originBus, _).
            if originBus = busID then Inl ErrInvalidMessage else Inr ())) (\<lambda>_.
     case rd_OriginAttestation rc of
       None \<Rightarrow> Inr ()
     | Some a \<Rightarrow>
         if rd_OriginMessageID rc = [] then Inl ErrInvalidMessage
         else validateOriginAttestation a (rd_Sender rc))"

definition msg_Decode :: "msg_record \<Rightarrow> store_error + msg" where
  "msg_Decode rc =
     (if rd_V rc \<noteq> RecordVersion then Inl ErrInvalidMessage
      else if rd_Seq rc = 0 then Inl ErrInvalidMessage
      else bindR (wrapErr (\<lambda>_. ErrInvalidMessage) (ParseMessageID (rd_MessageID rc))) (\<lambda>(busID, sq).
      if sq \<noteq> rd_Seq rc then Inl ErrInvalidMessage
      else bindR (wrapErr (\<lambda>_. ErrInvalidMessage) (ParseAgentID (rd_Sender rc))) (\<lambda>_.
      if MaxRecipients < length (rd_Recipients rc) then Inl ErrInvalidMessage
      else bindR (check_agents (rd_Recipients rc)) (\<lambda>_.
      if rd_Broadcast rc \<and> length (rd_Recipients rc) \<noteq> 0 then Inl ErrInvalidMessage
      else if \<not> rd_Broadcast rc \<and> length (rd_Recipients rc) = 0 then Inl ErrInvalidMessage
      else if MaxBodyBytes < length (rd_Body rc) then Inl ErrInvalidMessage
      else if rd_Size rc \<noteq> int (length (rd_Body rc)) then Inl ErrInvalidMessage
      else if ContentHash (rd_Body rc) \<noteq> rd_ContentSHA256 rc then Inl ErrInvalidMessage
      else if MaxIdempotencyKeyLen < length (rd_IdempotencyKey rc) then Inl ErrInvalidMessage
      else bindR (check_origin busID rc) (\<lambda>_.
      if MaxBusPath < length (rd_BusPath rc) then Inl ErrInvalidMessage
      else bindR (check_hops (rd_BusPath rc)) (\<lambda>_.
      if sint (rd_TimestampUnixMilli rc) \<le> 0 then Inl ErrInvalidMessage
      else if length (rd_Signature rc) \<noteq> SignatureSize then Inl ErrInvalidMessage
      else let busPath = (if length (rd_BusPath rc) = 0 then LocalBusPath busID else rd_BusPath rc) in
      Inr \<lparr>mg_Seq = rd_Seq rc, mg_Pos = 0, mg_ID = rd_MessageID rc,
        mg_OriginMessageID = rd_OriginMessageID rc,
        mg_OriginAttestation = decodedOriginAttestation (rd_OriginAttestation rc),
        mg_Sender = rd_Sender rc, mg_Broadcast = rd_Broadcast rc, mg_Recipients = rd_Recipients rc,
        mg_BusPath = busPath, mg_SentAt = unix_time (rd_SentAtUnixNs rc), mg_Body = rd_Body rc,
        mg_ContentSHA256 = rd_ContentSHA256 rc, mg_IdempotencyKey = rd_IdempotencyKey rc,
        mg_TimestampUnixMilli = rd_TimestampUnixMilli rc, mg_Signature = rd_Signature rc\<rparr>))))))"


section \<open>What the checks establish\<close>

lemma check_hops_ok [res]: "check_hops bs = Inr u \<longleftrightarrow> list_all bus_id_matches bs"
  by (induction bs) (auto simp: res)

lemma check_agents_ok [res]: "check_agents rs = Inr u \<longleftrightarrow> list_all (\<lambda>r. is_ok (ParseAgentID r)) rs"
  by (induction rs) (auto simp: res is_ok_iff)

lemma validateOriginAttestation_ok [res]:
  "validateOriginAttestation a s = Inr u \<longleftrightarrow>
     is_ok (attest_Canonicalize a) \<and> length (at_signature a) = SignatureSize \<and> at_agentID a = s"
  by (auto simp: validateOriginAttestation_def res is_ok_iff ValidateSignature_def SignatureSize_def)

lemma attestationIsZero_iff: "attestationIsZero a \<longleftrightarrow> a = zero_attestation"
  by (cases a) (auto simp: attestationIsZero_def zero_attestation_def)

lemma decoded_record [simp]: "decodedOriginAttestation (originAttestationRecord a) = a"
  by (auto simp: decodedOriginAttestation_def originAttestationRecord_def attestationIsZero_iff)

lemma ParseAgentID_Nil [simp]: "ParseAgentID [] = Inl NoBusSeparator"
  by (simp add: ParseAgentID_def MaxAgentIDLen_def)

definition int64_range :: "int \<Rightarrow> bool" where "int64_range i \<longleftrightarrow> - (2 ^ 63) \<le> i \<and> i < 2 ^ 63"

lemma sint_word_of_int: "int64_range k \<Longrightarrow> sint (word_of_int k :: u64) = k"
  by (simp add: int64_range_def signed_of_int signed_take_bit_int_eq_self)

lemma unix_time_UnixNano: "int64_range (t - unixEpoch) \<Longrightarrow> unix_time (UnixNano t) = t"
  unfolding unix_time_def UnixNano_def by (simp only: sint_word_of_int)

lemma UnixNano_unix_time [simp]: "UnixNano (unix_time n) = n"
  by (simp add: unix_time_def UnixNano_def)

text \<open>The messages that survive a restart as they are.\<close>

definition origin_ok :: "string \<Rightarrow> msg \<Rightarrow> bool" where
  "origin_ok bus m \<longleftrightarrow>
     (mg_OriginMessageID m \<noteq> [] \<longrightarrow>
        (\<exists>b n. ParseMessageID (mg_OriginMessageID m) = Inr (b, n) \<and> b \<noteq> bus)) \<and>
     (mg_OriginAttestation m \<noteq> zero_attestation \<longrightarrow> mg_OriginMessageID m \<noteq> [] \<and>
        validateOriginAttestation (mg_OriginAttestation m) (mg_Sender m) = Inr ())"

definition addressing_ok :: "string \<Rightarrow> bool \<Rightarrow> string list \<Rightarrow> string \<Rightarrow> bool" where
  "addressing_ok sender broadcast recipients key \<longleftrightarrow>
     is_ok (ParseAgentID sender) \<and> list_all (\<lambda>r. is_ok (ParseAgentID r)) recipients \<and>
     broadcast = (recipients = []) \<and> length key \<le> MaxIdempotencyKeyLen"

definition msg_ok :: "msg \<Rightarrow> bool" where
  "msg_ok m \<longleftrightarrow>
     mg_Pos m = 0 \<and> mg_Seq m \<noteq> 0 \<and>
     (\<exists>bus. ParseMessageID (mg_ID m) = Inr (bus, mg_Seq m) \<and> origin_ok bus m) \<and>
     addressing_ok (mg_Sender m) (mg_Broadcast m) (mg_Recipients m) (mg_IdempotencyKey m) \<and>
     length (mg_Recipients m) \<le> MaxRecipients \<and> length (mg_Body m) \<le> MaxBodyBytes \<and>
     mg_ContentSHA256 m = ContentHash (mg_Body m) \<and>
     mg_BusPath m \<noteq> [] \<and> length (mg_BusPath m) \<le> MaxBusPath \<and> list_all bus_id_matches (mg_BusPath m) \<and>
     0 < sint (mg_TimestampUnixMilli m) \<and> length (mg_Signature m) = SignatureSize \<and>
     int64_range (mg_SentAt m - unixEpoch)"

lemma msg_Record_sel [simp]:
  "rd_V (msg_Record m) = RecordVersion" "rd_MessageID (msg_Record m) = mg_ID m"
  "rd_Seq (msg_Record m) = mg_Seq m" "rd_Sender (msg_Record m) = mg_Sender m"
  "rd_Broadcast (msg_Record m) = mg_Broadcast m" "rd_Recipients (msg_Record m) = mg_Recipients m"
  "rd_BusPath (msg_Record m) = mg_BusPath m" "rd_SentAtUnixNs (msg_Record m) = UnixNano (mg_SentAt m)"
  "rd_Size (msg_Record m) = int (length (mg_Body m))" "rd_ContentSHA256 (msg_Record m) = mg_ContentSHA256 m"
  "rd_OriginMessageID (msg_Record m) = mg_OriginMessageID m"
  "rd_OriginAttestation (msg_Record m) = originAttestationRecord (mg_OriginAttestation m)"
  "rd_IdempotencyKey (msg_Record m) = mg_IdempotencyKey m"
  "rd_TimestampUnixMilli (msg_Record m) = mg_TimestampUnixMilli m"
  "rd_Signature (msg_Record m) = mg_Signature m" "rd_Body (msg_Record m) = mg_Body m"
  by (simp_all add: msg_Record_def)

lemma check_origin_ok:
  "check_origin bus (msg_Record m) = Inr () \<longleftrightarrow> origin_ok bus m"
  by (auto simp: check_origin_def res origin_ok_def originAttestationRecord_def
      attestationIsZero_iff split: option.splits)

lemma decode_record:
  assumes "msg_ok m"
  shows "msg_Decode (msg_Record m) = Inr m"
proof -
  obtain bus where bus: "ParseMessageID (mg_ID m) = Inr (bus, mg_Seq m)" "origin_ok bus m"
    using assms by (auto simp: msg_ok_def)
  have o: "check_origin bus (msg_Record m) = Inr ()" using bus(2) by (simp add: check_origin_ok)
  have h: "check_hops (mg_BusPath m) = Inr ()" "check_agents (mg_Recipients m) = Inr ()"
    using assms by (simp_all add: res msg_ok_def addressing_ok_def)
  obtain x where x: "ParseAgentID (mg_Sender m) = Inr x"
    using assms by (auto simp: msg_ok_def addressing_ok_def is_ok_iff)
  show ?thesis
    using assms by (auto simp: msg_Decode_def msg_ok_def addressing_ok_def bus(1) h x o Let_def unix_time_UnixNano
        intro!: msg.equality)
qed


lemma decoded_ok:
  assumes "msg_Decode rc = Inr m"
  shows "msg_ok m"
proof -
  obtain bus x where d: "rd_V rc = RecordVersion" "rd_Seq rc \<noteq> 0" "ParseMessageID (rd_MessageID rc) = Inr (bus, rd_Seq rc)"
    "ParseAgentID (rd_Sender rc) = Inr x" "length (rd_Recipients rc) \<le> MaxRecipients"
    "check_agents (rd_Recipients rc) = Inr ()" "rd_Broadcast rc = (rd_Recipients rc = [])"
    "length (rd_Body rc) \<le> MaxBodyBytes" "rd_Size rc = int (length (rd_Body rc))"
    "ContentHash (rd_Body rc) = rd_ContentSHA256 rc" "length (rd_IdempotencyKey rc) \<le> MaxIdempotencyKeyLen"
    "check_origin bus rc = Inr ()" "length (rd_BusPath rc) \<le> MaxBusPath" "check_hops (rd_BusPath rc) = Inr ()"
    "0 < sint (rd_TimestampUnixMilli rc)" "length (rd_Signature rc) = SignatureSize"
    using assms unfolding msg_Decode_def Let_def
    by (simp only: bindR_eq_Inr wrapErr_eq_Inr if_Inl_eq_Inr) (auto simp: not_less bindR_eq_Inr if_Inl_eq_Inr wrapErr_eq_Inr)
  have m: "m = \<lparr>mg_Seq = rd_Seq rc, mg_Pos = 0, mg_ID = rd_MessageID rc,
        mg_OriginMessageID = rd_OriginMessageID rc,
        mg_OriginAttestation = decodedOriginAttestation (rd_OriginAttestation rc),
        mg_Sender = rd_Sender rc, mg_Broadcast = rd_Broadcast rc, mg_Recipients = rd_Recipients rc,
        mg_BusPath = (if length (rd_BusPath rc) = 0 then LocalBusPath bus else rd_BusPath rc),
        mg_SentAt = unix_time (rd_SentAtUnixNs rc), mg_Body = rd_Body rc,
        mg_ContentSHA256 = rd_ContentSHA256 rc, mg_IdempotencyKey = rd_IdempotencyKey rc,
        mg_TimestampUnixMilli = rd_TimestampUnixMilli rc, mg_Signature = rd_Signature rc\<rparr>"
    using assms d by (simp add: msg_Decode_def Let_def)
  have org: "origin_ok bus m"
    using d(12) by (auto simp: m origin_ok_def check_origin_def decodedOriginAttestation_def bindR_eq_Inr
        wrapErr_eq_Inr if_Inl_eq_Inr split: option.splits if_splits)
  have path: "mg_BusPath m \<noteq> [] \<and> length (mg_BusPath m) \<le> MaxBusPath \<and> list_all bus_id_matches (mg_BusPath m)"
    using d(3,13,14) by (auto simp: m LocalBusPath_def check_hops_ok ParseMessageID_iff MessageID_ok_iff MaxBusPath_def)
  have rng: "int64_range (unix_time n - unixEpoch)" for n
    using sint_greater_eq [of n] sint_less [of n] by (simp add: unix_time_def int64_range_def)
  show ?thesis
    using d org path rng by (simp add: m msg_ok_def addressing_ok_def is_ok_iff check_agents_ok)
qed

lemma new_message_ok:
  assumes "NewMessageWithBusPath bus sender bc rs sq t body key ts sig path = Inr m"
    and "addressing_ok sender bc rs key" "int64_range (t - unixEpoch)"
  shows "msg_ok m \<and> mg_OriginMessageID m = [] \<and> mg_ID m \<noteq> []"
  using assms
  by (auto simp: NewMessageWithBusPath_def res msg_ok_def addressing_ok_def origin_ok_def ParseMessageID_iff
      MessageID_ok_iff messageIDSep_def)

lemma with_origin_ok:
  assumes "WithOriginMessageID m mid = Inr m'" "msg_ok m"
  shows "msg_ok m' \<and> mg_OriginMessageID m' = mid \<and> mg_Sender m' = mg_Sender m"
  using assms by (auto simp: WithOriginMessageID_def res msg_ok_def addressing_ok_def origin_ok_def split: if_splits)

lemma with_relay_origin_ok:
  assumes "WithRelayOrigin m mid a = Inr m'" "msg_ok m"
  shows "msg_ok m'"
proof -
  obtain n where n: "WithOriginMessageID m mid = Inr n" "validateOriginAttestation a (mg_Sender m) = Inr ()"
    "m' = n\<lparr>mg_OriginAttestation := a\<rparr>"
    using assms(1) by (auto simp: WithRelayOrigin_def res)
  have "msg_ok n" "mg_Sender n = mg_Sender m" "mg_OriginMessageID n = mid" "mid \<noteq> []"
    using with_origin_ok [OF n(1) assms(2)] n(1) by (auto simp: WithOriginMessageID_def res split: if_splits)
  then show ?thesis
    using n(2,3) by (auto simp: msg_ok_def origin_ok_def)
qed

text \<open>
  C37. A message survives a restart: what the hub builds for an addressed message with a clock
  in the range of 64-bit nanoseconds, given a relay origin or not, decodes from its record
  to the same message; only its delivery position is not part of the record.  Conversely every
  record that decodes gives a message whose own record decodes to it again, with the checked
  identifiers, body and path limits.
\<close>

theorem message_record_round_trip:
  assumes "addressing_ok sender bc rs key" "int64_range (t - unixEpoch)"
  shows "(\<forall>m. NewMessageWithBusPath bus sender bc rs sq t body key ts sig path = Inr m \<longrightarrow>
       msg_Decode (msg_Record m) = Inr m \<and>
       (\<forall>mid a m'. WithRelayOrigin m mid a = Inr m' \<longrightarrow> msg_Decode (msg_Record m') = Inr m')) \<and>
    (\<forall>rc m. msg_Decode rc = Inr m \<longrightarrow> msg_Decode (msg_Record m) = Inr m \<and>
       length (mg_Body m) \<le> MaxBodyBytes \<and> mg_ContentSHA256 m = ContentHash (mg_Body m) \<and>
       mg_BusPath m \<noteq> [] \<and> length (mg_BusPath m) \<le> MaxBusPath \<and>
       (\<exists>b. MessageID b (mg_Seq m) = Inr (mg_ID m)))"
proof (intro conjI allI impI)
  fix m assume m: "NewMessageWithBusPath bus sender bc rs sq t body key ts sig path = Inr m"
  have ok: "msg_ok m" using new_message_ok [OF m assms] by blast
  then show "msg_Decode (msg_Record m) = Inr m" by (rule decode_record)
  show "msg_Decode (msg_Record m') = Inr m'" if "WithRelayOrigin m mid a = Inr m'" for mid a m'
    by (rule decode_record [OF with_relay_origin_ok [OF that ok]])
next
  fix rc m assume m: "msg_Decode rc = Inr m"
  note ok = decoded_ok [OF m]
  show "msg_Decode (msg_Record m) = Inr m" by (rule decode_record [OF ok])
  show "length (mg_Body m) \<le> MaxBodyBytes" "mg_ContentSHA256 m = ContentHash (mg_Body m)"
    "mg_BusPath m \<noteq> []" "length (mg_BusPath m) \<le> MaxBusPath" "\<exists>b. MessageID b (mg_Seq m) = Inr (mg_ID m)"
    using ok by (auto simp: msg_ok_def ParseMessageID_iff)
qed

definition demo_sig :: bytes where "demo_sig = replicate 64 (CHR ''s'')"

lemma demo_msg_ids:
  "ParseAgentID ''b1.amy-1'' = Inr (''b1'', ''amy'', 1)"
  "ParseAgentID ''b2.bob-1'' = Inr (''b2'', ''bob'', 1)"
  "MessageID ''b1'' 7 = Inr ''b1-7''"
  "bus_id_matches ''b1''"
  by (simp_all add: ParseAgentID_iff AgentID_ok_iff MessageID_ok_iff bus_id_matches_def bus_id_char_def
      is_lower_def is_digit_def name_head_char_def name_tail_char_def agentIDSep_def agentSuffixSep_def
      messageIDSep_def FormatUint_def show_nat.simps)

theorem message_record_round_trip_witness:
  "\<exists>m. NewMessage ''b1'' ''b1.amy-1'' False [''b2.bob-1''] 7 (unixEpoch + 5) ''hi'' ''k1'' 9 demo_sig = Inr m \<and>
     mg_ID m = ''b1-7'' \<and> msg_Decode (msg_Record m) = Inr m"
proof -
  obtain m where m: "NewMessageWithBusPath ''b1'' ''b1.amy-1'' False [''b2.bob-1''] 7 (unixEpoch + 5) ''hi'' ''k1'' 9
      demo_sig [''b1''] = Inr m" "mg_ID m = ''b1-7''"
    by (simp add: NewMessageWithBusPath_def demo_msg_ids MaxBodyBytes_def MaxRecipients_def demo_sig_def
        SignatureSize_def MaxBusPath_def res)
  have "addressing_ok ''b1.amy-1'' False [''b2.bob-1''] ''k1''" "int64_range (unixEpoch + 5 - unixEpoch)"
    by (simp_all add: addressing_ok_def demo_msg_ids is_ok_iff MaxIdempotencyKeyLen_def int64_range_def)
  from message_record_round_trip [OF this] m show ?thesis
    by (auto simp: NewMessage_def LocalBusPath_def)
qed

end
