(* ===== verification/GoSort.thy ===== *)
theory GoSort
  imports Prelude
begin

text \<open>
  \<^verbatim>\<open>sort.Search\<close> of the Go library: binary search for the first index at which a predicate holds.
  On a list along which the predicate, once true, stays true, it splits the list into the
  elements before and the elements from that index on.
\<close>

function search_loop :: "(nat \<Rightarrow> bool) \<Rightarrow> nat \<Rightarrow> nat \<Rightarrow> nat" where
  "search_loop f i j =
     (if i < j
      then let h = (i + j) div 2 in if \<not> f h then search_loop f (h + 1) j else search_loop f i h
      else i)"
  by pat_completeness auto
termination
  by (relation "measure (\<lambda>(f, i, j). j - i)") auto

declare search_loop.simps [simp del]

lemma search_loop_eval:
  "\<not> i < j \<Longrightarrow> search_loop f i j = i"
  "i < j \<Longrightarrow> f ((i + j) div 2) \<Longrightarrow> search_loop f i j = search_loop f i ((i + j) div 2)"
  "i < j \<Longrightarrow> \<not> f ((i + j) div 2) \<Longrightarrow> search_loop f i j = search_loop f ((i + j) div 2 + 1) j"
  by (simp_all add: search_loop.simps [of f i j] Let_def)

definition sort_search :: "nat \<Rightarrow> (nat \<Rightarrow> bool) \<Rightarrow> nat" where
  "sort_search n f = search_loop f 0 n"

lemma search_loop_first:
  assumes "i \<le> k" "k \<le> j" "\<forall>x. i \<le> x \<and> x < k \<longrightarrow> \<not> f x" "\<forall>x. k \<le> x \<and> x < j \<longrightarrow> f x"
  shows "search_loop f i j = k"
  using assms
proof (induction f i j rule: search_loop.induct)
  case (1 f i j)
  let ?h = "(i + j) div 2"
  show ?case
  proof (cases "i < j")
    case True
    then have h: "i \<le> ?h" "?h < j" by auto
    show ?thesis
    proof (cases "f ?h")
      case False
      then have "?h < k" using 1(6) h(2) not_less by blast
      moreover from this have "search_loop f (?h + 1) j = k"
        using 1(3-6) h True False by (intro 1(1)) (auto simp: Suc_le_eq)
      ultimately show ?thesis using True False by (subst search_loop.simps) (simp add: Let_def)
    next
      case f: True
      then have "k \<le> ?h" using 1(5) h(1) not_less by blast
      then show ?thesis using 1 True f h by (subst search_loop.simps) (simp add: Let_def)
    qed
  next
    case False
    then show ?thesis using 1(3,4) by (subst search_loop.simps) simp
  qed
qed

lemma sort_search_takeWhile:
  assumes "sorted_wrt (\<lambda>x y. P x \<longrightarrow> P y) xs"
  shows "sort_search (length xs) (\<lambda>k. P (xs ! k)) = length (takeWhile (\<lambda>x. \<not> P x) xs)"
  unfolding sort_search_def
proof (rule search_loop_first)
  let ?k = "length (takeWhile (\<lambda>x. \<not> P x) xs)"
  show "?k \<le> length xs" by (rule length_takeWhile_le)
  show "\<forall>x. 0 \<le> x \<and> x < ?k \<longrightarrow> \<not> P (xs ! x)"
    by (metis nth_mem set_takeWhileD takeWhile_nth)
  show "\<forall>x. ?k \<le> x \<and> x < length xs \<longrightarrow> P (xs ! x)"
  proof (intro allI impI)
    fix x assume x: "?k \<le> x \<and> x < length xs"
    then have p: "P (xs ! ?k)" using nth_length_takeWhile [of "\<lambda>x. \<not> P x" xs] by simp
    show "P (xs ! x)"
    proof (cases "?k = x")
      case False
      then show ?thesis using sorted_wrt_nth_less [OF assms, of ?k x] x p by simp
    qed (use p in simp)
  qed
qed simp

lemma drop_sort_search:
  "sorted_wrt (\<lambda>x y. P x \<longrightarrow> P y) xs \<Longrightarrow>
     drop (sort_search (length xs) (\<lambda>k. P (xs ! k))) xs = dropWhile (\<lambda>x. \<not> P x) xs"
  by (simp add: sort_search_takeWhile dropWhile_eq_drop)

lemma take_sort_search:
  "sorted_wrt (\<lambda>x y. P x \<longrightarrow> P y) xs \<Longrightarrow>
     take (sort_search (length xs) (\<lambda>k. P (xs ! k))) xs = takeWhile (\<lambda>x. \<not> P x) xs"
  by (simp add: sort_search_takeWhile flip: takeWhile_eq_take)

lemma filter_sorted:
  "sorted_wrt (\<lambda>x y. P x \<longrightarrow> P y) xs \<Longrightarrow> dropWhile (\<lambda>x. \<not> P x) xs = filter P xs"
proof (induction xs)
  case (Cons x xs)
  show ?case
  proof (cases "P x")
    case True
    then have "filter P (x # xs) = x # xs" using Cons.prems by (intro filter_True) auto
    then show ?thesis using True by (simp only: dropWhile.simps simp_thms if_False)
  next
    case False
    then show ?thesis using Cons by simp
  qed
qed simp

end
