(* ===== verification/MessageStore.thy ===== *)
theory MessageStore
  imports Message GoSort Machine
begin

text \<open>
  The serving copy of the messages (\<^verbatim>\<open>internal/store/store.go\<close>): the retained messages in order of
  their delivery positions, the indices by sequence, by id and by origin id, retention by age
  and by size, and the paged read an agent polls with.

  The Go maps are partial functions.  Every operation takes the clock reading it starts with.
  Log lines are outside the model; the flag and the counters they go with are kept.
\<close>

definition DefaultMaxAge :: int where "DefaultMaxAge = 24 * 3600 * sec_ns"
definition DefaultMaxBytes :: int where "DefaultMaxBytes = 2 ^ 30"
definition MaxBatchBytes :: int where "MaxBatchBytes = 2 ^ 20"

record msg_store =
  ms_maxAge :: int
  ms_maxBytes :: int
  ms_msgs :: "msg list"
  ms_bySeq :: "u64 \<rightharpoonup> string"
  ms_byID :: "string \<rightharpoonup> u64"
  ms_byOrigin :: "string \<rightharpoonup> string"
  ms_bytes :: int
  ms_head :: u64
  ms_posHead :: u64
  ms_prunedPos :: u64
  ms_dropped :: u64
  ms_nonMonotonicPos :: u64
  ms_duplicateOriginIDs :: u64
  ms_duplicateOriginWarned :: bool

definition store_New :: "int \<Rightarrow> int \<Rightarrow> msg_store" where
  "store_New maxAge maxBytes =
     \<lparr>ms_maxAge = (if maxAge \<le> 0 then DefaultMaxAge else maxAge),
      ms_maxBytes = (if maxBytes \<le> 0 then DefaultMaxBytes else maxBytes),
      ms_msgs = [], ms_bySeq = Map.empty, ms_byID = Map.empty, ms_byOrigin = Map.empty, ms_bytes = 0,
      ms_head = 0, ms_posHead = 0, ms_prunedPos = 0, ms_dropped = 0, ms_nonMonotonicPos = 0,
      ms_duplicateOriginIDs = 0, ms_duplicateOriginWarned = False\<rparr>"

section \<open>Retention\<close>

text \<open>The two loops of \<^verbatim>\<open>pruneLocked\<close>: how many messages go, and the bytes left.\<close>

fun drop_old :: "time \<Rightarrow> int \<Rightarrow> msg list \<Rightarrow> nat \<times> int" where
  "drop_old cutoff bytes [] = (0, bytes)"
| "drop_old cutoff bytes (m # rest) =
     (if mg_SentAt m < cutoff
      then let (d, b) = drop_old cutoff (bytes - int (msg_Size m)) rest in (Suc d, b)
      else (0, bytes))"

fun drop_big :: "int \<Rightarrow> int \<Rightarrow> msg list \<Rightarrow> nat \<times> int" where
  "drop_big maxBytes bytes [] = (0, bytes)"
| "drop_big maxBytes bytes (m # rest) =
     (if maxBytes < bytes
      then let (d, b) = drop_big maxBytes (bytes - int (msg_Size m)) rest in (Suc d, b)
      else (0, bytes))"

definition unindex :: "msg_store \<Rightarrow> msg \<Rightarrow> msg_store" where
  "unindex s m =
     s\<lparr>ms_bySeq := (ms_bySeq s)(mg_Seq m := None), ms_byID := (ms_byID s)(mg_ID m := None),
       ms_byOrigin :=
         (if mg_OriginMessageID m \<noteq> [] \<and> ms_byOrigin s (mg_OriginMessageID m) = Some (mg_ID m)
          then (ms_byOrigin s)(mg_OriginMessageID m := None) else ms_byOrigin s)\<rparr>"

definition pruneLocked :: "time \<Rightarrow> msg_store \<Rightarrow> msg_store" where
  "pruneLocked now s =
     (if ms_msgs s = [] then s
      else let cutoff = now - ms_maxAge s;
               (d1, b1) = drop_old cutoff (ms_bytes s) (ms_msgs s);
               (d2, b2) = drop_big (ms_maxBytes s) b1 (drop d1 (ms_msgs s));
               n = d1 + d2
      in if n = 0 then s
         else let s1 = foldl unindex (s\<lparr>ms_bytes := b2, ms_dropped := ms_dropped s + of_nat n\<rparr>)
                         (take n (ms_msgs s));
                  lastPos = mg_Pos (ms_msgs s ! (n - 1))
         in s1\<lparr>ms_prunedPos := (if ms_prunedPos s < lastPos then lastPos else ms_prunedPos s),
               ms_msgs := drop n (ms_msgs s)\<rparr>)"

section \<open>Appending\<close>

definition index_origin :: "msg \<Rightarrow> msg_store \<Rightarrow> msg_store" where
  "index_origin m s =
     (if mg_OriginMessageID m = [] then s
      else let s1 = (case ms_byOrigin s (mg_OriginMessageID m) of
                       Some prev \<Rightarrow>
                         if prev \<noteq> mg_ID m
                         then s\<lparr>ms_duplicateOriginIDs := ms_duplicateOriginIDs s + 1,
                                ms_duplicateOriginWarned := True\<rparr>
                         else s
                     | None \<Rightarrow> s)
           in s1\<lparr>ms_byOrigin := (ms_byOrigin s1)(mg_OriginMessageID m \<mapsto> mg_ID m)\<rparr>)"

text \<open>The retained list with the message in its place: at the end, or where the search puts it.\<close>

definition place :: "msg \<Rightarrow> msg_store \<Rightarrow> msg_store" where
  "place m s =
     (if ms_posHead s < mg_Pos m then s\<lparr>ms_msgs := ms_msgs s @ [m]\<rparr>
      else let i = sort_search (length (ms_msgs s)) (\<lambda>k. mg_Pos m \<le> mg_Pos (ms_msgs s ! k))
           in s\<lparr>ms_nonMonotonicPos := ms_nonMonotonicPos s + 1,
                ms_msgs := take i (ms_msgs s) @ m # drop i (ms_msgs s)\<rparr>)"

definition store_Append :: "time \<Rightarrow> msg \<Rightarrow> msg_store \<Rightarrow> (store_error + unit) \<times> msg_store" where
  "store_Append now m s =
     (if mg_Seq m = 0 then (Inl ErrInvalidMessage, s)
      else if mg_Pos m = 0 then (Inl ErrInvalidMessage, s)
      else if ms_bySeq s (mg_Seq m) \<noteq> None then (Inl ErrDuplicateSequence, s)
      else let s1 = place m s;
               s2 = s1\<lparr>ms_bySeq := (ms_bySeq s1)(mg_Seq m \<mapsto> mg_ID m),
                       ms_byID := (ms_byID s1)(mg_ID m \<mapsto> mg_Pos m)\<rparr>;
               s3 = index_origin m s2;
               s4 = s3\<lparr>ms_bytes := ms_bytes s3 + int (msg_Size m),
                       ms_head := (if ms_head s3 < mg_Seq m then mg_Seq m else ms_head s3),
                       ms_posHead := (if ms_posHead s3 < mg_Pos m then mg_Pos m else ms_posHead s3)\<rparr>
           in (Inr (), pruneLocked now s4))"

section \<open>Lookups\<close>

fun scan_pos :: "u64 \<Rightarrow> string \<Rightarrow> msg list \<Rightarrow> msg option" where
  "scan_pos pos mid [] = None"
| "scan_pos pos mid (m # rest) =
     (if mg_Pos m = pos then (if mg_ID m = mid then Some m else scan_pos pos mid rest) else None)"

definition byIDLocked :: "msg_store \<Rightarrow> string \<Rightarrow> msg option" where
  "byIDLocked s mid =
     (case ms_byID s mid of
        None \<Rightarrow> None
      | Some pos \<Rightarrow>
          scan_pos pos mid
            (drop (sort_search (length (ms_msgs s)) (\<lambda>k. pos \<le> mg_Pos (ms_msgs s ! k))) (ms_msgs s)))"

definition ByID :: "time \<Rightarrow> string \<Rightarrow> msg_store \<Rightarrow> msg option \<times> msg_store" where
  "ByID now mid s = (let s1 = pruneLocked now s in (byIDLocked s1 mid, s1))"

definition ByOriginMessageID :: "time \<Rightarrow> string \<Rightarrow> msg_store \<Rightarrow> msg option \<times> msg_store" where
  "ByOriginMessageID now oid s =
     (let s1 = pruneLocked now s in
      (case ms_byOrigin s1 oid of
         Some local \<Rightarrow> (byIDLocked s1 local, s1)
       | None \<Rightarrow> (byIDLocked s1 oid, s1)))"

definition store_Stats :: "msg_store \<Rightarrow> nat \<times> int \<times> u64 \<times> u64 \<times> u64" where
  "store_Stats s =
     (length (ms_msgs s), ms_bytes s, (case ms_msgs s of [] \<Rightarrow> 0 | m # _ \<Rightarrow> mg_Seq m), ms_head s, ms_dropped s)"

section \<open>Reading\<close>

fun since_loop ::
  "string \<Rightarrow> time \<Rightarrow> int \<Rightarrow> msg list \<Rightarrow> int \<Rightarrow> u64 \<Rightarrow> msg list \<Rightarrow> msg list \<times> u64 \<times> bool" where
  "since_loop agentID enrolledAt limit batch bytes nxt [] = (batch, nxt, False)"
| "since_loop agentID enrolledAt limit batch bytes nxt (m # rest) =
     (if \<not> VisibleTo m agentID enrolledAt then since_loop agentID enrolledAt limit batch bytes nxt rest
      else if batch \<noteq> [] \<and> (int (length batch) = limit \<or> MaxBatchBytes < bytes + int (msg_Size m))
      then (batch, nxt, True)
      else since_loop agentID enrolledAt limit (batch @ [m]) (bytes + int (msg_Size m)) (mg_Pos m) rest)"

definition Since ::
  "time \<Rightarrow> string \<Rightarrow> time \<Rightarrow> u64 \<Rightarrow> int \<Rightarrow> msg_store \<Rightarrow> (msg list \<times> u64 \<times> bool) \<times> msg_store" where
  "Since now agentID enrolledAt after limit s =
     (if limit \<le> 0 then (([], after, False), s)
      else let s1 = pruneLocked now s;
               i = sort_search (length (ms_msgs s1)) (\<lambda>k. after < mg_Pos (ms_msgs s1 ! k))
           in (since_loop agentID enrolledAt limit [] 0 after (drop i (ms_msgs s1)), s1))"

definition HasVisibleAfter :: "string \<Rightarrow> time \<Rightarrow> u64 \<Rightarrow> msg_store \<Rightarrow> bool" where
  "HasVisibleAfter agentID enrolledAt after s =
     list_ex (\<lambda>m. VisibleTo m agentID enrolledAt)
       (drop (sort_search (length (ms_msgs s)) (\<lambda>k. after < mg_Pos (ms_msgs s ! k))) (ms_msgs s))"


section \<open>Index entries of a list of messages\<close>

abbreviation total_size :: "msg list \<Rightarrow> int" where
  "total_size ms \<equiv> int (sum_list (map msg_Size ms))"

text \<open>The id a message carries names its sequence number.\<close>

definition id_ok :: "msg \<Rightarrow> bool" where
  "id_ok m \<longleftrightarrow> (\<exists>bus. MessageID bus (mg_Seq m) = Inr (mg_ID m))"

lemma id_ok_seq: "id_ok m \<Longrightarrow> id_ok m' \<Longrightarrow> mg_ID m = mg_ID m' \<Longrightarrow> mg_Seq m = mg_Seq m'"
  unfolding id_ok_def by (metis ParseMessageID_iff Inr_inject Pair_inject)

lemma id_ok_nonzero: "id_ok m \<Longrightarrow> mg_Seq m \<noteq> 0"
  by (auto simp: id_ok_def MessageID_ok_iff)

definition idx_inv :: "msg_store \<Rightarrow> msg list \<Rightarrow> bool" where
  "idx_inv s ms \<longleftrightarrow>
     ms_bySeq s = map_of (map (\<lambda>m. (mg_Seq m, mg_ID m)) ms) \<and>
     ms_byID s = map_of (map (\<lambda>m. (mg_ID m, mg_Pos m)) ms) \<and>
     distinct (map mg_Seq ms) \<and> list_all id_ok ms \<and>
     (\<forall>oid mid. ms_byOrigin s oid = Some mid \<longrightarrow>
        oid \<noteq> [] \<and> (\<exists>m\<in>set ms. mg_ID m = mid \<and> mg_OriginMessageID m = oid))"

lemma idx_inv_distinct_ids: "idx_inv s ms \<Longrightarrow> distinct (map mg_ID ms)"
  unfolding idx_inv_def distinct_map list_all_iff inj_on_def by (metis id_ok_seq)

lemma unindex_other [simp]:
  "ms_msgs (unindex s m) = ms_msgs s" "ms_bytes (unindex s m) = ms_bytes s"
  "ms_maxBytes (unindex s m) = ms_maxBytes s" "ms_maxAge (unindex s m) = ms_maxAge s"
  "ms_head (unindex s m) = ms_head s" "ms_posHead (unindex s m) = ms_posHead s"
  "ms_prunedPos (unindex s m) = ms_prunedPos s"
  by (simp_all add: unindex_def)

lemma foldl_unindex_other [simp]:
  "ms_msgs (foldl unindex s ms) = ms_msgs s" "ms_bytes (foldl unindex s ms) = ms_bytes s"
  "ms_maxBytes (foldl unindex s ms) = ms_maxBytes s" "ms_maxAge (foldl unindex s ms) = ms_maxAge s"
  "ms_head (foldl unindex s ms) = ms_head s" "ms_posHead (foldl unindex s ms) = ms_posHead s"
  "ms_prunedPos (foldl unindex s ms) = ms_prunedPos s"
  by (induction ms arbitrary: s) simp_all

lemma map_of_tl: "k \<notin> fst ` set xs \<Longrightarrow> (map_of ((k, v) # xs))(k := None) = map_of xs"
  by (auto simp: fun_eq_iff map_of_eq_None_iff [THEN iffD2])

lemma idx_inv_unindex:
  assumes "idx_inv s (m # ms)"
  shows "idx_inv (unindex s m) ms"
proof -
  have d: "mg_Seq m \<notin> set (map mg_Seq ms)" "mg_ID m \<notin> set (map mg_ID ms)"
    using assms idx_inv_distinct_ids [OF assms] by (auto simp: idx_inv_def)
  have f: "mg_Seq m \<notin> fst ` set (map (\<lambda>m. (mg_Seq m, mg_ID m)) ms)"
    "mg_ID m \<notin> fst ` set (map (\<lambda>m. (mg_ID m, mg_Pos m)) ms)"
    using d by auto
  have "(ms_bySeq s)(mg_Seq m := None) = map_of (map (\<lambda>m. (mg_Seq m, mg_ID m)) ms)"
    using assms map_of_tl [OF f(1), of "mg_ID m"] by (simp add: idx_inv_def)
  moreover have "(ms_byID s)(mg_ID m := None) = map_of (map (\<lambda>m. (mg_ID m, mg_Pos m)) ms)"
    using assms map_of_tl [OF f(2), of "mg_Pos m"] by (simp add: idx_inv_def)
  ultimately show ?thesis
    using assms by (fastforce simp: idx_inv_def unindex_def split: if_splits)
qed

lemma idx_inv_foldl: "idx_inv s (xs @ ys) \<Longrightarrow> idx_inv (foldl unindex s xs) ys"
  by (induction xs arbitrary: s) (simp_all add: idx_inv_unindex)

lemma idx_inv_cong:
  "idx_inv s ms \<Longrightarrow> ms_bySeq s' = ms_bySeq s \<Longrightarrow> ms_byID s' = ms_byID s \<Longrightarrow> ms_byOrigin s' = ms_byOrigin s \<Longrightarrow>
     idx_inv s' ms"
  by (simp add: idx_inv_def)

section \<open>What pruning does\<close>

lemma drop_old_spec:
  "drop_old c b ms = (length (takeWhile (\<lambda>m. mg_SentAt m < c) ms),
     b - total_size (takeWhile (\<lambda>m. mg_SentAt m < c) ms))"
  by (induction c b ms rule: drop_old.induct) auto

lemma drop_big_spec:
  "drop_big mx b ms = (d, b') \<Longrightarrow>
     d \<le> length ms \<and> b' = b - total_size (take d ms) \<and> (d = length ms \<or> b' \<le> mx)"
proof (induction mx b ms arbitrary: d b' rule: drop_big.induct)
  case (2 mx b m rest)
  show ?case
  proof (cases "mx < b")
    case True
    then obtain d0 where d: "drop_big mx (b - int (msg_Size m)) rest = (d0, b')" "d = Suc d0"
      using 2(2) by (auto split: prod.splits)
    show ?thesis using 2(1) [OF True d(1)] d(2) by auto
  qed (use 2 in auto)
qed auto

definition pruned_by :: "nat \<Rightarrow> msg_store \<Rightarrow> msg_store \<Rightarrow> bool" where
  "pruned_by n s s' \<longleftrightarrow> n \<le> length (ms_msgs s) \<and> ms_msgs s' = drop n (ms_msgs s) \<and>
     ms_maxBytes s' = ms_maxBytes s \<and> ms_maxAge s' = ms_maxAge s \<and> ms_head s' = ms_head s \<and>
     ms_posHead s' = ms_posHead s \<and>
     ms_bytes s' = ms_bytes s - total_size (take n (ms_msgs s)) \<and>
     (ms_bytes s' \<le> ms_maxBytes s \<or> n = length (ms_msgs s)) \<and>
     (idx_inv s (ms_msgs s) \<longrightarrow> idx_inv s' (ms_msgs s')) \<and>
     ms_byOrigin s' = ms_byOrigin (foldl unindex s (take n (ms_msgs s))) \<and>
     (ms_prunedPos s' = (if n = 0 then ms_prunedPos s
        else max (ms_prunedPos s) (mg_Pos (ms_msgs s ! (n - 1)))))"

lemma foldl_unindex_byOrigin:
  "ms_byOrigin s = ms_byOrigin s' \<Longrightarrow> ms_byOrigin (foldl unindex s ms) = ms_byOrigin (foldl unindex s' ms)"
proof (induction ms arbitrary: s s')
  case (Cons m ms)
  have "ms_byOrigin (unindex s m) = ms_byOrigin (unindex s' m)" using Cons.prems by (simp add: unindex_def)
  then show ?case unfolding foldl_Cons by (rule Cons.IH)
qed simp

lemma prune_spec:
  obtains n where "pruned_by n s (pruneLocked now s)"
    "length (takeWhile (\<lambda>m. mg_SentAt m < now - ms_maxAge s) (ms_msgs s)) \<le> n"
proof (cases "ms_msgs s = []")
  case True
  show ?thesis using that [of 0] True by (simp add: pruned_by_def pruneLocked_def)
next
  case False
  let ?old = "takeWhile (\<lambda>m. mg_SentAt m < now - ms_maxAge s) (ms_msgs s)"
  obtain d2 b2 where b2: "drop_big (ms_maxBytes s) (ms_bytes s - total_size ?old) (drop (length ?old) (ms_msgs s)) = (d2, b2)"
    by fastforce
  let ?n = "length ?old + d2"
  have old: "?old = take (length ?old) (ms_msgs s)" by (rule takeWhile_eq_take)
  have d2: "d2 \<le> length (ms_msgs s) - length ?old" "d2 = length (ms_msgs s) - length ?old \<or> b2 \<le> ms_maxBytes s"
    "b2 = ms_bytes s - total_size (take ?n (ms_msgs s))"
    using drop_big_spec [OF b2] by (auto simp: take_add old [symmetric])
  have le: "?n \<le> length (ms_msgs s)" using d2(1) length_takeWhile_le [of "\<lambda>m. mg_SentAt m < now - ms_maxAge s" "ms_msgs s"]
    by linarith
  let ?s0 = "s\<lparr>ms_bytes := b2, ms_dropped := ms_dropped s + of_nat ?n\<rparr>"
  have p: "pruneLocked now s = (if ?n = 0 then s else (foldl unindex ?s0 (take ?n (ms_msgs s)))
      \<lparr>ms_prunedPos := max (ms_prunedPos s) (mg_Pos (ms_msgs s ! (?n - 1))), ms_msgs := drop ?n (ms_msgs s)\<rparr>)"
    using False by (simp add: pruneLocked_def drop_old_spec b2 Let_def max_def)
  have idx: "idx_inv (foldl unindex ?s0 (take ?n (ms_msgs s))) (drop ?n (ms_msgs s))" if "idx_inv s (ms_msgs s)"
    by (rule idx_inv_foldl) (use that in \<open>simp add: idx_inv_def\<close>)
  have "pruned_by ?n s (pruneLocked now s)"
  proof (cases "?n = 0")
    case True
    then have "pruneLocked now s = s" using p by simp
    then show ?thesis using True d2 by (auto simp: pruned_by_def)
  next
    case n: False
    let ?s1 = "(foldl unindex ?s0 (take ?n (ms_msgs s)))
      \<lparr>ms_prunedPos := max (ms_prunedPos s) (mg_Pos (ms_msgs s ! (?n - 1))), ms_msgs := drop ?n (ms_msgs s)\<rparr>"
    have "pruneLocked now s = ?s1" using p n by (simp only: if_False)
    moreover have "pruned_by ?n s ?s1"
      using n d2 le idx foldl_unindex_byOrigin [of ?s0 s] by (auto simp: pruned_by_def idx_inv_def)
    ultimately show ?thesis by (simp only:)
  qed
  then show ?thesis by (rule that) simp
qed


section \<open>The invariant\<close>

definition msgs_inv :: "msg_store \<Rightarrow> bool" where
  "msgs_inv s \<longleftrightarrow>
     idx_inv s (ms_msgs s) \<and> sorted (map mg_Pos (ms_msgs s)) \<and>
     (\<forall>m\<in>set (ms_msgs s). 0 < mg_Pos m \<and> mg_Pos m \<le> ms_posHead s \<and> mg_Seq m \<le> ms_head s) \<and>
     ms_bytes s = total_size (ms_msgs s) \<and> ms_bytes s \<le> ms_maxBytes s \<and> 0 < ms_maxBytes s"

lemma msgs_inv_New: "msgs_inv (store_New a b)"
  by (simp add: msgs_inv_def store_New_def idx_inv_def DefaultMaxBytes_def)

text \<open>The invariant but for the size limit, which pruning restores.\<close>

definition store_pre :: "msg_store \<Rightarrow> bool" where
  "store_pre s \<longleftrightarrow>
     idx_inv s (ms_msgs s) \<and> sorted (map mg_Pos (ms_msgs s)) \<and>
     (\<forall>m\<in>set (ms_msgs s). 0 < mg_Pos m \<and> mg_Pos m \<le> ms_posHead s \<and> mg_Seq m \<le> ms_head s) \<and>
     ms_bytes s = total_size (ms_msgs s) \<and> 0 < ms_maxBytes s"

lemma total_size_drop: "total_size ms - total_size (take n ms) = total_size (drop n ms)"
proof -
  have "sum_list (map msg_Size ms) = sum_list (map msg_Size (take n ms)) + sum_list (map msg_Size (drop n ms))"
    by (metis append_take_drop_id map_append sum_list_append)
  then show ?thesis by simp
qed

lemma prune_inv: "store_pre s \<Longrightarrow> msgs_inv (pruneLocked now s)"
  by (rule prune_spec [of s now])
    (auto simp: store_pre_def msgs_inv_def pruned_by_def total_size_drop sorted_wrt_drop drop_map [symmetric]
      dest!: in_set_dropD)

lemma msgs_inv_pre: "msgs_inv s \<Longrightarrow> store_pre s"
  by (simp add: msgs_inv_def store_pre_def)

lemma map_of_middle: "k \<notin> fst ` set xs \<Longrightarrow> map_of (xs @ (k, v) # ys) = (map_of (xs @ ys))(k \<mapsto> v)"
  by (auto simp: fun_eq_iff map_add_def map_of_eq_None_iff [THEN iffD2] split: option.splits)

lemma sorted_search_insert:
  fixes f :: "'a \<Rightarrow> 'b::linorder" and x :: 'a
  assumes "sorted (map f xs)"
  defines "i \<equiv> sort_search (length xs) (\<lambda>k. f x \<le> f (xs ! k))"
  shows "sorted (map f (take i xs @ x # drop i xs))"
proof -
  have s: "sorted_wrt (\<lambda>a b. f x \<le> f a \<longrightarrow> f x \<le> f b) xs"
    using assms(1) by (auto simp: sorted_map elim!: sorted_wrt_mono_rel [rotated])
  have t: "take i xs = takeWhile (\<lambda>a. \<not> f x \<le> f a) xs" "drop i xs = filter (\<lambda>a. f x \<le> f a) xs"
    using take_sort_search [OF s] drop_sort_search [OF s] filter_sorted [OF s] by (simp_all add: i_def)
  have "sorted (map f (take i xs)) \<and> sorted (map f (drop i xs))"
    using assms(1) by (simp add: sorted_wrt_drop sorted_wrt_take flip: drop_map take_map)
  then show ?thesis
    unfolding t by (auto simp: sorted_append dest!: set_takeWhileD)
qed


lemma place_spec:
  assumes "store_pre s"
  obtains xs ys where "ms_msgs s = xs @ ys" "ms_msgs (place m s) = xs @ m # ys"
    "sorted (map mg_Pos (xs @ m # ys))" "ms_posHead s < mg_Pos m \<Longrightarrow> ys = []"
proof (cases "ms_posHead s < mg_Pos m")
  case True
  then have "sorted (map mg_Pos (ms_msgs s @ m # []))"
    using assms by (fastforce simp: store_pre_def sorted_append)
  then show ?thesis using that [of "ms_msgs s" "[]"] True by (simp add: place_def)
next
  case False
  let ?i = "sort_search (length (ms_msgs s)) (\<lambda>k. mg_Pos m \<le> mg_Pos (ms_msgs s ! k))"
  have "ms_msgs (place m s) = take ?i (ms_msgs s) @ m # drop ?i (ms_msgs s)"
    using False by (simp add: place_def Let_def)
  moreover have "sorted (map mg_Pos (take ?i (ms_msgs s) @ m # drop ?i (ms_msgs s)))"
    by (rule sorted_search_insert) (use assms in \<open>simp add: store_pre_def\<close>)
  ultimately show ?thesis
    using that [OF append_take_drop_id [symmetric]] False by metis
qed

lemma place_other [simp]:
  "ms_bySeq (place m s) = ms_bySeq s" "ms_byID (place m s) = ms_byID s" "ms_byOrigin (place m s) = ms_byOrigin s"
  "ms_bytes (place m s) = ms_bytes s" "ms_head (place m s) = ms_head s" "ms_posHead (place m s) = ms_posHead s"
  "ms_maxBytes (place m s) = ms_maxBytes s" "ms_maxAge (place m s) = ms_maxAge s"
  "ms_prunedPos (place m s) = ms_prunedPos s"
  by (simp_all add: place_def Let_def)

lemma index_origin_other [simp]:
  "ms_bySeq (index_origin m s) = ms_bySeq s" "ms_byID (index_origin m s) = ms_byID s"
  "ms_bytes (index_origin m s) = ms_bytes s" "ms_head (index_origin m s) = ms_head s"
  "ms_posHead (index_origin m s) = ms_posHead s" "ms_maxBytes (index_origin m s) = ms_maxBytes s"
  "ms_maxAge (index_origin m s) = ms_maxAge s" "ms_prunedPos (index_origin m s) = ms_prunedPos s"
  "ms_msgs (index_origin m s) = ms_msgs s"
  "ms_byOrigin (index_origin m s) = (if mg_OriginMessageID m = [] then ms_byOrigin s
     else (ms_byOrigin s)(mg_OriginMessageID m \<mapsto> mg_ID m))"
  by (simp_all add: index_origin_def Let_def split: option.splits)

text \<open>\<^verbatim>\<open>Append\<close> up to its final pruning.\<close>

definition appended :: "msg \<Rightarrow> msg_store \<Rightarrow> msg_store" where
  "appended m s =
     (let s1 = place m s;
          s3 = index_origin m (s1\<lparr>ms_bySeq := (ms_bySeq s1)(mg_Seq m \<mapsto> mg_ID m),
                 ms_byID := (ms_byID s1)(mg_ID m \<mapsto> mg_Pos m)\<rparr>)
      in s3\<lparr>ms_bytes := ms_bytes s3 + int (msg_Size m),
            ms_head := (if ms_head s3 < mg_Seq m then mg_Seq m else ms_head s3),
            ms_posHead := (if ms_posHead s3 < mg_Pos m then mg_Pos m else ms_posHead s3)\<rparr>)"

lemma Append_eq:
  "store_Append now m s =
     (if mg_Seq m = 0 \<or> mg_Pos m = 0 then (Inl ErrInvalidMessage, s)
      else if ms_bySeq s (mg_Seq m) \<noteq> None then (Inl ErrDuplicateSequence, s)
      else (Inr (), pruneLocked now (appended m s)))"
  by (simp add: store_Append_def appended_def Let_def)

lemma appended_other [simp]:
  "ms_msgs (appended m s) = ms_msgs (place m s)" "ms_maxAge (appended m s) = ms_maxAge s"
  "ms_maxBytes (appended m s) = ms_maxBytes s" "ms_prunedPos (appended m s) = ms_prunedPos s"
  "ms_bytes (appended m s) = ms_bytes s + int (msg_Size m)"
  "ms_head (appended m s) = max (ms_head s) (mg_Seq m)" "ms_posHead (appended m s) = max (ms_posHead s) (mg_Pos m)"
  "ms_bySeq (appended m s) = (ms_bySeq s)(mg_Seq m \<mapsto> mg_ID m)"
  "ms_byID (appended m s) = (ms_byID s)(mg_ID m \<mapsto> mg_Pos m)"
  "ms_byOrigin (appended m s) = (if mg_OriginMessageID m = [] then ms_byOrigin s
     else (ms_byOrigin s)(mg_OriginMessageID m \<mapsto> mg_ID m))"
  by (auto simp: appended_def Let_def max_def)

lemma idx_inv_insert:
  assumes i: "idx_inv s (xs @ ys)" and m: "id_ok m" "ms_bySeq s (mg_Seq m) = None"
    and s': "ms_bySeq s' = (ms_bySeq s)(mg_Seq m \<mapsto> mg_ID m)" "ms_byID s' = (ms_byID s)(mg_ID m \<mapsto> mg_Pos m)"
      "ms_byOrigin s' = (if mg_OriginMessageID m = [] then ms_byOrigin s
         else (ms_byOrigin s)(mg_OriginMessageID m \<mapsto> mg_ID m))"
  shows "idx_inv s' (xs @ m # ys)"
proof -
  have q: "mg_Seq m \<notin> mg_Seq ` set (xs @ ys)"
    using i m(2) by (auto simp: idx_inv_def map_of_eq_None_iff image_image)
  have ok: "id_ok n" if "n \<in> set (xs @ ys)" for n
    using that i by (simp only: idx_inv_def list_all_iff)
  have "mg_ID m \<notin> mg_ID ` set (xs @ ys)"
  proof
    assume "mg_ID m \<in> mg_ID ` set (xs @ ys)"
    then obtain n where n: "n \<in> set (xs @ ys)" "mg_ID m = mg_ID n" by (rule imageE)
    have "mg_Seq m = mg_Seq n" by (rule id_ok_seq [OF m(1) ok [OF n(1)] n(2)])
    then show False using q n(1) by simp
  qed
  then have f: "mg_Seq m \<notin> fst ` set (map (\<lambda>m. (mg_Seq m, mg_ID m)) xs)"
    "mg_ID m \<notin> fst ` set (map (\<lambda>m. (mg_ID m, mg_Pos m)) xs)"
    using q by (simp_all add: image_image image_Un)
  have "map_of (map (\<lambda>m. (mg_Seq m, mg_ID m)) (xs @ m # ys)) = (ms_bySeq s)(mg_Seq m \<mapsto> mg_ID m)"
    "map_of (map (\<lambda>m. (mg_ID m, mg_Pos m)) (xs @ m # ys)) = (ms_byID s)(mg_ID m \<mapsto> mg_Pos m)"
    using i map_of_middle [OF f(1)] map_of_middle [OF f(2)] by (simp_all add: idx_inv_def)
  moreover have "oid \<noteq> [] \<and> (\<exists>n\<in>set (xs @ m # ys). mg_ID n = mid \<and> mg_OriginMessageID n = oid)"
    if "ms_byOrigin s' oid = Some mid" for oid mid
  proof (cases "mg_OriginMessageID m \<noteq> [] \<and> oid = mg_OriginMessageID m")
    case False
    then have "ms_byOrigin s oid = Some mid" using that by (auto simp: s'(3) split: if_splits)
    then show ?thesis using i by (fastforce simp: idx_inv_def)
  qed (use that s'(3) in auto)
  ultimately show ?thesis
    using i m q by (simp add: idx_inv_def s'(1,2) image_Un)
qed

lemma appended_pre:
  assumes "store_pre s" "id_ok m" "mg_Pos m \<noteq> 0" "ms_bySeq s (mg_Seq m) = None"
  shows "store_pre (appended m s)"
proof -
  obtain xs ys where xy: "ms_msgs s = xs @ ys" "ms_msgs (place m s) = xs @ m # ys"
    "sorted (map mg_Pos (xs @ m # ys))" using place_spec [OF assms(1)] by metis
  have "idx_inv (appended m s) (xs @ m # ys)"
    by (rule idx_inv_insert [OF _ assms(2,4)]) (use assms(1) xy in \<open>simp_all add: store_pre_def\<close>)
  then show ?thesis
    using assms xy by (auto simp: store_pre_def word_neq_0_conv le_max_iff_disj)
qed

lemma store_Append_inv:
  assumes "msgs_inv s" "id_ok m"
  shows "msgs_inv (snd (store_Append now m s))"
proof -
  have "msgs_inv (pruneLocked now (appended m s))" if "mg_Pos m \<noteq> 0" "ms_bySeq s (mg_Seq m) = None"
    by (rule prune_inv [OF appended_pre [OF msgs_inv_pre [OF assms(1)] assms(2) that]])
  then show ?thesis using assms(1) by (simp add: Append_eq)
qed


section \<open>Lookups\<close>

lemma sorted_pos_le: "sorted (map mg_Pos ms) \<Longrightarrow> sorted_wrt (\<lambda>x y. p \<le> mg_Pos x \<longrightarrow> p \<le> mg_Pos y) ms"
  by (auto simp: sorted_map elim!: sorted_wrt_mono_rel [rotated])

lemma sorted_pos_less: "sorted (map mg_Pos ms) \<Longrightarrow> sorted_wrt (\<lambda>x y. p < mg_Pos x \<longrightarrow> p < mg_Pos y) ms"
  by (auto simp: sorted_map elim!: sorted_wrt_mono_rel [rotated])

lemma scan_pos_find:
  assumes "sorted (map mg_Pos ms)" "\<forall>m\<in>set ms. p \<le> mg_Pos m" "m \<in> set ms" "mg_Pos m = p" "mg_ID m = mid"
    "distinct (map mg_ID ms)"
  shows "scan_pos p mid ms = Some m"
  using assms
proof (induction ms)
  case (Cons x ms)
  have "mg_Pos x = p" using Cons.prems by force
  moreover have "x = m" if "mg_ID x = mid"
    using Cons.prems(3,5,6) that by (auto simp: image_iff)
  ultimately show ?case using Cons by auto
qed simp

lemma byIDLocked_iff:
  assumes "msgs_inv s"
  shows "byIDLocked s mid = Some m \<longleftrightarrow> m \<in> set (ms_msgs s) \<and> mg_ID m = mid"
proof -
  have d: "distinct (map mg_ID (ms_msgs s))" and sp: "sorted (map mg_Pos (ms_msgs s))"
    and byID: "ms_byID s = map_of (map (\<lambda>m. (mg_ID m, mg_Pos m)) (ms_msgs s))"
    using assms idx_inv_distinct_ids by (auto simp: msgs_inv_def idx_inv_def)
  have found: "byIDLocked s (mg_ID n) = Some n" if n: "n \<in> set (ms_msgs s)" for n
  proof -
    have k: "ms_byID s (mg_ID n) = Some (mg_Pos n)"
      unfolding byID by (rule map_of_is_SomeI) (use d n in \<open>auto simp: comp_def\<close>)
    have "scan_pos (mg_Pos n) (mg_ID n) (filter (\<lambda>x. mg_Pos n \<le> mg_Pos x) (ms_msgs s)) = Some n"
      by (rule scan_pos_find) (use n d sp in \<open>auto simp: sorted_filter distinct_map_filter\<close>)
    then show ?thesis
      using k drop_sort_search [OF sorted_pos_le [OF sp, of "mg_Pos n"]] filter_sorted [OF sorted_pos_le [OF sp, of "mg_Pos n"]]
      by (simp add: byIDLocked_def)
  qed
  show ?thesis
  proof
    assume a: "byIDLocked s mid = Some m"
    then have "mid \<in> mg_ID ` set (ms_msgs s)"
      by (force simp: byIDLocked_def byID split: option.splits dest: map_of_SomeD)
    then show "m \<in> set (ms_msgs s) \<and> mg_ID m = mid" using a found by auto
  qed (use found in auto)
qed


section \<open>Paged reads\<close>

lemma since_loop_spec:
  obtains us ws where "filter (\<lambda>m. VisibleTo m a e) ms = us @ ws"
    "since_loop a e limit batch bytes nxt ms = (batch @ us, last (nxt # map mg_Pos us), ws \<noteq> [])"
    "batch = [] \<and> us = [] \<longrightarrow> ws = []"
    "int (length batch) \<le> limit \<and> 0 < limit \<longrightarrow> int (length (batch @ us)) \<le> limit"
    "bytes = total_size batch \<and> (length batch \<le> 1 \<or> bytes \<le> MaxBatchBytes) \<longrightarrow>
       length (batch @ us) \<le> 1 \<or> total_size (batch @ us) \<le> MaxBatchBytes"
proof (induction a e limit batch bytes nxt ms arbitrary: thesis rule: since_loop.induct)
  case (1 a e limit batch bytes nxt)
  show ?case by (rule 1 [of "[]" "[]"]) auto
next
  case (2 a e limit batch bytes nxt m rest)
  consider "\<not> VisibleTo m a e" | "VisibleTo m a e" "batch \<noteq> [] \<and> (int (length batch) = limit \<or> MaxBatchBytes < bytes + int (msg_Size m))"
    | "VisibleTo m a e" "\<not> (batch \<noteq> [] \<and> (int (length batch) = limit \<or> MaxBatchBytes < bytes + int (msg_Size m)))"
    by blast
  then show ?case
  proof cases
    case 1
    obtain us ws where u: "filter (\<lambda>m. VisibleTo m a e) rest = us @ ws"
      "since_loop a e limit batch bytes nxt rest = (batch @ us, last (nxt # map mg_Pos us), ws \<noteq> [])"
      "batch = [] \<and> us = [] \<longrightarrow> ws = []"
      "int (length batch) \<le> limit \<and> 0 < limit \<longrightarrow> int (length (batch @ us)) \<le> limit"
      "bytes = total_size batch \<and> (length batch \<le> 1 \<or> bytes \<le> MaxBatchBytes) \<longrightarrow>
         length (batch @ us) \<le> 1 \<or> total_size (batch @ us) \<le> MaxBatchBytes"
      by (rule 2(1) [OF 1])
    show ?thesis by (rule "2.prems" [OF _ _ u(3-5)]) (use 1 u in simp_all)
  next
    case 2
    then show ?thesis by (intro "2.prems" [of "[]" "m # filter (\<lambda>m. VisibleTo m a e) rest"]) auto
  next
    case 3
    obtain us ws where u: "filter (\<lambda>m. VisibleTo m a e) rest = us @ ws"
      "since_loop a e limit (batch @ [m]) (bytes + int (msg_Size m)) (mg_Pos m) rest =
         ((batch @ [m]) @ us, last (mg_Pos m # map mg_Pos us), ws \<noteq> [])"
      "batch @ [m] = [] \<and> us = [] \<longrightarrow> ws = []"
      "int (length (batch @ [m])) \<le> limit \<and> 0 < limit \<longrightarrow> int (length ((batch @ [m]) @ us)) \<le> limit"
      "bytes + int (msg_Size m) = total_size (batch @ [m]) \<and>
         (length (batch @ [m]) \<le> 1 \<or> bytes + int (msg_Size m) \<le> MaxBatchBytes) \<longrightarrow>
       length ((batch @ [m]) @ us) \<le> 1 \<or> total_size ((batch @ [m]) @ us) \<le> MaxBatchBytes"
      by (rule 2(2) [OF _ 3(2)]) (use 3(1) in simp)
    have lim: "int (length batch) < limit" if "int (length batch) \<le> limit \<and> 0 < limit"
      using that 3(2) by (cases "batch = []") auto
    have "last (nxt # map mg_Pos (m # us)) = last (mg_Pos m # map mg_Pos us)" by simp
    moreover have "length (batch @ [m]) \<le> 1 \<or> bytes + int (msg_Size m) \<le> MaxBatchBytes"
      using 3(2) by (cases "batch = []") auto
    ultimately show ?thesis
      by (intro "2.prems" [of "m # us" ws]) (use 3 u lim in auto)
  qed
qed

definition visible_after :: "string \<Rightarrow> time \<Rightarrow> u64 \<Rightarrow> msg list \<Rightarrow> msg list" where
  "visible_after a e after ms = filter (\<lambda>m. VisibleTo m a e) (filter (\<lambda>m. after < mg_Pos m) ms)"

lemma Since_spec:
  assumes "store_pre s" "0 < limit"
  obtains us ws where
    "visible_after a e after (ms_msgs (pruneLocked now s)) = us @ ws"
    "Since now a e after limit s = ((us, last (after # map mg_Pos us), ws \<noteq> []), pruneLocked now s)"
    "us = [] \<longrightarrow> ws = []" "int (length us) \<le> limit" "length us \<le> 1 \<or> total_size us \<le> MaxBatchBytes"
proof -
  let ?s1 = "pruneLocked now s"
  have "sorted (map mg_Pos (ms_msgs ?s1))"
    using prune_inv [OF assms(1)] by (simp add: msgs_inv_def)
  note d = drop_sort_search [OF sorted_pos_less [OF this, of after]] filter_sorted [OF sorted_pos_less [OF this, of after]]
  obtain us ws where "visible_after a e after (ms_msgs ?s1) = us @ ws"
    "since_loop a e limit [] 0 after (filter (\<lambda>m. after < mg_Pos m) (ms_msgs ?s1)) =
       ([] @ us, last (after # map mg_Pos us), ws \<noteq> [])" "us = [] \<longrightarrow> ws = []"
    "int (length us) \<le> limit" "length us \<le> 1 \<or> total_size us \<le> MaxBatchBytes"
    by (rule since_loop_spec [where a=a and e=e and limit=limit and batch="[]" and bytes=0 and nxt=after
          and ms="filter (\<lambda>m. after < mg_Pos m) (ms_msgs ?s1)"])
      (use assms(2) in \<open>auto simp: visible_after_def\<close>)
  then show ?thesis using that [of us ws] assms(2) d by (simp add: Since_def Let_def)
qed


section \<open>Histories with rising positions\<close>

text \<open>
  Positions are the commit indices of the log, which rise; then the retained messages are the
  accepted ones above the last pruned position.
\<close>

fun last_origin :: "string \<Rightarrow> msg list \<Rightarrow> string option" where
  "last_origin oid [] = None"
| "last_origin oid (m # ms) =
     (case last_origin oid ms of Some x \<Rightarrow> Some x
      | None \<Rightarrow> if mg_OriginMessageID m = oid then Some (mg_ID m) else None)"

definition origin_exact :: "msg_store \<Rightarrow> msg list \<Rightarrow> bool" where
  "origin_exact s ms \<longleftrightarrow> ms_byOrigin s = (\<lambda>oid. if oid = [] then None else last_origin oid ms)"

lemma last_origin_mem: "last_origin oid ms = Some mid \<Longrightarrow> mid \<in> mg_ID ` set ms"
  by (induction ms) (auto split: option.splits if_splits)

lemma last_origin_snoc:
  "last_origin oid (ms @ [m]) = (if mg_OriginMessageID m = oid then Some (mg_ID m) else last_origin oid ms)"
  by (induction ms) auto

lemma origin_exact_unindex:
  assumes "origin_exact s (m # ms)" "mg_ID m \<notin> mg_ID ` set ms"
  shows "origin_exact (unindex s m) ms"
  using assms last_origin_mem by (fastforce simp: origin_exact_def unindex_def fun_eq_iff split: option.splits)

lemma origin_exact_foldl:
  "origin_exact s (xs @ ys) \<Longrightarrow> distinct (map mg_ID (xs @ ys)) \<Longrightarrow> origin_exact (foldl unindex s xs) ys"
proof (induction xs arbitrary: s)
  case (Cons x xs)
  then have "origin_exact (unindex s x) (xs @ ys)" by (intro origin_exact_unindex) auto
  then show ?case using Cons by simp
qed simp

definition mono_inv :: "msg_store \<Rightarrow> bool" where
  "mono_inv s \<longleftrightarrow> store_pre s \<and> ms_prunedPos s \<le> ms_posHead s \<and>
     sorted_wrt (<) (ms_prunedPos s # map mg_Pos (ms_msgs s)) \<and> origin_exact s (ms_msgs s)"

lemma mono_inv_prune:
  assumes "mono_inv s"
  shows "mono_inv (pruneLocked now s) \<and> ms_prunedPos s \<le> ms_prunedPos (pruneLocked now s) \<and>
    ms_posHead (pruneLocked now s) = ms_posHead s \<and>
    ms_msgs (pruneLocked now s) = filter (\<lambda>m. ms_prunedPos (pruneLocked now s) < mg_Pos m) (ms_msgs s)"
proof -
  let ?s1 = "pruneLocked now s"
  obtain n where n: "pruned_by n s ?s1" by (rule prune_spec [of s now])
  have pre: "store_pre ?s1"
    using prune_inv [of s now] assms msgs_inv_pre by (simp add: mono_inv_def)
  have "distinct (map mg_ID (ms_msgs s))"
    using assms idx_inv_distinct_ids by (auto simp: mono_inv_def store_pre_def)
  then have "origin_exact (foldl unindex s (take n (ms_msgs s))) (drop n (ms_msgs s))"
    by (intro origin_exact_foldl) (use assms in \<open>simp_all add: mono_inv_def\<close>)
  then have org: "origin_exact ?s1 (ms_msgs ?s1)"
    using n by (simp add: origin_exact_def pruned_by_def)
  show ?thesis
  proof (cases n)
    case 0
    then show ?thesis using assms n pre org by (auto simp: mono_inv_def pruned_by_def intro!: filter_True [symmetric])
  next
    case (Suc k)
    then have k: "k < length (ms_msgs s)" "ms_msgs ?s1 = drop (Suc k) (ms_msgs s)" "ms_posHead ?s1 = ms_posHead s"
      "ms_prunedPos ?s1 = max (ms_prunedPos s) (mg_Pos (ms_msgs s ! k))"
      using n by (simp_all add: pruned_by_def)
    have split: "ms_msgs s = take k (ms_msgs s) @ ms_msgs s ! k # drop (Suc k) (ms_msgs s)"
      by (rule id_take_nth_drop [OF k(1)])
    have "ms_prunedPos s < mg_Pos (ms_msgs s ! k)" using assms k(1) by (simp add: mono_inv_def)
    then have pp: "ms_prunedPos ?s1 = mg_Pos (ms_msgs s ! k)" by (simp add: k(4))
    have srt: "sorted_wrt (<) (map mg_Pos (take k (ms_msgs s) @ ms_msgs s ! k # drop (Suc k) (ms_msgs s)))"
      using assms split by (simp add: mono_inv_def)
    have flt: "filter (\<lambda>m. mg_Pos (ms_msgs s ! k) < mg_Pos m) (ms_msgs s) = drop (Suc k) (ms_msgs s)"
      using srt by (subst split) (auto simp: sorted_wrt_append filter_empty_conv intro!: filter_True dest: less_asym)
    have "mg_Pos (ms_msgs s ! k) \<le> ms_posHead s" "ms_prunedPos s < mg_Pos (ms_msgs s ! k)"
      using assms k(1) by (simp_all add: mono_inv_def store_pre_def)
    moreover have "mono_inv ?s1"
      using pre org srt calculation by (simp add: mono_inv_def k pp sorted_wrt_append)
    ultimately show ?thesis using flt by (simp add: k pp)
  qed
qed

lemma mono_inv_appended:
  assumes "mono_inv s" "id_ok m" "mg_Pos m \<noteq> 0" "ms_bySeq s (mg_Seq m) = None" "ms_posHead s < mg_Pos m"
  shows "mono_inv (appended m s)"
proof -
  have pl: "ms_msgs (place m s) = ms_msgs s @ [m]" using assms(5) by (simp add: place_def)
  have "store_pre (appended m s)" using assms by (intro appended_pre) (simp_all add: mono_inv_def)
  moreover have "origin_exact (appended m s) (ms_msgs s @ [m])"
    using assms(1) by (auto simp: mono_inv_def origin_exact_def last_origin_snoc fun_eq_iff)
  moreover have "\<forall>n\<in>set (ms_msgs s). mg_Pos n < mg_Pos m"
    using assms(1,5) by (force simp: mono_inv_def store_pre_def)
  ultimately show ?thesis
    using assms(1,5) by (auto simp: mono_inv_def pl sorted_wrt_append max_def)
qed

lemma mono_inv_New: "mono_inv (store_New a b)"
  by (simp add: mono_inv_def store_pre_def store_New_def idx_inv_def origin_exact_def DefaultMaxBytes_def fun_eq_iff)


text \<open>
  One agent's view of a history: messages are applied at clock readings, looked up, and polled
  by the agent with the cursor its last poll returned.
\<close>

datatype store_op = SAppend time msg | SPoll time int | SByID time string | SByOrigin time string

datatype store_out = Accepted msg | Delivered msg

fun store_step :: "string \<Rightarrow> time \<Rightarrow> msg_store \<times> u64 \<Rightarrow> store_op \<Rightarrow> store_out list \<times> msg_store \<times> u64" where
  "store_step a e (s, cur) (SAppend now m) =
     (case store_Append now m s of (Inr _, s1) \<Rightarrow> ([Accepted m], s1, cur) | (Inl _, s1) \<Rightarrow> ([], s1, cur))"
| "store_step a e (s, cur) (SPoll now limit) =
     (case Since now a e cur limit s of ((batch, nxt, _), s1) \<Rightarrow> (map Delivered batch, s1, nxt))"
| "store_step a e (s, cur) (SByID now mid) = ([], snd (ByID now mid s), cur)"
| "store_step a e (s, cur) (SByOrigin now oid) = ([], snd (ByOriginMessageID now oid s), cur)"

definition accepted :: "store_out list \<Rightarrow> msg list" where
  "accepted outs = List.map_filter (\<lambda>x. case x of Accepted m \<Rightarrow> Some m | _ \<Rightarrow> None) outs"

definition delivered :: "store_out list \<Rightarrow> msg list" where
  "delivered outs = List.map_filter (\<lambda>x. case x of Delivered m \<Rightarrow> Some m | _ \<Rightarrow> None) outs"

lemma outs_simps [simp]:
  "accepted [] = []" "accepted (Accepted m # xs) = m # accepted xs" "accepted (Delivered m # xs) = accepted xs"
  "delivered [] = []" "delivered (Accepted m # xs) = delivered xs" "delivered (Delivered m # xs) = m # delivered xs"
  "accepted (map Delivered ms) = []" "delivered (map Delivered ms) = ms"
  "accepted (xs @ ys) = accepted xs @ accepted ys" "delivered (xs @ ys) = delivered xs @ delivered ys"
  by (simp_all add: accepted_def delivered_def map_filter_simps map_filter_def comp_def)

fun rising :: "u64 \<Rightarrow> store_op list \<Rightarrow> bool" where
  "rising p [] \<longleftrightarrow> True"
| "rising p (SAppend now m # ops) \<longleftrightarrow> p < mg_Pos m \<and> id_ok m \<and> rising (mg_Pos m) ops"
| "rising p (_ # ops) \<longleftrightarrow> rising p ops"

definition view_inv :: "string \<Rightarrow> time \<Rightarrow> msg list \<Rightarrow> msg list \<Rightarrow> msg_store \<times> u64 \<Rightarrow> bool" where
  "view_inv a e acc del st \<longleftrightarrow>
     (case st of (s, cur) \<Rightarrow>
       mono_inv s \<and> cur \<le> ms_posHead s \<and> sorted_wrt (<) (map mg_Pos acc) \<and>
       (\<forall>m\<in>set acc. mg_Pos m \<le> ms_posHead s) \<and>
       ms_msgs s = filter (\<lambda>m. ms_prunedPos s < mg_Pos m) acc \<and>
       sorted_wrt (<) (map mg_Pos del) \<and>
       (\<forall>m\<in>set del. mg_Pos m \<le> cur \<and> m \<in> set acc \<and> VisibleTo m a e) \<and>
       (\<forall>m\<in>set acc. VisibleTo m a e \<and> mg_Pos m \<le> cur \<longrightarrow> m \<in> set del \<or> mg_Pos m \<le> ms_prunedPos s))"

lemma view_invD:
  assumes "view_inv a e acc del (s, cur)"
  shows "mono_inv s" "ms_msgs s = filter (\<lambda>m. ms_prunedPos s < mg_Pos m) acc"
    "\<forall>m\<in>set acc. VisibleTo m a e \<and> mg_Pos m \<le> cur \<longrightarrow> m \<in> set del \<or> mg_Pos m \<le> ms_prunedPos s"
  using assms by (simp_all add: view_inv_def)

lemma view_inv_prune:
  assumes "view_inv a e acc del (s, cur)"
  shows "view_inv a e acc del (pruneLocked now s, cur)"
proof -
  let ?s1 = "pruneLocked now s"
  have m: "mono_inv ?s1" "ms_prunedPos s \<le> ms_prunedPos ?s1" "ms_posHead ?s1 = ms_posHead s"
    "ms_msgs ?s1 = filter (\<lambda>m. ms_prunedPos ?s1 < mg_Pos m) (ms_msgs s)"
    using mono_inv_prune [of s now] assms by (auto simp: view_inv_def)
  have "ms_msgs ?s1 = filter (\<lambda>m. ms_prunedPos ?s1 < mg_Pos m) acc"
    using assms m(2) unfolding m(4) by (auto simp: view_inv_def intro: filter_cong)
  then show ?thesis
    using assms m by (auto simp: view_inv_def intro: order_trans)
qed

lemma view_inv_append:
  assumes "view_inv a e acc del (s, cur)" "id_ok m" "ms_posHead s < mg_Pos m" "mg_Pos m \<noteq> 0"
    "ms_bySeq s (mg_Seq m) = None"
  shows "view_inv a e (acc @ [m]) del (appended m s, cur)"
proof -
  have "mono_inv (appended m s)" using assms by (intro mono_inv_appended) (auto simp: view_inv_def)
  moreover have "ms_msgs (appended m s) = ms_msgs s @ [m]" "ms_posHead (appended m s) = mg_Pos m"
    using assms(3) by (auto simp: place_def max_def)
  moreover have v: "mono_inv s" "cur \<le> ms_posHead s" "\<forall>n\<in>set acc. mg_Pos n \<le> ms_posHead s"
    using assms(1) by (simp_all add: view_inv_def)
  moreover have "ms_prunedPos s < mg_Pos m"
    using v(1) assms(3) le_less_trans unfolding mono_inv_def by blast
  moreover have c: "cur < mg_Pos m" "\<forall>n\<in>set acc. mg_Pos n < mg_Pos m"
    using v(2,3) assms(3) le_less_trans by blast+
  moreover have "\<not> mg_Pos m \<le> cur" using c(1) by simp
  ultimately show ?thesis
    using assms(1) by (simp add: view_inv_def sorted_wrt_append less_imp_le)
qed


lemma last_pos_ge: "sorted_wrt (<) (map mg_Pos us) \<Longrightarrow> m \<in> set us \<Longrightarrow> mg_Pos m \<le> last (c # map mg_Pos us)"
  by (cases us rule: rev_cases) (auto simp: sorted_wrt_append less_imp_le)

lemma view_inv_poll:
  assumes v: "view_inv a e acc del (s, cur)" and u: "visible_after a e cur (ms_msgs s) = us @ ws"
  shows "view_inv a e acc (del @ us) (s, last (cur # map mg_Pos us))"
proof -
  let ?c = "last (cur # map mg_Pos us)"
  have srt: "sorted_wrt (<) (map mg_Pos (us @ ws))"
  proof -
    have "mono_inv s" using v by (simp add: view_inv_def)
    then have "sorted_wrt (<) (map mg_Pos (ms_msgs s))" by (simp add: mono_inv_def)
    then show ?thesis unfolding u [symmetric] visible_after_def by (simp add: sorted_wrt_map sorted_wrt_filter)
  qed
  have us: "cur < mg_Pos m \<and> m \<in> set (ms_msgs s) \<and> VisibleTo m a e" if "m \<in> set us" for m
  proof -
    have "m \<in> set (visible_after a e cur (ms_msgs s))" using that unfolding u by simp
    then show ?thesis by (simp add: visible_after_def)
  qed
  have ge: "mg_Pos m \<le> ?c" if "m \<in> set us" for m
    by (rule last_pos_ge) (use srt that in \<open>simp_all add: sorted_wrt_append\<close>)
  have c: "cur \<le> ?c \<and> ?c \<le> ms_posHead s"
  proof (cases us rule: rev_cases)
    case (snoc xs x)
    then have "x \<in> set us" by simp
    moreover have "mono_inv s" using v by (simp add: view_inv_def)
    then have "\<forall>m\<in>set (ms_msgs s). mg_Pos m \<le> ms_posHead s" by (simp add: mono_inv_def store_pre_def)
    ultimately show ?thesis using us [of x] snoc by (simp add: less_imp_le)
  qed (use v in \<open>simp add: view_inv_def\<close>)
  have del: "\<forall>m\<in>set del. mg_Pos m \<le> cur \<and> m \<in> set acc \<and> VisibleTo m a e"
    and old: "\<forall>m\<in>set acc. VisibleTo m a e \<and> mg_Pos m \<le> cur \<longrightarrow> m \<in> set del \<or> mg_Pos m \<le> ms_prunedPos s"
    and msgs: "ms_msgs s = filter (\<lambda>m. ms_prunedPos s < mg_Pos m) acc"
    using v by (simp_all add: view_inv_def)
  have new: "m \<in> set (del @ us) \<or> mg_Pos m \<le> ms_prunedPos s"
    if m: "m \<in> set acc" "VisibleTo m a e" "mg_Pos m \<le> ?c" for m
  proof (cases "mg_Pos m \<le> cur \<or> mg_Pos m \<le> ms_prunedPos s")
    case False
    then have "m \<in> set (us @ ws)"
      using m unfolding u [symmetric] by (simp add: visible_after_def msgs not_le)
    moreover have "m \<notin> set ws"
    proof
      assume w: "m \<in> set ws"
      have "us \<noteq> []" using False m(3) by auto
      then have "?c < mg_Pos m" using srt w by (simp add: sorted_wrt_append last_map)
      then show False using m(3) by simp
    qed
    ultimately show ?thesis by simp
  qed (use old m in auto)
  have lt: "mg_Pos m < mg_Pos n" if m: "m \<in> set del" "n \<in> set us" for m n
  proof -
    have "mg_Pos m \<le> cur" using del m(1) by simp
    then show ?thesis using us [OF m(2)] le_less_trans by blast
  qed
  have dc: "mg_Pos m \<le> ?c" if m: "m \<in> set del" for m
    by (rule order_trans [of _ cur]) (use del m c in simp_all)
  have sorted: "sorted_wrt (<) (map mg_Pos (del @ us))"
    using v srt lt by (simp add: view_inv_def sorted_wrt_append)
  have all: "\<forall>m\<in>set (del @ us). mg_Pos m \<le> ?c \<and> m \<in> set acc \<and> VisibleTo m a e"
    using del dc us ge msgs by (simp add: ball_Un)
  have "mono_inv s" "sorted_wrt (<) (map mg_Pos acc)" "\<forall>m\<in>set acc. mg_Pos m \<le> ms_posHead s"
    using v by (simp_all add: view_inv_def)
  then show ?thesis
    unfolding view_inv_def prod.case using c msgs sorted all new by (intro conjI) simp_all
qed


lemma view_inv_step:
  assumes v: "view_inv a e acc del (s, cur)" and p: "ms_posHead s \<le> p" "rising p [x]"
    and st: "store_step a e (s, cur) x = (out, s', cur')"
  shows "view_inv a e (acc @ accepted out) (del @ delivered out) (s', cur') \<and>
    ms_posHead s' \<le> (case x of SAppend _ m \<Rightarrow> mg_Pos m | _ \<Rightarrow> p)"
proof -
  have ph: "ms_posHead (pruneLocked now t) = ms_posHead t" for now t
    by (rule prune_spec [of t now]) (simp add: pruned_by_def)
  note pr = view_inv_prune [OF v]
  show ?thesis
  proof (cases x)
    case (SAppend now m)
    have lt: "ms_posHead s < mg_Pos m" "id_ok m" "mg_Pos m \<noteq> 0" using p by (auto simp: SAppend)
    show ?thesis
    proof (cases "ms_bySeq s (mg_Seq m) = None")
      case True
      have "view_inv a e (acc @ [m]) del (pruneLocked now (appended m s), cur)"
        by (rule view_inv_prune [OF view_inv_append [OF v lt(2,1,3) True]])
      then show ?thesis
        using st True lt id_ok_nonzero [OF lt(2)] by (auto simp: SAppend Append_eq ph max_def)
    next
      case False
      then show ?thesis
        using st v lt id_ok_nonzero [OF lt(2)] by (auto simp: SAppend Append_eq)
    qed
  next
    case (SPoll now limit)
    show ?thesis
    proof (cases "0 < limit")
      case True
      have "mono_inv s" using v by (simp add: view_inv_def)
      then have "store_pre s" by (simp add: mono_inv_def)
      then obtain us ws where u: "visible_after a e cur (ms_msgs (pruneLocked now s)) = us @ ws"
        "Since now a e cur limit s = ((us, last (cur # map mg_Pos us), ws \<noteq> []), pruneLocked now s)"
        using Since_spec [OF _ True] by metis
      have "out = map Delivered us" "s' = pruneLocked now s" "cur' = last (cur # map mg_Pos us)"
        using st by (simp_all add: SPoll u(2))
      then show ?thesis using view_inv_poll [OF pr u(1)] p(1) by (simp add: ph SPoll)
    next
      case False
      then show ?thesis using st v p by (auto simp: SPoll Since_def)
    qed
  next
    case (SByID now mid)
    then show ?thesis using st pr p(1) by (auto simp: ByID_def ph Let_def)
  next
    case (SByOrigin now mid)
    then show ?thesis using st pr p(1) by (auto simp: ByOriginMessageID_def ph Let_def split: option.splits)
  qed
qed


lemma view_inv_run:
  assumes "view_inv a e acc del st" "ms_posHead (fst st) \<le> p" "rising p ops" "run (store_step a e) st ops = (outs, st')"
  shows "view_inv a e (acc @ accepted outs) (del @ delivered outs) st'"
  using assms
proof (induction ops arbitrary: acc del st p outs)
  case (Cons x ops)
  obtain s cur where st: "st = (s, cur)" by fastforce
  obtain o1 s1 c1 where x: "store_step a e (s, cur) x = (o1, s1, c1)" by (rule prod_cases3)
  obtain o2 where r: "run (store_step a e) (s1, c1) ops = (o2, st')" "outs = o1 @ o2"
    using Cons.prems(4) by (auto simp: st x Let_def split: prod.splits)
  have rx: "rising p [x]" "rising (case x of SAppend _ m \<Rightarrow> mg_Pos m | _ \<Rightarrow> p) ops"
    using Cons.prems(3) by (cases x; simp)+
  have v: "view_inv a e (acc @ accepted o1) (del @ delivered o1) (s1, c1)"
    "ms_posHead s1 \<le> (case x of SAppend _ m \<Rightarrow> mg_Pos m | _ \<Rightarrow> p)"
    using view_inv_step [OF Cons.prems(1) [unfolded st] _ rx(1) x] Cons.prems(2) by (simp_all add: st)
  show ?case
    using Cons.IH [OF v(1) _ rx(2) r(1)] v(2) by (simp add: r(2))
qed simp

lemma view_inv_start: "view_inv a e [] [] (store_New ma mb, 0)"
  using mono_inv_New [of ma mb] by (simp add: view_inv_def store_New_def)

text \<open>
  C15. Every message reaches every agent it is visible to exactly once and in order.  Over any
  history of messages applied at rising positions, lookups and polls of one agent, each poll
  with the cursor the one before returned: what the agent received is strictly rising in
  position and was accepted and visible to it; and every accepted message visible to it was
  received, or is retained above its cursor, or was dropped by retention.
\<close>

theorem delivered_once_in_order:
  assumes "rising 0 ops" "run (store_step a e) (store_New maxAge maxBytes, 0) ops = (outs, (s, cur))"
  shows "sorted_wrt (<) (map mg_Pos (delivered outs)) \<and>
    (\<forall>m\<in>set (delivered outs). m \<in> set (accepted outs) \<and> VisibleTo m a e) \<and>
    (\<forall>m\<in>set (accepted outs). VisibleTo m a e \<longrightarrow>
       m \<in> set (delivered outs) \<or> (m \<in> set (ms_msgs s) \<and> cur < mg_Pos m) \<or> mg_Pos m \<le> ms_prunedPos s) \<and>
    ms_msgs s = filter (\<lambda>m. ms_prunedPos s < mg_Pos m) (accepted outs)"
proof -
  have "view_inv a e ([] @ accepted outs) ([] @ delivered outs) (s, cur)"
    by (rule view_inv_run [OF view_inv_start _ assms]) (simp add: store_New_def)
  then show ?thesis
    by (simp add: view_inv_def) (metis not_le)
qed

lemma visible_after_cursor:
  assumes "sorted_wrt (<) (map mg_Pos ms)" "visible_after a e cur ms = us @ ws" "us \<noteq> []"
  shows "visible_after a e (last (cur # map mg_Pos us)) ms = ws"
proof -
  let ?c = "mg_Pos (last us)"
  have c: "last (cur # map mg_Pos us) = ?c" using assms(3) by (simp add: last_map)
  have srt: "sorted_wrt (<) (map mg_Pos (us @ ws))"
    using assms(1) unfolding assms(2) [symmetric] visible_after_def by (simp add: sorted_wrt_map sorted_wrt_filter)
  have "last us \<in> set (visible_after a e cur ms)" unfolding assms(2) using assms(3) by simp
  then have "cur < ?c" by (simp add: visible_after_def)
  then have "visible_after a e ?c ms = filter (\<lambda>m. ?c < mg_Pos m) (visible_after a e cur ms)"
    by (auto simp: visible_after_def intro!: filter_cong)
  also have "\<dots> = ws"
  proof -
    have "mg_Pos m \<le> ?c" if "m \<in> set us" for m
      using last_pos_ge [of us m cur] srt that c by (simp add: sorted_wrt_append)
    moreover have "?c < mg_Pos m" if "m \<in> set ws" for m
      using srt that assms(3) by (simp add: sorted_wrt_append)
    ultimately show ?thesis
      unfolding assms(2) filter_append by (subst filter_False) (auto simp: not_less)
  qed
  finally show ?thesis unfolding c .
qed

text \<open>The messages an agent has still to receive.\<close>

definition pending :: "string \<Rightarrow> time \<Rightarrow> msg_store \<times> u64 \<Rightarrow> nat" where
  "pending a e st = length (visible_after a e (snd st) (ms_msgs (fst st)))"

lemma visible_after_filter: "length (visible_after a e c (filter P ms)) \<le> length (visible_after a e c ms)"
  by (induction ms) (auto simp: visible_after_def)

lemma pending_poll:
  assumes "view_inv a e acc del (s, cur)" "0 < limit" "store_step a e (s, cur) (SPoll now limit) = (out, st')"
  shows "pending a e st' \<le> pending a e (s, cur) - 1"
proof -
  let ?s1 = "pruneLocked now s"
  have m: "mono_inv s" using assms(1) by (simp add: view_inv_def)
  obtain us ws where u: "visible_after a e cur (ms_msgs ?s1) = us @ ws"
    "Since now a e cur limit s = ((us, last (cur # map mg_Pos us), ws \<noteq> []), ?s1)" "us = [] \<longrightarrow> ws = []"
    using Since_spec [OF _ assms(2)] m unfolding mono_inv_def by metis
  have st': "st' = (?s1, last (cur # map mg_Pos us))" using assms(3) by (simp add: u(2))
  have m1: "mono_inv ?s1" "ms_msgs ?s1 = filter (\<lambda>m. ms_prunedPos ?s1 < mg_Pos m) (ms_msgs s)"
    using mono_inv_prune [OF m] by blast+
  have "length (us @ ws) \<le> pending a e (s, cur)"
    unfolding u(1) [symmetric] m1(2) by (simp add: pending_def visible_after_filter)
  moreover have "visible_after a e (last (cur # map mg_Pos us)) (ms_msgs ?s1) = ws"
  proof (cases "us = []")
    case True
    then show ?thesis using u by simp
  next
    case False
    show ?thesis by (rule visible_after_cursor [OF _ u(1) False]) (use m1(1) in \<open>simp add: mono_inv_def\<close>)
  qed
  ultimately show ?thesis
    using u(3) by (cases us) (auto simp: st' pending_def)
qed


lemma drain_run:
  assumes "view_inv a e acc del st" "0 < limit"
    "run (store_step a e) st (map (\<lambda>now. SPoll now limit) clocks) = (outs, st')"
  shows "pending a e st' \<le> pending a e st - length clocks"
  using assms
proof (induction clocks arbitrary: acc del st outs)
  case (Cons now clocks)
  obtain s cur where st: "st = (s, cur)" by fastforce
  obtain o1 s1 c1 where x: "store_step a e (s, cur) (SPoll now limit) = (o1, s1, c1)" by (rule prod_cases3)
  obtain o2 where r: "run (store_step a e) (s1, c1) (map (\<lambda>now. SPoll now limit) clocks) = (o2, st')"
    using Cons.prems(3) by (auto simp: st x Let_def simp del: store_step.simps split: prod.splits)
  have "view_inv a e (acc @ accepted o1) (del @ delivered o1) (s1, c1)"
    using view_inv_step [OF Cons.prems(1) [unfolded st] order_refl _ x] by simp
  from Cons.IH [OF this Cons.prems(2) r] pending_poll [OF Cons.prems(1) [unfolded st] Cons.prems(2) x]
  show ?case by (simp add: st)
qed simp

text \<open>
  C16. Polling terminates with everything delivered: after any history as above, an agent that polls
  as often as there are retained messages, at whatever clock readings, with any positive
  limit, has received every accepted message visible to it that retention has not dropped; a
  further poll returns an empty batch, the same cursor and no more to come.
\<close>

theorem polling_drains:
  assumes "rising 0 ops" "0 < limit"
    "run (store_step a e) (store_New maxAge maxBytes, 0) ops = (outs0, st)"
    "length (ms_msgs (fst st)) \<le> length clocks"
    "run (store_step a e) st (map (\<lambda>now. SPoll now limit) clocks) = (outs, (s, cur))"
  shows "(\<forall>m\<in>set (accepted outs0). VisibleTo m a e \<and> ms_prunedPos s < mg_Pos m \<longrightarrow>
      m \<in> set (delivered outs0 @ delivered outs)) \<and>
    fst (Since now a e cur limit s) = ([], cur, False)"
proof -
  have v0: "view_inv a e (accepted outs0) (delivered outs0) st"
    using view_inv_run [OF view_inv_start _ assms(1,3)] by (simp add: store_New_def)
  have "ms_posHead (fst st) \<le> ms_posHead (fst st)" "rising q (map (\<lambda>now. SPoll now limit) clocks)" for q
    by (simp, induction clocks) simp_all
  then have v: "view_inv a e (accepted outs0 @ accepted outs) (delivered outs0 @ delivered outs) (s, cur)"
    using view_inv_run [OF v0 _ _ assms(5)] by blast
  have "pending a e st \<le> length (ms_msgs (fst st))"
    by (simp add: pending_def visible_after_def)
  then have "pending a e (s, cur) = 0"
    using drain_run [OF v0 assms(2,5)] assms(4) by simp
  then have empty: "visible_after a e cur (ms_msgs s) = []" by (simp add: pending_def)
  have del: "m \<in> set (delivered outs0 @ delivered outs)"
    if m: "m \<in> set (accepted outs0)" "VisibleTo m a e" "ms_prunedPos s < mg_Pos m" for m
  proof -
    have msgs: "ms_msgs s = filter (\<lambda>m. ms_prunedPos s < mg_Pos m) (accepted outs0 @ accepted outs)"
      and old: "\<forall>m\<in>set (accepted outs0 @ accepted outs). VisibleTo m a e \<and> mg_Pos m \<le> cur \<longrightarrow>
        m \<in> set (delivered outs0 @ delivered outs) \<or> mg_Pos m \<le> ms_prunedPos s"
      using view_invD [OF v] by blast+
    have "m \<in> set (ms_msgs s)" unfolding msgs using m by simp
    then have "\<not> cur < mg_Pos m" using empty m(2) by (auto simp: visible_after_def filter_empty_conv)
    then have "m \<in> set (delivered outs0 @ delivered outs) \<or> mg_Pos m \<le> ms_prunedPos s"
      by (intro old [THEN bspec, THEN mp]) (use m in simp_all)
    then show ?thesis using m(3) leD by blast
  qed
  have m: "mono_inv s" using v by (simp add: view_inv_def)
  obtain us ws where u: "visible_after a e cur (ms_msgs (pruneLocked now s)) = us @ ws"
    "Since now a e cur limit s = ((us, last (cur # map mg_Pos us), ws \<noteq> []), pruneLocked now s)"
    using Since_spec [OF _ assms(2)] m unfolding mono_inv_def by metis
  have "ms_msgs (pruneLocked now s) = filter (\<lambda>m. ms_prunedPos (pruneLocked now s) < mg_Pos m) (ms_msgs s)"
    using mono_inv_prune [OF m] by blast
  then have "us @ ws = []"
    using empty visible_after_filter [of a e cur _ "ms_msgs s"] by (simp flip: u(1))
  then show ?thesis using del u(2) by simp
qed


section \<open>Indices\<close>

fun op_id_ok :: "store_op \<Rightarrow> bool" where
  "op_id_ok (SAppend _ m) \<longleftrightarrow> id_ok m"
| "op_id_ok _ \<longleftrightarrow> True"

lemma msgs_inv_step:
  assumes "msgs_inv (fst st)" "op_id_ok x"
  shows "msgs_inv (fst (snd (store_step a e st x)))"
proof -
  obtain s cur where st: "st = (s, cur)" by fastforce
  have pr: "msgs_inv (pruneLocked now s)" for now
    using prune_inv [OF msgs_inv_pre] assms(1) by (simp add: st)
  show ?thesis
  proof (cases x)
    case (SAppend now m)
    have "msgs_inv (snd (store_Append now m s))" using store_Append_inv assms by (simp add: st SAppend)
    then show ?thesis by (cases "store_Append now m s") (auto simp: st SAppend split: sum.splits)
  next
    case (SPoll now limit)
    have "snd (Since now a e cur limit s) = s \<or> snd (Since now a e cur limit s) = pruneLocked now s"
      by (simp add: Since_def Let_def)
    then have "msgs_inv (snd (Since now a e cur limit s))" using pr assms(1) by (auto simp: st)
    then show ?thesis by (cases "Since now a e cur limit s") (auto simp: st SPoll)
  qed (simp_all add: st ByID_def ByOriginMessageID_def Let_def pr split: option.splits)
qed

lemma msgs_inv_run:
  "msgs_inv (fst st) \<Longrightarrow> list_all op_id_ok ops \<Longrightarrow> msgs_inv (fst (snd (run (store_step a e) st ops)))"
  by (induction ops arbitrary: st) (simp_all add: snd_run_Cons msgs_inv_step del: run.simps(2))

lemma last_origin_None: "last_origin oid ms = None \<longleftrightarrow> (\<forall>m\<in>set ms. mg_OriginMessageID m \<noteq> oid)"
  by (induction ms) (auto split: option.splits)

lemma msgs_inv_origin:
  assumes "msgs_inv s" "ms_byOrigin s oid = Some mid"
  shows "\<exists>m\<in>set (ms_msgs s). mg_ID m = mid \<and> mg_OriginMessageID m = oid"
  using assms by (simp add: msgs_inv_def idx_inv_def)

lemma ByOrigin_sound:
  assumes inv: "msgs_inv (pruneLocked now s)" and a: "fst (ByOriginMessageID now oid s) = Some m"
  shows "m \<in> set (ms_msgs (pruneLocked now s)) \<and> (mg_OriginMessageID m = oid \<or> mg_ID m = oid)"
proof (cases "ms_byOrigin (pruneLocked now s) oid")
  case None
  then show ?thesis using a byIDLocked_iff [OF inv] by (simp add: ByOriginMessageID_def Let_def)
next
  case (Some mid)
  then have m: "byIDLocked (pruneLocked now s) mid = Some m" using a by (simp add: ByOriginMessageID_def Let_def)
  obtain n where "n \<in> set (ms_msgs (pruneLocked now s))" "mg_ID n = mid" "mg_OriginMessageID n = oid"
    using msgs_inv_origin [OF inv Some] by blast
  moreover from this have "n = m" using m byIDLocked_iff [OF inv, of mid n] by simp
  ultimately show ?thesis by simp
qed

lemma ByOrigin_complete:
  assumes inv: "msgs_inv (pruneLocked now s)" and mono: "mono_inv (pruneLocked now s)"
    and m: "m \<in> set (ms_msgs (pruneLocked now s))"
  shows "fst (ByOriginMessageID now (OriginID m) s) \<noteq> None"
proof (cases "ms_byOrigin (pruneLocked now s) (OriginID m)")
  case None
  then have "mg_OriginMessageID m = []"
    using mono m by (auto simp: mono_inv_def origin_exact_def OriginID_def last_origin_None split: if_splits)
  then show ?thesis
    using None m byIDLocked_iff [OF inv, of "mg_ID m" m] by (simp add: ByOriginMessageID_def Let_def OriginID_def)
next
  case (Some mid)
  then show ?thesis
    using msgs_inv_origin [OF inv Some] byIDLocked_iff [OF inv] by (auto simp: ByOriginMessageID_def Let_def)
qed

text \<open>
  C36. The serving copy and its indices agree.  Over any history, positions out of order included,
  the retained messages are ordered by position, their bytes are what is counted and within the
  limit, a lookup by id finds exactly the retained message with that id, a sequence number is
  known exactly when its message is retained, and a lookup by origin id only returns a retained
  message that has that origin.  When positions rise, it returns one whenever there is one.
\<close>

theorem store_indices_exact:
  assumes "list_all op_id_ok ops" "run (store_step a e) (store_New maxAge maxBytes, 0) ops = (outs, (s, cur))"
  shows "sorted (map mg_Pos (ms_msgs s)) \<and> ms_bytes s = total_size (ms_msgs s) \<and> ms_bytes s \<le> ms_maxBytes s \<and>
    (\<forall>mid m. byIDLocked s mid = Some m \<longleftrightarrow> m \<in> set (ms_msgs s) \<and> mg_ID m = mid) \<and>
    (\<forall>sq. ms_bySeq s sq \<noteq> None \<longleftrightarrow> sq \<in> mg_Seq ` set (ms_msgs s)) \<and>
    (\<forall>oid m. fst (ByOriginMessageID now oid s) = Some m \<longrightarrow>
       m \<in> set (ms_msgs (pruneLocked now s)) \<and> (mg_OriginMessageID m = oid \<or> mg_ID m = oid)) \<and>
    (rising 0 ops \<longrightarrow> (\<forall>m\<in>set (ms_msgs (pruneLocked now s)). fst (ByOriginMessageID now (OriginID m) s) \<noteq> None))"
proof (intro conjI)
  let ?s1 = "pruneLocked now s"
  have inv: "msgs_inv s"
    using msgs_inv_run [OF _ assms(1), of "(store_New maxAge maxBytes, 0)" a e] assms(2) msgs_inv_New by simp
  then show "sorted (map mg_Pos (ms_msgs s))" "ms_bytes s = total_size (ms_msgs s)" "ms_bytes s \<le> ms_maxBytes s"
    by (simp_all add: msgs_inv_def)
  show "\<forall>mid m. byIDLocked s mid = Some m \<longleftrightarrow> m \<in> set (ms_msgs s) \<and> mg_ID m = mid"
    using byIDLocked_iff [OF inv] by blast
  show "\<forall>sq. ms_bySeq s sq \<noteq> None \<longleftrightarrow> sq \<in> mg_Seq ` set (ms_msgs s)"
    using inv by (auto simp: msgs_inv_def idx_inv_def map_of_eq_None_iff image_image)
  have inv1: "msgs_inv ?s1" by (rule prune_inv [OF msgs_inv_pre [OF inv]])
  show "\<forall>oid m. fst (ByOriginMessageID now oid s) = Some m \<longrightarrow>
       m \<in> set (ms_msgs ?s1) \<and> (mg_OriginMessageID m = oid \<or> mg_ID m = oid)"
    using ByOrigin_sound [OF inv1] by blast
  show "rising 0 ops \<longrightarrow> (\<forall>m\<in>set (ms_msgs ?s1). fst (ByOriginMessageID now (OriginID m) s) \<noteq> None)"
  proof (intro impI ballI)
    fix m assume r: "rising 0 ops" and m: "m \<in> set (ms_msgs ?s1)"
    have "view_inv a e ([] @ accepted outs) ([] @ delivered outs) (s, cur)"
      by (rule view_inv_run [OF view_inv_start _ r assms(2)]) (simp add: store_New_def)
    then have "mono_inv ?s1" using mono_inv_prune view_invD(1) by blast
    then show "fst (ByOriginMessageID now (OriginID m) s) \<noteq> None" by (rule ByOrigin_complete [OF inv1 _ m])
  qed
qed

section \<open>A history\<close>

definition demo_stored :: "u64 \<Rightarrow> u64 \<Rightarrow> string \<Rightarrow> msg" where
  "demo_stored sq pos mid =
     \<lparr>mg_Seq = sq, mg_Pos = pos, mg_ID = mid, mg_OriginMessageID = [],
      mg_OriginAttestation = zero_attestation, mg_Sender = ''b1.amy-1'', mg_Broadcast = True,
      mg_Recipients = [], mg_BusPath = [''b1''], mg_SentAt = 50, mg_Body = ''hi'',
      mg_ContentSHA256 = [], mg_IdempotencyKey = [], mg_TimestampUnixMilli = 1, mg_Signature = []\<rparr>"

lemma demo_stored_ok: "id_ok (demo_stored 7 10 ''b1-7'')" "id_ok (demo_stored 8 12 ''b1-8'')"
  unfolding id_ok_def
  by (rule exI [of _ "''b1''"], simp add: demo_stored_def MessageID_ok_iff bus_id_matches_def bus_id_char_def
      is_lower_def is_digit_def messageIDSep_def FormatUint_def show_nat.simps)+

definition demo_ops :: "store_op list" where
  "demo_ops = [SAppend 60 (demo_stored 7 10 ''b1-7''), SPoll 60 5, SAppend 60 (demo_stored 8 12 ''b1-8'')]"

lemma demo_ops_ok: "rising 0 demo_ops" "list_all op_id_ok demo_ops"
  using demo_stored_ok by (simp_all add: demo_ops_def demo_stored_def)

lemmas store_eval = demo_ops_def demo_stored_def store_New_def store_Append_def place_def index_origin_def
  pruneLocked_def DefaultMaxAge_def DefaultMaxBytes_def sec_ns_def msg_Size_def Since_def VisibleTo_def
  sort_search_def search_loop_eval MaxBatchBytes_def

lemma demo_run:
  "run (store_step ''b2.bob-1'' 0) (store_New 0 0, 0) demo_ops =
     ([Accepted (demo_stored 7 10 ''b1-7''), Delivered (demo_stored 7 10 ''b1-7''),
       Accepted (demo_stored 8 12 ''b1-8'')],
      snd (run (store_step ''b2.bob-1'' 0) (store_New 0 0, 0) demo_ops))"
  by (simp add: store_eval Let_def)

lemma demo_state:
  "ms_msgs (fst (snd (run (store_step ''b2.bob-1'' 0) (store_New 0 0, 0) demo_ops))) =
     [demo_stored 7 10 ''b1-7'', demo_stored 8 12 ''b1-8'']"
  "snd (snd (run (store_step ''b2.bob-1'' 0) (store_New 0 0, 0) demo_ops)) = 10"
  by (simp_all add: store_eval Let_def)


theorem delivered_once_in_order_witness:
  "\<exists>outs s cur. run (store_step ''b2.bob-1'' 0) (store_New 0 0, 0) demo_ops = (outs, (s, cur)) \<and>
     delivered outs = [demo_stored 7 10 ''b1-7''] \<and> demo_stored 8 12 ''b1-8'' \<in> set (accepted outs) \<and>
     ms_msgs s = filter (\<lambda>m. ms_prunedPos s < mg_Pos m) (accepted outs)"
proof -
  obtain s cur where r: "run (store_step ''b2.bob-1'' 0) (store_New 0 0, 0) demo_ops =
      ([Accepted (demo_stored 7 10 ''b1-7''), Delivered (demo_stored 7 10 ''b1-7''), Accepted (demo_stored 8 12 ''b1-8'')], (s, cur))"
    using demo_run by (metis prod.collapse)
  show ?thesis
    using delivered_once_in_order [OF demo_ops_ok(1) r] r by auto
qed

theorem polling_drains_witness:
  "\<exists>outs0 st outs s cur.
     run (store_step ''b2.bob-1'' 0) (store_New 0 0, 0) demo_ops = (outs0, st) \<and>
     run (store_step ''b2.bob-1'' 0) st (map (\<lambda>now. SPoll now 1) [61, 62]) = (outs, (s, cur)) \<and>
     (ms_prunedPos s < 12 \<longrightarrow> demo_stored 8 12 ''b1-8'' \<in> set (delivered outs0 @ delivered outs)) \<and>
     fst (Since 63 ''b2.bob-1'' 0 cur 1 s) = ([], cur, False)"
proof -
  let ?st = "snd (run (store_step ''b2.bob-1'' 0) (store_New 0 0, 0) demo_ops)"
  obtain outs s cur where r: "run (store_step ''b2.bob-1'' 0) ?st (map (\<lambda>now. SPoll now 1) [61, 62]) = (outs, (s, cur))"
    by (rule prod_cases3)
  have l: "length (ms_msgs (fst ?st)) \<le> length [61 :: int, 62]" by (simp add: demo_state)
  have v: "VisibleTo (demo_stored 8 12 ''b1-8'') ''b2.bob-1'' 0" "mg_Pos (demo_stored 8 12 ''b1-8'') = 12"
    by (simp_all add: VisibleTo_def demo_stored_def)
  show ?thesis
    using polling_drains [OF demo_ops_ok(1) zero_less_one demo_run l r, of 63] v demo_run r by fastforce
qed

theorem store_indices_exact_witness:
  "\<exists>outs s cur. run (store_step ''b2.bob-1'' 0) (store_New 0 0, 0) demo_ops = (outs, (s, cur)) \<and>
     byIDLocked s ''b1-8'' = Some (demo_stored 8 12 ''b1-8'') \<and> byIDLocked s ''b1-9'' = None \<and>
     ms_bytes s = 4 \<and> ms_bytes s \<le> ms_maxBytes s"
proof -
  obtain outs s cur where r: "run (store_step ''b2.bob-1'' 0) (store_New 0 0, 0) demo_ops = (outs, (s, cur))"
    by (rule prod_cases3)
  have msgs: "ms_msgs s = [demo_stored 7 10 ''b1-7'', demo_stored 8 12 ''b1-8'']"
    using demo_state(1) unfolding r by simp
  have ids: "mg_ID (demo_stored q p i) = i" "msg_Size (demo_stored q p i) = 2" for q p i
    by (simp_all add: demo_stored_def msg_Size_def)
  have all: "\<forall>mid m. byIDLocked s mid = Some m \<longleftrightarrow> m \<in> set (ms_msgs s) \<and> mg_ID m = mid"
    "ms_bytes s = total_size (ms_msgs s)" "ms_bytes s \<le> ms_maxBytes s"
    using store_indices_exact [OF demo_ops_ok(2) r] by blast+
  have "byIDLocked s ''b1-9'' = None"
    using all(1) by (cases "byIDLocked s ''b1-9''") (auto simp: msgs ids)
  moreover have "byIDLocked s ''b1-8'' = Some (demo_stored 8 12 ''b1-8'')"
    using all(1) by (simp add: msgs ids)
  ultimately show ?thesis using r all(2,3) by (simp add: msgs ids)
qed

end
