(* ===== verification/HubMint.thy ===== *)
theory HubMint
  imports SeqFloor WalLog MessageStore IdemOnce
begin

text \<open>
  The hub's state and the reservation of message sequences (\<^verbatim>\<open>internal/hub/hub.go\<close>: \<^verbatim>\<open>Hub\<close>;
  \<^verbatim>\<open>mint.go\<close>; \<^verbatim>\<open>errors.go\<close>).

  What the hub is given at start-up is the record \<open>hub_env\<close>: the roster (the enrolment time of
  each agent on it), the router of remote recipients, and whether there is a durable log, a
  delivery table and an egress.  Its log is the argument \<open>dw\<close>, the interface \<^verbatim>\<open>DurableLog\<close>, on a
  log state the hub carries along.  \<open>clk\<close> gives the successive readings of the clock in one
  call.  The JSON texts are the codec \<open>C\<close>.  The message a poisoned hub answers with and all log
  lines are outside the model.
\<close>

section \<open>State\<close>

datatype hub_error =
    ErrUnknownSender | ErrUnknownRecipient | ErrRelayedSender | ErrInvalidRelayedMessage | ErrInvalidBusPath
  | ErrBusPathLoop | HubInvalidBody | ErrInvalidRecipient | ErrInvalidIdempotencyKey | ErrIdempotencyKeyReused
  | HubCapacity | HubAgentQuota | ErrInvalidOp | ErrUnknownMint | ErrMintMismatch | HubPoisoned | HubNotDurable
  | HubIdem idem_error | HubStoredResult | HubSequence seq_error | HubFloor seq_floor_error | HubIds ids_error
  | HubStore store_error | HubEncode | HubDigest sign_error | HubLog log_error | HubInternal
  | HubCancelled | ErrPollActive | ErrInvalidCursor | HubNoRoster | HubNoDataDir | HubNoEgress | HubReplay | ErrSeqFloorUnprovable

text \<open>The durable result kept with an applied key; a time is \<^const>\<open>None\<close> when its text does not parse.\<close>

record stored_result =
  sr_MessageID :: string
  sr_Seq :: u64
  sr_Recipients :: "string list"
  sr_SentAt :: "time option"

record hub_codec =
  hc_msg :: "msg_record \<Rightarrow> bytes option"
  un_msg :: "bytes \<Rightarrow> msg_record option"
  hc_compact :: "bytes \<Rightarrow> bytes option"
  hc_idem :: "idem_record \<Rightarrow> bytes option"
  un_idem :: "bytes \<Rightarrow> idem_record option"
  hc_result :: "stored_result \<Rightarrow> bytes option"
  un_result :: "bytes \<Rightarrow> stored_result option"
  hc_floor :: "int \<Rightarrow> u64 \<Rightarrow> bytes option"
  un_floor :: "bytes \<Rightarrow> (int \<times> u64) option"

record hub_env =
  he_roster :: "string \<rightharpoonup> time"
  he_router :: "(string \<Rightarrow> string option) option"
  he_egress :: bool
  he_acks :: bool
  he_durable :: bool

record mint_key =
  mk_agent :: string
  mk_op :: string
  mk_key :: string

record outstanding_mint =
  om_messageID :: string
  om_seq :: u64
  om_expiresAt :: time

record 'l hub =
  hb_busID :: string
  hb_log :: 'l
  hb_seq :: seq_state
  hb_store :: msg_store
  hb_idem :: idem_store
  hb_poisoned :: bool
  hb_appliedSeq :: u64
  hb_undecodableMessages :: nat
  hb_unappliableMessages :: nat
  hb_replayedSeqFloor :: u64
  hb_seqFloorFile :: "seq_floor_file option"
  hb_durableSeqFloor :: u64
  hb_mints :: "(mint_key \<times> outstanding_mint) list"
  hb_mintsByAgent :: "(string \<times> int) list"
  hb_recovered :: "string list"

type_synonym 'l durable_write = "entry \<Rightarrow> 'l \<Rightarrow> (log_error + committed) \<times> 'l"

definition hub_MaxIdempotencyKeyLen :: nat where "hub_MaxIdempotencyKeyLen = 128"

definition hub_key_char :: "char \<Rightarrow> bool" where
  "hub_key_char c \<longleftrightarrow> is_lower c \<or> is_upper c \<or> is_digit c \<or> c = CHR ''_'' \<or> c = CHR ''.'' \<or> c = CHR ''-''"

definition validateIdempotencyKey :: "string \<Rightarrow> hub_error + unit" where
  "validateIdempotencyKey key =
     (if key = [] then Inl ErrInvalidIdempotencyKey
      else if hub_MaxIdempotencyKeyLen < length key then Inl ErrInvalidIdempotencyKey
      else if list_all hub_key_char key then Inr () else Inl ErrInvalidIdempotencyKey)"

definition Enrolled :: "hub_env \<Rightarrow> string \<Rightarrow> bool" where
  "Enrolled E agentID \<longleftrightarrow> he_roster E agentID \<noteq> None"

section \<open>Sequence reservations\<close>

definition SeqFloorRecordKind :: string where "SeqFloorRecordKind = ''seqfloor''"
definition seqFloorRecordVersion :: int where "seqFloorRecordVersion = 1"
definition MintBatchSize :: u64 where "MintBatchSize = 256"
definition MaxOutstandingMintsPerAgent :: int where "MaxOutstandingMintsPerAgent = 64"
definition MaxOutstandingMints :: nat where "MaxOutstandingMints = 8192"
definition MintTTL :: int where "MintTTL = 15 * 60 * sec_ns"

definition parseMintOp :: "string \<Rightarrow> hub_error + string" where
  "parseMintOp op =
     (if op = OpSend then Inr OpSend else if op = OpBroadcast then Inr OpBroadcast else Inl ErrInvalidOp)"

definition floor_target :: "u64 \<Rightarrow> u64" where
  "floor_target nxt = (let target = nxt + MintBatchSize - 1 in if target < nxt then maxUint64 else target)"

definition ensureSeqFloorLocked ::
  "hub_codec \<Rightarrow> 'l durable_write \<Rightarrow> write_outcome \<Rightarrow> 'l hub \<Rightarrow> (hub_error + unit) \<times> 'l hub" where
  "ensureSeqFloorLocked C dw io h =
     (let nxt = Peek (hb_seq h) in
      if nxt = 0 then (Inr (), h)
      else if nxt \<le> hb_durableSeqFloor h then (Inr (), h)
      else let target = floor_target nxt in
      case hb_seqFloorFile h of
        None \<Rightarrow> (Inl HubNotDurable, h)
      | Some f \<Rightarrow>
     (case sf_raise io target f of
        (Inl e, f') \<Rightarrow> (Inl (HubFloor e), h\<lparr>hb_seqFloorFile := Some f'\<rparr>)
      | (Inr _, f') \<Rightarrow>
     (let h1 = h\<lparr>hb_seqFloorFile := Some f'\<rparr> in
      case hc_floor C seqFloorRecordVersion target of
        None \<Rightarrow> (Inl HubEncode, h1)
      | Some payload \<Rightarrow>
     (case dw \<lparr>en_Kind = SeqFloorRecordKind, en_Body = Some payload, en_Idem = None, en_Audit = None\<rparr> (hb_log h1) of
        (Inl e, l) \<Rightarrow> (Inl (HubLog e), h1\<lparr>hb_log := l\<rparr>)
      | (Inr _, l) \<Rightarrow> (Inr (), h1\<lparr>hb_log := l, hb_durableSeqFloor := target\<rparr>)))))"

definition assertSeqFloorLocked :: "u64 \<Rightarrow> 'l hub \<Rightarrow> (hub_error + unit) \<times> 'l hub" where
  "assertSeqFloorLocked sq h =
     (if sq \<le> hb_durableSeqFloor h then (Inr (), h)
      else (Inl HubPoisoned, h\<lparr>hb_poisoned := True\<rparr>))"

definition decMintCountLocked :: "string \<Rightarrow> 'l hub \<Rightarrow> 'l hub" where
  "decMintCountLocked agent h =
     (let n = getI (hb_mintsByAgent h) agent in
      if n \<le> 1 then h\<lparr>hb_mintsByAgent := AList.delete agent (hb_mintsByAgent h)\<rparr>
      else h\<lparr>hb_mintsByAgent := AList.update agent (n - 1) (hb_mintsByAgent h)\<rparr>)"

text \<open>The loop over the map; \<open>keys\<close> are its keys in whatever order the runtime takes them.\<close>

fun expire_mints :: "time \<Rightarrow> mint_key list \<Rightarrow> 'l hub \<Rightarrow> 'l hub" where
  "expire_mints now [] h = h"
| "expire_mints now (k # ks) h =
     (case map_of (hb_mints h) k of
        None \<Rightarrow> expire_mints now ks h
      | Some m \<Rightarrow>
          if now < om_expiresAt m then expire_mints now ks h
          else expire_mints now ks (decMintCountLocked (mk_agent k) (h\<lparr>hb_mints := AList.delete k (hb_mints h)\<rparr>)))"

definition expireMintsLocked :: "time \<Rightarrow> 'l hub \<Rightarrow> 'l hub" where
  "expireMintsLocked now h = expire_mints now (map fst (hb_mints h)) h"

record mint_result =
  mr_MessageID :: string
  mr_Seq :: u64
  mr_Sender :: string
  mr_Op :: string
  mr_ExpiresAt :: time
  mr_Replayed :: bool

text \<open>The number a call hands out: the floor is ensured, the next one taken and checked against it.\<close>

definition take_seq ::
  "hub_codec \<Rightarrow> 'l durable_write \<Rightarrow> write_outcome \<Rightarrow> 'l hub \<Rightarrow> (hub_error + u64 \<times> string) \<times> 'l hub" where
  "take_seq C dw io h =
     (case ensureSeqFloorLocked C dw io h of
        (Inl e, h1) \<Rightarrow> (Inl e, h1)
      | (Inr _, h1) \<Rightarrow>
     (case Next (hb_seq h1) of
        (Inl e, sq') \<Rightarrow> (Inl (HubSequence e), h1\<lparr>hb_seq := sq'\<rparr>)
      | (Inr sq, sq') \<Rightarrow>
     (case assertSeqFloorLocked sq (h1\<lparr>hb_seq := sq'\<rparr>) of
        (Inl e, h2) \<Rightarrow> (Inl e, h2)
      | (Inr _, h2) \<Rightarrow>
     (case MessageID (hb_busID h2) sq of
        Inl e \<Rightarrow> (Inl (HubIds e), h2)
      | Inr mid \<Rightarrow> (Inr (sq, mid), h2)))))"

definition hub_Mint ::
  "hub_codec \<Rightarrow> hub_env \<Rightarrow> 'l durable_write \<Rightarrow> write_outcome \<Rightarrow> time \<Rightarrow> string \<Rightarrow> string \<Rightarrow> string \<Rightarrow> 'l hub \<Rightarrow>
     (hub_error + mint_result) \<times> 'l hub" where
  "hub_Mint C E dw io now sender reqOp key h =
     (case (bindR (parseMintOp reqOp) (\<lambda>op.
            bindR (validateIdempotencyKey key) (\<lambda>_.
            if \<not> Enrolled E sender then Inl ErrUnknownSender
            else bindR (wrapErr HubIdem (NewAgentScope sender op key)) (\<lambda>_.
            if hb_poisoned h then Inl HubPoisoned
            else if \<not> he_durable E then Inl HubNotDurable
            else Inr op)))) of
        Inl e \<Rightarrow> (Inl e, h)
      | Inr op \<Rightarrow>
     (let h1 = expireMintsLocked now h;
          mk = \<lparr>mk_agent = sender, mk_op = op, mk_key = key\<rparr> in
      case map_of (hb_mints h1) mk of
        Some m \<Rightarrow>
          (Inr \<lparr>mr_MessageID = om_messageID m, mr_Seq = om_seq m, mr_Sender = sender, mr_Op = op,
                mr_ExpiresAt = om_expiresAt m, mr_Replayed = True\<rparr>, h1)
      | None \<Rightarrow>
          if MaxOutstandingMintsPerAgent \<le> getI (hb_mintsByAgent h1) sender then (Inl HubAgentQuota, h1)
          else if MaxOutstandingMints \<le> length (hb_mints h1) then (Inl HubCapacity, h1)
          else
     (case take_seq C dw io h1 of
        (Inl e, h2) \<Rightarrow> (Inl e, h2)
      | (Inr (sq, mid), h2) \<Rightarrow>
          (let expires = now + MintTTL in
           (Inr \<lparr>mr_MessageID = mid, mr_Seq = sq, mr_Sender = sender, mr_Op = op,
                 mr_ExpiresAt = expires, mr_Replayed = False\<rparr>,
            h2\<lparr>hb_mints := AList.update mk \<lparr>om_messageID = mid, om_seq = sq, om_expiresAt = expires\<rparr> (hb_mints h2),
               hb_mintsByAgent := AList.update sender (getI (hb_mintsByAgent h2) sender + 1) (hb_mintsByAgent h2)\<rparr>)))))"

definition mintRelayedSeqLocked ::
  "hub_codec \<Rightarrow> 'l durable_write \<Rightarrow> write_outcome \<Rightarrow> 'l hub \<Rightarrow> (hub_error + u64 \<times> string) \<times> 'l hub" where
  "mintRelayedSeqLocked C dw io h = take_seq C dw io h"

definition applySeqFloor :: "hub_codec \<Rightarrow> committed \<Rightarrow> 'l hub \<Rightarrow> 'l hub" where
  "applySeqFloor C c h =
     (case (case en_Body (cm_Entry c) of None \<Rightarrow> None | Some b \<Rightarrow> un_floor C b) of
        None \<Rightarrow> h
      | Some (v, floor) \<Rightarrow>
          if v \<noteq> seqFloorRecordVersion then h
          else if hb_replayedSeqFloor h < floor then h\<lparr>hb_replayedSeqFloor := floor\<rparr> else h)"

end
