(* ===== verification/Hub.thy ===== *)
theory Hub
  imports HubMint
begin

text \<open>
  The hub's publish path, relay ingest and recovery (\<^verbatim>\<open>internal/hub/hub.go\<close>, \<^verbatim>\<open>relayingest.go\<close>,
  \<^verbatim>\<open>audit.go\<close>, \<^verbatim>\<open>roster.go\<close>; the encoding of applied-key records of \<^verbatim>\<open>internal/idem/record.go\<close>).

  A call returns its result, the calls it makes to other components (the delivery table, the
  waiters, the egress) as a list of \<open>hub_effect\<close>, and the new hub.  Recovery applies the entries
  a replay hands on; what the replay of the log says is an argument of \<^verbatim>\<open>Open\<close>.
\<close>

section \<open>Applied-key records and results\<close>

definition idem_Encode :: "hub_codec \<Rightarrow> idem_record \<Rightarrow> idem_error + bytes" where
  "idem_Encode C r =
     bindR (record_validate r) (\<lambda>_.
     bindR (if ir_result r \<noteq> [] then
              (case hc_compact C (ir_result r) of
                 None \<Rightarrow> Inl ErrInvalidRecord
               | Some b \<Rightarrow>
                   let result = (if b = json_null then [] else b) in
                   if MaxResultBytes < length result then Inl ErrResultTooLarge else Inr result)
            else Inr []) (\<lambda>result.
     orErr (hc_idem C (r\<lparr>ir_result := result\<rparr>)) ErrInvalidRecord))"

definition FingerprintSize :: nat where "FingerprintSize = 32"

definition idem_DecodeRecord :: "hub_codec \<Rightarrow> bytes \<Rightarrow> idem_error + idem_record" where
  "idem_DecodeRecord C b =
     bindR (orErr (un_idem C b) ErrInvalidRecord) (\<lambda>r.
     if length (ir_fingerprint r) \<noteq> FingerprintSize then Inl ErrInvalidRecord
     else bindR (record_validate r) (\<lambda>_. Inr r))"

record publish_result =
  res_MessageID :: string
  res_Seq :: u64
  res_Sender :: string
  res_Broadcast :: bool
  res_Recipients :: "string list"
  res_SentAt :: time
  res_Replayed :: bool

definition encodeStoredResult :: "hub_codec \<Rightarrow> string \<Rightarrow> u64 \<Rightarrow> string list \<Rightarrow> time \<Rightarrow> bytes option" where
  "encodeStoredResult C messageID sq recipients sentAt =
     hc_result C \<lparr>sr_MessageID = messageID, sr_Seq = sq, sr_Recipients = recipients, sr_SentAt = Some sentAt\<rparr>"

definition decodeStoredResult :: "hub_codec \<Rightarrow> idem_record \<Rightarrow> publish_result option" where
  "decodeStoredResult C r =
     (case un_result C (ir_result r) of
        None \<Rightarrow> None
      | Some sr \<Rightarrow>
     (case sr_SentAt sr of
        None \<Rightarrow> None
      | Some t \<Rightarrow>
          Some \<lparr>res_MessageID = sr_MessageID sr, res_Seq = sr_Seq sr, res_Sender = ir_agent r,
                res_Broadcast = (ir_op r = OpBroadcast), res_Recipients = sr_Recipients sr,
                res_SentAt = t, res_Replayed = False\<rparr>))"

definition publishFingerprint :: "string \<Rightarrow> string list \<Rightarrow> bytes \<Rightarrow> bytes" where
  "publishFingerprint op recipients body =
     ComputeFingerprint ([op, PutUint64 (word_of_nat (length recipients))] @ recipients @ [body])"

section \<open>Requests\<close>

record publish_request =
  pr_sender :: string
  pr_broadcast :: bool
  pr_recipients :: "string list"
  pr_body :: bytes
  pr_key :: string
  pr_MessageID :: string
  pr_Seq :: u64
  pr_TimestampUnixMilli :: u64
  pr_Signature :: bytes
  pr_busPath :: "string list"
  pr_relayed :: bool
  pr_originMessageID :: string
  pr_originSeq :: u64
  pr_originAttestation :: attestation

datatype hub_effect = EAccept string string string | ENotify msg | EForward msg

definition checkRelayedSender :: "string \<Rightarrow> string \<Rightarrow> hub_error + unit" where
  "checkRelayedSender busID sender =
     bindR (wrapErr (\<lambda>_. ErrRelayedSender) (ParseAgentID sender)) (\<lambda>(senderBus, _, _).
     if equal_fold senderBus busID then Inl ErrRelayedSender else Inr ())"

definition checkRelayedRecipient :: "hub_env \<Rightarrow> string \<Rightarrow> string \<Rightarrow> hub_error + unit" where
  "checkRelayedRecipient E busID recipient =
     bindR (wrapErr (\<lambda>_. ErrInvalidRecipient) (ParseAgentID recipient)) (\<lambda>(bus, _, _).
     if \<not> equal_fold bus busID then Inr ()
     else if bus \<noteq> busID \<or> \<not> Enrolled E recipient then Inl ErrUnknownRecipient
     else Inr ())"

definition routeRemote :: "hub_env \<Rightarrow> string \<Rightarrow> string \<Rightarrow> string option" where
  "routeRemote E busID recipient =
     (case he_router E of
        None \<Rightarrow> None
      | Some route \<Rightarrow>
     (case ParseAgentID recipient of
        Inl _ \<Rightarrow> None
      | Inr (bus, _, _) \<Rightarrow>
          if equal_fold bus busID then None
          else
     (case route recipient of
        None \<Rightarrow> None
      | Some peer \<Rightarrow>
          if ValidateBusID peer \<noteq> Inr () then None
          else if equal_fold peer busID then None
          else Some peer)))"

fun check_recipients :: "hub_env \<Rightarrow> string \<Rightarrow> bool \<Rightarrow> string list \<Rightarrow> hub_error + unit" where
  "check_recipients E busID relayed [] = Inr ()"
| "check_recipients E busID relayed (r # rest) =
     (if relayed then
        bindR (checkRelayedRecipient E busID r) (\<lambda>_. check_recipients E busID relayed rest)
      else if Enrolled E r then check_recipients E busID relayed rest
      else if routeRemote E busID r \<noteq> None then check_recipients E busID relayed rest
      else Inl ErrUnknownRecipient)"

definition check_request :: "hub_env \<Rightarrow> string \<Rightarrow> publish_request \<Rightarrow> hub_error + unit" where
  "check_request E busID req =
     bindR (validateIdempotencyKey (pr_key req)) (\<lambda>_.
     if pr_body req = [] then Inl HubInvalidBody
     else if MaxBodyBytes < length (pr_body req) then Inl HubInvalidBody
     else
     bindR (if pr_relayed req then checkRelayedSender busID (pr_sender req)
            else if \<not> Enrolled E (pr_sender req) then Inl ErrUnknownSender else Inr ()) (\<lambda>_.
     check_recipients E busID (pr_relayed req) (pr_recipients req)))"

definition publish_op :: "publish_request \<Rightarrow> string" where
  "publish_op req = (if pr_relayed req then OpRelay else if pr_broadcast req then OpBroadcast else OpSend)"

definition mint_of :: "publish_request \<Rightarrow> mint_key" where
  "mint_of req = \<lparr>mk_agent = pr_sender req, mk_op = publish_op req, mk_key = pr_key req\<rparr>"

text \<open>The sequence a publish spends: a fresh one for a relayed message, the reserved one otherwise.\<close>

definition spend_mint ::
  "hub_codec \<Rightarrow> 'l durable_write \<Rightarrow> write_outcome \<Rightarrow> time \<Rightarrow> publish_request \<Rightarrow> 'l hub \<Rightarrow>
     (hub_error + u64) \<times> 'l hub" where
  "spend_mint C dw io now req h =
     (case (if pr_relayed req then
              (if pr_MessageID req \<noteq> [] \<or> pr_Seq req \<noteq> 0 then (Inl ErrMintMismatch, h)
               else case mintRelayedSeqLocked C dw io h of
                 (Inl e, h1) \<Rightarrow> (Inl e, h1)
               | (Inr (sq, _), h1) \<Rightarrow> (Inr sq, h1))
            else let h1 = expireMintsLocked now h in
              (case map_of (hb_mints h1) (mint_of req) of
                 None \<Rightarrow> (Inl ErrUnknownMint, h1)
               | Some m \<Rightarrow>
                   if om_seq m \<noteq> pr_Seq req \<or> om_messageID m \<noteq> pr_MessageID req then (Inl ErrMintMismatch, h1)
                   else (Inr (om_seq m), h1))) of
        (Inl e, h2) \<Rightarrow> (Inl e, h2)
      | (Inr sq, h2) \<Rightarrow>
     (case assertSeqFloorLocked sq h2 of
        (Inl e, h3) \<Rightarrow> (Inl e, h3)
      | (Inr _, h3) \<Rightarrow> (Inr sq, h3)))"

section \<open>The entry written\<close>

definition CanonicalDigest :: "message \<Rightarrow> sign_error + bytes" where
  "CanonicalDigest m = bindR (Canonicalize m) (\<lambda>b. Inr (sha256 b))"

definition auditContentHash :: "msg \<Rightarrow> string \<Rightarrow> u64 \<Rightarrow> hub_error + string" where
  "auditContentHash m signedID signedSeq =
     (let sm = SigningMessage m;
          sm' = (if signedID \<noteq> [] then sm\<lparr>m_messageID := signedID, m_sequence := signedSeq\<rparr> else sm)
      in bindR (wrapErr HubDigest (CanonicalDigest sm')) (\<lambda>d. Inr (hex_encode d)))"

definition auditRecordFor :: "msg \<Rightarrow> string \<Rightarrow> u64 \<Rightarrow> hub_error + audit_record" where
  "auditRecordFor m signedID signedSeq =
     bindR (auditContentHash m signedID signedSeq) (\<lambda>hash.
     Inr \<lparr>au_MessageID = mg_ID m, au_Seq = mg_Seq m, au_Sender = mg_Sender m, au_Broadcast = mg_Broadcast m,
          au_Recipients = mg_Recipients m, au_BusPath = mg_BusPath m, au_SentAt = mg_SentAt m,
          au_Size = int (length (mg_Body m)), au_ContentSHA256 = hash\<rparr>)"

definition RecordKind :: string where "RecordKind = ''message''"

definition build_message :: "string \<Rightarrow> time \<Rightarrow> publish_request \<Rightarrow> u64 \<Rightarrow> hub_error + msg" where
  "build_message busID now req sq =
     bindR (if pr_busPath req = [] then
              (if pr_relayed req then Inl ErrInvalidBusPath else Inr (LocalBusPath busID))
            else Inr (pr_busPath req)) (\<lambda>busPath.
     bindR (wrapErr HubStore
              (NewMessageWithBusPath busID (pr_sender req) (pr_broadcast req) (pr_recipients req) sq now
                 (pr_body req) (pr_key req) (pr_TimestampUnixMilli req) (pr_Signature req) busPath)) (\<lambda>m.
     if pr_relayed req
     then wrapErr HubStore (WithRelayOrigin m (pr_originMessageID req) (pr_originAttestation req))
     else Inr m))"

definition idem_of :: "publish_request \<Rightarrow> bytes \<Rightarrow> msg \<Rightarrow> bytes \<Rightarrow> idem_record" where
  "idem_of req fp m result =
     \<lparr>ir_agent = pr_sender req, ir_enrolBusWide = False, ir_op = publish_op req, ir_key = pr_key req,
      ir_fingerprint = fp, ir_result = result, ir_seq = mg_Seq m, ir_committedAt = mg_SentAt m\<rparr>"

definition build_entry ::
  "hub_codec \<Rightarrow> string \<Rightarrow> time \<Rightarrow> publish_request \<Rightarrow> bytes \<Rightarrow> u64 \<Rightarrow> hub_error + (msg \<times> idem_record \<times> entry)" where
  "build_entry C busID now req fp sq =
     bindR (build_message busID now req sq) (\<lambda>m.
     bindR (orErr (hc_msg C (msg_Record m)) HubEncode) (\<lambda>payload.
     bindR (orErr (encodeStoredResult C (mg_ID m) (mg_Seq m) (mg_Recipients m) (mg_SentAt m)) HubEncode) (\<lambda>result.
     let r = idem_of req fp m result in
     bindR (wrapErr HubIdem (idem_Encode C r)) (\<lambda>encodedIdem.
     if \<not> pr_relayed req \<and>
        (pr_originMessageID req \<noteq> [] \<or> pr_originSeq req \<noteq> 0 \<or> at_signature (pr_originAttestation req) \<noteq> [])
     then Inl HubInternal
     else
     bindR (auditRecordFor m (if pr_relayed req then pr_originMessageID req else [])
              (if pr_relayed req then pr_originSeq req else 0)) (\<lambda>a.
     Inr (m, r, \<lparr>en_Kind = RecordKind, en_Body = Some payload, en_Idem = Some encodedIdem, en_Audit = Some a\<rparr>))))))"

section \<open>Publishing\<close>

definition acceptances :: "hub_env \<Rightarrow> bool \<Rightarrow> msg \<Rightarrow> hub_effect list" where
  "acceptances E broadcast m =
     (if \<not> he_acks E \<or> broadcast then []
      else map (EAccept (OriginID m) (mg_Sender m)) (mg_Recipients m))"

text \<open>After the durable write: the mint is spent, the serving copy and the applied-key table follow.\<close>

definition apply_published ::
  "hub_env \<Rightarrow> time \<Rightarrow> time \<Rightarrow> publish_request \<Rightarrow> msg \<Rightarrow> idem_record \<Rightarrow> committed \<Rightarrow> 'l hub \<Rightarrow>
     (hub_error + publish_result) \<times> hub_effect list \<times> 'l hub" where
  "apply_published E now1 now2 req m0 r c h =
     (let m = m0\<lparr>mg_Pos := cm_CommitIndex c\<rparr>;
          h1 = (if pr_relayed req then h
                else decMintCountLocked (pr_sender req) (h\<lparr>hb_mints := AList.delete (mint_of req) (hb_mints h)\<rparr>))
      in case store_Append now1 m (hb_store h1) of
           (Inl _, st) \<Rightarrow> (Inl HubPoisoned, [], h1\<lparr>hb_store := st, hb_poisoned := True\<rparr>)
         | (Inr _, st) \<Rightarrow>
        (let h2 = h1\<lparr>hb_store := st\<rparr> in
         case Remember now2 (hb_idem h2) r of
           (Inl _, t) \<Rightarrow> (Inl HubPoisoned, [], h2\<lparr>hb_idem := t, hb_poisoned := True\<rparr>)
         | (Inr _, t) \<Rightarrow>
             (Inr \<lparr>res_MessageID = mg_ID m, res_Seq = mg_Seq m, res_Sender = mg_Sender m,
                   res_Broadcast = mg_Broadcast m, res_Recipients = mg_Recipients m,
                   res_SentAt = mg_SentAt m, res_Replayed = False\<rparr>,
              acceptances E (pr_broadcast req) m @ [ENotify m] @ (if he_egress E then [EForward m] else []),
              h2\<lparr>hb_idem := t\<rparr>)))"

definition publish ::
  "hub_codec \<Rightarrow> hub_env \<Rightarrow> 'l durable_write \<Rightarrow> write_outcome \<Rightarrow> (nat \<Rightarrow> time) \<Rightarrow> publish_request \<Rightarrow> 'l hub \<Rightarrow>
     (hub_error + publish_result) \<times> idem_outcome \<times> hub_effect list \<times> 'l hub" where
  "publish C E dw io clk req h =
     (case (bindR (check_request E (hb_busID h) req) (\<lambda>_.
            if hb_poisoned h then Inl HubPoisoned
            else if \<not> he_durable E then Inl HubNotDurable
            else wrapErr HubIdem (NewAgentScope (pr_sender req) (publish_op req) (pr_key req)))) of
        Inl e \<Rightarrow> (Inl e, OutcomeNew, [], h)
      | Inr sc \<Rightarrow>
     (let fp = publishFingerprint (publish_op req) (pr_recipients req) (pr_body req) in
      case Lookup (clk 0) (hb_idem h) sc fp of
        ((prev, OutcomeViolation), t) \<Rightarrow> (Inl ErrIdempotencyKeyReused, OutcomeViolation, [], h\<lparr>hb_idem := t\<rparr>)
      | ((prev, OutcomeRetry), t) \<Rightarrow>
          (case (case prev of None \<Rightarrow> None | Some p \<Rightarrow> decodeStoredResult C p) of
             None \<Rightarrow> (Inl HubStoredResult, OutcomeNew, [], h\<lparr>hb_idem := t\<rparr>)
           | Some out \<Rightarrow> (Inr (out\<lparr>res_Replayed := True\<rparr>), OutcomeRetry, [], h\<lparr>hb_idem := t\<rparr>))
      | ((prev, OutcomeNew), t) \<Rightarrow>
     (case Admit (clk 1) t sc of
        (Inl e, t1) \<Rightarrow> (Inl (if e = ErrAgentQuota then HubAgentQuota else HubCapacity), OutcomeNew, [], h\<lparr>hb_idem := t1\<rparr>)
      | (Inr _, t1) \<Rightarrow>
     (case spend_mint C dw io (clk 2) req (h\<lparr>hb_idem := t1\<rparr>) of
        (Inl e, h1) \<Rightarrow> (Inl e, OutcomeNew, [], h1)
      | (Inr sq, h1) \<Rightarrow>
     (case build_entry C (hb_busID h1) (clk 3) req fp sq of
        Inl e \<Rightarrow> (Inl e, OutcomeNew, [], h1)
      | Inr (m, r, e) \<Rightarrow>
     (case dw e (hb_log h1) of
        (Inl err, l) \<Rightarrow> (Inl (HubLog err), OutcomeNew, [], h1\<lparr>hb_log := l\<rparr>)
      | (Inr c, l) \<Rightarrow>
     (case apply_published E (clk 4) (clk 5) req m r c (h1\<lparr>hb_log := l\<rparr>) of
        (res, effs, h2) \<Rightarrow> (res, OutcomeNew, effs, h2))))))))"


definition Broadcast ::
  "hub_codec \<Rightarrow> hub_env \<Rightarrow> 'l durable_write \<Rightarrow> write_outcome \<Rightarrow> (nat \<Rightarrow> time) \<Rightarrow> string \<Rightarrow> bytes \<Rightarrow> string \<Rightarrow>
     string \<Rightarrow> u64 \<Rightarrow> u64 \<Rightarrow> bytes \<Rightarrow> 'l hub \<Rightarrow> (hub_error + publish_result) \<times> hub_effect list \<times> 'l hub" where
  "Broadcast C E dw io clk sender body key mid sq ts sig h =
     (case publish C E dw io clk
        \<lparr>pr_sender = sender, pr_broadcast = True, pr_recipients = [], pr_body = body, pr_key = key,
         pr_MessageID = mid, pr_Seq = sq, pr_TimestampUnixMilli = ts, pr_Signature = sig, pr_busPath = [],
         pr_relayed = False, pr_originMessageID = [], pr_originSeq = 0,
         pr_originAttestation = zero_attestation\<rparr> h of
        (res, _, effs, h') \<Rightarrow> (res, effs, h'))"

definition Send ::
  "hub_codec \<Rightarrow> hub_env \<Rightarrow> 'l durable_write \<Rightarrow> write_outcome \<Rightarrow> (nat \<Rightarrow> time) \<Rightarrow> string \<Rightarrow> string \<Rightarrow> bytes \<Rightarrow> string \<Rightarrow>
     string \<Rightarrow> u64 \<Rightarrow> u64 \<Rightarrow> bytes \<Rightarrow> 'l hub \<Rightarrow> (hub_error + publish_result) \<times> hub_effect list \<times> 'l hub" where
  "Send C E dw io clk sender to body key mid sq ts sig h =
     (case ParseAgentID to of
        Inl _ \<Rightarrow> (Inl ErrInvalidRecipient, [], h)
      | Inr _ \<Rightarrow>
     (case publish C E dw io clk
        \<lparr>pr_sender = sender, pr_broadcast = False, pr_recipients = [to], pr_body = body, pr_key = key,
         pr_MessageID = mid, pr_Seq = sq, pr_TimestampUnixMilli = ts, pr_Signature = sig, pr_busPath = [],
         pr_relayed = False, pr_originMessageID = [], pr_originSeq = 0,
         pr_originAttestation = zero_attestation\<rparr> h of
        (res, _, effs, h') \<Rightarrow> (res, effs, h')))"

section \<open>Messages from a peer\<close>

record relayed_request =
  rr_Sender :: string
  rr_Recipients :: "string list"
  rr_Body :: bytes
  rr_OriginMessageID :: string
  rr_OriginAttestation :: attestation
  rr_BusPath :: "string list"
  rr_TimestampUnixMilli :: u64
  rr_Signature :: bytes

fun check_relayed_recipients :: "string list \<Rightarrow> string list \<Rightarrow> hub_error + unit" where
  "check_relayed_recipients seen [] = Inr ()"
| "check_relayed_recipients seen (r # rest) =
     (if MaxAgentIDLen < length r then Inl ErrInvalidRecipient
      else if r \<in> set seen then Inl ErrInvalidRecipient
      else check_relayed_recipients (r # seen) rest)"

definition validateRelayedShape :: "relayed_request \<Rightarrow> hub_error + unit" where
  "validateRelayedShape req =
     (if rr_Recipients req = [] then Inl ErrInvalidRecipient
      else if Message.MaxRecipients < length (rr_Recipients req) then Inl ErrInvalidRecipient
      else bindR (check_relayed_recipients [] (rr_Recipients req)) (\<lambda>_.
      if sint (rr_TimestampUnixMilli req) \<le> 0 then Inl ErrInvalidRelayedMessage
      else if length (rr_Signature req) \<noteq> SignatureSize then Inl ErrInvalidRelayedMessage
      else Inr ()))"

definition widestStoredResultSentAt :: time where
  "widestStoredResultSentAt = unixEpoch + (2 ^ 63 - 1)"

definition relayedResultFits :: "hub_codec \<Rightarrow> string \<Rightarrow> string list \<Rightarrow> hub_error + unit" where
  "relayedResultFits C busID recipients =
     bindR (wrapErr HubIds (MessageID busID maxUint64)) (\<lambda>widestID.
     bindR (orErr (encodeStoredResult C widestID maxUint64 recipients widestStoredResultSentAt) HubEncode) (\<lambda>probe.
     if MaxResultBytes < length probe then Inl ErrInvalidRelayedMessage else Inr ()))"

fun check_received_hops :: "string \<Rightarrow> string list \<Rightarrow> hub_error + unit" where
  "check_received_hops busID [] = Inr ()"
| "check_received_hops busID (hop # rest) =
     bindR (wrapErr (\<lambda>_. ErrInvalidBusPath) (ValidateBusID hop)) (\<lambda>_.
     if equal_fold hop busID then Inl ErrBusPathLoop else check_received_hops busID rest)"

definition relayedBusPath :: "string \<Rightarrow> string list \<Rightarrow> hub_error + string list" where
  "relayedBusPath busID received =
     (if received = [] then Inl ErrInvalidBusPath
      else if MaxReceivedBusPath < length received then Inl ErrInvalidBusPath
      else bindR (check_received_hops busID received) (\<lambda>_. Inr (received @ [busID])))"

definition relayedOrigin :: "string \<Rightarrow> string \<Rightarrow> string list \<Rightarrow> hub_error + u64" where
  "relayedOrigin sender originMessageID busPath =
     bindR (wrapErr (\<lambda>_. ErrInvalidIdempotencyKey) (ParseMessageID originMessageID)) (\<lambda>(originBus, originSeq).
     bindR (wrapErr (\<lambda>_. ErrRelayedSender) (ParseAgentID sender)) (\<lambda>(senderBus, _, _).
     if originBus \<noteq> senderBus then Inl ErrRelayedSender
     else if \<not> equal_fold (hd busPath) originBus then Inl ErrInvalidBusPath
     else Inr originSeq))"

definition ingest_request :: "relayed_request \<Rightarrow> string list \<Rightarrow> u64 \<Rightarrow> publish_request" where
  "ingest_request req busPath originSeq =
     \<lparr>pr_sender = rr_Sender req, pr_broadcast = False, pr_recipients = rr_Recipients req, pr_body = rr_Body req,
      pr_key = rr_OriginMessageID req, pr_MessageID = [], pr_Seq = 0,
      pr_TimestampUnixMilli = rr_TimestampUnixMilli req, pr_Signature = rr_Signature req, pr_busPath = busPath,
      pr_relayed = True, pr_originMessageID = rr_OriginMessageID req, pr_originSeq = originSeq,
      pr_originAttestation = rr_OriginAttestation req\<rparr>"

definition IngestRelayed ::
  "hub_codec \<Rightarrow> hub_env \<Rightarrow> 'l durable_write \<Rightarrow> write_outcome \<Rightarrow> (nat \<Rightarrow> time) \<Rightarrow> bool \<Rightarrow> relayed_request \<Rightarrow> 'l hub \<Rightarrow>
     (hub_error + string \<times> u64) \<times> idem_outcome \<times> hub_effect list \<times> 'l hub" where
  "IngestRelayed C E dw io clk cancelled req h =
     (case (if cancelled then Inl HubCancelled else
            bindR (validateRelayedShape req) (\<lambda>_.
            bindR (relayedResultFits C (hb_busID h) (rr_Recipients req)) (\<lambda>_.
            bindR (relayedBusPath (hb_busID h) (rr_BusPath req)) (\<lambda>busPath.
            bindR (relayedOrigin (rr_Sender req) (rr_OriginMessageID req) busPath) (\<lambda>originSeq.
            Inr (ingest_request req busPath originSeq)))))) of
        Inl e \<Rightarrow> (Inl e, OutcomeNew, [], h)
      | Inr preq \<Rightarrow>
     (case publish C E dw io clk preq h of
        (Inl e, oc, effs, h') \<Rightarrow> (Inl e, oc, effs, h')
      | (Inr res, oc, effs, h') \<Rightarrow> (Inr (res_MessageID res, res_Seq res), oc, effs, h')))"


section \<open>Recovery\<close>

definition recoverIdemRecord :: "hub_codec \<Rightarrow> committed \<Rightarrow> msg \<Rightarrow> idem_record option" where
  "recoverIdemRecord C c m =
     (case en_Idem (cm_Entry c) of
        Some b \<Rightarrow> (case idem_DecodeRecord C b of Inl _ \<Rightarrow> None | Inr r \<Rightarrow> Some r)
      | None \<Rightarrow>
          if mg_IdempotencyKey m = [] then None
          else let op = (if mg_Broadcast m then OpBroadcast else OpSend) in
          (case encodeStoredResult C (mg_ID m) (mg_Seq m) (mg_Recipients m) (mg_SentAt m) of
             None \<Rightarrow> None
           | Some result \<Rightarrow>
               Some \<lparr>ir_agent = mg_Sender m, ir_enrolBusWide = False, ir_op = op, ir_key = mg_IdempotencyKey m,
                     ir_fingerprint = publishFingerprint op (mg_Recipients m) (mg_Body m), ir_result = result,
                     ir_seq = mg_Seq m, ir_committedAt = mg_SentAt m\<rparr>))"

definition msg_of_body :: "hub_codec \<Rightarrow> bytes option \<Rightarrow> store_error + msg" where
  "msg_of_body C body =
     bindR (orErr (case body of None \<Rightarrow> None | Some b \<Rightarrow> un_msg C b) ErrInvalidMessage) msg_Decode"

text \<open>\<^verbatim>\<open>Apply\<close> on one committed entry, with the clock readings of its two tables.\<close>

definition hub_Apply :: "hub_codec \<Rightarrow> time \<Rightarrow> time \<Rightarrow> committed \<Rightarrow> 'l hub \<Rightarrow> 'l hub" where
  "hub_Apply C now1 now2 c h =
     (if en_Kind (cm_Entry c) = SeqFloorRecordKind then applySeqFloor C c h
      else if en_Kind (cm_Entry c) \<noteq> RecordKind then h
      else case msg_of_body C (en_Body (cm_Entry c)) of
        Inl _ \<Rightarrow> h\<lparr>hb_undecodableMessages := hb_undecodableMessages h + 1\<rparr>
      | Inr m0 \<Rightarrow>
     (let m = m0\<lparr>mg_Pos := cm_CommitIndex c\<rparr> in
      case store_Append now1 m (hb_store h) of
        (Inl _, st) \<Rightarrow> h\<lparr>hb_store := st, hb_unappliableMessages := hb_unappliableMessages h + 1\<rparr>
      | (Inr _, st) \<Rightarrow>
     (let h1 = h\<lparr>hb_store := st,
                 hb_appliedSeq := (if hb_appliedSeq h < mg_Seq m then mg_Seq m else hb_appliedSeq h),
                 hb_recovered := fold List.insert (mg_Sender m # mg_Recipients m) (hb_recovered h)\<rparr> in
      case recoverIdemRecord C c m of
        None \<Rightarrow> h1
      | Some r \<Rightarrow> h1\<lparr>hb_idem := snd (Recover now2 (hb_idem h1) r)\<rparr>)))"

record hub_options =
  ho_BusID :: string
  ho_Roster :: bool
  ho_DataDir :: bool
  ho_MaxAge :: int
  ho_MaxBytes :: int
  ho_MaxIdempotencyEntries :: int
  ho_NextIndex :: u64
  ho_Replay :: "(unit + (committed \<times> time \<times> time) list \<times> u64) option"
  ho_LogRepaired :: bool

definition check_options :: "hub_env \<Rightarrow> hub_options \<Rightarrow> hub_error + unit" where
  "check_options E o' =
     bindR (wrapErr HubIds (ValidateBusID (ho_BusID o'))) (\<lambda>_.
     if \<not> ho_Roster o' then Inl HubNoRoster
     else if he_durable E \<and> \<not> ho_DataDir o' then Inl HubNoDataDir
     else if he_router E \<noteq> None \<and> \<not> he_egress E then Inl HubNoEgress
     else Inr ())"

definition new_hub :: "hub_options \<Rightarrow> 'l \<Rightarrow> seq_floor_file option \<Rightarrow> idem_store \<Rightarrow> 'l hub" where
  "new_hub o' l sf t =
     (let f0 = (if 0 < ho_NextIndex o' then ho_NextIndex o' - 1 else ho_NextIndex o');
          floor = (case sf of Some f \<Rightarrow> if f0 < burned f then burned f else f0 | None \<Rightarrow> f0)
      in \<lparr>hb_busID = ho_BusID o', hb_log = l, hb_seq = Resume floor,
          hb_store = store_New (ho_MaxAge o') (ho_MaxBytes o'), hb_idem = t, hb_poisoned = False,
          hb_appliedSeq = 0, hb_undecodableMessages = 0, hb_unappliableMessages = 0, hb_replayedSeqFloor = 0,
          hb_seqFloorFile = sf, hb_durableSeqFloor = floor, hb_mints = [], hb_mintsByAgent = [],
          hb_recovered = []\<rparr>)"

text \<open>\<open>hb_durableSeqFloor\<close> carries the local \<^verbatim>\<open>floor\<close> of \<^verbatim>\<open>Open\<close> until it is sealed in.\<close>

definition raise_floor_to :: "u64 \<Rightarrow> 'l hub \<Rightarrow> hub_error + 'l hub" where
  "raise_floor_to n h =
     (if hb_durableSeqFloor h < n then
        (case RaiseFloor (hb_seq h) n of
           (Inl e, _) \<Rightarrow> Inl (HubSequence e)
         | (Inr _, q) \<Rightarrow> Inr (h\<lparr>hb_seq := q, hb_durableSeqFloor := n\<rparr>))
      else Inr h)"

definition replay_into :: "hub_codec \<Rightarrow> hub_options \<Rightarrow> 'l hub \<Rightarrow> hub_error + 'l hub" where
  "replay_into C o' h =
     (case ho_Replay o' of
        None \<Rightarrow> Inr h
      | Some (Inl _) \<Rightarrow> Inl HubReplay
      | Some (Inr (cs, nextIndex)) \<Rightarrow>
          (let h1 = foldl (\<lambda>h (c, t1, t2). hub_Apply C t1 t2 c h) h cs in
           if 0 < nextIndex then raise_floor_to (nextIndex - 1) h1 else Inr h1))"

definition seal_floor ::
  "write_outcome \<Rightarrow> write_outcome \<Rightarrow> hub_options \<Rightarrow> 'l hub \<Rightarrow> (hub_error + 'l hub) \<times> seq_floor_file option" where
  "seal_floor io1 io2 o' h =
     (case (case hb_seqFloorFile h of
              None \<Rightarrow> (Inr (), None)
            | Some f \<Rightarrow>
                if \<not> sf_existed f \<and> ho_LogRepaired o' then (Inl ErrSeqFloorUnprovable, Some f)
                else case sf_raise io1 (hb_durableSeqFloor h) f of
                  (Inl e, f1) \<Rightarrow> (Inl (HubFloor e), Some f1)
                | (Inr _, f1) \<Rightarrow>
                   (case ensureExists io2 f1 of
                      (Inl e, f2) \<Rightarrow> (Inl (HubFloor e), Some f2)
                    | (Inr _, f2) \<Rightarrow> (Inr (), Some f2))) of
        (Inl e, sf) \<Rightarrow> (Inl e, sf)
      | (Inr _, sf) \<Rightarrow>
     (case Seal (hb_seq h) of
        (Inl e, _) \<Rightarrow> (Inl (HubSequence e), sf)
      | (Inr _, q) \<Rightarrow> (Inr (h\<lparr>hb_seq := q, hb_seqFloorFile := sf\<rparr>), sf)))"

text \<open>\<^verbatim>\<open>Open\<close>; \<open>file\<close> is the floor file found, and the files it may have left are returned too.\<close>

definition hub_Open ::
  "hub_codec \<Rightarrow> hub_env \<Rightarrow> write_outcome \<Rightarrow> write_outcome \<Rightarrow> hub_options \<Rightarrow> bytes option \<Rightarrow> 'l \<Rightarrow>
     (hub_error + 'l hub) \<times> bytes option list" where
  "hub_Open C E io1 io2 o' file l =
     (case (bindR (check_options E o') (\<lambda>_.
            bindR (wrapErr HubIdem (NewStoreForBus (ho_BusID o') 0 (ho_MaxIdempotencyEntries o'))) (\<lambda>t.
            bindR (if ho_DataDir o' then bindR (wrapErr HubFloor (openSeqFloorFile file)) (\<lambda>f. Inr (Some f))
                   else Inr None) (\<lambda>sf.
            bindR (replay_into C o' (new_hub o' l sf t)) (\<lambda>h.
            bindR (raise_floor_to (hb_replayedSeqFloor h) h) (\<lambda>h.
            raise_floor_to (hb_appliedSeq h) h)))))) of
        Inl e \<Rightarrow> (Inl e, [file])
      | Inr h \<Rightarrow>
     (case seal_floor io1 io2 o' h of
        (r, sf) \<Rightarrow> (r, case sf of None \<Rightarrow> [file] | Some f \<Rightarrow> sf_disk f)))"

end
