(* ===== verification/HubPublish.thy ===== *)
theory HubPublish
  imports Hub
begin

text \<open>
  The paths through \<^verbatim>\<open>publish\<close> (\<^verbatim>\<open>internal/hub/hub.go\<close>): what each of them does to the hub, the log and the
  applied-key table, and that a retry of an applied request is answered from the table.
\<close>

section \<open>What is written\<close>

lemma build_message_fields:
  assumes "build_message busID now req sq = Inr m"
  shows "mg_Seq m = sq" "mg_Pos m = 0" "mg_Sender m = pr_sender req" "mg_Broadcast m = pr_broadcast req"
    "mg_Recipients m = pr_recipients req" "mg_Body m = pr_body req" "mg_SentAt m = now"
    "mg_IdempotencyKey m = pr_key req" "MessageID busID sq = Inr (mg_ID m)"
  using assms
  by (auto simp: build_message_def NewMessageWithBusPath_def WithRelayOrigin_def WithOriginMessageID_def res
      split: if_splits)

lemma build_entry_fields:
  assumes "build_entry C busID now req fp sq = Inr (m, r, e)"
  shows "build_message busID now req sq = Inr m" "en_Kind e = RecordKind"
    "\<exists>b. hc_msg C (msg_Record m) = Some b \<and> en_Body e = Some b"
    "\<exists>b. encodeStoredResult C (mg_ID m) (mg_Seq m) (mg_Recipients m) (mg_SentAt m) = Some b \<and> r = idem_of req fp m b"
    "\<exists>b. idem_Encode C r = Inr b \<and> en_Idem e = Some b"
    "\<exists>a. en_Audit e = Some a \<and> au_MessageID a = mg_ID m \<and> au_Seq a = mg_Seq m \<and> au_Sender a = mg_Sender m"
  using assms
  by (auto simp: build_entry_def res Let_def auditRecordFor_def orErr_def split: if_splits option.splits)

section \<open>The paths through a publish\<close>

text \<open>The checks made before the table is asked, and the scope they yield.\<close>

definition publish_scope :: "hub_env \<Rightarrow> 'l hub \<Rightarrow> publish_request \<Rightarrow> hub_error + idem_scope" where
  "publish_scope E h req =
     bindR (check_request E (hb_busID h) req) (\<lambda>_.
     if hb_poisoned h then Inl HubPoisoned
     else if \<not> he_durable E then Inl HubNotDurable
     else wrapErr HubIdem (NewAgentScope (pr_sender req) (publish_op req) (pr_key req)))"

definition publish_fp :: "publish_request \<Rightarrow> bytes" where
  "publish_fp req = publishFingerprint (publish_op req) (pr_recipients req) (pr_body req)"

text \<open>A call that wrote nothing, one that took a number and failed, and one that was committed.\<close>

inductive publish_path ::
  "hub_codec \<Rightarrow> hub_env \<Rightarrow> 'l durable_write \<Rightarrow> write_outcome \<Rightarrow> (nat \<Rightarrow> time) \<Rightarrow> publish_request \<Rightarrow> 'l hub \<Rightarrow>
     (hub_error + publish_result) \<times> idem_outcome \<times> hub_effect list \<times> 'l hub \<Rightarrow> bool"
  for C E dw io clk req h where
  refused: "publish_scope E h req = Inl e \<Longrightarrow> publish_path C E dw io clk req h (Inl e, OutcomeNew, [], h)"
| reused: "\<lbrakk>publish_scope E h req = Inr sc; Lookup (clk 0) (hb_idem h) sc (publish_fp req) = ((p, OutcomeViolation), t)\<rbrakk> \<Longrightarrow>
    publish_path C E dw io clk req h (Inl ErrIdempotencyKeyReused, OutcomeViolation, [], h\<lparr>hb_idem := t\<rparr>)"
| replayed: "\<lbrakk>publish_scope E h req = Inr sc; Lookup (clk 0) (hb_idem h) sc (publish_fp req) = ((Some p, OutcomeRetry), t);
    decodeStoredResult C p = Some out\<rbrakk> \<Longrightarrow>
    publish_path C E dw io clk req h (Inr (out\<lparr>res_Replayed := True\<rparr>), OutcomeRetry, [], h\<lparr>hb_idem := t\<rparr>)"
| unreadable: "\<lbrakk>publish_scope E h req = Inr sc; Lookup (clk 0) (hb_idem h) sc (publish_fp req) = ((p, OutcomeRetry), t);
    Option.bind p (decodeStoredResult C) = None\<rbrakk> \<Longrightarrow>
    publish_path C E dw io clk req h (Inl HubStoredResult, OutcomeNew, [], h\<lparr>hb_idem := t\<rparr>)"
| full: "\<lbrakk>publish_scope E h req = Inr sc; Lookup (clk 0) (hb_idem h) sc (publish_fp req) = ((p, OutcomeNew), t);
    Admit (clk 1) t sc = (Inl a, t1)\<rbrakk> \<Longrightarrow>
    publish_path C E dw io clk req h (Inl e, OutcomeNew, [], h\<lparr>hb_idem := t1\<rparr>)"
| failed: "\<lbrakk>publish_scope E h req = Inr sc; Lookup (clk 0) (hb_idem h) sc (publish_fp req) = ((p, OutcomeNew), t);
    Admit (clk 1) t sc = (Inr (), t1); spend_mint C dw io (clk 2) req (h\<lparr>hb_idem := t1\<rparr>) = (x, h1)\<rbrakk> \<Longrightarrow>
    publish_path C E dw io clk req h (Inl e, OutcomeNew, [], h1\<lparr>hb_log := l\<rparr>)"
| committed: "\<lbrakk>publish_scope E h req = Inr sc; Lookup (clk 0) (hb_idem h) sc (publish_fp req) = ((p, OutcomeNew), t);
    Admit (clk 1) t sc = (Inr (), t1); spend_mint C dw io (clk 2) req (h\<lparr>hb_idem := t1\<rparr>) = (Inr sq, h1);
    build_entry C (hb_busID h1) (clk 3) req (publish_fp req) sq = Inr (m, r, e); dw e (hb_log h1) = (Inr c, l);
    apply_published E (clk 4) (clk 5) req m r c (h1\<lparr>hb_log := l\<rparr>) = (res, effs, h2)\<rbrakk> \<Longrightarrow>
    publish_path C E dw io clk req h (res, OutcomeNew, effs, h2)"

lemma hub_log_self: "h = h\<lparr>hb_log := hb_log h\<rparr>"
  by simp

lemma publish_admitted_path:
  assumes "publish_scope E h req = Inr sc" "Lookup (clk 0) (hb_idem h) sc (publish_fp req) = ((p, OutcomeNew), t)"
    "Admit (clk 1) t sc = (Inr (), t1)"
  shows "publish_path C E dw io clk req h (publish C E dw io clk req h)"
proof -
  obtain x h1 where sp: "spend_mint C dw io (clk 2) req (h\<lparr>hb_idem := t1\<rparr>) = (x, h1)" by fastforce
  have self: "h1 = h1\<lparr>hb_log := hb_log h1\<rparr>" by simp
  note fl = publish_path.failed [OF assms sp]
  note eq = publish_def publish_scope_def [symmetric] publish_fp_def [symmetric]
  consider (spent) e where "x = Inl e" | (built) sq e where "x = Inr sq"
      "build_entry C (hb_busID h1) (clk 3) req (publish_fp req) sq = Inl e"
    | (written) sq m r e where "x = Inr sq" "build_entry C (hb_busID h1) (clk 3) req (publish_fp req) sq = Inr (m, r, e)"
    by (metis surj_pair sum.exhaust)
  then show ?thesis
  proof cases
    case spent
    then show ?thesis using assms sp fl [of e "hb_log h1"] by (simp add: eq Let_def)
  next
    case built
    then show ?thesis using assms sp fl [of e "hb_log h1"] by (simp add: eq Let_def)
  next
    case written
    then show ?thesis
      using assms sp fl publish_path.committed [OF assms, of C dw io sq h1 m r e]
      by (cases "dw e (hb_log h1)"; cases "fst (dw e (hb_log h1))") (auto simp: eq Let_def split: prod.splits)
  qed
qed

lemma publish_paths: "publish_path C E dw io clk req h (publish C E dw io clk req h)"
proof (cases "publish_scope E h req")
  case (Inl e)
  then show ?thesis
    using publish_path.refused [OF Inl] by (simp add: publish_def publish_scope_def [symmetric])
next
  case (Inr sc)
  note eq = publish_def publish_scope_def [symmetric] publish_fp_def [symmetric]
  obtain p oc t where L: "Lookup (clk 0) (hb_idem h) sc (publish_fp req) = ((p, oc), t)" by (metis surj_pair)
  obtain a t1 where A: "Admit (clk 1) t sc = (a, t1)" by fastforce
  show ?thesis
  proof (cases oc)
    case OutcomeNew
    then show ?thesis
      using Inr L A publish_admitted_path [OF Inr] publish_path.full [OF Inr]
      by (cases a) (auto simp: eq Let_def)
  next
    case OutcomeRetry
    then show ?thesis
      using Inr L publish_path.replayed [OF Inr] publish_path.unreadable [OF Inr]
      by (cases "Option.bind p (decodeStoredResult C)") (auto simp: eq Let_def split: option.splits)
  next
    case OutcomeViolation
    then show ?thesis using Inr L publish_path.reused [OF Inr] by (simp add: eq Let_def)
  qed
qed

lemmas publish_elim = publish_path.cases [OF publish_paths]

end
