(* ===== verification/HubFloor.thy ===== *)
theory HubFloor
  imports HubPublish
begin

text \<open>
  Message sequences over the life of a bus: whatever the log does, whatever writes of the floor
  file fail and wherever the process is killed and started again, no number is handed out twice.
  The hub is an instance of the interface \<open>allocator\<close>.
\<close>

section \<open>The floor under the numbers\<close>

definition floor_ok :: "'l hub \<Rightarrow> bool" where
  "floor_ok h \<longleftrightarrow> seq_sealed (hb_seq h) \<and>
     (\<exists>f. hb_seqFloorFile h = Some f \<and> sf_inv f \<and> hb_durableSeqFloor h \<le> sf_floor f)"

definition burnt :: "'l hub \<Rightarrow> u64" where
  "burnt h = min (seq_floor (hb_seq h)) (hb_durableSeqFloor h)"

lemma floor_target_ge: "n \<le> floor_target n"
  by (simp add: floor_target_def Let_def maxUint64_def not_less)

lemma ensureSeqFloor_spec:
  assumes "floor_ok h" "ensureSeqFloorLocked C dw io h = (r, h')"
  shows "floor_ok h' \<and> hb_seq h' = hb_seq h \<and> hb_durableSeqFloor h \<le> hb_durableSeqFloor h' \<and>
    (r = Inr () \<longrightarrow> Peek (hb_seq h) \<le> hb_durableSeqFloor h')"
proof -
  obtain f where f: "hb_seqFloorFile h = Some f" "sf_inv f" "hb_durableSeqFloor h \<le> sf_floor f" "seq_sealed (hb_seq h)"
    using assms(1) by (auto simp: floor_ok_def)
  let ?n = "Peek (hb_seq h)" and ?t = "floor_target (Peek (hb_seq h))"
  obtain rr f' where rf: "sf_raise io ?t f = (rr, f')" by fastforce
  have s: "sf_inv f'" "sf_floor f \<le> sf_floor f'" "rr = Inr () \<Longrightarrow> ?t \<le> sf_floor f'"
    using sf_raise_spec [OF f(2) rf] by auto
  have le: "hb_durableSeqFloor h \<le> sf_floor f'" using f(3) s(2) by (rule order_trans)
  show ?thesis
  proof (cases "?n = 0 \<or> ?n \<le> hb_durableSeqFloor h")
    case True
    then have "ensureSeqFloorLocked C dw io h = (Inr (), h)" by (auto simp: ensureSeqFloorLocked_def Let_def)
    then show ?thesis using assms True by auto
  next
    case False
    then have t: "hb_durableSeqFloor h \<le> ?t" "?n \<le> ?t"
      using floor_target_ge [of ?n] by (auto simp: not_le)
    show ?thesis
    proof (cases rr)
      case (Inl e)
      then show ?thesis
        using assms(2) f rf False s le by (auto simp: ensureSeqFloorLocked_def Let_def floor_ok_def)
    next
      case (Inr u)
      then show ?thesis
        using assms(2) f rf False s le t
        by (auto simp: ensureSeqFloorLocked_def Let_def floor_ok_def split: option.splits prod.splits sum.splits)
    qed
  qed
qed

text \<open>The numbers a step took from the allocator: at most one, strictly above what was taken before.\<close>

definition taken :: "'l hub \<Rightarrow> 'l hub \<Rightarrow> u64 list" where
  "taken h h' = (if seq_floor (hb_seq h) < seq_floor (hb_seq h') then [seq_floor (hb_seq h')] else [])"

definition floor_step :: "'l hub \<Rightarrow> 'l hub \<Rightarrow> bool" where
  "floor_step h h' \<longleftrightarrow> floor_ok h' \<and> seq_floor (hb_seq h) \<le> seq_floor (hb_seq h') \<and>
     hb_durableSeqFloor h \<le> hb_durableSeqFloor h' \<and>
     (seq_floor (hb_seq h) < seq_floor (hb_seq h') \<longrightarrow> seq_floor (hb_seq h') \<le> hb_durableSeqFloor h')"

lemma take_seq_step:
  assumes "floor_ok h" "take_seq C dw io h = (r, h')"
  shows "floor_step h h' \<and> (\<forall>sq mid. r = Inr (sq, mid) \<longrightarrow> taken h h' = [sq])"
proof -
  obtain r1 h1 where e: "ensureSeqFloorLocked C dw io h = (r1, h1)" by fastforce
  note s = ensureSeqFloor_spec [OF assms(1) e]
  have up: "seq_floor (hb_seq h) < seq_floor (hb_seq h) + 1" if "seq_floor (hb_seq h) \<noteq> maxUint64"
    using that by (rule u64_less_Suc)
  have se: "seq_sealed (hb_seq h)" using assms(1) by (simp add: floor_ok_def)
  have pk: "Peek (hb_seq h) = seq_floor (hb_seq h) + 1" if "seq_floor (hb_seq h) \<noteq> maxUint64"
    using se that by (simp add: Peek_def)
  show ?thesis
    using assms(2) s up pk se unfolding floor_step_def taken_def
    by (cases r1; cases "seq_floor (hb_seq h) = maxUint64"; cases "MessageID (hb_busID h1) (seq_floor (hb_seq h) + 1)")
      (auto simp: take_seq_def e Next_def Let_def assertSeqFloorLocked_def floor_ok_def less_imp_le split: if_splits)
qed

definition same_floor :: "'l hub \<Rightarrow> 'l hub \<Rightarrow> bool" where
  "same_floor h h' \<longleftrightarrow> hb_seq h' = hb_seq h \<and> hb_durableSeqFloor h' = hb_durableSeqFloor h \<and>
     hb_seqFloorFile h' = hb_seqFloorFile h"

lemma same_floor_refl [simp]: "same_floor h h"
  by (simp add: same_floor_def)

lemma same_floor_trans: "same_floor h h1 \<Longrightarrow> same_floor h1 h2 \<Longrightarrow> same_floor h h2"
  by (simp add: same_floor_def)

lemma same_floor_ok: "same_floor h h' \<Longrightarrow> floor_ok h' = floor_ok h"
  by (simp add: same_floor_def floor_ok_def)

lemma decMint_frame [simp]:
  "hb_seq (decMintCountLocked a h) = hb_seq h" "hb_durableSeqFloor (decMintCountLocked a h) = hb_durableSeqFloor h"
  "hb_seqFloorFile (decMintCountLocked a h) = hb_seqFloorFile h" "hb_store (decMintCountLocked a h) = hb_store h"
  "hb_idem (decMintCountLocked a h) = hb_idem h" "hb_log (decMintCountLocked a h) = hb_log h"
  "hb_busID (decMintCountLocked a h) = hb_busID h" "hb_poisoned (decMintCountLocked a h) = hb_poisoned h"
  "hb_mints (decMintCountLocked a h) = hb_mints h"
  by (simp_all add: decMintCountLocked_def Let_def)

lemma expire_mints_frame:
  "same_floor h (expire_mints now ks h) \<and> hb_store (expire_mints now ks h) = hb_store h \<and>
   hb_idem (expire_mints now ks h) = hb_idem h \<and> hb_log (expire_mints now ks h) = hb_log h \<and>
   hb_busID (expire_mints now ks h) = hb_busID h \<and> hb_poisoned (expire_mints now ks h) = hb_poisoned h"
  by (induction now ks h rule: expire_mints.induct) (auto simp: same_floor_def split: option.splits)

lemma expireMints_frame:
  "same_floor h (expireMintsLocked now h)" "hb_store (expireMintsLocked now h) = hb_store h"
  "hb_idem (expireMintsLocked now h) = hb_idem h" "hb_log (expireMintsLocked now h) = hb_log h"
  "hb_busID (expireMintsLocked now h) = hb_busID h" "hb_poisoned (expireMintsLocked now h) = hb_poisoned h"
  using expire_mints_frame [of h now "map fst (hb_mints h)"] by (simp_all add: expireMintsLocked_def)

lemma floor_step_same: "floor_ok h \<Longrightarrow> same_floor h h' \<Longrightarrow> floor_step h h' \<and> taken h h' = []"
  by (simp add: floor_step_def same_floor_def floor_ok_def taken_def)

lemma floor_step_trans_same: "same_floor h' h'' \<Longrightarrow> floor_step h h'' = floor_step h h' \<and> taken h h'' = taken h h'"
  by (auto simp: floor_step_def same_floor_def floor_ok_def taken_def)

lemma same_floor_step: "same_floor h h' \<Longrightarrow> floor_step h h'' = floor_step h' h'' \<and> taken h h'' = taken h' h''"
  by (auto simp: floor_step_def same_floor_def taken_def)

lemma Mint_step:
  assumes "floor_ok h" "hub_Mint C E dw io now sender op key h = (r, h')"
  shows "floor_step h h' \<and> (\<forall>m. r = Inr m \<longrightarrow> taken h h' = (if mr_Replayed m then [] else [mr_Seq m]))"
proof -
  let ?h1 = "expireMintsLocked now h"
  have sf: "same_floor h ?h1" using expireMints_frame by blast
  then have ok: "floor_ok ?h1" using assms(1) by (simp add: same_floor_ok)
  obtain r2 h2 where t: "take_seq C dw io ?h1 = (r2, h2)" by fastforce
  have ts: "floor_step h h2" "\<And>sq mid. r2 = Inr (sq, mid) \<Longrightarrow> taken h h2 = [sq]"
    using take_seq_step [OF ok t] same_floor_step [OF sf, of h2] by auto
  have pin: "floor_step h (h2\<lparr>hb_mints := a, hb_mintsByAgent := b\<rparr>)"
    "taken h (h2\<lparr>hb_mints := a, hb_mintsByAgent := b\<rparr>) = taken h h2" for a b
    using ts(1) by (simp_all add: floor_step_def taken_def floor_ok_def)
  show ?thesis
    using assms floor_step_same [OF assms(1) sf] floor_step_same [OF assms(1) same_floor_refl] ts pin
    by (auto simp: hub_Mint_def Let_def t split: sum.splits option.splits if_splits prod.splits)
qed

lemma assertSeqFloor_same: "assertSeqFloorLocked sq h = (r, h') \<Longrightarrow> same_floor h h'"
  by (auto simp: assertSeqFloorLocked_def same_floor_def split: if_splits)

lemma spend_mint_step:
  assumes "floor_ok h" "spend_mint C dw io now req h = (r, h')"
  shows "floor_step h h' \<and> (if pr_relayed req then \<forall>sq. r = Inr sq \<longrightarrow> taken h h' = [sq] else taken h h' = [])"
proof (cases "pr_relayed req \<and> pr_MessageID req = [] \<and> pr_Seq req = 0")
  case True
  obtain r1 h1 where t: "take_seq C dw io h = (r1, h1)" by fastforce
  note s = take_seq_step [OF assms(1) t]
  show ?thesis
  proof (cases r1)
    case (Inl e)
    then show ?thesis using assms(2) True t s by (auto simp: spend_mint_def mintRelayedSeqLocked_def)
  next
    case (Inr p)
    obtain sq mid where p: "p = (sq, mid)" by fastforce
    obtain r2 h2 where a: "assertSeqFloorLocked sq h1 = (r2, h2)" by fastforce
    have "floor_step h h2 \<and> taken h h2 = [sq]"
      using floor_step_trans_same [OF assertSeqFloor_same [OF a]] s Inr p by simp
    then show ?thesis
      using assms(2) True t a Inr p by (cases r2) (auto simp: spend_mint_def mintRelayedSeqLocked_def)
  qed
next
  case False
  have "same_floor h h' \<and> (pr_relayed req \<longrightarrow> (\<exists>e. r = Inl e))"
    using assms(2) False expireMints_frame(1) [of h now]
    by (auto simp: spend_mint_def Let_def split: if_splits option.splits sum.splits prod.splits
        dest!: assertSeqFloor_same intro: same_floor_trans)
  then show ?thesis using floor_step_same [OF assms(1)] by auto
qed

lemma apply_published_same:
  "apply_published E n1 n2 req m r c h = (res, effs, h') \<Longrightarrow> same_floor h h'"
  by (auto simp: apply_published_def Let_def same_floor_def split: prod.splits sum.splits if_splits)

lemma apply_published_seq:
  assumes "apply_published E n1 n2 req m r c h = (Inr out, effs, h')"
  shows "res_Seq out = mg_Seq m"
  using assms by (auto simp: apply_published_def Let_def split: prod.splits sum.splits)

text \<open>A publish takes a number only for a relayed message, and that is the number the message gets.\<close>

lemma publish_step:
  assumes ok: "floor_ok h" and "publish C E dw io clk req h = (r, oc, effs, h')"
  shows "floor_step h h' \<and> (if pr_relayed req then \<forall>out. r = Inr out \<longrightarrow> oc = OutcomeNew \<longrightarrow> taken h h' = [res_Seq out]
    else taken h h' = [])"
  using publish_paths [of C E dw io clk req h] unfolding assms(2)
proof cases
  case (failed sc p t t1 x h1 e l)
  have s: "same_floor h (h\<lparr>hb_idem := t1\<rparr>)" "same_floor h1 (h1\<lparr>hb_log := l\<rparr>)" by (simp_all add: same_floor_def)
  have "floor_ok (h\<lparr>hb_idem := t1\<rparr>)" using ok by (simp add: floor_ok_def)
  from spend_mint_step [OF this failed(8)] show ?thesis
    using failed(1-4) same_floor_step [OF s(1)] floor_step_trans_same [OF s(2)] by (auto split: if_splits)
next
  case (committed sc p t t1 sq h1 m rec e c l)
  have s: "same_floor h (h\<lparr>hb_idem := t1\<rparr>)" "same_floor h1 (h1\<lparr>hb_log := l\<rparr>)" by (simp_all add: same_floor_def)
  have s': "same_floor h1 h'" using committed(8) s(2) by (blast intro: same_floor_trans apply_published_same)
  have "floor_ok (h\<lparr>hb_idem := t1\<rparr>)" using ok by (simp add: floor_ok_def)
  note sp = spend_mint_step [OF this committed(5)]
  have "res_Seq out = sq" if "r = Inr out" for out
    using committed(6,8) that by (metis apply_published_seq build_entry_fields(1) build_message_fields(1))
  then show ?thesis using sp same_floor_step [OF s(1)] floor_step_trans_same [OF s'] by (auto split: if_splits)
qed (use ok in \<open>auto simp: floor_step_def floor_ok_def taken_def\<close>)

section \<open>Opening\<close>

definition open_inv :: "seq_floor_file \<Rightarrow> 'l hub \<Rightarrow> bool" where
  "open_inv f h \<longleftrightarrow> hb_seqFloorFile h = Some f \<and> seq_floor (hb_seq h) = hb_durableSeqFloor h \<and>
     \<not> seq_sealed (hb_seq h) \<and> seq_last (hb_seq h) = 0 \<and> sf_floor f \<le> hb_durableSeqFloor h"

lemma new_hub_open: "open_inv f (new_hub o' l (Some f) t)"
  by (simp add: open_inv_def new_hub_def Let_def Resume_def burned_def not_less)

lemma hub_Apply_same: "same_floor h (hub_Apply C n1 n2 c h)"
  by (auto simp: hub_Apply_def applySeqFloor_def same_floor_def Let_def split: option.splits sum.splits prod.splits)

lemma open_inv_same: "open_inv f h \<Longrightarrow> same_floor h h' \<Longrightarrow> open_inv f h'"
  by (simp add: open_inv_def same_floor_def)

lemma replay_same: "same_floor h (foldl (\<lambda>h (c, t1, t2). hub_Apply C t1 t2 c h) h cs)"
  by (induction cs arbitrary: h) (auto intro: same_floor_trans hub_Apply_same)

lemma raise_floor_open:
  assumes "open_inv f h" "raise_floor_to n h = Inr h'"
  shows "open_inv f h'"
  using assms by (auto simp: raise_floor_to_def open_inv_def RaiseFloor_def split: if_splits)

lemma replay_into_open:
  assumes "open_inv f h" "replay_into C o' h = Inr h'"
  shows "open_inv f h'"
  using assms raise_floor_open [OF open_inv_same [OF assms(1) replay_same]] open_inv_same [OF assms(1) replay_same]
  by (auto simp: replay_into_def Let_def split: option.splits sum.splits prod.splits if_splits)

lemma seal_floor_spec:
  assumes o: "open_inv f h" and f: "sf_inv f" and n: "n \<le> sf_floor f"
    and s: "seal_floor io1 io2 o' h = (r, sf)"
  shows "\<exists>f'. sf = Some f' \<and> sf_inv f' \<and> n \<le> sf_floor f' \<and>
    (\<forall>h'. r = Inr h' \<longrightarrow> floor_ok h' \<and> n \<le> burnt h' \<and> hb_seqFloorFile h' = Some f')"
proof -
  let ?d = "hb_durableSeqFloor h"
  have d: "n \<le> ?d" using o n by (auto simp: open_inv_def intro: order_trans)
  obtain r1 f1 where r1: "sf_raise io1 ?d f = (r1, f1)" by fastforce
  obtain r2 f2 where r2: "ensureExists io2 f1 = (r2, f2)" by fastforce
  note s1 = sf_raise_spec [OF f r1]
  have s2: "sf_inv f2" "sf_floor f1 \<le> sf_floor f2" using ensureExists_spec [of f1] s1 r2 by auto
  have n1: "n \<le> sf_floor f1" using n s1 by (auto intro: order_trans)
  have n2: "n \<le> sf_floor f2" using n1 s2(2) by (rule order_trans)
  have d2: "r1 = Inr () \<Longrightarrow> ?d \<le> sf_floor f2" using s1 s2(2) by (auto intro: order_trans)
  have sff: "hb_seqFloorFile h = Some f" using o by (simp add: open_inv_def)
  show ?thesis
  proof (cases "\<not> sf_existed f \<and> ho_LogRepaired o'")
    case True
    then have "sf = Some f" "r = Inl ErrSeqFloorUnprovable" using s by (auto simp: seal_floor_def sff)
    then show ?thesis using f n by blast
  next
    case False
    have q: "seq_floor (hb_seq h) = ?d" "\<not> seq_sealed (hb_seq h)" using o by (auto simp: open_inv_def)
    show ?thesis
      using s False s1 s2 n1 n2 d d2 q
      by (cases r1; cases r2) (auto simp: seal_floor_def sff r1 r2 Seal_def floor_ok_def burnt_def)
  qed
qed

lemma hub_Open_spec:
  assumes "he_durable E" "seq_covers n d" "hub_Open C E io1 io2 o' d l = (r, disk)"
  shows "disk \<noteq> [] \<and> (\<forall>d\<in>set disk. seq_covers n d) \<and>
    (\<forall>h. r = Inr h \<longrightarrow> floor_ok h \<and> n \<le> burnt h \<and> (\<exists>f. hb_seqFloorFile h = Some f \<and> sf_disk f = disk))"
proof -
  define pre where "pre = bindR (check_options E o') (\<lambda>_.
            bindR (wrapErr HubIdem (NewStoreForBus (ho_BusID o') 0 (ho_MaxIdempotencyEntries o'))) (\<lambda>t.
            bindR (if ho_DataDir o' then bindR (wrapErr HubFloor (openSeqFloorFile d)) (\<lambda>f. Inr (Some f))
                   else Inr None) (\<lambda>sf.
            bindR (replay_into C o' (new_hub o' l sf t)) (\<lambda>h.
            bindR (raise_floor_to (hb_replayedSeqFloor h) h) (\<lambda>h.
            raise_floor_to (hb_appliedSeq h) h)))))"
  have eq: "hub_Open C E io1 io2 o' d l = (case pre of Inl e \<Rightarrow> (Inl e, [d])
      | Inr h \<Rightarrow> (case seal_floor io1 io2 o' h of (r, sf) \<Rightarrow> (r, case sf of None \<Rightarrow> [d] | Some f \<Rightarrow> sf_disk f)))"
    by (simp add: hub_Open_def pre_def)
  show ?thesis
  proof (cases pre)
    case (Inl e)
    then show ?thesis using assms eq by auto
  next
    case (Inr h)
    have dd: "ho_DataDir o'"
      using Inr assms(1) by (auto simp: pre_def res check_options_def split: if_splits)
    obtain f t h1 h2 where o: "openSeqFloorFile d = Inr f" "replay_into C o' (new_hub o' l (Some f) t) = Inr h1"
      "raise_floor_to (hb_replayedSeqFloor h1) h1 = Inr h2" "raise_floor_to (hb_appliedSeq h2) h2 = Inr h"
      using Inr dd by (auto simp: pre_def res)
    have oi: "open_inv f h" using o by (meson new_hub_open raise_floor_open replay_into_open)
    have f: "sf_inv f" "n \<le> sf_floor f" using openSeqFloorFile_spec [OF o(1), of n] assms(2) by auto
    obtain r' sf where s: "seal_floor io1 io2 o' h = (r', sf)" by fastforce
    from seal_floor_spec [OF oi f s] obtain f' where f': "sf = Some f'" "sf_inv f'" "n \<le> sf_floor f'"
      "\<forall>h'. r' = Inr h' \<longrightarrow> floor_ok h' \<and> n \<le> burnt h' \<and> hb_seqFloorFile h' = Some f'" by blast
    have "r = r'" "disk = sf_disk f'" using eq assms(3) Inr s f'(1) by auto
    moreover have "\<forall>d\<in>set (sf_disk f'). seq_covers n d" "sf_disk f' \<noteq> []"
      using f'(2,3) by (auto simp: sf_inv_def intro: seq_covers_mono)
    ultimately show ?thesis using f'(4) by auto
  qed
qed

section \<open>A bus over its restarts\<close>

text \<open>
  A bus is a running hub, or none between a failed start and the next, and the floor file as the list
  of contents a crash may leave.  Each operation carries the log it meets, the outcome of its file
  replacement, the roster and the clock; a restart may come at any point, finds one of the
  contents of the file and is given any log, any replay and any options.  \<open>by_floor\<close> is the highest
  number taken so far.
\<close>

record 'l bus_sys =
  by_hub :: "'l hub option"
  by_disk :: "bytes option list"
  by_floor :: u64

datatype 'l bus_op =
    BMint "string \<rightharpoonup> time" "'l durable_write" write_outcome time string string string
  | BPublish "string \<rightharpoonup> time" "'l durable_write" write_outcome "nat \<Rightarrow> time" publish_request
  | BRestart nat write_outcome write_outcome hub_options 'l

definition hub_disk :: "'l hub \<Rightarrow> bytes option list" where
  "hub_disk h = (case hb_seqFloorFile h of None \<Rightarrow> [] | Some f \<Rightarrow> sf_disk f)"

definition after_op :: "'l hub \<Rightarrow> 'l hub \<Rightarrow> 'l bus_sys \<Rightarrow> u64 list \<times> 'l bus_sys" where
  "after_op h h' s =
     (taken h h', s\<lparr>by_hub := Some h', by_disk := hub_disk h', by_floor := last (by_floor s # taken h h')\<rparr>)"

fun bus_step :: "hub_codec \<Rightarrow> hub_env \<Rightarrow> 'l bus_sys \<Rightarrow> 'l bus_op \<Rightarrow> u64 list \<times> 'l bus_sys" where
  "bus_step C E s (BMint ros dw io now sender op key) =
     (case by_hub s of
        None \<Rightarrow> ([], s)
      | Some h \<Rightarrow> after_op h (snd (hub_Mint C (E\<lparr>he_roster := ros\<rparr>) dw io now sender op key h)) s)"
| "bus_step C E s (BPublish ros dw io clk req) =
     (case by_hub s of
        None \<Rightarrow> ([], s)
      | Some h \<Rightarrow> after_op h (snd (snd (snd (publish C (E\<lparr>he_roster := ros\<rparr>) dw io clk req h)))) s)"
| "bus_step C E s (BRestart i io1 io2 o' l) =
     (if length (by_disk s) \<le> i then ([], s)
      else case hub_Open C E io1 io2 o' (by_disk s ! i) l of
        (Inl _, disk) \<Rightarrow> ([], s\<lparr>by_hub := None, by_disk := disk\<rparr>)
      | (Inr h, disk) \<Rightarrow> ([], s\<lparr>by_hub := Some h, by_disk := disk\<rparr>))"

definition bus_inv :: "'l bus_sys \<Rightarrow> bool" where
  "bus_inv s \<longleftrightarrow> by_disk s \<noteq> [] \<and> (\<forall>d\<in>set (by_disk s). seq_covers (by_floor s) d) \<and>
     (\<forall>h. by_hub s = Some h \<longrightarrow> floor_ok h \<and> by_floor s \<le> burnt h \<and> by_disk s = hub_disk h)"

definition first_start :: "'l bus_sys" where
  "first_start = \<lparr>by_hub = None, by_disk = [None], by_floor = 0\<rparr>"

lemma after_op_inv:
  assumes "bus_inv s" "by_hub s = Some h" "floor_step h h'"
  shows "bus_inv (snd (after_op h h' s)) \<and> by_floor s \<le> by_floor (snd (after_op h h' s)) \<and>
    (taken h h' = [] \<or> (\<exists>n. taken h h' = [n] \<and> by_floor s < n \<and> n \<le> by_floor (snd (after_op h h' s))))"
proof -
  let ?n = "last (by_floor s # taken h h')"
  have s: "floor_ok h'" "seq_floor (hb_seq h) \<le> seq_floor (hb_seq h')" "hb_durableSeqFloor h \<le> hb_durableSeqFloor h'"
    "seq_floor (hb_seq h) < seq_floor (hb_seq h') \<Longrightarrow> seq_floor (hb_seq h') \<le> hb_durableSeqFloor h'"
    using assms(3) by (auto simp: floor_step_def)
  have b: "by_floor s \<le> seq_floor (hb_seq h)" "by_floor s \<le> hb_durableSeqFloor h"
    using assms(1,2) by (auto simp: bus_inv_def burnt_def)
  have n: "?n \<le> seq_floor (hb_seq h')" "?n \<le> hb_durableSeqFloor h'" "by_floor s \<le> ?n"
    using b s by (auto simp: taken_def)
  obtain f where f: "hb_seqFloorFile h' = Some f" "sf_inv f" "hb_durableSeqFloor h' \<le> sf_floor f"
    using s(1) by (auto simp: floor_ok_def)
  have "seq_covers ?n d" if "d \<in> set (hub_disk h')" for d
    using that f n(2) by (auto simp: sf_inv_def hub_disk_def intro: seq_covers_mono order_trans)
  moreover have "hub_disk h' \<noteq> []" using f by (auto simp: sf_inv_def hub_disk_def)
  ultimately have "bus_inv (snd (after_op h h' s))"
    using s(1) n by (simp add: bus_inv_def after_op_def burnt_def)
  moreover have "taken h h' = [] \<or> (\<exists>m. taken h h' = [m] \<and> by_floor s < m)" using b(1) by (auto simp: taken_def)
  ultimately show ?thesis using n(3) by (auto simp: after_op_def)
qed

lemma bus_restart_inv:
  assumes "he_durable E" "bus_inv s"
  shows "bus_inv (snd (bus_step C E s (BRestart i io1 io2 o' l))) \<and>
    fst (bus_step C E s (BRestart i io1 io2 o' l)) = [] \<and>
    by_floor (snd (bus_step C E s (BRestart i io1 io2 o' l))) = by_floor s"
proof (cases "i < length (by_disk s)")
  case True
  obtain r disk where o: "hub_Open C E io1 io2 o' (by_disk s ! i) l = (r, disk)" by fastforce
  have "seq_covers (by_floor s) (by_disk s ! i)" using assms(2) True by (simp add: bus_inv_def)
  from hub_Open_spec [OF assms(1) this o] show ?thesis
    using True by (cases r) (auto simp: bus_inv_def o hub_disk_def)
qed (use assms in auto)

lemma bus_step_inv:
  assumes "he_durable E" "bus_inv s"
  shows "bus_inv (snd (bus_step C E s x)) \<and> by_floor s \<le> by_floor (snd (bus_step C E s x)) \<and>
    (fst (bus_step C E s x) = [] \<or> (\<exists>n. fst (bus_step C E s x) = [n] \<and> by_floor s < n \<and> n \<le> by_floor (snd (bus_step C E s x))))"
proof (cases x)
  case (BRestart i io1 io2 o' l)
  then show ?thesis using bus_restart_inv [OF assms] by auto
next
  case (BMint ros dw io now sender op key)
  show ?thesis
  proof (cases "by_hub s")
    case (Some h)
    then have "floor_ok h" using assms(2) by (simp add: bus_inv_def)
    then have "floor_step h (snd (hub_Mint C (E\<lparr>he_roster := ros\<rparr>) dw io now sender op key h))"
      using Mint_step by (metis prod.collapse)
    from after_op_inv [OF assms(2) Some this] show ?thesis by (simp add: BMint Some after_op_def)
  qed (use assms BMint in auto)
next
  case (BPublish ros dw io clk req)
  show ?thesis
  proof (cases "by_hub s")
    case (Some h)
    then have "floor_ok h" using assms(2) by (simp add: bus_inv_def)
    then have "floor_step h (snd (snd (snd (publish C (E\<lparr>he_roster := ros\<rparr>) dw io clk req h))))"
      using publish_step by (metis prod.collapse)
    from after_op_inv [OF assms(2) Some this] show ?thesis by (simp add: BPublish Some after_op_def)
  qed (use assms BPublish in auto)
qed

interpretation bus_sequences: allocator "bus_step C (E\<lparr>he_durable := True\<rparr>)" bus_inv by_floor Some for C E
  by (rule allocator_single) (use bus_step_inv [of "E\<lparr>he_durable := True\<rparr>"] in auto)

lemma first_start_inv: "bus_inv first_start"
  by (simp add: bus_inv_def first_start_def seq_covers_def)

text \<open>
  C2. A bus never hands out a message sequence number twice.  Over any history of reservations,
  of local and relayed publishes, of failed writes of the log and of the floor file, and of
  restarts at any point from any content of the floor file a crash may have left (the log and
  what its replay says being arbitrary: lost, truncated or repaired), the numbers taken are
  strictly increasing.
\<close>

theorem message_sequence_never_reused:
  assumes "he_durable E"
  shows "sorted_wrt (<) (fst (run (bus_step C E) first_start ops))"
proof -
  have "E\<lparr>he_durable := True\<rparr> = E" using assms by simp
  then show ?thesis using bus_sequences.run_issued_sorted [OF first_start_inv, of C E ops] by simp
qed

definition demo_bus_env :: hub_env where
  "demo_bus_env = \<lparr>he_roster = Map.empty, he_router = None, he_egress = False, he_acks = False, he_durable = True\<rparr>"

definition demo_hub_codec :: hub_codec where
  "demo_hub_codec =
     \<lparr>hc_msg = \<lambda>_. None, un_msg = \<lambda>_. None, hc_compact = Some, hc_idem = \<lambda>_. None, un_idem = \<lambda>_. None,
      hc_result = \<lambda>_. None, un_result = \<lambda>_. None, hc_floor = \<lambda>_ _. Some [], un_floor = \<lambda>_. None\<rparr>"

definition demo_log :: "unit durable_write" where
  "demo_log e l = (Inr \<lparr>cm_PrepareIndex = 1, cm_CommitIndex = 2, cm_Entry = e\<rparr>, l)"

definition demo_bus_ops :: "unit bus_op list" where
  "demo_bus_ops =
     (let o' = \<lparr>ho_BusID = ''bus'', ho_Roster = True, ho_DataDir = True, ho_MaxAge = 0, ho_MaxBytes = 0,
                ho_MaxIdempotencyEntries = 0, ho_NextIndex = 1, ho_Replay = None, ho_LogRepaired = False\<rparr>;
          ros = [''bus-a-1'' \<mapsto> 0]
      in [BRestart 0 WriteOk WriteOk o' (), BMint ros demo_log WriteOk 0 ''bus-a-1'' ''send'' ''k1'',
          BMint ros demo_log WriteOk 0 ''bus-a-1'' ''send'' ''k2''])"

theorem message_sequence_never_reused_witness:
  "he_durable demo_bus_env \<and> fst (run (bus_step demo_hub_codec demo_bus_env) first_start demo_bus_ops) = [1, 2] \<and>
   sorted_wrt (<) (fst (run (bus_step demo_hub_codec demo_bus_env) first_start demo_bus_ops))"
proof (intro conjI)
  show d: "he_durable demo_bus_env" by (simp add: demo_bus_env_def)
  show "sorted_wrt (<) (fst (run (bus_step demo_hub_codec demo_bus_env) first_start demo_bus_ops))"
    using message_sequence_never_reused [OF d] .
  show "fst (run (bus_step demo_hub_codec demo_bus_env) first_start demo_bus_ops) = [1, 2]"
    by (simp add: demo_bus_ops_def demo_bus_env_def demo_hub_codec_def demo_log_def first_start_def hub_Open_def
        check_options_def ValidateBusID_def bus_id_matches_def NewStoreForBus_def Let_def openSeqFloorFile_def
        readSeqFloorFile_def replay_into_def new_hub_def raise_floor_to_def seal_floor_def sf_raise_def ensureExists_def
        sf_persistLocked_def atomicReplaceSeqFloor_def burned_def Resume_def Seal_def hub_Mint_def parseMintOp_def OpSend_def
        validateIdempotencyKey_def hub_MaxIdempotencyKeyLen_def hub_key_char_def Enrolled_def NewAgentScope_def ValidateKey_def
        op_valid_def expireMintsLocked_def getI_def MaxOutstandingMintsPerAgent_def MaxOutstandingMints_def take_seq_def
        ensureSeqFloorLocked_def Peek_def Next_def assertSeqFloorLocked_def floor_target_def MintBatchSize_def maxUint64_def
        MessageID_def after_op_def taken_def bus_id_char_def is_lower_def is_upper_def is_digit_def key_char_def
        MintTTL_def sec_ns_def MaxKeyLen_def OpEnrol_def)
qed

end
