(* ===== verification/HubOnce.thy ===== *)
theory HubOnce
  imports HubFloor
begin

text \<open>
  Publishing takes effect once.  A hub's history is the step relation \<open>hub_history\<close>: any
  interleaving of reservations and publishes by any callers, each under the hub's lock.
  What the code relies on of \<^verbatim>\<open>encoding/json\<close> for its own payloads is \<open>codec_ok\<close>: what was encoded from
  checked identifiers and times it can write decodes to the same value, in compact form.
\<close>

section \<open>The payload codec\<close>

definition canonical_json :: "json \<Rightarrow> bytes \<Rightarrow> bool" where
  "canonical_json J b \<longleftrightarrow> b \<noteq> [] \<and> b \<noteq> json_null \<and> j_compact J b = Some b"

definition stored_result_ok :: "stored_result \<Rightarrow> bool" where
  "stored_result_ok s \<longleftrightarrow> is_ok (ParseMessageID (sr_MessageID s)) \<and>
     list_all (\<lambda>r. is_ok (ParseAgentID r)) (sr_Recipients s) \<and>
     (\<exists>t. sr_SentAt s = Some t \<and> int64_range (t - unixEpoch))"

definition idem_record_ok :: "idem_record \<Rightarrow> bool" where
  "idem_record_ok r \<longleftrightarrow> record_validate r = Inr () \<and> is_ok (ParseAgentID (ir_agent r)) \<and>
     int64_range (ir_committedAt r - unixEpoch)"

definition codec_ok :: "json \<Rightarrow> hub_codec \<Rightarrow> bool" where
  "codec_ok J C \<longleftrightarrow>
     (\<forall>m b. msg_ok m \<longrightarrow> hc_msg C (msg_Record m) = Some b \<longrightarrow>
        un_msg C b = Some (msg_Record m) \<and> canonical_json J b) \<and>
     (\<forall>r b. idem_record_ok r \<longrightarrow> hc_idem C r = Some b \<longrightarrow> un_idem C b = Some r \<and> canonical_json J b) \<and>
     (\<forall>s b. stored_result_ok s \<longrightarrow> hc_result C s = Some b \<longrightarrow> un_result C b = Some s \<and> canonical_json J b) \<and>
     hc_compact C = j_compact J"

section \<open>Histories of a hub\<close>

inductive hub_history :: "hub_codec \<Rightarrow> (time \<Rightarrow> bool) \<Rightarrow> 'l hub \<Rightarrow> 'l hub \<Rightarrow> bool" for C ok h0 where
  start: "hub_history C ok h0 h0"
| minted: "\<lbrakk>hub_history C ok h0 h; hub_Mint C E dw io now sender op key h = (r, h')\<rbrakk> \<Longrightarrow> hub_history C ok h0 h'"
| published: "\<lbrakk>hub_history C ok h0 h; publish C E dw io clk req h = (r, oc, effs, h'); \<forall>i. ok (clk i)\<rbrakk> \<Longrightarrow>
    hub_history C ok h0 h'"

section \<open>The applied-key table of a hub\<close>

lemma ensureSeqFloor_idem:
  "ensureSeqFloorLocked C dw io h = (r, h') \<Longrightarrow> hb_idem h' = hb_idem h \<and> hb_store h' = hb_store h \<and> hb_busID h' = hb_busID h"
  by (auto simp: ensureSeqFloorLocked_def Let_def split: if_splits option.splits sum.splits prod.splits)

lemma take_seq_idem:
  "take_seq C dw io h = (r, h') \<Longrightarrow> hb_idem h' = hb_idem h \<and> hb_store h' = hb_store h \<and> hb_busID h' = hb_busID h"
  by (auto simp: take_seq_def assertSeqFloorLocked_def split: if_splits sum.splits prod.splits dest!: ensureSeqFloor_idem)

lemma Mint_idem:
  assumes "hub_Mint C E dw io now sender op key h = (r, h')"
  shows "hb_idem h' = hb_idem h"
  using assms expireMints_frame(3) [where h = h and now = now]
  by (auto simp: hub_Mint_def Let_def split: if_splits option.splits sum.splits prod.splits dest!: take_seq_idem)

lemma spend_mint_idem:
  assumes "spend_mint C dw io now req h = (r, h')"
  shows "hb_idem h' = hb_idem h \<and> hb_store h' = hb_store h \<and> hb_busID h' = hb_busID h"
  using assms expireMints_frame [where h = h and now = now]
  by (auto simp: spend_mint_def mintRelayedSeqLocked_def assertSeqFloorLocked_def Let_def
      split: if_splits option.splits sum.splits prod.splits dest!: take_seq_idem)

lemma apply_published_idem:
  assumes "apply_published E n1 n2 req m r c h = (res, effs, h')"
  shows "hb_idem h' = hb_idem h \<or> hb_idem h' = snd (Remember n2 (hb_idem h) r)"
  using assms by (auto simp: apply_published_def Let_def split: if_splits sum.splits prod.splits)

definition keeps :: "int \<Rightarrow> idem_scope \<Rightarrow> idem_record \<Rightarrow> idem_store \<Rightarrow> bool" where
  "keeps w sc r t \<longleftrightarrow> idem_inv t \<and> st_window t = w \<and> map_of (st_records t) sc = Some r"

lemma keeps_step:
  assumes "keeps w sc r t" "time_sub now (ir_committedAt r) \<le> w"
  shows "keeps w sc r (snd (idem_step t (now, x)))"
  using assms idem_step_props [where s = t and t = now and x = x] by (auto simp: keeps_def)

lemma keeps_table:
  assumes "keeps w sc r t" "time_sub now (ir_committedAt r) \<le> w"
  shows "keeps w sc r (snd (Lookup now t k fp))" "keeps w sc r (snd (Admit now t k))" "keeps w sc r (snd (Remember now t q))"
  using keeps_step [OF assms, of "ILookup k fp"] keeps_step [OF assms, of "IAdmit k"] keeps_step [OF assms, of "IRemember q"]
  by (auto split: prod.splits)

lemma publish_keeps:
  assumes k: "keeps w sc r (hb_idem h)" and clk: "\<And>i. time_sub (clk i) (ir_committedAt r) \<le> w"
    and p: "publish C E dw io clk req h = (res, oc, effs, h')"
  shows "keeps w sc r (hb_idem h')"
proof -
  have lk: "keeps w sc r t" if "Lookup (clk 0) (hb_idem h) k fp = (a, t)" for k fp a t
    using keeps_table(1) [OF k clk [of 0], of k fp] that by simp
  have ad: "keeps w sc r t1" if "keeps w sc r t" "Admit (clk 1) t k = (a, t1)" for t k a t1
    using keeps_table(2) [OF that(1) clk [of 1], of k] that(2) by simp
  show ?thesis
    using publish_paths [of C E dw io clk req h] unfolding p
  proof cases
    case (committed sc' p t t1 sq h1 m q e c l)
    have "keeps w sc r (hb_idem h1)" using spend_mint_idem [OF committed(5)] ad [OF lk [OF committed(3)] committed(4)] by simp
    then show ?thesis
      using apply_published_idem [OF committed(8)] keeps_table(3) [OF _ clk [of 5], of sc "hb_idem h1" q] by auto
  next
    case (full sc' p t a t1 e)
    then show ?thesis using ad [OF lk [OF full(6)] full(7)] by simp
  next
    case (failed sc' p t t1 x h1 e l)
    then show ?thesis using spend_mint_idem [OF failed(8)] ad [OF lk [OF failed(6)] failed(7)] by simp
  qed (use k lk in auto)
qed

lemma history_keeps:
  assumes "hub_history C (\<lambda>now. time_sub now (ir_committedAt r) \<le> w) h0 h" "keeps w sc r (hb_idem h0)"
  shows "keeps w sc r (hb_idem h)"
  using assms(1)
proof induction
  case (minted h E dw io now sender op key q h')
  then show ?case using Mint_idem by metis
next
  case (published h E dw io clk req q oc effs h')
  then show ?case using publish_keeps by metis
qed (fact assms(2))

lemma idem_of_scope:
  assumes "publish_scope E h req = Inr sc"
  shows "record_Scope (idem_of req fp m b) = Inr sc"
  using assms by (auto simp: publish_scope_def res record_Scope_def idem_of_def split: if_splits)

text \<open>
  A committed message has canonical bytes, so its sender and recipients are agent ids and there is at least
  one recipient: the audit hash refuses a broadcast.
\<close>

definition request_shape :: "publish_request \<Rightarrow> bool" where
  "request_shape req \<longleftrightarrow> pr_broadcast req = (pr_recipients req = [])"

lemma committed_addressing:
  assumes "build_entry C busID now req fp sq = Inr (m, r, e)" "request_shape req"
    and "publish_scope E h req = Inr sc"
  shows "addressing_ok (pr_sender req) (pr_broadcast req) (pr_recipients req) (pr_key req) \<and> \<not> pr_broadcast req"
proof -
  obtain sid sn x where "auditRecordFor m sid sn = Inr x" and m: "build_message busID now req sq = Inr m"
    using assms(1) by (auto simp: build_entry_def res Let_def split: if_splits)
  then obtain sm rs where "validate sm = Inr rs" "m_sender sm = mg_Sender m" "m_recipients sm = mg_Recipients m"
    by (auto simp: auditRecordFor_def auditContentHash_def CanonicalDigest_def Canonicalize_def SigningMessage_def Let_def res
        split: if_splits)
  moreover have "length (pr_key req) \<le> MaxIdempotencyKeyLen"
    using assms(3) by (auto simp: publish_scope_def check_request_def validateIdempotencyKey_def res
        hub_MaxIdempotencyKeyLen_def MaxIdempotencyKeyLen_def split: if_splits)
  ultimately show ?thesis
    using build_message_fields [OF m] assms(2)
    by (auto simp: validate_def res addressing_ok_def request_shape_def is_ok_iff split: if_splits)
qed

text \<open>A publish that was committed leaves exactly its own record under its key.\<close>

lemma committed_keeps:
  assumes i: "idem_inv (hb_idem h)" and p: "publish C E dw io clk req h = (Inr out, OutcomeNew, effs, h')"
    and sh: "request_shape req"
  obtains sc m b where "publish_scope E h req = Inr sc"
    "build_message (hb_busID h) (clk 3) req (mg_Seq m) = Inr m"
    "encodeStoredResult C (mg_ID m) (mg_Seq m) (mg_Recipients m) (mg_SentAt m) = Some b"
    "keeps (st_window (hb_idem h)) sc (idem_of req (publish_fp req) m b) (hb_idem h')"
    "out = \<lparr>res_MessageID = mg_ID m, res_Seq = mg_Seq m, res_Sender = mg_Sender m, res_Broadcast = mg_Broadcast m,
       res_Recipients = mg_Recipients m, res_SentAt = mg_SentAt m, res_Replayed = False\<rparr>"
    "addressing_ok (pr_sender req) (pr_broadcast req) (pr_recipients req) (pr_key req)" "\<not> pr_broadcast req"
  using publish_paths [of C E dw io clk req h] unfolding p
proof cases
  case (committed sc p t t1 sq h1 m q e c l)
  note b = build_entry_fields [OF committed(5)]
  obtain b where b4: "encodeStoredResult C (mg_ID m) (mg_Seq m) (mg_Recipients m) (mg_SentAt m) = Some b"
    "q = idem_of req (publish_fp req) m b" using b(4) by blast
  have bus: "hb_busID h1 = hb_busID h" "hb_idem h1 = t1" using spend_mint_idem [OF committed(4)] by simp_all
  have t: "t = expireLocked (clk 0) (hb_idem h)" "map_of (st_records t) sc = None"
    using committed(2) by (auto simp: Lookup_def Let_def split: option.splits if_splits)
  have ti: "idem_inv t" "st_window t = st_window (hb_idem h)"
    using expireLocked_props(1,2) [OF i, where now = "clk 0"] by (simp_all add: t(1))
  have t1: "t1 = expireLocked (clk 1) t"
    using committed(3) by (auto simp: Admit_def Let_def split: sum.splits if_splits)
  have t1i: "idem_inv t1" "st_window t1 = st_window (hb_idem h)" "map_of (st_records t1) sc = None"
    using expireLocked_props(1,2) [OF ti(1), where now = "clk 1"] ti(2)
      expireLocked_props(5) [OF ti(1), where now = "clk 1" and sc = sc] t(2)
    by (auto simp: t1 dest: not_None_eq [THEN iffD1])
  obtain t2 where r: "Remember (clk 5) t1 q = (Inr (), t2)" "hb_idem h' = t2"
    and out: "out = \<lparr>res_MessageID = mg_ID m, res_Seq = mg_Seq m, res_Sender = mg_Sender m, res_Broadcast = mg_Broadcast m,
       res_Recipients = mg_Recipients m, res_SentAt = mg_SentAt m, res_Replayed = False\<rparr>"
    using committed(7) bus(2) by (auto simp: apply_published_def Let_def split: if_splits sum.splits prod.splits)
  note rp = remember_props [OF t1i(1) r(1) [unfolded Remember_def]]
  have "record_Scope q = Inr sc" using idem_of_scope [OF committed(1)] b4(2) by simp
  then have "map_of (st_records t2) sc = Some q" using rp(7) rp(6) [of sc] t1i(3) by auto
  then have "keeps (st_window (hb_idem h)) sc q (hb_idem h')" using rp(1,2) t1i(2) r(2) by (simp add: keeps_def)
  then show ?thesis
    using that committed(1) b(1) b4 out bus(1) build_message_fields(1) [OF b(1)]
      committed_addressing [OF committed(5) sh committed(1)] by metis
qed

lemma retry_path:
  assumes sc: "publish_scope E h req = Inr sc" and k: "keeps w sc r (hb_idem h)"
    and clk: "time_sub (clk 0) (ir_committedAt r) \<le> w"
    and d: "decodeStoredResult C r = Some out"
  shows "publish C E dw io clk req h =
    (if publish_fp req = ir_fingerprint r
     then (Inr (out\<lparr>res_Replayed := True\<rparr>), OutcomeRetry, [], h\<lparr>hb_idem := expireLocked (clk 0) (hb_idem h)\<rparr>)
     else (Inl ErrIdempotencyKeyReused, OutcomeViolation, [], h\<lparr>hb_idem := expireLocked (clk 0) (hb_idem h)\<rparr>))"
proof -
  have "map_of (st_records (expireLocked (clk 0) (hb_idem h))) sc = Some r"
    using expireLocked_props(6) [of "hb_idem h" sc r "clk 0"] k clk by (simp add: keeps_def)
  then have "Lookup (clk 0) (hb_idem h) sc (publish_fp req) =
    ((Some r, if publish_fp req = ir_fingerprint r then OutcomeRetry else OutcomeViolation), expireLocked (clk 0) (hb_idem h))"
    by (auto simp: Lookup_def Let_def)
  then show ?thesis
    using sc d by (simp add: publish_def publish_scope_def [symmetric] publish_fp_def [symmetric] Let_def)
qed


lemma stored_result_decodes:
  assumes C: "codec_ok J C" and a: "addressing_ok (pr_sender req) (pr_broadcast req) (pr_recipients req) (pr_key req)"
    and rb: "pr_relayed req \<longrightarrow> \<not> pr_broadcast req" and t: "int64_range (now - unixEpoch)"
    and m: "build_message busID now req sq = Inr m"
    and b: "encodeStoredResult C (mg_ID m) (mg_Seq m) (mg_Recipients m) (mg_SentAt m) = Some b"
  shows "decodeStoredResult C (idem_of req fp m b) =
    Some \<lparr>res_MessageID = mg_ID m, res_Seq = mg_Seq m, res_Sender = mg_Sender m, res_Broadcast = mg_Broadcast m,
       res_Recipients = mg_Recipients m, res_SentAt = mg_SentAt m, res_Replayed = False\<rparr>"
proof -
  note f = build_message_fields [OF m]
  let ?s = "\<lparr>sr_MessageID = mg_ID m, sr_Seq = mg_Seq m, sr_Recipients = mg_Recipients m, sr_SentAt = Some (mg_SentAt m)\<rparr>"
  have "is_ok (ParseMessageID (mg_ID m))" using f(9) by (auto simp: is_ok_iff ParseMessageID_iff)
  then have "stored_result_ok ?s" using a t f by (simp add: stored_result_ok_def addressing_ok_def)
  then have "un_result C b = Some ?s" using C b by (auto simp: codec_ok_def encodeStoredResult_def)
  then show ?thesis
    using f rb by (auto simp: decodeStoredResult_def idem_of_def publish_op_def OpBroadcast_def OpSend_def OpRelay_def)
qed

lemma publish_scope_eq:
  assumes "publish_scope E h req = Inr sc" "publish_scope E' h' req' = Inr sc'"
    and "pr_sender req' = pr_sender req" "publish_op req' = publish_op req" "pr_key req' = pr_key req"
  shows "sc' = sc"
  using assms by (auto simp: publish_scope_def res split: if_splits)



section \<open>Refusals\<close>

lemma table_only_expires:
  assumes "idem_inv t" "map_of (st_records (expireLocked now t)) sc = Some r"
  shows "map_of (st_records t) sc = Some r"
  using expireLocked_props(5) [OF assms] .

lemma Lookup_Admit_expire:
  "Lookup now t sc fp = (x, t') \<Longrightarrow> t' = expireLocked now t"
  "Admit now t sc = (y, t') \<Longrightarrow> t' = t \<or> t' = expireLocked now t"
  by (auto simp: Lookup_def Admit_def Let_def split: option.splits sum.splits if_splits)

definition table_shrinks :: "idem_store \<Rightarrow> idem_store \<Rightarrow> bool" where
  "table_shrinks t t' \<longleftrightarrow> idem_inv t' \<and> (\<forall>sc r. map_of (st_records t') sc = Some r \<longrightarrow> map_of (st_records t) sc = Some r)"

lemma table_shrinks_refl: "idem_inv t \<Longrightarrow> table_shrinks t t"
  by (simp add: table_shrinks_def)

lemma table_shrinks_expire: "table_shrinks t t' \<Longrightarrow> table_shrinks t (expireLocked now t')"
  unfolding table_shrinks_def using expireLocked_props(1) table_only_expires by blast

lemma table_shrinks_Lookup: "table_shrinks t t' \<Longrightarrow> Lookup now t' sc fp = (x, t'') \<Longrightarrow> table_shrinks t t''"
  by (drule Lookup_Admit_expire(1)) (simp add: table_shrinks_expire)

lemma table_shrinks_Admit: "table_shrinks t t' \<Longrightarrow> Admit now t' sc = (x, t'') \<Longrightarrow> table_shrinks t t''"
  by (drule Lookup_Admit_expire(2)) (auto simp: table_shrinks_expire)

lemma broadcast_not_built:
  "pr_broadcast req \<Longrightarrow> request_shape req \<Longrightarrow> publish_scope E h req = Inr sc \<Longrightarrow>
     build_entry C busID now req fp sq \<noteq> Inr (m, r, e)"
  using committed_addressing by blast

lemma poisoned_refuses: "hb_poisoned h \<Longrightarrow> \<exists>e. fst (publish C E dw io clk req h) = Inl e"
  by (cases "check_request E (hb_busID h) req") (simp_all add: publish_def)

text \<open>
  C17. A publish that reports an error has published nothing: nobody is notified and nothing is
  forwarded, the message store is as before, and the applied-key table has at most lost expired records,
  so that the request can be repeated.  The exception is announced: when a committed
  message could not be applied the hub is poisoned, and refuses every later publish.  A broadcast, which has no
  canonical bytes to audit, is never committed.
\<close>

theorem failed_publish_changes_nothing:
  assumes i: "idem_inv (hb_idem h)" and p: "publish C E dw io clk req h = (r, oc, effs, h')"
  shows "(\<forall>e. r = Inl e \<longrightarrow> effs = [] \<and>
       (hb_store h' = hb_store h \<and> table_shrinks (hb_idem h) (hb_idem h') \<or>
        hb_poisoned h' \<and> (\<forall>E' dw' io' clk' req'. \<exists>e'. fst (publish C E' dw' io' clk' req' h') = Inl e'))) \<and>
    (pr_broadcast req \<and> request_shape req \<longrightarrow> oc = OutcomeNew \<longrightarrow> (\<exists>e. r = Inl e))"
  using publish_paths [of C E dw io clk req h] unfolding p
proof cases
  case (committed sc q t t1 sq h1 m rec e c l)
  have "effs = [] \<and> hb_poisoned h'" if "r = Inl e" for e
    using committed(8) that by (auto simp: apply_published_def Let_def split: if_splits sum.splits prod.splits)
  moreover have "\<not> (pr_broadcast req \<and> request_shape req)" using broadcast_not_built committed(2,6) by blast
  ultimately show ?thesis using poisoned_refuses [of h' C] by auto
next
  case (failed sc q t t1 x h1 e l)
  have "table_shrinks (hb_idem h) t1"
    by (rule table_shrinks_Admit [OF table_shrinks_Lookup [OF table_shrinks_refl [OF i] failed(6)] failed(7)])
  then show ?thesis using spend_mint_idem [OF failed(8)] failed by auto
next
  case (full sc q t a t1 e)
  have "table_shrinks (hb_idem h) t1"
    by (rule table_shrinks_Admit [OF table_shrinks_Lookup [OF table_shrinks_refl [OF i] full(6)] full(7)])
  then show ?thesis using full by auto
next
  case (reused sc q t)
  then show ?thesis using table_shrinks_Lookup [OF table_shrinks_refl [OF i] reused(6)] by auto
next
  case (unreadable sc q t)
  then show ?thesis using table_shrinks_Lookup [OF table_shrinks_refl [OF i] unreadable(6)] by auto
qed (use table_shrinks_refl [OF i] in auto)

section \<open>A concrete publish\<close>

definition demo_now :: time where "demo_now = unixEpoch + 5"

definition demo_req :: publish_request where
  "demo_req = \<lparr>pr_sender = ''b1.amy-1'', pr_broadcast = False, pr_recipients = [''b2.bob-1''], pr_body = ''hi'',
     pr_key = ''k1'', pr_MessageID = ''b1-7'', pr_Seq = 7, pr_TimestampUnixMilli = 9, pr_Signature = demo_sig,
     pr_busPath = [], pr_relayed = False, pr_originMessageID = [], pr_originSeq = 0,
     pr_originAttestation = zero_attestation\<rparr>"

definition demo_published :: msg where
  "demo_published = \<lparr>mg_Seq = 7, mg_Pos = 0, mg_ID = ''b1-7'', mg_OriginMessageID = [],
     mg_OriginAttestation = zero_attestation, mg_Sender = ''b1.amy-1'', mg_Broadcast = False,
     mg_Recipients = [''b2.bob-1''], mg_BusPath = [''b1''], mg_SentAt = demo_now, mg_Body = ''hi'',
     mg_ContentSHA256 = ContentHash ''hi'', mg_IdempotencyKey = ''k1'', mg_TimestampUnixMilli = 9,
     mg_Signature = demo_sig\<rparr>"

definition demo_result :: stored_result where
  "demo_result = \<lparr>sr_MessageID = ''b1-7'', sr_Seq = 7, sr_Recipients = [''b2.bob-1''], sr_SentAt = Some demo_now\<rparr>"

definition only :: "'a \<Rightarrow> bytes \<Rightarrow> 'a \<Rightarrow> bytes option" where
  "only x b y = (if y = x then Some b else None)"

definition unonly :: "'a \<Rightarrow> bytes \<Rightarrow> bytes \<Rightarrow> 'a option" where
  "unonly x b c = (if c = b then Some x else None)"

definition demo_pub_codec :: hub_codec where
  "demo_pub_codec = (let r = idem_of demo_req (publish_fp demo_req) demo_published ''2'' in
     \<lparr>hc_msg = only (msg_Record demo_published) ''1'', un_msg = unonly (msg_Record demo_published) ''1'', hc_compact = Some,
      hc_idem = only r ''3'', un_idem = unonly r ''3'', hc_result = only demo_result ''2'', un_result = unonly demo_result ''2'',
      hc_floor = \<lambda>_ _. Some ''0'', un_floor = \<lambda>_. None\<rparr>)"

definition demo_pub_json :: json where
  "demo_pub_json = demo_json\<lparr>j_compact := Some\<rparr>"

definition demo_pub_env :: hub_env where
  "demo_pub_env = \<lparr>he_roster = [''b1.amy-1'' \<mapsto> 0], he_router = Some (\<lambda>_. Some ''b2''), he_egress = True,
     he_acks = True, he_durable = True\<rparr>"

definition demo_hub :: "'l \<Rightarrow> 'l hub" where
  "demo_hub l = \<lparr>hb_busID = ''b1'', hb_log = l, hb_seq = \<lparr>seq_floor = 7, seq_last = 7, seq_sealed = True\<rparr>,
     hb_store = store_New 0 0, hb_idem = NewStore 100 8, hb_poisoned = False, hb_appliedSeq = 0,
     hb_undecodableMessages = 0, hb_unappliableMessages = 0, hb_replayedSeqFloor = 0, hb_seqFloorFile = None,
     hb_durableSeqFloor = 9,
     hb_mints = [(mint_of demo_req, \<lparr>om_messageID = ''b1-7'', om_seq = 7, om_expiresAt = demo_now + 1\<rparr>)],
     hb_mintsByAgent = [(''b1.amy-1'', 1)], hb_recovered = []\<rparr>"

lemma only_unonly: "only x b y = Some c \<Longrightarrow> unonly x b c = Some y \<and> c = b"
  by (auto simp: only_def unonly_def split: if_splits)

lemma demo_codec_ok: "codec_ok demo_pub_json demo_pub_codec"
  by (auto simp: codec_ok_def demo_pub_codec_def demo_pub_json_def canonical_json_def json_null_def Let_def dest!: only_unonly)

lemma demo_scope:
  "publish_scope demo_pub_env (demo_hub l) demo_req =
     Inr \<lparr>sc_agent = ''b1.amy-1'', sc_op = OpSend, sc_key = ''k1'', sc_enrolBusWide = False\<rparr>"
  by (simp add: publish_scope_def check_request_def validateIdempotencyKey_def hub_MaxIdempotencyKeyLen_def hub_key_char_def
      demo_req_def demo_hub_def demo_pub_env_def Enrolled_def MaxBodyBytes_def routeRemote_def demo_msg_ids res
      NewAgentScope_def ValidateKey_def MaxKeyLen_def key_char_def op_valid_def publish_op_def OpSend_def OpEnrol_def
      is_lower_def is_upper_def is_digit_def ValidateBusID_def bus_id_matches_def bus_id_char_def equal_fold_def to_lower_def lower_char_def)


lemma demo_message_built: "build_message ''b1'' demo_now demo_req 7 = Inr demo_published"
  by (simp add: build_message_def demo_req_def demo_published_def LocalBusPath_def NewMessageWithBusPath_def demo_msg_ids
      MaxBodyBytes_def MaxRecipients_def demo_sig_def SignatureSize_def MaxBusPath_def res)

lemma demo_digest: "\<exists>d. CanonicalDigest (SigningMessage demo_published) = Inr d"
proof -
  have p: "ParseMessageID ''b1-7'' = Inr (''b1'', 7)" using demo_msg_ids(3) by (simp add: ParseMessageID_iff)
  have "validate (SigningMessage demo_published) = Inr [''b2.bob-1'']"
    by (simp add: validate_def SigningMessage_def demo_published_def demo_msg_ids p MaxRecipients_def Signing.MaxRecipients_def
        MaxBodyLen_def is_ok_iff)
  then show ?thesis
    by (simp add: CanonicalDigest_def Canonicalize_def appendLenPrefixed_def Context_def SigningMessage_def demo_published_def)
qed

lemma demo_idem_valid: "record_validate (idem_of demo_req (publish_fp demo_req) demo_published ''2'') = Inr ()"
  by (simp add: record_validate_def idem_of_def demo_req_def demo_published_def publish_op_def op_valid_def OpSend_def
      OpEnrol_def ValidateKey_def MaxKeyLen_def key_char_def is_lower_def is_digit_def MaxAgentLen_def MaxResultBytes_def
      demo_now_def unixEpoch_def sec_ns_def record_Scope_def NewAgentScope_def)

lemma demo_entry_built:
  "\<exists>e a. build_entry demo_pub_codec ''b1'' demo_now demo_req (publish_fp demo_req) 7 =
     Inr (demo_published, idem_of demo_req (publish_fp demo_req) demo_published ''2'', e) \<and>
     auditRecordFor demo_published [] 0 = Inr a \<and>
     e = \<lparr>en_Kind = RecordKind, en_Body = Some ''1'', en_Idem = Some ''3'', en_Audit = Some a\<rparr>"
proof -
  let ?r = "idem_of demo_req (publish_fp demo_req) demo_published ''2''"
  have c: "hc_msg demo_pub_codec (msg_Record demo_published) = Some ''1''" "hc_compact demo_pub_codec = Some"
    "hc_idem demo_pub_codec ?r = Some ''3''" "hc_result demo_pub_codec demo_result = Some ''2''"
    by (simp_all add: demo_pub_codec_def only_def Let_def)
  have r: "encodeStoredResult demo_pub_codec (mg_ID demo_published) (mg_Seq demo_published) (mg_Recipients demo_published)
      (mg_SentAt demo_published) = Some ''2''"
    using c(4) by (simp add: encodeStoredResult_def demo_result_def demo_published_def)
  have i: "idem_Encode demo_pub_codec ?r = Inr ''3''"
    using c demo_idem_valid by (simp add: idem_Encode_def idem_of_def json_null_def MaxResultBytes_def Let_def)
  obtain d where "CanonicalDigest (SigningMessage demo_published) = Inr d" using demo_digest by blast
  then have "\<exists>a. auditRecordFor demo_published [] 0 = Inr a"
    by (simp add: auditRecordFor_def auditContentHash_def Let_def)
  then show ?thesis
    using demo_message_built c(1) r i
    by (auto simp: build_entry_def Let_def) (auto simp: demo_req_def zero_attestation_def)
qed

lemma demo_pub_applied:
  assumes "hb_store h = store_New 0 0" "hb_idem h = NewStore 100 8" "cm_CommitIndex c = 2"
  shows "\<exists>effs h1. apply_published demo_pub_env demo_now demo_now demo_req demo_published
      (idem_of demo_req (publish_fp demo_req) demo_published ''2'') c h =
     (Inr \<lparr>res_MessageID = ''b1-7'', res_Seq = 7, res_Sender = ''b1.amy-1'', res_Broadcast = False,
           res_Recipients = [''b2.bob-1''], res_SentAt = demo_now, res_Replayed = False\<rparr>, effs, h1) \<and>
     hb_busID h1 = hb_busID h \<and> hb_poisoned h1 = hb_poisoned h"
proof -
  have "fst (store_Append demo_now (demo_published\<lparr>mg_Pos := 2\<rparr>) (store_New 0 0)) = Inr ()"
    by (simp add: store_Append_def demo_published_def store_New_def Let_def)
  moreover have "fst (Remember demo_now (NewStore 100 8) (idem_of demo_req (publish_fp demo_req) demo_published ''2'')) = Inr ()"
    using demo_idem_valid idem_of_scope [OF demo_scope]
    by (simp add: Remember_def remember_def bucket_def NewStore_def expireLocked_def admitAgentLocked_def pressureLine_def Let_def)
  ultimately show ?thesis
    using assms by (auto simp: apply_published_def Let_def prod_eq_iff split: prod.splits sum.splits)
      (auto simp: demo_published_def)
qed

lemma publish_committed:
  assumes "publish_scope E h req = Inr sc" "Lookup (clk 0) (hb_idem h) sc (publish_fp req) = ((p, OutcomeNew), t)"
    "Admit (clk 1) t sc = (Inr (), t1)" "spend_mint C dw io (clk 2) req (h\<lparr>hb_idem := t1\<rparr>) = (Inr sq, h1)"
    "build_entry C (hb_busID h1) (clk 3) req (publish_fp req) sq = Inr (m, r, e)" "dw e (hb_log h1) = (Inr c, l)"
    "apply_published E (clk 4) (clk 5) req m r c (h1\<lparr>hb_log := l\<rparr>) = (res, effs, h2)"
  shows "publish C E dw io clk req h = (res, OutcomeNew, effs, h2)"
  using assms by (simp add: publish_def publish_scope_def [symmetric] publish_fp_def [symmetric] Let_def)

text \<open>On any log that commits the entry at index 2.\<close>

lemma demo_publish:
  assumes dw: "\<And>a. auditRecordFor demo_published [] 0 = Inr a \<Longrightarrow>
    \<exists>c l'. dw \<lparr>en_Kind = RecordKind, en_Body = Some ''1'', en_Idem = Some ''3'', en_Audit = Some a\<rparr> l = (Inr c, l') \<and>
      cm_CommitIndex c = 2"
  shows "\<exists>effs h1. publish demo_pub_codec demo_pub_env dw WriteOk (\<lambda>_. demo_now) demo_req (demo_hub l) =
     (Inr \<lparr>res_MessageID = ''b1-7'', res_Seq = 7, res_Sender = ''b1.amy-1'', res_Broadcast = False,
           res_Recipients = [''b2.bob-1''], res_SentAt = demo_now, res_Replayed = False\<rparr>, OutcomeNew, effs, h1) \<and>
     hb_busID h1 = hb_busID (demo_hub l) \<and> hb_poisoned h1 = hb_poisoned (demo_hub l)"
proof -
  let ?sc = "\<lparr>sc_agent = ''b1.amy-1'', sc_op = OpSend, sc_key = ''k1'', sc_enrolBusWide = False\<rparr>"
  let ?r = "idem_of demo_req (publish_fp demo_req) demo_published ''2''"
  have t: "Lookup demo_now (NewStore 100 8) ?sc (publish_fp demo_req) = ((None, OutcomeNew), NewStore 100 8)"
    "Admit demo_now (NewStore 100 8) ?sc = (Inr (), NewStore 100 8)"
    by (simp_all add: Lookup_def Admit_def expireLocked_def NewStore_def bucket_def admitAgentLocked_def pressureLine_def Let_def)
  have s: "spend_mint demo_pub_codec dw WriteOk demo_now demo_req (demo_hub l) = (Inr 7, demo_hub l)"
    by (simp add: spend_mint_def demo_hub_def expireMintsLocked_def assertSeqFloorLocked_def Let_def)
      (simp add: demo_req_def)
  obtain e a where e: "build_entry demo_pub_codec ''b1'' demo_now demo_req (publish_fp demo_req) 7 = Inr (demo_published, ?r, e)"
    "auditRecordFor demo_published [] 0 = Inr a"
    "e = \<lparr>en_Kind = RecordKind, en_Body = Some ''1'', en_Idem = Some ''3'', en_Audit = Some a\<rparr>"
    using demo_entry_built by blast
  obtain c l' where c: "dw e l = (Inr c, l')" "cm_CommitIndex c = 2" using dw e(2,3) by blast
  have b: "hb_busID (demo_hub l) = ''b1''" "hb_idem (demo_hub l) = NewStore 100 8" "hb_store (demo_hub l) = store_New 0 0"
    "(demo_hub l)\<lparr>hb_idem := NewStore 100 8\<rparr> = demo_hub l" "(demo_hub l)\<lparr>hb_log := l'\<rparr> = demo_hub l'" "hb_log (demo_hub l) = l"
    "hb_idem (demo_hub l') = NewStore 100 8" "hb_store (demo_hub l') = store_New 0 0"
    "hb_busID (demo_hub l') = hb_busID (demo_hub l)" "hb_poisoned (demo_hub l') = hb_poisoned (demo_hub l)"
    by (simp_all add: demo_hub_def)
  obtain effs h1 where a: "apply_published demo_pub_env demo_now demo_now demo_req demo_published ?r c (demo_hub l') =
     (Inr \<lparr>res_MessageID = ''b1-7'', res_Seq = 7, res_Sender = ''b1.amy-1'', res_Broadcast = False,
           res_Recipients = [''b2.bob-1''], res_SentAt = demo_now, res_Replayed = False\<rparr>, effs, h1)"
    and h1: "hb_busID h1 = hb_busID (demo_hub l') \<and> hb_poisoned h1 = hb_poisoned (demo_hub l')"
    using demo_pub_applied [OF b(8,7) c(2)] by auto
  have "publish demo_pub_codec demo_pub_env dw WriteOk (\<lambda>_. demo_now) demo_req (demo_hub l) =
     (Inr \<lparr>res_MessageID = ''b1-7'', res_Seq = 7, res_Sender = ''b1.amy-1'', res_Broadcast = False,
           res_Recipients = [''b2.bob-1''], res_SentAt = demo_now, res_Replayed = False\<rparr>, OutcomeNew, effs, h1)"
    by (rule publish_committed [OF demo_scope, where t = "NewStore 100 8" and ?t1.0 = "NewStore 100 8" and ?h1.0 = "demo_hub l"
          and l = l' and c = c and m = demo_published and r = ?r and e = e]) (simp_all add: t s b a c, rule e(1))
  with h1 b(9,10) show ?thesis by auto
qed

lemma demo_log_publish:
  obtains out effs h1 where "publish demo_pub_codec demo_pub_env demo_log WriteOk (\<lambda>_. demo_now) demo_req (demo_hub ()) =
      (Inr out, OutcomeNew, effs, h1)" "res_MessageID out = ''b1-7''" "hb_busID h1 = hb_busID (demo_hub ())"
      "hb_poisoned h1 = hb_poisoned (demo_hub ())"
  using demo_publish [of demo_log "()"] by (fastforce simp: demo_log_def)



theorem failed_publish_changes_nothing_witness:
  "\<exists>e oc effs h'. publish demo_pub_codec demo_pub_env demo_log WriteOk (\<lambda>_. demo_now) (demo_req\<lparr>pr_body := []\<rparr>) (demo_hub ()) =
     (Inl e, oc, effs, h') \<and> effs = [] \<and> hb_store h' = store_New 0 0"
proof -
  have p: "publish demo_pub_codec demo_pub_env demo_log WriteOk (\<lambda>_. demo_now) (demo_req\<lparr>pr_body := []\<rparr>) (demo_hub ()) =
      (Inl HubInvalidBody, OutcomeNew, [], demo_hub ())"
    by (simp add: publish_def check_request_def validateIdempotencyKey_def hub_MaxIdempotencyKeyLen_def demo_req_def
        hub_key_char_def is_lower_def is_upper_def is_digit_def)
  have b: "idem_inv (hb_idem (demo_hub ()))" "hb_store (demo_hub ()) = store_New 0 0" "\<not> hb_poisoned (demo_hub ())"
    by (simp_all add: demo_hub_def NewStore_inv)
  from failed_publish_changes_nothing [OF b(1) p] p b(2,3) show ?thesis by auto
qed

end
