(* ===== verification/HubRecover.thy ===== *)
theory HubRecover
  imports HubOnce
begin

text \<open>
  What a restart gets back of a publish.  The locale \<open>durable_log\<close> is the interface the hub uses of the
  log (\<^verbatim>\<open>hub.DurableLog\<close>): a write that succeeds returns the entry it committed.  \<^verbatim>\<open>Log.Write\<close> of
  \<^verbatim>\<open>internal/wal/log.go\<close> is its interpretation; what is proved in the locale is that \<^verbatim>\<open>Apply\<close> on the committed
  entry stores the message the live call stored and recovers the applied-key record it kept.
\<close>

section \<open>The write of the log\<close>

definition log_Write ::
  "json \<Rightarrow> (string \<Rightarrow> bool) option \<Rightarrow> (committed \<Rightarrow> 'm \<Rightarrow> bool \<times> 'm) \<Rightarrow> io \<Rightarrow> io \<Rightarrow> io \<Rightarrow> time \<Rightarrow> 'm wal_log durable_write" where
  "log_Write J owns ap pio aio cio now e l =
     (case Begin J owns pio now e l of
        (Inl err, l1) \<Rightarrow> (Inl err, l1)
      | (Inr (t, _), l1) \<Rightarrow> (case Commit J ap aio cio t l1 of (r, _, l2) \<Rightarrow> (r, l2)))"

definition canonical_entry :: "json \<Rightarrow> entry \<Rightarrow> bool" where
  "canonical_entry J e \<longleftrightarrow>
     (\<forall>b. en_Body e = Some b \<longrightarrow> canonical_json J b) \<and> (\<forall>b. en_Idem e = Some b \<longrightarrow> canonical_json J b)"

locale durable_log =
  fixes put :: "'l durable_write"
    and canonical :: "entry \<Rightarrow> bool"
  assumes put_entry: "put e l = (Inr c, l') \<Longrightarrow> canonical e \<Longrightarrow> cm_Entry c = e"

lemma canonicalBody_id:
  assumes "\<And>b. body = Some b \<Longrightarrow> canonical_json J b"
  shows "canonicalBody J body = Inr body"
  using assms by (auto simp: canonicalBody_def canonical_json_def split: option.splits)

lemma Begin_entry:
  assumes "Begin J owns io now e l = (Inr (t, rc), l')" "canonical_entry J e"
  shows "tx_entry t = e"
proof -
  have "canonicalBody J (en_Body e) = Inr (en_Body e)" "canonicalBody J (en_Idem e) = Inr (en_Idem e)"
    using assms(2) by (auto simp: canonical_entry_def intro!: canonicalBody_id)
  then show ?thesis
    using assms(1) by (auto simp: Begin_def split: if_splits option.splits sum.splits prod.splits)
qed

lemma Commit_entry:
  assumes "Commit J ap aio io t l = (Inr c, ef, l')"
  shows "cm_Entry c = tx_entry t"
  using assms by (auto simp: Commit_def Let_def split: option.splits sum.splits prod.splits if_splits)

interpretation wal_durable: durable_log "log_Write J owns ap pio aio cio now" "canonical_entry J"
  for J owns ap pio aio cio now
  by unfold_locales
    (auto simp: log_Write_def dest!: Begin_entry Commit_entry split: sum.splits prod.splits)

section \<open>Recovery of a committed entry\<close>

lemma recovered_message:
  assumes "codec_ok J C" "msg_ok m" "hc_msg C (msg_Record m) = Some b"
  shows "msg_of_body C (Some b) = Inr m"
  using assms decode_record by (auto simp: codec_ok_def msg_of_body_def)

lemma length_publish_fp [simp]: "length (publishFingerprint op rs b) = FingerprintSize"
  by (simp add: publishFingerprint_def ComputeFingerprint_def FingerprintSize_def)

lemma recovered_record:
  assumes C: "codec_ok J C" and ok: "stored_result_ok s" "hc_result C s = Some (ir_result r)"
    and p: "is_ok (ParseAgentID (ir_agent r))" "int64_range (ir_committedAt r - unixEpoch)"
    and e: "idem_Encode C r = Inr b" and f: "length (ir_fingerprint r) = FingerprintSize"
  shows "idem_DecodeRecord C b = Inr r \<and> canonical_json J b"
proof -
  have c: "hc_compact C (ir_result r) = Some (ir_result r)" "ir_result r \<noteq> json_null" "ir_result r \<noteq> []"
    using C ok by (auto simp: codec_ok_def canonical_json_def)
  then have v: "record_validate r = Inr ()" "hc_idem C r = Some b"
    using e by (auto simp: idem_Encode_def res Let_def split: if_splits)
  then have "un_idem C b = Some r" "canonical_json J b"
    using C p by (auto simp: codec_ok_def idem_record_ok_def)
  then show ?thesis using v f by (simp add: idem_DecodeRecord_def)
qed

text \<open>What \<^verbatim>\<open>Apply\<close> does for a message it can store.\<close>

definition restored :: "time \<Rightarrow> time \<Rightarrow> msg \<Rightarrow> idem_record \<Rightarrow> 'l hub \<Rightarrow> 'l hub \<Rightarrow> bool" where
  "restored n1 n2 m r h h' \<longleftrightarrow>
     hb_store h' = snd (store_Append n1 m (hb_store h)) \<and>
     (fst (store_Append n1 m (hb_store h)) = Inr () \<longrightarrow>
        hb_idem h' = snd (Recover n2 (hb_idem h) r) \<and> mg_Seq m \<le> hb_appliedSeq h' \<and>
        insert (mg_Sender m) (set (mg_Recipients m)) \<subseteq> set (hb_recovered h'))"

lemma kinds_distinct: "RecordKind \<noteq> SeqFloorRecordKind"
  by (simp add: RecordKind_def SeqFloorRecordKind_def)

lemma set_fold_insert: "set (fold List.insert xs ys) = set xs \<union> set ys"
  by (induction xs arbitrary: ys) auto

lemma Apply_restores:
  assumes "en_Kind (cm_Entry c) = RecordKind" "msg_of_body C (en_Body (cm_Entry c)) = Inr m"
    and "en_Idem (cm_Entry c) = Some b" "idem_DecodeRecord C b = Inr r"
  shows "restored n1 n2 (m\<lparr>mg_Pos := cm_CommitIndex c\<rparr>) r h (hub_Apply C n1 n2 c h)"
proof -
  have k: "en_Kind (cm_Entry c) \<noteq> SeqFloorRecordKind" using assms(1) kinds_distinct by simp
  obtain q st where a: "store_Append n1 (m\<lparr>mg_Pos := cm_CommitIndex c\<rparr>) (hb_store h) = (q, st)" by fastforce
  show ?thesis
    using assms k a by (cases q) (auto simp: hub_Apply_def recoverIdemRecord_def restored_def Let_def set_fold_insert)
qed


lemma built_message_ok:
  assumes "build_message busID now req sq = Inr m" "int64_range (now - unixEpoch)"
    and "addressing_ok (pr_sender req) (pr_broadcast req) (pr_recipients req) (pr_key req)"
  shows "msg_ok m"
  using assms new_message_ok with_relay_origin_ok
  by (auto simp: build_message_def res split: if_splits)

lemma entry_recovers:
  assumes C: "codec_ok J C" and t: "int64_range (now - unixEpoch)"
    and b: "build_entry C busID now req (publish_fp req) sq = Inr (m, r, e)"
    and a: "addressing_ok (pr_sender req) (pr_broadcast req) (pr_recipients req) (pr_key req)"
  shows "msg_of_body C (en_Body e) = Inr m \<and> canonical_entry J e \<and>
    (\<exists>b. en_Idem e = Some b \<and> idem_DecodeRecord C b = Inr r) \<and> en_Kind e = RecordKind"
proof -
  note f = build_entry_fields [OF b]
  note g = build_message_fields [OF f(1)]
  let ?s = "\<lparr>sr_MessageID = mg_ID m, sr_Seq = mg_Seq m, sr_Recipients = mg_Recipients m, sr_SentAt = Some (mg_SentAt m)\<rparr>"
  obtain pb where pb: "hc_msg C (msg_Record m) = Some pb" "en_Body e = Some pb" using f(3) by blast
  have ok: "msg_ok m" using f(1) t a by (rule built_message_ok)
  have "is_ok (ParseMessageID (mg_ID m))" using g(9) by (auto simp: is_ok_iff ParseMessageID_iff)
  then have s: "stored_result_ok ?s" using a t g by (simp add: stored_result_ok_def addressing_ok_def)
  obtain res where r: "hc_result C ?s = Some res" "r = idem_of req (publish_fp req) m res"
    using f(4) by (auto simp: encodeStoredResult_def)
  obtain ib where ib: "idem_Encode C r = Inr ib" "en_Idem e = Some ib" using f(5) by blast
  have "idem_DecodeRecord C ib = Inr r \<and> canonical_json J ib"
    by (rule recovered_record [OF C s _ _ _ ib(1)])
      (use r a t g in \<open>auto simp: idem_of_def addressing_ok_def publish_fp_def\<close>)
  moreover have "canonical_json J pb" using C ok pb(1) by (auto simp: codec_ok_def)
  ultimately show ?thesis
    using f(2) pb ib(2) recovered_message [OF C ok pb(1)] by (auto simp: canonical_entry_def)
qed

context durable_log
begin

lemma committed_publish_restores:
  assumes C: "codec_ok J C" and can: "\<And>e. canonical_entry J e \<Longrightarrow> canonical e"
    and sh: "request_shape req" and t: "int64_range (clk 3 - unixEpoch)"
    and p: "publish C E put io clk req h = (Inr out, OutcomeNew, effs, h')"
  shows "\<exists>m r c. res_MessageID out = mg_ID m \<and> res_Seq out = mg_Seq m \<and> ENotify m \<in> set effs \<and>
    hb_store h' = snd (store_Append (clk 4) m (hb_store h)) \<and>
    (\<exists>tab. hb_idem h' = snd (Remember (clk 5) tab r)) \<and>
    (\<exists>e l l'. put e l = (Inr c, l')) \<and> (\<forall>n1 n2 (h0 :: 'l hub). restored n1 n2 m r h0 (hub_Apply C n1 n2 c h0))"
  using publish_paths [of C E put io clk req h] unfolding p
proof cases
  case (committed sc q t' t1 sq h1 m r e c l)
  have a: "addressing_ok (pr_sender req) (pr_broadcast req) (pr_recipients req) (pr_key req)"
    using committed_addressing [OF committed(5) sh committed(1)] by blast
  note er = entry_recovers [OF C t committed(5) a]
  have ce: "cm_Entry c = e" using put_entry [OF committed(6)] can er by blast
  let ?m = "m\<lparr>mg_Pos := cm_CommitIndex c\<rparr>"
  have re: "restored n1 n2 ?m r h0 (hub_Apply C n1 n2 c h0)" for n1 n2 h0
    using er Apply_restores [of c C m _ r n1 n2 h0] ce by auto
  have "res_MessageID out = mg_ID ?m \<and> res_Seq out = mg_Seq ?m \<and> ENotify ?m \<in> set effs \<and>
      hb_store h' = snd (store_Append (clk 4) ?m (hb_store h1)) \<and> hb_idem h' = snd (Remember (clk 5) (hb_idem h1) r)"
    using committed(7) by (auto simp: apply_published_def Let_def split: if_splits sum.splits prod.splits)
  moreover have "hb_store h1 = hb_store h" using spend_mint_idem [OF committed(4)] by simp
  ultimately show ?thesis
    using re committed(6) by (intro exI [of _ ?m] exI [of _ r] exI [of _ c]) (auto simp del: msg.simps)
qed

end



section \<open>A concrete write\<close>

definition writer_ready :: "writer \<Rightarrow> bool" where
  "writer_ready w \<longleftrightarrow> codec_ready (w_codec w) \<and> \<not> w_poisoned w \<and> \<not> w_closed w \<and> w_floor w = None"

lemma Append_ready:
  assumes "writer_ready w" "Known t" "length p \<le> MaxPayloadSize"
  shows "\<exists>rc w'. Append fio IoOk w t p = (Inr rc, w') \<and> rec_index rc = w_next w \<and> writer_ready w' \<and> w_next w' = w_next w + 1"
  using assms encodeFrame_ready [of "w_codec w" "w_next w" t p] by (auto simp: Append_def writer_ready_def)

lemma log_Write_ready:
  assumes "writer_ready (lg_w l)" "lg_audit l = Some aw" "writer_ready aw" "\<not> lg_diverged l"
    and "en_Kind e \<noteq> []" "canonical_entry J e" "en_Audit e = Some a" "audit_validate a = Inr ()"
    and "\<And>k t b i. \<exists>p. j_prepare J k t b i = Some p \<and> length p \<le> MaxPayloadSize"
    and "\<And>n. \<exists>p. j_commit J n = Some p \<and> length p \<le> MaxPayloadSize" "\<And>n. \<exists>p. j_audit J a n = Some p \<and> length p \<le> MaxPayloadSize"
    and "\<And>c m. fst (ap c m)"
  shows "\<exists>c l'. log_Write J None ap (WriteOk, IoOk) (WriteOk, IoOk) (WriteOk, IoOk) now e l = (Inr c, l') \<and>
    cm_CommitIndex c = w_next (lg_w l) + 1"
proof -
  have cb: "canonicalBody J (en_Body e) = Inr (en_Body e)" "canonicalBody J (en_Idem e) = Inr (en_Idem e)"
    using assms(6) by (auto simp: canonical_entry_def intro!: canonicalBody_id)
  have k: "Known TypePrepare" "Known TypeCommit" "Known TypeAuditMessage"
    by (simp_all add: Known_def TypePrepare_def TypeCommit_def TypeAuditMessage_def)
  obtain pp where pp: "encodePrepareWithIdem J (en_Kind e) (en_Body e) (en_Idem e) now = Some pp" "length pp \<le> MaxPayloadSize"
    using assms(9) unfolding encodePrepareWithIdem_def by blast
  obtain rc w1 where w1: "Append WriteOk IoOk (lg_w l) TypePrepare pp = (Inr rc, w1)" "writer_ready w1" "w_next w1 = w_next (lg_w l) + 1"
    using Append_ready [OF assms(1) k(1) pp(2)] by blast
  obtain ja where ja: "j_audit J a (rec_index rc) = Some ja" "length ja \<le> MaxPayloadSize" using assms(11) by blast
  obtain ra aw1 where aw1: "Append WriteOk IoOk aw TypeAuditMessage ja = (Inr ra, aw1)"
    using Append_ready [OF assms(3) k(3) ja(2)] by blast
  obtain jc where jc: "j_commit J (rec_index rc) = Some jc" "length jc \<le> MaxPayloadSize" using assms(10) by blast
  obtain r2 w2 where w2: "Append WriteOk IoOk w1 TypeCommit jc = (Inr r2, w2)" "rec_index r2 = w_next w1"
    using Append_ready [OF w1(2) k(2) jc(2)] by blast
  have aw: "\<not> w_poisoned aw" using assms(3) by (simp add: writer_ready_def)
  show ?thesis
    using assms(2,4,5,7,8,12) cb pp w1 ja aw1 jc w2 aw
    by (simp add: log_Write_def Begin_def Commit_def append_audit_def Let_def case_prod_beta)
qed


lemma hex_encode_lower: "isLowerHex (hex_encode b) (2 * length b)"
proof -
  have h: "CHR ''0'' \<le> hex_digit n \<and> hex_digit n \<le> CHR ''9'' \<or> CHR ''a'' \<le> hex_digit n \<and> hex_digit n \<le> CHR ''f''"
    if "n < 16" for n
  proof -
    have "byte_val (hex_digit n) = (if n < 10 then 48 + n else 87 + n)" using that by (simp add: hex_digit_def)
    then show ?thesis using that by (auto simp: less_eq_char_def)
  qed
  have "byte_val c < 256" for c by (rule of_char_lt_256)
  then have "byte_val c div 16 < 16" for c by (simp add: div_less_iff_less_mult)
  then have "\<forall>c\<in>set (hex_encode b). CHR ''0'' \<le> c \<and> c \<le> CHR ''9'' \<or> CHR ''a'' \<le> c \<and> c \<le> CHR ''f''"
    using h by (auto simp: hex_encode_def)
  then show ?thesis by (simp add: isLowerHex_def list_all_iff)
qed

lemma demo_audit_valid:
  assumes "auditRecordFor demo_published [] 0 = Inr a"
  shows "audit_validate a = Inr ()"
proof -
  obtain d where d: "au_ContentSHA256 a = hex_encode (sha256 d)"
    using assms by (auto simp: auditRecordFor_def auditContentHash_def CanonicalDigest_def Let_def res)
  have "isLowerHex (au_ContentSHA256 a) sha256HexLen" "length (au_ContentSHA256 a) = 64"
    using hex_encode_lower [of "sha256 d"] d by (simp_all add: sha256HexLen_def)
  moreover have "au_MessageID a = ''b1-7''" "au_Seq a = 7" "au_Sender a = ''b1.amy-1''" "\<not> au_Broadcast a"
    "au_Recipients a = [''b2.bob-1'']" "au_BusPath a = [''b1'']" "au_SentAt a = demo_now" "au_Size a = 2"
    using assms by (auto simp: auditRecordFor_def res demo_published_def)
  ultimately show ?thesis
    by (simp add: audit_validate_def auditID_def maxAuditIDBytes_def maxAuditRecipients_def maxAuditBusPath_def
        audit_total_def maxAuditFieldBytes_def demo_now_def unixEpoch_def sec_ns_def)
qed

definition demo_wal_json :: json where
  "demo_wal_json = \<lparr>j_compact = Some, j_prepare = (\<lambda>_ _ _ _. Some []), j_commit = (\<lambda>_. Some []), j_abort = (\<lambda>_ _. Some []),
     j_audit = (\<lambda>_ _. Some []), un_prepare = (\<lambda>_. None), un_commit = (\<lambda>_. None), un_abort = (\<lambda>_. None)\<rparr>"

definition demo_wal :: "unit wal_log" where
  "demo_wal = (let w = \<lparr>w_kind = KindWAL, w_codec = demo_v2, w_file = [], w_next = 1, w_size = 0, w_closed = False, w_poisoned = False, w_floor = None\<rparr>
     in \<lparr>lg_w = w, lg_audit = Some w, lg_mem = (), lg_lastCommit = 0, lg_diverged = False\<rparr>)"


lemma demo_wal_codec_ok: "codec_ok demo_wal_json demo_pub_codec"
  by (auto simp: codec_ok_def demo_pub_codec_def demo_wal_json_def canonical_json_def json_null_def Let_def dest!: only_unonly)

lemma demo_wal_write:
  assumes "auditRecordFor demo_published [] 0 = Inr a"
  shows "\<exists>c l'. log_Write demo_wal_json None (\<lambda>c m. (True, m)) (WriteOk, IoOk) (WriteOk, IoOk) (WriteOk, IoOk) demo_now
    \<lparr>en_Kind = RecordKind, en_Body = Some ''1'', en_Idem = Some ''3'', en_Audit = Some a\<rparr> demo_wal = (Inr c, l') \<and>
    cm_CommitIndex c = 2"
proof -
  let ?e = "\<lparr>en_Kind = RecordKind, en_Body = Some ''1'', en_Idem = Some ''3'', en_Audit = Some a\<rparr>"
  obtain aw where aw: "lg_audit demo_wal = Some aw" "writer_ready aw" "writer_ready (lg_w demo_wal)" "\<not> lg_diverged demo_wal"
    "w_next (lg_w demo_wal) = 1"
    by (simp add: demo_wal_def Let_def writer_ready_def codec_ready_def demo_v2_def)
  have e: "en_Kind ?e \<noteq> []" "canonical_entry demo_wal_json ?e"
    by (simp_all add: RecordKind_def canonical_entry_def canonical_json_def demo_wal_json_def json_null_def)
  show ?thesis
    using log_Write_ready [OF aw(3,1,2,4) e _ demo_audit_valid [OF assms], of "\<lambda>c m. (True, m)" demo_now] aw(5)
    by (simp add: demo_wal_json_def MaxPayloadSize_def)
qed


end
