(* ===== verification/Conversation.thy ===== *)
theory Conversation
  imports Utf8 EventLog IdemReplay HubRecover
begin

text \<open>
  Conversations (\<^verbatim>\<open>internal/store/conversation.go\<close>, \<^verbatim>\<open>conversationcreate.go\<close>, \<^verbatim>\<open>conversationstore.go\<close>): identifiers, the
  record and its checks, the table with its own applied-key table, and the idempotent creation
  over the log.  The JSON text of a record is the parameter \<open>V\<close>; random bytes are an argument.
\<close>

section \<open>Identifiers and records\<close>

datatype conv_error =
    ErrInvalidConversation | ErrConversationKeyReused | ErrConversationCapacity | ErrConversationNotDurable
  | ConvIdem idem_error | ConvLog log_error | ConvNotServed | ConvAttachedTwice | ConvBusID ids_error

definition ConversationRecordKind :: string where "ConversationRecordKind = ''conversation''"
definition conversationRecordVersion :: int where "conversationRecordVersion = 1"
definition MaxConversationNameBytes :: nat where "MaxConversationNameBytes = 128"
definition MaxConversationRecipients :: nat where "MaxConversationRecipients = Message.MaxRecipients"
definition MaxConversationIDLen :: nat where "MaxConversationIDLen = 64 + 1 + 36"
definition MaxConversations :: nat where "MaxConversations = 65536"

record conversation =
  cv_ID :: string
  cv_Creator :: string
  cv_Name :: string
  cv_Recipients :: "string list"
  cv_CreatedAt :: time

text \<open>The struct on the wire; \<open>None\<close> is a time that is not RFC 3339.\<close>

record conversation_json =
  cj_Version :: int
  cj_ID :: string
  cj_Creator :: string
  cj_Name :: string
  cj_Recipients :: "string list"
  cj_CreatedAt :: "time option"

record conversation_codec =
  vc_record :: "conversation_json \<Rightarrow> bytes option"
  un_record :: "bytes \<Rightarrow> conversation_json option"
  vc_result :: "string \<Rightarrow> bytes option"
  un_cresult :: "bytes \<Rightarrow> string option"

definition byte_and_or :: "char \<Rightarrow> 8 word \<Rightarrow> 8 word \<Rightarrow> char" where
  "byte_and_or c a o' = char_of (unat (or (and (word_of_nat (byte_val c)) a) o' :: 8 word))"

definition newUUIDv4 :: "bytes option \<Rightarrow> string option" where
  "newUUIDv4 rnd =
     (case rnd of
        None \<Rightarrow> None
      | Some b0 \<Rightarrow>
          let b = b0[6 := byte_and_or (b0 ! 6) 0x0f 0x40, 8 := byte_and_or (b0 ! 8) 0x3f 0x80] in
          Some (hex_encode (take 4 b) @ ''-'' @ hex_encode (take 2 (drop 4 b)) @ ''-'' @ hex_encode (take 2 (drop 6 b)) @
                ''-'' @ hex_encode (take 2 (drop 8 b)) @ ''-'' @ hex_encode (take 6 (drop 10 b))))"

definition NewConversationID :: "bytes option \<Rightarrow> string \<Rightarrow> conv_error + string" where
  "NewConversationID rnd busID =
     bindR (wrapErr (\<lambda>_. ErrInvalidConversation) (ValidateBusID busID)) (\<lambda>_.
     bindR (orErr (newUUIDv4 rnd) ErrInvalidConversation) (\<lambda>u. Inr (busID @ ''.'' @ u)))"

definition conv_isLowerHex :: "char \<Rightarrow> bool" where
  "conv_isLowerHex c \<longleftrightarrow> (CHR ''0'' \<le> c \<and> c \<le> CHR ''9'') \<or> (CHR ''a'' \<le> c \<and> c \<le> CHR ''f'')"

definition uuid_byte_ok :: "nat \<Rightarrow> char \<Rightarrow> bool" where
  "uuid_byte_ok i c \<longleftrightarrow> (if i = 8 \<or> i = 13 \<or> i = 18 \<or> i = 23 then c = CHR ''-'' else conv_isLowerHex c)"

fun uuid_bytes_ok :: "nat \<Rightarrow> string \<Rightarrow> bool" where
  "uuid_bytes_ok i [] \<longleftrightarrow> True"
| "uuid_bytes_ok i (c # s) \<longleftrightarrow> uuid_byte_ok i c \<and> uuid_bytes_ok (Suc i) s"

definition validateUUIDv4 :: "string \<Rightarrow> conv_error + unit" where
  "validateUUIDv4 s =
     (if length s \<noteq> 36 then Inl ErrInvalidConversation
      else if \<not> uuid_bytes_ok 0 s then Inl ErrInvalidConversation
      else if s ! 14 \<noteq> CHR ''4'' then Inl ErrInvalidConversation
      else if s ! 19 \<notin> {CHR ''8'', CHR ''9'', CHR ''a'', CHR ''b''} then Inl ErrInvalidConversation
      else Inr ())"

definition validateConversationID :: "string \<Rightarrow> conv_error + unit" where
  "validateConversationID cid =
     (if cid = [] then Inl ErrInvalidConversation
      else if MaxConversationIDLen < length cid then Inl ErrInvalidConversation
      else case index_of (CHR ''.'') cid of
        None \<Rightarrow> Inl ErrInvalidConversation
      | Some i \<Rightarrow>
          bindR (wrapErr (\<lambda>_. ErrInvalidConversation) (ValidateBusID (take i cid))) (\<lambda>_.
          validateUUIDv4 (drop (Suc i) cid)))"

definition isDisallowedNameRune :: "nat \<Rightarrow> bool" where
  "isDisallowedNameRune r \<longleftrightarrow> r \<le> 0x1F \<or> (0x7F \<le> r \<and> r \<le> 0x9F) \<or> r = 0x2028 \<or> r = 0x2029"

definition validateConversationName :: "string \<Rightarrow> conv_error + unit" where
  "validateConversationName name =
     (if name = [] then Inr ()
      else if MaxConversationNameBytes < length name then Inl ErrInvalidConversation
      else case utf8_runes name of
        None \<Rightarrow> Inl ErrInvalidConversation
      | Some rs \<Rightarrow> if list_ex isDisallowedNameRune rs then Inl ErrInvalidConversation else Inr ())"

definition validateConversationAgentID :: "string \<Rightarrow> conv_error + unit" where
  "validateConversationAgentID v =
     (if v = [] then Inl ErrInvalidConversation
      else if MaxAgentIDLen < length v then Inl ErrInvalidConversation
      else bindR (wrapErr (\<lambda>_. ErrInvalidConversation) (ParseAgentID v)) (\<lambda>_. Inr ()))"

fun check_members :: "string list \<Rightarrow> string list \<Rightarrow> conv_error + unit" where
  "check_members seen [] = Inr ()"
| "check_members seen (r # rs) =
     bindR (validateConversationAgentID r) (\<lambda>_.
     if r \<in> set seen then Inl ErrInvalidConversation else check_members (r # seen) rs)"

definition conv_validate :: "conversation \<Rightarrow> conv_error + unit" where
  "conv_validate r =
     bindR (validateConversationID (cv_ID r)) (\<lambda>_.
     bindR (validateConversationAgentID (cv_Creator r)) (\<lambda>_.
     bindR (validateConversationName (cv_Name r)) (\<lambda>_.
     if cv_Recipients r = [] then Inl ErrInvalidConversation
     else if MaxConversationRecipients < length (cv_Recipients r) then Inl ErrInvalidConversation
     else bindR (check_members [] (cv_Recipients r)) (\<lambda>_.
     if cv_CreatedAt r = 0 then Inl ErrInvalidConversation else Inr ()))))"

definition conv_to_json :: "conversation \<Rightarrow> conversation_json" where
  "conv_to_json r = \<lparr>cj_Version = conversationRecordVersion, cj_ID = cv_ID r, cj_Creator = cv_Creator r,
     cj_Name = cv_Name r, cj_Recipients = cv_Recipients r, cj_CreatedAt = Some (cv_CreatedAt r)\<rparr>"

definition conv_Encode :: "conversation_codec \<Rightarrow> conversation \<Rightarrow> conv_error + bytes" where
  "conv_Encode V r = bindR (conv_validate r) (\<lambda>_. orErr (vc_record V (conv_to_json r)) ErrInvalidConversation)"

definition DecodeConversationRecord :: "conversation_codec \<Rightarrow> bytes \<Rightarrow> conv_error + conversation" where
  "DecodeConversationRecord V b =
     bindR (orErr (un_record V b) ErrInvalidConversation) (\<lambda>j.
     if cj_Version j \<noteq> conversationRecordVersion then Inl ErrInvalidConversation
     else bindR (orErr (cj_CreatedAt j) ErrInvalidConversation) (\<lambda>createdAt.
     let r = \<lparr>cv_ID = cj_ID j, cv_Creator = cj_Creator j, cv_Name = cj_Name j, cv_Recipients = cj_Recipients j,
              cv_CreatedAt = createdAt\<rparr>
     in bindR (conv_validate r) (\<lambda>_. Inr r)))"

definition canonicalConversation :: "conversation_codec \<Rightarrow> conversation \<Rightarrow> conv_error + conversation \<times> bytes" where
  "canonicalConversation V r =
     bindR (conv_Encode V r) (\<lambda>body. bindR (DecodeConversationRecord V body) (\<lambda>back. Inr (back, body)))"

definition encodeConversationResult :: "conversation_codec \<Rightarrow> string \<Rightarrow> conv_error + bytes" where
  "encodeConversationResult V cid = orErr (vc_result V cid) ErrInvalidConversation"

definition decodeConversationResult :: "conversation_codec \<Rightarrow> bytes \<Rightarrow> conv_error + string" where
  "decodeConversationResult V b =
     bindR (orErr (un_cresult V b) ErrInvalidConversation) (\<lambda>cid. bindR (validateConversationID cid) (\<lambda>_. Inr cid))"

definition conversationCreateFingerprint :: "string \<Rightarrow> string \<Rightarrow> string list \<Rightarrow> bytes" where
  "conversationCreateFingerprint creator name recipients = ComputeFingerprint ([creator, name] @ recipients)"

section \<open>The table\<close>

record conversation_store =
  cs_busID :: string
  cs_attached :: bool
  cs_records :: "(string \<times> conversation) list"
  cs_idem :: idem_store

definition NewConversationStore :: "string \<Rightarrow> conv_error + conversation_store" where
  "NewConversationStore busID =
     bindR (wrapErr ConvBusID (ValidateBusID busID)) (\<lambda>_.
     bindR (wrapErr ConvIdem (NewStoreForBus busID 0 0)) (\<lambda>idemStore.
     Inr \<lparr>cs_busID = busID, cs_attached = False, cs_records = [], cs_idem = idemStore\<rparr>))"

definition conv_Attach :: "bool \<Rightarrow> conversation_store \<Rightarrow> (conv_error + unit) \<times> conversation_store" where
  "conv_Attach isNil s =
     (if isNil then (Inl ErrConversationNotDurable, s)
      else if cs_attached s then (Inl ConvAttachedTwice, s)
      else (Inr (), s\<lparr>cs_attached := True\<rparr>))"

definition foldIn_conv :: "conversation \<Rightarrow> conversation_store \<Rightarrow> conversation_store" where
  "foldIn_conv r s = s\<lparr>cs_records := AList.update (cv_ID r) r (cs_records s)\<rparr>"

definition conv_Get :: "string \<Rightarrow> conversation_store \<Rightarrow> conversation option" where
  "conv_Get cid s = map_of (cs_records s) cid"

definition conv_Len :: "conversation_store \<Rightarrow> nat" where
  "conv_Len s = length (cs_records s)"

definition body_of :: "entry \<Rightarrow> bytes" where
  "body_of e = (case en_Body e of None \<Rightarrow> [] | Some b \<Rightarrow> b)"

definition idem_of_entry :: "entry \<Rightarrow> bytes" where
  "idem_of_entry e = (case en_Idem e of None \<Rightarrow> [] | Some b \<Rightarrow> b)"

definition conv_Apply :: "conversation_codec \<Rightarrow> hub_codec \<Rightarrow> conversation_store applier" where
  "conv_Apply V C now c s =
     (if en_Kind (cm_Entry c) \<noteq> ConversationRecordKind then (True, s)
      else case DecodeConversationRecord V (body_of (cm_Entry c)) of
        Inl _ \<Rightarrow> (True, s)
      | Inr r \<Rightarrow>
          (let s1 = foldIn_conv r s in
           if idem_of_entry (cm_Entry c) \<noteq> [] then
             (case idem_DecodeRecord C (idem_of_entry (cm_Entry c)) of
                Inl _ \<Rightarrow> (True, s1)
              | Inr rec \<Rightarrow> (True, s1\<lparr>cs_idem := snd (Recover now (cs_idem s1) rec)\<rparr>))
           else (True, s1)))"

definition conv_Stats :: "time \<Rightarrow> conversation_store \<Rightarrow> idem_stats \<times> conversation_store" where
  "conv_Stats now s = (case Stats now (cs_idem s) of (st, t) \<Rightarrow> (st, s\<lparr>cs_idem := t\<rparr>))"

section \<open>Creation\<close>

type_synonym conv_log = "conversation_store event_log"

abbreviation upd_store :: "(conversation_store \<Rightarrow> conversation_store) \<Rightarrow> conv_log \<Rightarrow> conv_log" where
  "upd_store f L \<equiv> L\<lparr>el_mem := f (el_mem L)\<rparr>"

text \<open>
  \<open>wnow\<close> is the clock inside the write, \<open>clk\<close> the readings of the call: the lookup, the admission, the
  creation time and the final \<^verbatim>\<open>Remember\<close>.
\<close>

definition conv_Create ::
  "conversation_codec \<Rightarrow> hub_codec \<Rightarrow> write_fate \<Rightarrow> bytes option \<Rightarrow> (nat \<Rightarrow> time) \<Rightarrow> string \<Rightarrow> string \<Rightarrow> string list \<Rightarrow>
     conv_log \<Rightarrow> (conv_error + conversation) \<times> conv_log" where
  "conv_Create V C fate rnd clk creator name recipients L =
     (if \<not> cs_attached (el_mem L) then (Inl ErrConversationNotDurable, L)
      else case NewConversationID rnd (cs_busID (el_mem L)) of
        Inl e \<Rightarrow> (Inl e, L)
      | Inr cid \<Rightarrow>
     (case canonicalConversation V \<lparr>cv_ID = cid, cv_Creator = creator, cv_Name = name, cv_Recipients = recipients,
             cv_CreatedAt = clk 2\<rparr> of
        Inl e \<Rightarrow> (Inl e, L)
      | Inr (canon, body) \<Rightarrow>
     if MaxConversations \<le> length (cs_records (el_mem L)) then (Inl ErrConversationCapacity, L)
     else case event_Write (conv_Apply V C) fate (clk 3)
             \<lparr>en_Kind = ConversationRecordKind, en_Body = Some body, en_Idem = None, en_Audit = None\<rparr> L of
        (Inl e, L1) \<Rightarrow> (Inl (ConvLog e), L1)
      | (Inr _, L1) \<Rightarrow> (Inr canon, upd_store (foldIn_conv canon) L1)))"

definition create_record ::
  "conversation_codec \<Rightarrow> hub_codec \<Rightarrow> string \<Rightarrow> string \<Rightarrow> conversation \<Rightarrow> bytes \<Rightarrow> conv_error + idem_record \<times> bytes" where
  "create_record V C creator idemKey canon fp =
     bindR (encodeConversationResult V (cv_ID canon)) (\<lambda>result.
     let r = \<lparr>ir_agent = creator, ir_enrolBusWide = False, ir_op = OpConversationCreate, ir_key = idemKey,
              ir_fingerprint = fp, ir_result = result, ir_seq = 0, ir_committedAt = cv_CreatedAt canon\<rparr>
     in bindR (wrapErr ConvIdem (idem_Encode C r)) (\<lambda>b. Inr (r, b)))"

definition create_new ::
  "conversation_codec \<Rightarrow> hub_codec \<Rightarrow> write_fate \<Rightarrow> bytes option \<Rightarrow> (nat \<Rightarrow> time) \<Rightarrow> string \<Rightarrow> string \<Rightarrow> string list \<Rightarrow>
     string \<Rightarrow> conv_log \<Rightarrow> (conv_error + conversation \<times> bool) \<times> conv_log" where
  "create_new V C fate rnd clk creator name recipients idemKey L =
     (case NewConversationID rnd (cs_busID (el_mem L)) of
        Inl e \<Rightarrow> (Inl e, L)
      | Inr cid \<Rightarrow>
     (case canonicalConversation V \<lparr>cv_ID = cid, cv_Creator = creator, cv_Name = name, cv_Recipients = recipients,
             cv_CreatedAt = clk 2\<rparr> of
        Inl e \<Rightarrow> (Inl e, L)
      | Inr (canon, body) \<Rightarrow>
     if MaxConversations \<le> length (cs_records (el_mem L)) then (Inl ErrConversationCapacity, L)
     else case create_record V C creator idemKey canon (conversationCreateFingerprint creator name recipients) of
        Inl e \<Rightarrow> (Inl e, L)
      | Inr (idemRecord, encodedIdem) \<Rightarrow>
     (case event_Write (conv_Apply V C) fate (clk 3)
             \<lparr>en_Kind = ConversationRecordKind, en_Body = Some body, en_Idem = Some encodedIdem, en_Audit = None\<rparr> L of
        (Inl e, L1) \<Rightarrow> (Inl (ConvLog e), L1)
      | (Inr _, L1) \<Rightarrow>
          (let L2 = upd_store (foldIn_conv canon) L1 in
           (case Remember (clk 4) (cs_idem (el_mem L2)) idemRecord of
              (Inl e, t) \<Rightarrow> (Inl (ConvIdem e), upd_store (\<lambda>s. s\<lparr>cs_idem := t\<rparr>) L2)
            | (Inr _, t) \<Rightarrow> (Inr (canon, False), upd_store (\<lambda>s. s\<lparr>cs_idem := t\<rparr>) L2))))))"

definition CreateIdempotent ::
  "conversation_codec \<Rightarrow> hub_codec \<Rightarrow> write_fate \<Rightarrow> bytes option \<Rightarrow> (nat \<Rightarrow> time) \<Rightarrow> string \<Rightarrow> string \<Rightarrow> string list \<Rightarrow>
     string \<Rightarrow> conv_log \<Rightarrow> (conv_error + conversation \<times> bool) \<times> conv_log" where
  "CreateIdempotent V C fate rnd clk creator name recipients idemKey L =
     (case NewAgentScope creator OpConversationCreate idemKey of
        Inl e \<Rightarrow> (Inl (ConvIdem e), L)
      | Inr sc \<Rightarrow>
     let fp = conversationCreateFingerprint creator name recipients in
     if \<not> cs_attached (el_mem L) then (Inl ErrConversationNotDurable, L)
     else case Lookup (clk 0) (cs_idem (el_mem L)) sc fp of ((prev, outcome), t) \<Rightarrow>
       (let L1 = upd_store (\<lambda>s. s\<lparr>cs_idem := t\<rparr>) L in
        case outcome of
          OutcomeViolation \<Rightarrow> (Inl ErrConversationKeyReused, L1)
        | OutcomeRetry \<Rightarrow>
            (case decodeConversationResult V (ir_result (the prev)) of
               Inl e \<Rightarrow> (Inl e, L1)
             | Inr cid \<Rightarrow>
                 (case conv_Get cid (el_mem L1) of
                    None \<Rightarrow> (Inl ConvNotServed, L1)
                  | Some rec \<Rightarrow> (Inr (rec, True), L1)))
        | OutcomeNew \<Rightarrow>
            (case Admit (clk 1) (cs_idem (el_mem L1)) sc of
               (Inl e, t2) \<Rightarrow> (Inl (ConvIdem e), upd_store (\<lambda>s. s\<lparr>cs_idem := t2\<rparr>) L1)
             | (Inr _, t2) \<Rightarrow>
                 create_new V C fate rnd clk creator name recipients idemKey (upd_store (\<lambda>s. s\<lparr>cs_idem := t2\<rparr>) L1))))"

end
