(* ===== verification/ConversationOnce.thy ===== *)
theory ConversationOnce
  imports Conversation
begin

text \<open>
  Creating a conversation takes effect once, over restarts.  \<open>conv_history\<close> is the step relation of a table and its
  log: creations, writes of other components to the same log, and restarts that replay the log into a fresh
  table, with whatever outcome each write has.  The invariant says what the log
  determines: the served conversations are exactly those of the committed entries, and the applied-key
  table mirrors their records.
\<close>

section \<open>What an entry contributes\<close>

definition rec_of :: "conversation_codec \<Rightarrow> committed \<Rightarrow> conversation option" where
  "rec_of V c =
     (if en_Kind (cm_Entry c) \<noteq> ConversationRecordKind then None
      else case DecodeConversationRecord V (body_of (cm_Entry c)) of Inl _ \<Rightarrow> None | Inr r \<Rightarrow> Some r)"

definition rec_idem :: "conversation_codec \<Rightarrow> hub_codec \<Rightarrow> committed \<Rightarrow> idem_record option" where
  "rec_idem V C c =
     (if rec_of V c = None \<or> idem_of_entry (cm_Entry c) = [] then None
      else case idem_DecodeRecord C (idem_of_entry (cm_Entry c)) of Inl _ \<Rightarrow> None | Inr q \<Rightarrow> Some q)"

definition conv_recs :: "conversation_codec \<Rightarrow> committed list \<Rightarrow> conversation list" where
  "conv_recs V cs = List.map_filter (rec_of V) cs"

definition conv_idems :: "conversation_codec \<Rightarrow> hub_codec \<Rightarrow> committed list \<Rightarrow> idem_record list" where
  "conv_idems V C cs = List.map_filter (rec_idem V C) cs"

definition serve :: "(string \<times> conversation) list \<Rightarrow> conversation list \<Rightarrow> (string \<times> conversation) list" where
  "serve al rs = foldl (\<lambda>m r. AList.update (cv_ID r) r m) al rs"

lemma conv_recs_simps [simp]:
  "conv_recs V [] = []" "conv_recs V (xs @ ys) = conv_recs V xs @ conv_recs V ys"
  "conv_recs V (c # cs) = (case rec_of V c of None \<Rightarrow> conv_recs V cs | Some r \<Rightarrow> r # conv_recs V cs)"
  by (simp_all add: conv_recs_def map_filter_def split: option.split)

lemma conv_idems_simps [simp]:
  "conv_idems V C [] = []" "conv_idems V C (xs @ ys) = conv_idems V C xs @ conv_idems V C ys"
  "conv_idems V C (c # cs) = (case rec_idem V C c of None \<Rightarrow> conv_idems V C cs | Some q \<Rightarrow> q # conv_idems V C cs)"
  by (simp_all add: conv_idems_def map_filter_def split: option.split)

lemma serve_simps [simp]:
  "serve al [] = al" "serve al (r # rs) = serve (AList.update (cv_ID r) r al) rs"
  "serve al (xs @ ys) = serve (serve al xs) ys"
  by (simp_all add: serve_def)

lemma map_of_serve:
  "distinct (map cv_ID rs) \<Longrightarrow>
     map_of (serve al rs) k = (case List.find (\<lambda>r. cv_ID r = k) rs of None \<Rightarrow> map_of al k | Some r \<Rightarrow> Some r)"
proof (induction rs arbitrary: al)
  case (Cons r rs)
  have "List.find (\<lambda>r. cv_ID r = k) rs = None" if "cv_ID r = k" using Cons.prems that by (simp add: find_None_iff) (metis image_eqI)
  then show ?case using Cons by (auto simp: update_conv split: option.splits)
qed simp

lemma served:
  assumes "distinct (map cv_ID rs)" "r \<in> set rs"
  shows "map_of (serve al rs) (cv_ID r) = Some r"
proof -
  have "List.find (\<lambda>x. cv_ID x = cv_ID r) rs = Some r"
    using assms by (induction rs) auto
  then show ?thesis using map_of_serve [OF assms(1)] by simp
qed

lemma conv_Apply_eq:
  "conv_Apply V C now c s = (True,
     case rec_of V c of
       None \<Rightarrow> s
     | Some r \<Rightarrow> (case rec_idem V C c of
         None \<Rightarrow> foldIn_conv r s
       | Some q \<Rightarrow> (foldIn_conv r s)\<lparr>cs_idem := snd (Recover now (cs_idem s) q)\<rparr>))"
  by (auto simp: conv_Apply_def rec_of_def rec_idem_def foldIn_conv_def Let_def split: sum.splits)

lemma rec_idem_rec_of: "rec_idem V C c = Some q \<Longrightarrow> rec_of V c \<noteq> None"
  by (auto simp: rec_idem_def split: if_splits)

section \<open>The codec\<close>

definition conv_codec_ok :: "conversation_codec \<Rightarrow> hub_codec \<Rightarrow> bool" where
  "conv_codec_ok V C \<longleftrightarrow>
     (\<forall>r b. conv_validate r = Inr () \<longrightarrow> rfc3339_range (cv_CreatedAt r) \<longrightarrow> vc_record V (conv_to_json r) = Some b \<longrightarrow>
        un_record V b = Some (conv_to_json r)) \<and>
     (\<forall>cid b. validateConversationID cid = Inr () \<longrightarrow> vc_result V cid = Some b \<longrightarrow>
        un_cresult V b = Some cid \<and> b \<noteq> [] \<and> b \<noteq> json_null \<and> hc_compact C b = Some b) \<and>
     (\<forall>r b. idem_record_ok r \<longrightarrow> hc_idem C r = Some b \<longrightarrow> un_idem C b = Some r \<and> b \<noteq> [])"

lemma int64_rfc3339: "int64_range (t - unixEpoch) \<Longrightarrow> rfc3339_range t"
  by (simp add: int64_range_def rfc3339_range_def unixEpoch_def sec_ns_def)

lemma canonical_conversation:
  assumes "conv_codec_ok V C" "rfc3339_range (cv_CreatedAt r)" "canonicalConversation V r = Inr (canon, body)"
  shows "canon = r" "conv_validate r = Inr ()" "DecodeConversationRecord V body = Inr r"
proof -
  have b: "conv_validate r = Inr ()" "vc_record V (conv_to_json r) = Some body" "DecodeConversationRecord V body = Inr canon"
    using assms(3) by (auto simp: canonicalConversation_def conv_Encode_def res)
  then have "un_record V body = Some (conv_to_json r)" using assms(1,2) by (auto simp: conv_codec_ok_def)
  then have "DecodeConversationRecord V body = Inr r"
    using b(1) by (cases r) (simp add: DecodeConversationRecord_def conv_to_json_def Let_def)
  then show "canon = r" "conv_validate r = Inr ()" "DecodeConversationRecord V body = Inr r" using b by simp_all
qed

lemma validate_creator: "conv_validate r = Inr () \<Longrightarrow> is_ok (ParseAgentID (cv_Creator r))"
  by (auto simp: conv_validate_def validateConversationAgentID_def res is_ok_iff split: if_splits)

lemma created_record:
  assumes C: "conv_codec_ok V C" and v: "conv_validate canon = Inr ()" and t: "int64_range (cv_CreatedAt canon - unixEpoch)"
    and q: "create_record V C (cv_Creator canon) key canon fp = Inr (q, b)" and f: "length fp = FingerprintSize"
  shows "idem_DecodeRecord C b = Inr q" "b \<noteq> []" "record_validate q = Inr ()"
    "record_Scope q = NewAgentScope (cv_Creator canon) OpConversationCreate key"
    "ir_fingerprint q = fp" "ir_committedAt q = cv_CreatedAt canon" "decodeConversationResult V (ir_result q) = Inr (cv_ID canon)"
proof -
  have cid: "validateConversationID (cv_ID canon) = Inr ()" using v by (auto simp: conv_validate_def res)
  obtain rb where rb: "vc_result V (cv_ID canon) = Some rb" "idem_Encode C q = Inr b"
    and qe: "q = \<lparr>ir_agent = cv_Creator canon, ir_enrolBusWide = False, ir_op = OpConversationCreate, ir_key = key,
              ir_fingerprint = fp, ir_result = rb, ir_seq = 0, ir_committedAt = cv_CreatedAt canon\<rparr>"
    using q by (auto simp: create_record_def encodeConversationResult_def res Let_def)
  have r: "un_cresult V rb = Some (cv_ID canon)" "rb \<noteq> []" "rb \<noteq> json_null" "hc_compact C rb = Some rb"
    using C cid rb(1) by (auto simp: conv_codec_ok_def)
  then have e: "record_validate q = Inr ()" "hc_idem C q = Some b"
    using rb(2) qe by (auto simp: idem_Encode_def res Let_def split: if_splits)
  have "idem_record_ok q" using e(1) validate_creator [OF v] t by (simp add: idem_record_ok_def qe)
  then have "un_idem C b = Some q" "b \<noteq> []" using C e(2) by (auto simp: conv_codec_ok_def)
  then show "idem_DecodeRecord C b = Inr q" "b \<noteq> []" "record_validate q = Inr ()"
    using e(1) f qe by (simp_all add: idem_DecodeRecord_def)
  show "record_Scope q = NewAgentScope (cv_Creator canon) OpConversationCreate key"
    "ir_fingerprint q = fp" "ir_committedAt q = cv_CreatedAt canon" by (simp_all add: qe record_Scope_def)
  show "decodeConversationResult V (ir_result q) = Inr (cv_ID canon)"
    using r(1) cid by (simp add: qe decodeConversationResult_def)
qed

section \<open>Histories\<close>

definition clocks_ok :: "time \<Rightarrow> (nat \<Rightarrow> time) \<Rightarrow> conversation_store \<Rightarrow> bool" where
  "clocks_ok t clk s \<longleftrightarrow> t \<le> clk 0 \<and> clk 0 \<le> clk 1 \<and> clk 1 \<le> clk 2 \<and> clk 2 \<le> clk 3 \<and> clk 3 \<le> clk 4 \<and>
     int64_range (clk 2 - unixEpoch) \<and> time_sub (clk 4) (clk 2) \<le> st_window (cs_idem s)"

definition id_unused :: "conversation_codec \<Rightarrow> bytes option \<Rightarrow> conv_log \<Rightarrow> bool" where
  "id_unused V rnd L \<longleftrightarrow> (\<forall>cid. NewConversationID rnd (cs_busID (el_mem L)) = Inr cid \<longrightarrow>
     cid \<notin> cv_ID ` set (conv_recs V (el_done L)))"

definition serving :: "conv_log \<Rightarrow> conv_log" where
  "serving L = upd_store (\<lambda>s. s\<lparr>cs_attached := True\<rparr>) L"

text \<open>
  The steps, each with the latest clock reading.  Clocks do not go backwards, a call takes no longer than
  the retention window, and the random part of a new identifier has not been drawn before.
\<close>

inductive conv_history ::
  "conversation_codec \<Rightarrow> hub_codec \<Rightarrow> conversation_store \<Rightarrow> conv_log \<times> time \<Rightarrow> conv_log \<times> time \<Rightarrow> bool"
  for V C m0 x0 where
  start: "conv_history V C m0 x0 x0"
| created: "\<lbrakk>conv_history V C m0 x0 (L, t); CreateIdempotent V C fate rnd clk creator name rs key L = (r, L');
     clocks_ok t clk (el_mem L); id_unused V rnd L\<rbrakk> \<Longrightarrow> conv_history V C m0 x0 (L', clk 4)"
| created_plain: "\<lbrakk>conv_history V C m0 x0 (L, t); conv_Create V C fate rnd clk creator name rs L = (q, L');
     clocks_ok t clk (el_mem L); id_unused V rnd L\<rbrakk> \<Longrightarrow> conv_history V C m0 x0 (L', clk 4)"
| other: "\<lbrakk>conv_history V C m0 x0 (L, t); event_Write (conv_Apply V C) fate now e L = (w, L');
     en_Kind e \<noteq> ConversationRecordKind; t \<le> now\<rbrakk> \<Longrightarrow> conv_history V C m0 x0 (L', now)"
| stats: "\<lbrakk>conv_history V C m0 x0 (L, t); t \<le> now\<rbrakk> \<Longrightarrow>
     conv_history V C m0 x0 (upd_store (\<lambda>s. snd (conv_Stats now s)) L, now)"
| restarted: "\<lbrakk>conv_history V C m0 x0 (L, t); length clks = length (restart_events L found); sorted (t # clks)\<rbrakk> \<Longrightarrow>
     conv_history V C m0 x0 (serving (event_Open (conv_Apply V C) m0 found clks L), last (t # clks))"

section \<open>The invariant\<close>

text \<open>An entry that may follow the committed ones: a new conversation with an acceptable record, or of another kind.\<close>

definition may_follow ::
  "conversation_codec \<Rightarrow> hub_codec \<Rightarrow> idem_store \<Rightarrow> committed list \<Rightarrow> time \<Rightarrow> commits \<Rightarrow> committed \<Rightarrow> bool" where
  "may_follow V C s0 es t cs c \<longleftrightarrow>
     (\<forall>r. rec_of V c = Some r \<longrightarrow> cv_ID r \<notin> cv_ID ` set (conv_recs V es)) \<and>
     (\<forall>q. rec_idem V C c = Some q \<longrightarrow>
        (\<exists>u sc. u \<le> t \<and> acceptable s0 (at_time u (st_window s0) (applied_all cs)) (sc, q)))"

definition conv_inv :: "conversation_codec \<Rightarrow> hub_codec \<Rightarrow> conversation_store \<Rightarrow> commits \<Rightarrow> conv_log \<times> time \<Rightarrow> bool" where
  "conv_inv V C m0 cs x \<longleftrightarrow> (case x of (L, t) \<Rightarrow>
     cs_attached (el_mem L) \<and> cs_busID (el_mem L) = cs_busID m0 \<and>
     mirrors (cs_idem m0) (cs_idem (el_mem L)) t cs \<and> admissible (cs_idem m0) [] cs \<and> list_all (\<lambda>c. fst c \<le> t) cs \<and>
     map (\<lambda>c. snd (snd c)) cs = conv_idems V C (el_done L) \<and>
     cs_records (el_mem L) = serve [] (conv_recs V (el_done L)) \<and> distinct (map cv_ID (conv_recs V (el_done L))) \<and>
     (\<forall>c. el_doubt L = Some c \<longrightarrow> \<not> el_up L \<and> may_follow V C (cs_idem m0) (el_done L) t cs c))"

definition conv_fresh :: "conversation_store \<Rightarrow> bool" where
  "conv_fresh m0 \<longleftrightarrow> fresh_table (cs_idem m0) \<and> cs_records m0 = []"

lemma conv_invI:
  assumes "cs_attached (el_mem L)" "cs_busID (el_mem L) = cs_busID m0"
    "mirrors (cs_idem m0) (cs_idem (el_mem L)) t cs" "admissible (cs_idem m0) [] cs" "list_all (\<lambda>c. fst c \<le> t) cs"
    "map (\<lambda>c. snd (snd c)) cs = conv_idems V C (el_done L)"
    "cs_records (el_mem L) = serve [] (conv_recs V (el_done L))" "distinct (map cv_ID (conv_recs V (el_done L)))"
    "\<And>c. el_doubt L = Some c \<Longrightarrow> \<not> el_up L \<and> may_follow V C (cs_idem m0) (el_done L) t cs c"
  shows "conv_inv V C m0 cs (L, t)"
  using assms by (simp add: conv_inv_def)

lemma conv_invD:
  assumes "conv_inv V C m0 cs (L, t)"
  shows "cs_attached (el_mem L)" "cs_busID (el_mem L) = cs_busID m0"
    "mirrors (cs_idem m0) (cs_idem (el_mem L)) t cs" "admissible (cs_idem m0) [] cs" "list_all (\<lambda>c. fst c \<le> t) cs"
    "map (\<lambda>c. snd (snd c)) cs = conv_idems V C (el_done L)"
    "cs_records (el_mem L) = serve [] (conv_recs V (el_done L))" "distinct (map cv_ID (conv_recs V (el_done L)))"
    "\<And>c. el_doubt L = Some c \<Longrightarrow> \<not> el_up L \<and> may_follow V C (cs_idem m0) (el_done L) t cs c"
  using assms by (auto simp: conv_inv_def)

lemma may_follow_later: "may_follow V C s0 es t cs c \<Longrightarrow> t \<le> t' \<Longrightarrow> may_follow V C s0 es t' cs c"
  unfolding may_follow_def using order_trans by blast

text \<open>Steps that only sweep the applied-key table, or poison the writer.\<close>

lemma conv_inv_sweep:
  assumes i: "conv_inv V C m0 cs (L, t)" and t: "t \<le> t'"
    and s': "s' = cs_idem (el_mem L) \<or> s' = expireLocked t' (cs_idem (el_mem L))"
  shows "conv_inv V C m0 cs (upd_store (\<lambda>s. s\<lparr>cs_idem := s'\<rparr>) L, t')"
proof -
  note D = conv_invD [OF i]
  have "mirrors (cs_idem m0) s' t' cs" using s' mirrors_later [OF D(3) t] mirrors_expire(1) [OF D(3) t] by auto
  moreover have "list_all (\<lambda>c. fst c \<le> t') cs" using D(5) t by (auto simp: list_all_iff)
  ultimately show ?thesis
    using D may_follow_later [OF _ t] by (intro conv_invI) auto
qed

lemma conv_inv_later:
  assumes "conv_inv V C m0 cs (L, t)" "t \<le> t'"
  shows "conv_inv V C m0 cs (L, t')"
  using conv_inv_sweep [OF assms, of "cs_idem (el_mem L)"] by simp

lemma conv_inv_down: "conv_inv V C m0 cs (L, t) \<Longrightarrow> conv_inv V C m0 cs (L\<lparr>el_up := False\<rparr>, t)"
  by (simp add: conv_inv_def)

lemma conv_inv_doubt:
  assumes "conv_inv V C m0 cs (L, t)" "may_follow V C (cs_idem m0) (el_done L) t cs c"
  shows "conv_inv V C m0 cs (L\<lparr>el_doubt := Some c, el_up := False\<rparr>, t)"
  using assms by (simp add: conv_inv_def)

definition with_commit :: "conversation_codec \<Rightarrow> hub_codec \<Rightarrow> committed \<Rightarrow> commits \<Rightarrow> commits \<Rightarrow> bool" where
  "with_commit V C c cs cs' \<longleftrightarrow> (case rec_idem V C c of None \<Rightarrow> cs' = cs | Some q \<Rightarrow> \<exists>u sc. cs' = cs @ [(u, sc, q)])"

text \<open>Applying an entry that may follow.\<close>

lemma apply_follows:
  assumes m: "mirrors s0 (cs_idem s) t cs" "admissible s0 [] cs" "list_all (\<lambda>c. fst c \<le> t) cs" and t: "t \<le> now"
    and f: "may_follow V C s0 es now cs c"
  shows "\<exists>cs'. with_commit V C c cs cs' \<and> mirrors s0 (cs_idem (snd (conv_Apply V C now c s))) now cs' \<and>
    admissible s0 [] cs' \<and> list_all (\<lambda>c. fst c \<le> now) cs'"
proof (cases "rec_idem V C c")
  case None
  have "cs_idem (snd (conv_Apply V C now c s)) = cs_idem s"
    using None by (simp add: conv_Apply_eq foldIn_conv_def split: option.splits)
  then show ?thesis
    using None m mirrors_later [OF m(1) t] t by (intro exI [of _ cs]) (auto simp: with_commit_def list_all_iff)
next
  case (Some q)
  obtain r where r: "rec_of V c = Some r" using rec_idem_rec_of [OF Some] by blast
  obtain u sc where u: "u \<le> now" "acceptable s0 (at_time u (st_window s0) (applied_all cs)) (sc, q)"
    using f Some by (auto simp: may_follow_def)
  obtain s' where s': "Recover now (cs_idem s) q = (Inr (), s')" "mirrors s0 s' now (cs @ [(u, sc, q)])"
    using recover_acceptable [OF m(1) t u(2,1)] by blast
  have "cs_idem (snd (conv_Apply V C now c s)) = s'" using Some r s'(1) by (simp add: conv_Apply_eq foldIn_conv_def)
  then show ?thesis
    using Some s'(2) m(2,3) u t
    by (intro exI [of _ "cs @ [(u, sc, q)]"]) (auto simp: with_commit_def admissible_append list_all_iff)
qed

lemma Apply_records:
  "cs_records (snd (conv_Apply V C now c s)) = serve (cs_records s) (conv_recs V [c])"
  "cs_busID (snd (conv_Apply V C now c s)) = cs_busID s" "cs_attached (snd (conv_Apply V C now c s)) = cs_attached s"
  by (auto simp: conv_Apply_eq foldIn_conv_def split: option.split)

lemma conv_inv_commit:
  assumes i: "conv_inv V C m0 cs (L, t)" and up: "el_up L" and t: "t \<le> now"
    and f: "may_follow V C (cs_idem m0) (el_done L) now cs c"
  shows "\<exists>cs'. with_commit V C c cs cs' \<and>
    conv_inv V C m0 cs' (L\<lparr>el_mem := snd (conv_Apply V C now c (el_mem L)), el_done := el_done L @ [c]\<rparr>, now)"
proof -
  note D = conv_invD [OF i]
  obtain cs' where cs': "with_commit V C c cs cs'"
    "mirrors (cs_idem m0) (cs_idem (snd (conv_Apply V C now c (el_mem L)))) now cs'"
    "admissible (cs_idem m0) [] cs'" "list_all (\<lambda>c. fst c \<le> now) cs'"
    using apply_follows [OF D(3-5) t f] by blast
  have "map (\<lambda>c. snd (snd c)) cs' = conv_idems V C (el_done L @ [c])"
    using cs'(1) D(6) by (auto simp: with_commit_def split: option.splits)
  moreover have "distinct (map cv_ID (conv_recs V (el_done L @ [c])))"
    using D(8) f by (auto simp: may_follow_def split: option.split)
  moreover have "el_doubt L = None" using D(9) up by (cases "el_doubt L") auto
  ultimately show ?thesis
    using cs' D(1,2,7) by (intro exI [of _ cs'] conjI conv_invI) (simp_all add: Apply_records del: conv_recs_simps(3))
qed

section \<open>The steps keep the invariant\<close>

lemma conv_write_inv:
  assumes i: "conv_inv V C m0 cs (L, t)" and t: "t \<le> now" and w: "event_Write (conv_Apply V C) fate now e L = (w, L')"
    and f: "\<And>c. cm_Entry c = e \<Longrightarrow> may_follow V C (cs_idem m0) (el_done L) now cs c"
  shows "\<exists>cs'. conv_inv V C m0 cs' (L', now) \<and>
    (\<forall>c. w = Inr c \<longrightarrow> cm_Entry c = e \<and> with_commit V C c cs cs' \<and>
       L' = L\<lparr>el_mem := snd (conv_Apply V C now c (el_mem L)), el_done := el_done L @ [c]\<rparr>)"
  using w
proof (cases rule: event_Write_cases)
  case (failed err)
  then show ?thesis using conv_inv_later [OF i t] conv_inv_down [OF conv_inv_later [OF i t]] by auto
next
  case (doubt err p c)
  then show ?thesis using conv_inv_doubt [OF conv_inv_later [OF i t] f] by (intro exI [of _ cs]) simp
next
  case (committed c m)
  obtain cs' where "with_commit V C c cs cs'"
    "conv_inv V C m0 cs' (L\<lparr>el_mem := snd (conv_Apply V C now c (el_mem L)), el_done := el_done L @ [c]\<rparr>, now)"
    using conv_inv_commit [OF i committed(1) t f [OF committed(3)]] by blast
  then show ?thesis using committed by (intro exI [of _ cs']) simp
next
  case (diverged c m)
  then show ?thesis by (simp add: conv_Apply_eq)
qed

lemma replay_conv:
  assumes "mirrors s0 (cs_idem m) t old" "admissible s0 old cs" "list_all (\<lambda>c. fst c \<le> t) cs"
    "map (\<lambda>c. snd (snd c)) cs = conv_idems V C es" "length clks = length es" "sorted (t # clks)"
  shows "mirrors s0 (cs_idem (replay_events (conv_Apply V C) m (zip clks es))) (last (t # clks)) (old @ cs) \<and>
    cs_records (replay_events (conv_Apply V C) m (zip clks es)) = serve (cs_records m) (conv_recs V es) \<and>
    cs_busID (replay_events (conv_Apply V C) m (zip clks es)) = cs_busID m"
  using assms
proof (induction es arbitrary: m t old cs clks)
  case Nil
  then show ?case by simp
next
  case (Cons c es)
  obtain t' ts where k: "clks = t' # ts" using Cons.prems(5) by (cases clks) auto
  let ?m = "snd (conv_Apply V C t' c m)"
  have t: "t \<le> t'" using Cons.prems(6) k by simp
  have le: "list_all (\<lambda>c. fst c \<le> t') cs" using Cons.prems(3) t by (auto simp: list_all_iff)
  have rest: "length ts = length es" "sorted (t' # ts)" "last (t # clks) = last (t' # ts)" using Cons.prems(5,6) k by simp_all
  have "\<exists>new cs'. cs = new @ cs' \<and> mirrors s0 (cs_idem ?m) t' (old @ new) \<and> map (\<lambda>c. snd (snd c)) cs' = conv_idems V C es"
  proof (cases "rec_idem V C c")
    case None
    then have "cs_idem ?m = cs_idem m" by (simp add: conv_Apply_eq foldIn_conv_def split: option.splits)
    then show ?thesis
      using None Cons.prems(4) mirrors_later [OF Cons.prems(1) t] by (intro exI [of _ "[]"] exI [of _ cs]) simp
  next
    case (Some q)
    obtain r where r: "rec_of V c = Some r" using rec_idem_rec_of [OF Some] by blast
    obtain u sc cs' where cs: "cs = (u, sc, q) # cs'" "map (\<lambda>c. snd (snd c)) cs' = conv_idems V C es"
      using Cons.prems(4) Some by (cases cs) auto
    have "acceptable s0 (at_time u (st_window s0) (applied_all old)) (sc, q)" "u \<le> t'"
      using Cons.prems(2) le cs(1) by simp_all
    then obtain s' where "Recover t' (cs_idem m) q = (Inr (), s')" "mirrors s0 s' t' (old @ [(u, sc, q)])"
      using recover_acceptable [OF Cons.prems(1) t] by blast
    then show ?thesis
      using Some r cs by (intro exI [of _ "[(u, sc, q)]"] exI [of _ cs']) (simp add: conv_Apply_eq foldIn_conv_def)
  qed
  then obtain new cs' where n: "cs = new @ cs'" "mirrors s0 (cs_idem ?m) t' (old @ new)"
    "map (\<lambda>c. snd (snd c)) cs' = conv_idems V C es" by blast
  have "admissible s0 (old @ new) cs'" "list_all (\<lambda>c. fst c \<le> t') cs'"
    using Cons.prems(2) le n(1) by (simp_all add: admissible_append)
  from Cons.IH [OF n(2) this n(3) rest(1,2)] show ?case
    using n(1) rest(3) k by (auto simp: Apply_records split: option.splits)
qed

lemma restart_inv:
  assumes fr: "conv_fresh m0" and i: "conv_inv V C m0 cs (L, t)"
    and l: "length clks = length (restart_events L found)" "sorted (t # clks)"
  shows "\<exists>cs'. conv_inv V C m0 cs' (serving (event_Open (conv_Apply V C) m0 found clks L), last (t # clks))"
proof -
  note D = conv_invD [OF i]
  let ?es = "restart_events L found" and ?s0 = "cs_idem m0"
  obtain cs' where cs': "admissible ?s0 [] cs'" "list_all (\<lambda>c. fst c \<le> t) cs'"
    "map (\<lambda>c. snd (snd c)) cs' = conv_idems V C ?es" "distinct (map cv_ID (conv_recs V ?es))"
  proof (cases "restart_events L found = el_done L")
    case True
    then show ?thesis using that [of cs] D by simp
  next
    case False
    then obtain c where c: "el_doubt L = Some c" "?es = el_done L @ [c]" by (auto simp: restart_events_def split: option.splits if_splits)
    then have f: "may_follow V C ?s0 (el_done L) t cs c" using D(9) by simp
    obtain cs' where "with_commit V C c cs cs'" "admissible ?s0 [] cs'" "list_all (\<lambda>c. fst c \<le> t) cs'"
      using apply_follows [OF D(3-5) order_refl f] by blast
    moreover have "distinct (map cv_ID (conv_recs V ?es))" using D(8) f c(2) by (auto simp: may_follow_def split: option.split)
    ultimately show ?thesis using that [of cs'] D(6) c(2) by (auto simp: with_commit_def split: option.splits)
  qed
  have m0: "mirrors ?s0 (cs_idem m0) t []" "cs_records m0 = []" using fr fresh_mirrors by (auto simp: conv_fresh_def)
  have "t \<le> last (t # clks)" using l(2) by (cases "clks = []") simp_all
  then have le: "list_all (\<lambda>c. fst c \<le> last (t # clks)) cs'" using cs'(2) by (auto simp: list_all_iff)
  note R = replay_conv [OF m0(1) cs'(1,2,3) l]
  show ?thesis
    by (intro exI [of _ cs'] conv_invI) (use R cs' le m0(2) in \<open>simp_all add: serving_def event_Open_def\<close>)
qed

text \<open>A record looked up as new and admitted is acceptable.\<close>

lemma admitted_acceptable:
  assumes m: "mirrors s0 s t cs" and t: "t \<le> t1" "t1 \<le> t2"
    and l: "Lookup t1 s sc fp = ((p, OutcomeNew), s1)" and a: "Admit t2 s1 sc = (Inr (), s2)"
    and q: "record_Scope q = Inr sc" "record_validate q = Inr ()"
  shows "acceptable s0 (at_time t2 (st_window s0) (applied_all cs)) (sc, q)"
proof -
  have s1: "s1 = expireLocked t1 s" "map_of (st_records (expireLocked t1 s)) sc = None"
    using l by (auto simp: Lookup_def Let_def split: option.splits if_splits)
  have m1: "mirrors s0 s1 t1 cs" using mirrors_expire(1) [OF m t(1)] s1(1) by simp
  have A: "is_ok (bucket s1 sc)" "\<not> st_maxEntries (expireLocked t2 s1) \<le> int (length (st_records (expireLocked t2 s1)))"
    using a by (auto simp: Admit_def Let_def split: sum.splits if_splits)
  have "sc \<notin> fst ` set (at_time t1 (st_window s0) (applied_all cs))"
    using s1(2) mirrors_lookup [OF m t(1), of sc] by (simp add: map_of_eq_None_iff)
  then have "sc \<notin> fst ` set (at_time t2 (st_window s0) (applied_all cs))" using set_at_time [OF t(2)] by blast
  moreover have "length (st_records (expireLocked t2 s1)) = length (at_time t2 (st_window s0) (applied_all cs))"
    using length_queue [of "expireLocked t2 s1"] mirrors_expire [OF m1 t(2)] by (simp add: mirrors_def)
  moreover have "st_maxEntries (expireLocked t2 s1) = st_maxEntries s0" using mirrors_expire(1) [OF m1 t(2)] by (simp add: mirrors_def)
  moreover have "bucket s1 sc = bucket s0 sc" using m1 by (intro bucket_cong) (simp add: mirrors_def)
  ultimately show ?thesis using A q by (simp add: acceptable_def)
qed

section \<open>Creation\<close>

lemma in_at_time: "x \<in> set q \<Longrightarrow> \<not> stale now w x \<Longrightarrow> x \<in> set (at_time now w q)"
  unfolding at_time_def by (induction q) auto

lemma mirrors_finds:
  assumes m: "mirrors s0 s t cs" and t: "t \<le> now" and x: "(u, sc, q) \<in> set cs"
    and fresh: "time_sub now (ir_committedAt q) \<le> st_window s0"
  shows "map_of (st_records (expireLocked now s)) sc = Some q"
proof -
  have "(sc, q) \<in> set (applied_all cs)" using x by (force simp: applied_all_def)
  then have "(sc, q) \<in> set (queue (expireLocked now s))"
    using in_at_time fresh mirrors_expire(2) [OF m t] by (simp add: stale_def)
  moreover have i: "idem_inv (expireLocked now s)" using mirrors_expire(1) [OF m t] by (simp add: mirrors_def)
  then have "distinct (map fst (queue (expireLocked now s)))" by (simp add: queue_keys idem_inv_def table_ok_def)
  ultimately show ?thesis using queue_records [OF i, of sc] by (simp add: map_of_eq_Some_iff)
qed

lemma update_same: "map_of al k = Some v \<Longrightarrow> AList.update k v al = al"
  by (induction al) (auto split: if_splits)

text \<open>What a committed creation has put into the log.\<close>

definition logged :: "conversation_codec \<Rightarrow> hub_codec \<Rightarrow> string \<Rightarrow> bytes \<Rightarrow> conversation \<Rightarrow> committed list \<Rightarrow> bool" where
  "logged V C key fp rec es \<longleftrightarrow>
     (\<exists>c\<in>set es. \<exists>q. rec_of V c = Some rec \<and> rec_idem V C c = Some q \<and> ir_fingerprint q = fp \<and>
        ir_committedAt q = cv_CreatedAt rec \<and> decodeConversationResult V (ir_result q) = Inr (cv_ID rec) \<and>
        record_Scope q = NewAgentScope (cv_Creator rec) OpConversationCreate key)"

definition created_as :: "string \<Rightarrow> string \<Rightarrow> string list \<Rightarrow> time \<Rightarrow> conversation \<Rightarrow> bool" where
  "created_as creator name rs now rec \<longleftrightarrow>
     cv_Creator rec = creator \<and> cv_Name rec = name \<and> cv_Recipients rec = rs \<and> cv_CreatedAt rec = now"

lemma admissible_mem:
  "admissible s0 old cs \<Longrightarrow> (u, sc, q) \<in> set cs \<Longrightarrow>
     record_Scope q = Inr sc \<and> record_validate q = Inr () \<and> is_ok (bucket s0 sc)"
  by (induction s0 old cs rule: admissible.induct) (auto simp: acceptable_def)

text \<open>After the commit, folding the record in again changes nothing, and \<^verbatim>\<open>Remember\<close> finds the record there.\<close>

lemma commit_settles:
  assumes i: "conv_inv V C m0 cs (L, t)" and q: "(u, sc, q) \<in> set cs" and t: "t \<le> t'"
    and w: "time_sub t' (ir_committedAt q) \<le> st_window (cs_idem m0)" and r: "canon \<in> set (conv_recs V (el_done L))"
  shows "foldIn_conv canon (el_mem L) = el_mem L"
    "Remember t' (cs_idem (el_mem L)) q = (Inr (), expireLocked t' (cs_idem (el_mem L)))"
proof -
  note D = conv_invD [OF i]
  have "map_of (cs_records (el_mem L)) (cv_ID canon) = Some canon" using served [OF D(8) r] D(7) by simp
  then show "foldIn_conv canon (el_mem L) = el_mem L" by (simp add: foldIn_conv_def update_same)
  have "map_of (st_records (expireLocked t' (cs_idem (el_mem L)))) sc = Some q"
    using mirrors_finds [OF D(3) t q] w by simp
  moreover have "is_ok (bucket (cs_idem (el_mem L)) sc)" "record_Scope q = Inr sc" "record_validate q = Inr ()"
    using admissible_mem [OF D(4) q] bucket_cong [of "cs_idem (el_mem L)" "cs_idem m0" sc] D(3) by (auto simp: mirrors_def)
  ultimately show "Remember t' (cs_idem (el_mem L)) q = (Inr (), expireLocked t' (cs_idem (el_mem L)))"
    by (auto simp: Remember_def remember_def Let_def is_ok_iff)
qed

text \<open>The checks before the write, and what they prepare.\<close>

definition prepared ::
  "conversation_codec \<Rightarrow> hub_codec \<Rightarrow> bytes option \<Rightarrow> time \<Rightarrow> string \<Rightarrow> string \<Rightarrow> string list \<Rightarrow> string \<Rightarrow> conv_log \<Rightarrow>
     conversation \<Rightarrow> bytes \<Rightarrow> idem_record \<Rightarrow> bytes \<Rightarrow> bool" where
  "prepared V C rnd now creator name rs key L canon body q b \<longleftrightarrow>
     NewConversationID rnd (cs_busID (el_mem L)) = Inr (cv_ID canon) \<and> created_as creator name rs now canon \<and>
     conv_validate canon = Inr () \<and> DecodeConversationRecord V body = Inr canon \<and>
     create_record V C creator key canon (conversationCreateFingerprint creator name rs) = Inr (q, b)"

lemma create_new_cases:
  assumes C: "conv_codec_ok V C" and t: "int64_range (clk 2 - unixEpoch)"
    and n: "create_new V C fate rnd clk creator name rs key L = (r, L')"
  obtains
    (refused) e where "r = Inl e" "L' = L"
  | (unwritten) canon body q b e where "prepared V C rnd (clk 2) creator name rs key L canon body q b"
      "event_Write (conv_Apply V C) fate (clk 3)
         \<lparr>en_Kind = ConversationRecordKind, en_Body = Some body, en_Idem = Some b, en_Audit = None\<rparr> L = (Inl e, L')"
      "r = Inl (ConvLog e)"
  | (wrote) canon body q b c L1 x t where "prepared V C rnd (clk 2) creator name rs key L canon body q b"
      "event_Write (conv_Apply V C) fate (clk 3)
         \<lparr>en_Kind = ConversationRecordKind, en_Body = Some body, en_Idem = Some b, en_Audit = None\<rparr> L = (Inr c, L1)"
      "Remember (clk 4) (cs_idem (foldIn_conv canon (el_mem L1))) q = (x, t)"
      "r = (case x of Inl e \<Rightarrow> Inl (ConvIdem e) | Inr _ \<Rightarrow> Inr (canon, False))"
      "L' = L1\<lparr>el_mem := (foldIn_conv canon (el_mem L1))\<lparr>cs_idem := t\<rparr>\<rparr>"
proof (cases "\<exists>cid canon body q b. NewConversationID rnd (cs_busID (el_mem L)) = Inr cid \<and>
    canonicalConversation V \<lparr>cv_ID = cid, cv_Creator = creator, cv_Name = name, cv_Recipients = rs, cv_CreatedAt = clk 2\<rparr> = Inr (canon, body) \<and>
    \<not> MaxConversations \<le> length (cs_records (el_mem L)) \<and>
    create_record V C creator key canon (conversationCreateFingerprint creator name rs) = Inr (q, b)")
  case False
  then have "\<exists>e. (r, L') = (Inl e, L)" using n by (fastforce simp: create_new_def split: sum.splits prod.splits if_splits)
  then show ?thesis using refused by blast
next
  case True
  then obtain cid canon body q b where a: "NewConversationID rnd (cs_busID (el_mem L)) = Inr cid"
    "canonicalConversation V \<lparr>cv_ID = cid, cv_Creator = creator, cv_Name = name, cv_Recipients = rs, cv_CreatedAt = clk 2\<rparr> = Inr (canon, body)"
    "\<not> MaxConversations \<le> length (cs_records (el_mem L))"
    "create_record V C creator key canon (conversationCreateFingerprint creator name rs) = Inr (q, b)" by blast
  have p: "prepared V C rnd (clk 2) creator name rs key L canon body q b"
    using canonical_conversation [OF C _ a(2)] int64_rfc3339 [OF t] a(1,4) by (auto simp: prepared_def created_as_def)
  let ?w = "event_Write (conv_Apply V C) fate (clk 3)
         \<lparr>en_Kind = ConversationRecordKind, en_Body = Some body, en_Idem = Some b, en_Audit = None\<rparr> L"
  obtain w L1 where w: "?w = (w, L1)" by fastforce
  show ?thesis
  proof (cases w)
    case (Inl e)
    then show ?thesis using unwritten [OF p, of e] n a w by (simp add: create_new_def)
  next
    case (Inr c)
    obtain x t where "Remember (clk 4) (cs_idem (foldIn_conv canon (el_mem L1))) q = (x, t)" by fastforce
    then show ?thesis using wrote [OF p, of c L1 x t] n a w Inr by (simp add: create_new_def Let_def split: sum.splits)
  qed
qed

text \<open>The prepared entry may follow, once the key has been looked up and admitted.\<close>

definition admitted_at :: "idem_store \<Rightarrow> time \<Rightarrow> commits \<Rightarrow> idem_scope \<Rightarrow> bool" where
  "admitted_at s0 u cs sc \<longleftrightarrow> (\<forall>q. record_Scope q = Inr sc \<longrightarrow> record_validate q = Inr () \<longrightarrow>
     acceptable s0 (at_time u (st_window s0) (applied_all cs)) (sc, q))"

lemma prepared_entry:
  assumes C: "conv_codec_ok V C" and p: "prepared V C rnd now creator name rs key L canon body q b"
    and t: "int64_range (now - unixEpoch)" and un: "id_unused V rnd L"
    and sc: "NewAgentScope creator OpConversationCreate key = Inr sc" and acc: "admitted_at s0 u cs sc" and u: "u \<le> t'"
    and c: "cm_Entry c = \<lparr>en_Kind = ConversationRecordKind, en_Body = Some body, en_Idem = Some b, en_Audit = None\<rparr>"
  shows "may_follow V C s0 (el_done L) t' cs c" "rec_of V c = Some canon" "rec_idem V C c = Some q" "ir_committedAt q = now"
    "c \<in> set es \<Longrightarrow> logged V C key (conversationCreateFingerprint creator name rs) canon es"
proof -
  let ?fp = "conversationCreateFingerprint creator name rs"
  have P: "NewConversationID rnd (cs_busID (el_mem L)) = Inr (cv_ID canon)" "cv_Creator canon = creator" "cv_CreatedAt canon = now"
    "conv_validate canon = Inr ()" "DecodeConversationRecord V body = Inr canon"
    "create_record V C creator key canon ?fp = Inr (q, b)"
    using p by (simp_all add: prepared_def created_as_def)
  have fpl: "length ?fp = FingerprintSize" by (simp add: conversationCreateFingerprint_def ComputeFingerprint_def FingerprintSize_def)
  note q = created_record [OF C P(4) _ _ fpl, unfolded P(2,3), OF t P(6)]
  show e: "rec_of V c = Some canon" "rec_idem V C c = Some q" "ir_committedAt q = now"
    using c P(5) q(1,2,6) by (simp_all add: rec_of_def rec_idem_def body_of_def idem_of_entry_def)
  have "acceptable s0 (at_time u (st_window s0) (applied_all cs)) (sc, q)" using acc q(3,4) sc by (simp add: admitted_at_def)
  then show "may_follow V C s0 (el_done L) t' cs c"
    unfolding may_follow_def e using un P(1) u by (auto simp: id_unused_def intro!: exI [of _ u])
  show "logged V C key ?fp canon es" if "c \<in> set es"
    unfolding logged_def using e that q P by (intro bexI [of _ c] exI [of _ q]) simp_all
qed

lemma create_new_inv:
  assumes C: "conv_codec_ok V C" and i: "conv_inv V C m0 cs (L, t)" and t: "t \<le> clk 1" and clk: "clocks_ok t' clk (el_mem L)"
    and un: "id_unused V rnd L" and sc: "NewAgentScope creator OpConversationCreate key = Inr sc"
    and acc: "admitted_at (cs_idem m0) (clk 1) cs sc" and n: "create_new V C fate rnd clk creator name rs key L = (r, L')"
  shows "\<exists>cs'. conv_inv V C m0 cs' (L', clk 4) \<and> (\<forall>e. r = Inr e \<longrightarrow> \<not> snd e \<and> created_as creator name rs (clk 2) (fst e) \<and>
    logged V C key (conversationCreateFingerprint creator name rs) (fst e) (el_done L'))"
proof -
  have k: "clk 1 \<le> clk 3" "clk 3 \<le> clk 4" "int64_range (clk 2 - unixEpoch)" "t \<le> clk 3" "t \<le> clk 4"
    "time_sub (clk 4) (clk 2) \<le> st_window (cs_idem m0)"
    using clk t conv_invD(3) [OF i] by (simp_all add: clocks_ok_def mirrors_def)
  show ?thesis using C k(3) n
  proof (cases rule: create_new_cases)
    case (refused e)
    then show ?thesis using conv_inv_later [OF i k(5)] by blast
  next
    case (unwritten canon body q b e)
    then show ?thesis
      using conv_write_inv [OF i k(4) unwritten(2) prepared_entry(1) [OF C unwritten(1) k(3) un sc acc k(1)]]
        conv_inv_later [OF _ k(2)] by blast
  next
    case (wrote canon body q b c L1 x tt)
    note E = prepared_entry [OF C wrote(1) k(3) un sc acc k(1)]
    obtain cs' where cs': "conv_inv V C m0 cs' (L1, clk 3)" "cm_Entry c =
        \<lparr>en_Kind = ConversationRecordKind, en_Body = Some body, en_Idem = Some b, en_Audit = None\<rparr>"
      "with_commit V C c cs cs'" "c \<in> set (el_done L1)"
      using conv_write_inv [OF i k(4) wrote(2) E(1)] by auto
    obtain u sc' where "cs' = cs @ [(u, sc', q)]" using cs'(3) E(3) [OF cs'(2)] by (auto simp: with_commit_def)
    then have mem: "(u, sc', q) \<in> set cs'" by simp
    have "canon \<in> set (conv_recs V (el_done L1))"
      using cs'(4) E(2) [OF cs'(2)] by (auto simp: conv_recs_def map_filter_def intro!: image_eqI [of _ _ c])
    note S = commit_settles [OF cs'(1) mem k(2) _ this]
    have s: "foldIn_conv canon (el_mem L1) = el_mem L1" "x = Inr ()" "tt = expireLocked (clk 4) (cs_idem (el_mem L1))"
      using S wrote(3) E(4) [OF cs'(2)] k(6) by simp_all
    have "logged V C key (conversationCreateFingerprint creator name rs) canon (el_done L')"
      using E(5) [OF cs'(2,4)] wrote(5) by simp
    then show ?thesis
      using wrote(1,4,5) s conv_inv_sweep [OF cs'(1) k(2), of tt] by (intro exI [of _ cs']) (simp add: prepared_def)
  qed
qed

lemma CreateIdempotent_cases:
  assumes "CreateIdempotent V C fate rnd clk creator name rs key L = (r, L')" and at: "cs_attached (el_mem L)"
  defines "s \<equiv> cs_idem (el_mem L)" and "fp \<equiv> conversationCreateFingerprint creator name rs"
  obtains
    (bad_key) e where "NewAgentScope creator OpConversationCreate key = Inl e" "r = Inl (ConvIdem e)" "L' = L"
  | (known) sc q where "NewAgentScope creator OpConversationCreate key = Inr sc"
      "map_of (st_records (expireLocked (clk 0) s)) sc = Some q"
      "L' = upd_store (\<lambda>s. s\<lparr>cs_idem := expireLocked (clk 0) (cs_idem s)\<rparr>) L"
      "r = (if ir_fingerprint q \<noteq> fp then Inl ErrConversationKeyReused
            else case decodeConversationResult V (ir_result q) of
              Inl e \<Rightarrow> Inl e
            | Inr cid \<Rightarrow> (case conv_Get cid (el_mem L) of None \<Rightarrow> Inl ConvNotServed | Some rec \<Rightarrow> Inr (rec, True)))"
  | (full) sc e t1 where "NewAgentScope creator OpConversationCreate key = Inr sc"
      "Admit (clk 1) (expireLocked (clk 0) s) sc = (Inl e, t1)" "r = Inl (ConvIdem e)"
      "L' = upd_store (\<lambda>s. s\<lparr>cs_idem := t1\<rparr>) L"
  | (new) sc t1 where "NewAgentScope creator OpConversationCreate key = Inr sc"
      "Lookup (clk 0) s sc fp = ((None, OutcomeNew), expireLocked (clk 0) s)"
      "Admit (clk 1) (expireLocked (clk 0) s) sc = (Inr (), t1)"
      "create_new V C fate rnd clk creator name rs key (upd_store (\<lambda>s. s\<lparr>cs_idem := t1\<rparr>) L) = (r, L')"
proof (cases "NewAgentScope creator OpConversationCreate key")
  case (Inl e)
  then show ?thesis using assms(1) bad_key by (simp add: CreateIdempotent_def)
next
  case (Inr sc)
  note A = assms(1) [unfolded CreateIdempotent_def Inr]
  let ?t = "expireLocked (clk 0) s"
  show ?thesis
  proof (cases "map_of (st_records ?t) sc")
    case None
    then have l: "Lookup (clk 0) s sc fp = ((None, OutcomeNew), ?t)" by (simp add: Lookup_def Let_def)
    obtain x t1 where a: "Admit (clk 1) ?t sc = (x, t1)" by fastforce
    show ?thesis
    proof (cases x)
      case (Inl e)
      show ?thesis by (rule full [OF Inr, of e t1]) (use A at l a Inl in \<open>simp_all add: s_def fp_def Let_def\<close>)
    next
      case (Inr u)
      show ?thesis
        by (rule new [OF \<open>NewAgentScope creator OpConversationCreate key = Inr sc\<close> l, of t1])
          (use A at l a Inr in \<open>simp_all add: s_def fp_def Let_def\<close>)
    qed
  next
    case (Some q)
    then have l: "Lookup (clk 0) s sc fp = ((Some q, if ir_fingerprint q \<noteq> fp then OutcomeViolation else OutcomeRetry), ?t)"
      by (simp add: Lookup_def Let_def)
    show ?thesis
      by (rule known [OF Inr Some])
        (use A at l in \<open>auto simp: s_def fp_def Let_def conv_Get_def split: sum.splits option.splits if_splits\<close>)
  qed
qed

lemma CreateIdempotent_inv:
  assumes C: "conv_codec_ok V C" and i: "conv_inv V C m0 cs (L, t)" and clk: "clocks_ok t clk (el_mem L)"
    and un: "id_unused V rnd L" and n: "CreateIdempotent V C fate rnd clk creator name rs key L = (r, L')"
  shows "\<exists>cs'. conv_inv V C m0 cs' (L', clk 4) \<and> (\<forall>rec. r = Inr (rec, False) \<longrightarrow> created_as creator name rs (clk 2) rec \<and>
    logged V C key (conversationCreateFingerprint creator name rs) rec (el_done L'))"
proof -
  have k: "t \<le> clk 0" "clk 0 \<le> clk 1" "clk 0 \<le> clk 4" "clk 1 \<le> clk 4" "t \<le> clk 4" using clk by (simp_all add: clocks_ok_def)
  note D = conv_invD [OF i]
  show ?thesis using n D(1)
  proof (cases rule: CreateIdempotent_cases)
    case (bad_key e)
    then show ?thesis using conv_inv_later [OF i k(5)] by blast
  next
    case (known sc q)
    then show ?thesis
      using conv_inv_later [OF conv_inv_sweep [OF i k(1)] k(3)]
      by (intro exI [of _ cs]) (auto split: if_splits sum.splits option.splits)
  next
    case (full sc e t1)
    have "t1 = expireLocked (clk 0) (cs_idem (el_mem L)) \<or> t1 = expireLocked (clk 1) (expireLocked (clk 0) (cs_idem (el_mem L)))"
      using full(2) by (auto simp: Admit_def Let_def split: sum.splits if_splits)
    then have "conv_inv V C m0 cs (L', clk 1)"
      using conv_inv_sweep [OF conv_inv_sweep [OF i k(1), of "expireLocked (clk 0) (cs_idem (el_mem L))"] k(2), of t1] full(4) by simp
    then show ?thesis using conv_inv_later [OF _ k(4)] full(3) by blast
  next
    case (new sc t1)
    have t1: "t1 = expireLocked (clk 1) (expireLocked (clk 0) (cs_idem (el_mem L)))"
      using new(3) by (auto simp: Admit_def Let_def split: sum.splits if_splits)
    let ?L = "upd_store (\<lambda>s. s\<lparr>cs_idem := t1\<rparr>) L"
    have i1: "conv_inv V C m0 cs (?L, clk 1)"
      using conv_inv_sweep [OF conv_inv_sweep [OF i k(1), of "expireLocked (clk 0) (cs_idem (el_mem L))"] k(2), of t1] t1 by simp
    have "admitted_at (cs_idem m0) (clk 1) cs sc"
      using admitted_acceptable [OF D(3) k(1,2) new(2,3)] by (simp add: admitted_at_def)
    moreover have "clocks_ok t clk (el_mem ?L)" "id_unused V rnd ?L"
      using clk un conv_invD(3) [OF i1] D(3) by (simp_all add: clocks_ok_def id_unused_def mirrors_def)
    ultimately show ?thesis using create_new_inv [OF C i1 order_refl _ _ new(1) _ new(4)] by fastforce
  qed
qed

lemma conv_Create_inv:
  assumes C: "conv_codec_ok V C" and i: "conv_inv V C m0 cs (L, t)" and clk: "clocks_ok t clk (el_mem L)"
    and un: "id_unused V rnd L" and n: "conv_Create V C fate rnd clk creator name rs L = (r, L')"
  shows "\<exists>cs'. conv_inv V C m0 cs' (L', clk 4)"
proof -
  have k: "t \<le> clk 3" "clk 3 \<le> clk 4" "t \<le> clk 4" "int64_range (clk 2 - unixEpoch)" using clk by (simp_all add: clocks_ok_def)
  show ?thesis
  proof (cases "L' = L")
    case True
    then show ?thesis using conv_inv_later [OF i k(3)] by blast
  next
    case False
    then obtain cid canon body where a: "NewConversationID rnd (cs_busID (el_mem L)) = Inr cid"
      "canonicalConversation V \<lparr>cv_ID = cid, cv_Creator = creator, cv_Name = name, cv_Recipients = rs, cv_CreatedAt = clk 2\<rparr> = Inr (canon, body)"
      using n by (auto simp: conv_Create_def split: if_splits sum.splits prod.splits)
    let ?e = "\<lparr>en_Kind = ConversationRecordKind, en_Body = Some body, en_Idem = None, en_Audit = None\<rparr>"
    have canon: "cv_ID canon = cid" "DecodeConversationRecord V body = Inr canon"
      using canonical_conversation [OF C _ a(2)] int64_rfc3339 [OF k(4)] by auto
    have e: "rec_of V c = Some canon" "rec_idem V C c = None" if "cm_Entry c = ?e" for c
      using that canon(2) by (simp_all add: rec_of_def rec_idem_def body_of_def idem_of_entry_def)
    have f: "may_follow V C (cs_idem m0) (el_done L) (clk 3) cs c" if "cm_Entry c = ?e" for c
      unfolding may_follow_def e [OF that] using un a(1) canon(1) by (auto simp: id_unused_def)
    obtain w L1 where w: "event_Write (conv_Apply V C) fate (clk 3) ?e L = (w, L1)" by fastforce
    obtain cs' where cs': "conv_inv V C m0 cs' (L1, clk 3)" "\<And>c. w = Inr c \<Longrightarrow> cm_Entry c = ?e \<and> c \<in> set (el_done L1)"
      using conv_write_inv [OF i k(1) w f] by auto
    have "L' = L1 \<or> (\<exists>c. w = Inr c) \<and> L' = upd_store (foldIn_conv canon) L1"
      using n a False w by (auto simp: conv_Create_def split: if_splits sum.splits)
    moreover have "foldIn_conv canon (el_mem L1) = el_mem L1" if c: "w = Inr c" for c
    proof -
      note D = conv_invD [OF cs'(1)]
      have "canon \<in> set (conv_recs V (el_done L1))"
        using cs'(2) [OF c] e(1) by (force simp: conv_recs_def map_filter_def)
      then have "map_of (cs_records (el_mem L1)) (cv_ID canon) = Some canon" using served [OF D(8)] D(7) by simp
      then show ?thesis by (simp add: foldIn_conv_def update_same)
    qed
    ultimately have "L' = L1" by auto
    then show ?thesis using conv_inv_later [OF cs'(1) k(2)] by blast
  qed
qed

lemma other_may_follow: "en_Kind (cm_Entry c) \<noteq> ConversationRecordKind \<Longrightarrow> may_follow V C s0 es t cs c"
  by (simp add: may_follow_def rec_idem_def rec_of_def)

lemma conv_history_inv:
  assumes C: "conv_codec_ok V C" and fr: "conv_fresh m0" and h: "conv_history V C m0 x0 x" and i: "conv_inv V C m0 cs0 x0"
  shows "\<exists>cs. conv_inv V C m0 cs x"
  using h
proof induction
  case start
  then show ?case using i by blast
next
  case (created L t fate rnd clk creator name rs key r L')
  then show ?case using CreateIdempotent_inv [OF C _ created(3,4,2)] by blast
next
  case (created_plain L t fate rnd clk creator name rs q L')
  then show ?case using conv_Create_inv [OF C _ created_plain(3,4,2)] by blast
next
  case (other L t fate now e w L')
  then show ?case using conv_write_inv [OF _ other(4,2) other_may_follow] by fastforce
next
  case (stats L t now)
  then obtain cs where "conv_inv V C m0 cs (L, t)" by blast
  from conv_inv_sweep [OF this stats(2), of "expireLocked now (cs_idem (el_mem L))"] show ?case
    by (auto simp: conv_Stats_def Stats_def Let_def)
next
  case (restarted L t clks found)
  then show ?case using restart_inv [OF fr _ restarted(2,3)] by blast
qed

lemma conv_fresh_inv:
  assumes "conv_fresh m0"
  shows "conv_inv V C m0 [] (serving (empty_log m0), t)"
  using assms fresh_mirrors by (intro conv_invI) (auto simp: serving_def empty_log_def conv_fresh_def)

text \<open>The log only grows.\<close>

lemma event_Write_done:
  "event_Write ap fate now e L = (w, L') \<Longrightarrow> set (el_done L) \<subseteq> set (el_done L')"
  by (erule event_Write_cases) auto

lemma create_new_done: "create_new V C fate rnd clk creator name rs key L = (r, L') \<Longrightarrow> set (el_done L) \<subseteq> set (el_done L')"
  using event_Write_done by (fastforce simp: create_new_def Let_def split: sum.splits prod.splits if_splits)

lemma CreateIdempotent_done:
  "CreateIdempotent V C fate rnd clk creator name rs key L = (r, L') \<Longrightarrow> set (el_done L) \<subseteq> set (el_done L')"
  by (auto simp: CreateIdempotent_def Let_def split: sum.splits prod.splits if_splits idem_outcome.splits option.splits
      dest!: create_new_done)

lemma conv_Create_done: "conv_Create V C fate rnd clk creator name rs L = (r, L') \<Longrightarrow> set (el_done L) \<subseteq> set (el_done L')"
  using event_Write_done by (fastforce simp: conv_Create_def split: sum.splits prod.splits if_splits)

lemma conv_history_done:
  assumes "conv_history V C m0 x0 x"
  shows "set (el_done (fst x0)) \<subseteq> set (el_done (fst x))"
  using assms
proof induction
  case (restarted L t clks found)
  then show ?case by (auto simp: serving_def event_Open_def restart_events_def)
qed (auto dest!: CreateIdempotent_done conv_Create_done event_Write_done)

section \<open>Properties\<close>


section \<open>A concrete creation\<close>

definition demo_conv :: conversation where
  "demo_conv = \<lparr>cv_ID = ''b1.00000000-0000-4000-8000-000000000000'', cv_Creator = ''b1.amy-1'', cv_Name = ''plan'',
     cv_Recipients = [''b2.bob-1''], cv_CreatedAt = demo_now\<rparr>"

definition demo_conv_idem :: idem_record where
  "demo_conv_idem = \<lparr>ir_agent = ''b1.amy-1'', ir_enrolBusWide = False, ir_op = OpConversationCreate, ir_key = ''k1'',
     ir_fingerprint = conversationCreateFingerprint ''b1.amy-1'' ''plan'' [''b2.bob-1''], ir_result = ''2'', ir_seq = 0,
     ir_committedAt = demo_now\<rparr>"

definition demo_conv_codec :: conversation_codec where
  "demo_conv_codec = \<lparr>vc_record = only (conv_to_json demo_conv) ''1'', un_record = unonly (conv_to_json demo_conv) ''1'',
     vc_result = only (cv_ID demo_conv) ''2'', un_cresult = unonly (cv_ID demo_conv) ''2''\<rparr>"

definition demo_conv_hub :: hub_codec where
  "demo_conv_hub = demo_pub_codec\<lparr>hc_idem := only demo_conv_idem ''3'', un_idem := unonly demo_conv_idem ''3''\<rparr>"

definition demo_conv_store :: conversation_store where
  "demo_conv_store = \<lparr>cs_busID = ''b1'', cs_attached = False, cs_records = [], cs_idem = (NewStore 0 0)\<lparr>st_localBusID := ''b1''\<rparr>\<rparr>"

definition demo_random :: "bytes option" where "demo_random = Some (replicate 16 (CHR 0x00))"

lemma demo_conv_bus: "ValidateBusID ''b1'' = Inr ()"
  by code_simp

lemma demo_conv_store_new: "NewConversationStore ''b1'' = Inr demo_conv_store"
  by (simp add: NewConversationStore_def demo_conv_store_def NewStoreForBus_def demo_conv_bus to_lower_def lower_char_def is_upper_def)

lemma demo_conv_codec_ok: "conv_codec_ok demo_conv_codec demo_conv_hub"
  by (auto simp: conv_codec_ok_def demo_conv_codec_def demo_conv_hub_def demo_pub_codec_def json_null_def Let_def dest!: only_unonly)

lemma demo_conv_fresh: "conv_fresh demo_conv_store"
  using NewStore_inv [of 0 0]
  by (simp add: conv_fresh_def fresh_table_def demo_conv_store_def idem_inv_def table_ok_def) (simp add: NewStore_def)

lemma demo_conv_bytes: "byte_and_or (CHR 0x00) 0x0f 0x40 = CHR 0x40" "byte_and_or (CHR 0x00) 0x3f 0x80 = CHR 0x80"
  by (simp_all add: byte_and_or_def, code_simp, code_simp)

lemma demo_conv_hex:
  "hex_encode (replicate n (CHR 0x00)) = replicate (2 * n) (CHR ''0'')" "hex_encode [CHR 0x40, CHR 0x00] = ''4000''"
  "hex_encode [CHR 0x80, CHR 0x00] = ''8000''"
  by (induction n) (simp_all add: hex_encode_def hex_digit_def, code_simp+)

lemma demo_conv_id: "NewConversationID demo_random ''b1'' = Inr (cv_ID demo_conv)"
  using demo_conv_hex(1) [of 4] demo_conv_hex(1) [of 2] demo_conv_hex(1) [of 6]
  by (simp add: NewConversationID_def demo_conv_bus newUUIDv4_def demo_random_def demo_conv_def demo_conv_bytes
      demo_conv_hex(2,3) numeral_eq_Suc Let_def)

lemma demo_conv_id_valid: "validateConversationID (cv_ID demo_conv) = Inr ()"
  by code_simp

lemma demo_conv_valid: "conv_validate demo_conv = Inr ()"
proof -
  have "validateConversationName ''plan'' = Inr ()" by code_simp
  then show ?thesis
    using demo_conv_id_valid
    by (simp add: conv_validate_def demo_conv_def validateConversationAgentID_def MaxAgentIDLen_def demo_msg_ids
        MaxConversationRecipients_def Message.MaxRecipients_def demo_now_def unixEpoch_def sec_ns_def)
qed

definition demo_conv_scope :: idem_scope where
  "demo_conv_scope = \<lparr>sc_agent = ''b1.amy-1'', sc_op = OpConversationCreate, sc_key = ''k1'', sc_enrolBusWide = False\<rparr>"

lemma demo_conv_scope: "NewAgentScope ''b1.amy-1'' OpConversationCreate ''k1'' = Inr demo_conv_scope"
  by (simp add: NewAgentScope_def demo_conv_scope_def ValidateKey_def MaxKeyLen_def key_char_def is_lower_def is_digit_def
      OpConversationCreate_def OpEnrol_def op_valid_def)

lemma demo_conv_idem_valid: "record_validate demo_conv_idem = Inr ()"
  using demo_conv_scope
  by (simp add: record_validate_def record_Scope_def demo_conv_idem_def op_valid_def ValidateKey_def MaxKeyLen_def key_char_def
      is_lower_def is_digit_def OpConversationCreate_def OpEnrol_def MaxAgentLen_def MaxResultBytes_def demo_now_def unixEpoch_def sec_ns_def)

lemma canonical_round_trip:
  assumes "conv_validate r = Inr ()" "vc_record V (conv_to_json r) = Some b" "un_record V b = Some (conv_to_json r)"
  shows "canonicalConversation V r = Inr (r, b)"
  using assms
  by (cases r) (simp add: canonicalConversation_def conv_Encode_def DecodeConversationRecord_def conv_to_json_def Let_def)

lemma demo_conv_canonical: "canonicalConversation demo_conv_codec demo_conv = Inr (demo_conv, ''1'')"
  by (rule canonical_round_trip [OF demo_conv_valid]) (simp_all add: demo_conv_codec_def only_def unonly_def)

lemma demo_conv_record:
  "create_record demo_conv_codec demo_conv_hub ''b1.amy-1'' ''k1'' demo_conv
     (conversationCreateFingerprint ''b1.amy-1'' ''plan'' [''b2.bob-1'']) = Inr (demo_conv_idem, ''3'')"
proof -
  have "idem_Encode demo_conv_hub demo_conv_idem = Inr ''3''"
    using demo_conv_idem_valid
    by (simp add: idem_Encode_def demo_conv_hub_def demo_pub_codec_def only_def Let_def json_null_def MaxResultBytes_def)
      (simp add: demo_conv_idem_def)
  then show ?thesis
    by (simp add: create_record_def encodeConversationResult_def demo_conv_codec_def only_def Let_def demo_conv_idem_def demo_conv_def)
qed

definition demo_conv_log :: conv_log where
  "demo_conv_log = serving (empty_log demo_conv_store)"

definition demo_conv_table :: idem_store where
  "demo_conv_table = (NewStore 0 0)\<lparr>st_localBusID := ''b1''\<rparr>"

definition demo_conv_entry :: entry where
  "demo_conv_entry = \<lparr>en_Kind = ConversationRecordKind, en_Body = Some ''1'', en_Idem = Some ''3'', en_Audit = None\<rparr>"

lemma demo_conv_log_fields:
  "cs_attached (el_mem demo_conv_log)" "cs_busID (el_mem demo_conv_log) = ''b1''" "cs_records (el_mem demo_conv_log) = []"
  "cs_idem (el_mem demo_conv_log) = demo_conv_table" "el_up demo_conv_log" "el_done demo_conv_log = []"
  by (simp_all add: demo_conv_log_def serving_def empty_log_def demo_conv_store_def demo_conv_table_def)

lemma demo_conv_table:
  "expireLocked demo_now demo_conv_table = demo_conv_table" "st_records demo_conv_table = []" "st_maxEntries demo_conv_table = 65536"
  "bucket demo_conv_table demo_conv_scope = Inr ''b1.amy-1''" "st_order demo_conv_table = []" "st_head demo_conv_table = 0"
  "st_window demo_conv_table = RetentionWindow"
  by (simp_all add: demo_conv_table_def NewStore_def expireLocked_def Let_def MaxEntries_def MaxRetainedBytes_def MaxRecordBytes_def
      bucket_def demo_conv_scope_def demo_msg_ids to_lower_def lower_char_def is_upper_def)

lemma upd_idem_same: "cs_idem (el_mem L) = t \<Longrightarrow> upd_store (\<lambda>s. s\<lparr>cs_idem := t\<rparr>) L = L"
  by auto

lemma demo_conv_remembered:
  "\<exists>t. Recover demo_now demo_conv_table demo_conv_idem = (Inr (), t) \<and> Remember demo_now t demo_conv_idem = (Inr (), t)"
proof -
  have sc: "record_Scope demo_conv_idem = Inr demo_conv_scope"
    using demo_conv_scope by (simp add: record_Scope_def demo_conv_idem_def)
  obtain t where t: "Recover demo_now demo_conv_table demo_conv_idem = (Inr (), t)"
    "st_records t = [(demo_conv_scope, demo_conv_idem)]" "st_order t = [demo_conv_scope]" "st_head t = 0"
    "st_window t = RetentionWindow" "st_localBusID t = st_localBusID demo_conv_table"
    using sc demo_conv_idem_valid demo_conv_table by (simp add: Recover_def remember_def Let_def)
  have "expireLocked demo_now t = t"
    using t(2-5) by (simp add: expireLocked_def Let_def demo_conv_idem_def time_sub_def maxDuration_def minDuration_def
        RetentionWindow_def MaxRetryHorizon_def PeerOutageBudget_def SessionLifetimeMax_def ParkedPollMax_def
        TransportRetryHorizon_def RetentionSafetyFactor_def sec_ns_def)
  then have "Remember demo_now t demo_conv_idem = (Inr (), t)"
    using sc demo_conv_idem_valid t(2) bucket_cong [OF t(6)] demo_conv_table(4) by (simp add: Remember_def remember_def)
  then show ?thesis using t(1) by blast
qed

lemma demo_created:
  "\<exists>L1. CreateIdempotent demo_conv_codec demo_conv_hub (Committed 1 2) demo_random (\<lambda>_. demo_now) ''b1.amy-1'' ''plan''
     [''b2.bob-1''] ''k1'' demo_conv_log = (Inr (demo_conv, False), L1) \<and> length (el_done L1) = 1"
proof -
  obtain t where t: "Recover demo_now demo_conv_table demo_conv_idem = (Inr (), t)" "Remember demo_now t demo_conv_idem = (Inr (), t)"
    using demo_conv_remembered by blast
  let ?c = "\<lparr>cm_PrepareIndex = 1, cm_CommitIndex = 2, cm_Entry = demo_conv_entry\<rparr>"
  have "DecodeConversationRecord demo_conv_codec ''1'' = Inr demo_conv"
    using demo_conv_canonical by (auto simp: canonicalConversation_def conv_Encode_def demo_conv_codec_def only_def res)
  moreover have "idem_DecodeRecord demo_conv_hub ''3'' = Inr demo_conv_idem"
    using demo_conv_idem_valid by (simp add: idem_DecodeRecord_def demo_conv_hub_def unonly_def)
      (simp add: demo_conv_idem_def conversationCreateFingerprint_def ComputeFingerprint_def FingerprintSize_def)
  ultimately have "rec_of demo_conv_codec ?c = Some demo_conv" "rec_idem demo_conv_codec demo_conv_hub ?c = Some demo_conv_idem"
    by (simp_all add: rec_of_def rec_idem_def demo_conv_entry_def body_of_def idem_of_entry_def)
  then have w: "event_Write (conv_Apply demo_conv_codec demo_conv_hub) (Committed 1 2) demo_now demo_conv_entry demo_conv_log =
      (Inr ?c, demo_conv_log\<lparr>el_mem := (foldIn_conv demo_conv (el_mem demo_conv_log))\<lparr>cs_idem := t\<rparr>, el_done := [?c]\<rparr>)"
    using t(1) demo_conv_log_fields by (simp add: event_Write_def conv_Apply_eq Let_def)
  have r: "\<lparr>cv_ID = cv_ID demo_conv, cv_Creator = ''b1.amy-1'', cv_Name = ''plan'', cv_Recipients = [''b2.bob-1''], cv_CreatedAt = demo_now\<rparr> = demo_conv"
    by (simp add: demo_conv_def)
  have "\<exists>L1. create_new demo_conv_codec demo_conv_hub (Committed 1 2) demo_random (\<lambda>_. demo_now) ''b1.amy-1'' ''plan'' [''b2.bob-1'']
      ''k1'' demo_conv_log = (Inr (demo_conv, False), L1) \<and> length (el_done L1) = 1"
    using demo_conv_id demo_conv_canonical demo_conv_record w t(2)
    by (simp add: create_new_def demo_conv_log_fields r MaxConversations_def Let_def foldIn_conv_def demo_conv_entry_def [symmetric])
  moreover have "Admit demo_now demo_conv_table demo_conv_scope = (Inr (), demo_conv_table)"
    using demo_conv_table by (simp add: Admit_def Let_def admitAgentLocked_def pressureLine_def demo_conv_scope_def)
  moreover have "Lookup demo_now demo_conv_table demo_conv_scope fp = ((None, OutcomeNew), demo_conv_table)" for fp
    using demo_conv_table by (simp add: Lookup_def Let_def)
  ultimately show ?thesis using demo_conv_log_fields demo_conv_scope by (simp add: CreateIdempotent_def Let_def upd_idem_same)
qed


end
