(* ===== verification/HubWait.thy ===== *)
theory HubWait
  imports Hub
begin

text \<open>
  Reading and long polls (\<^verbatim>\<open>internal/hub/wait.go\<close>).  A poll is a call of \<^verbatim>\<open>Wait\<close> in progress; between
  two of its critical sections any other caller may run, so the calls are interleaved step by
  step: \<open>wait_step\<close> has one rule per critical section.  A publisher holds the write lock from the
  append of its message to the notification, so at most one message is applied and not yet
  announced; a publisher whose applied-key record is refused leaves without announcing and
  poisons the hub.  The channel of a waiter, of capacity one, is a flag.
\<close>

section \<open>Reads\<close>

definition DefaultBatchLimit :: int where "DefaultBatchLimit = 64"
definition MaxBatchLimit :: int where "MaxBatchLimit = 256"
definition MaxWaitersPerAgent :: int where "MaxWaitersPerAgent = 1"
definition DefaultPollTimeout :: int where "DefaultPollTimeout = 30 * sec_ns"
definition MaxPollTimeout :: int where "MaxPollTimeout = 5 * 60 * sec_ns"

definition clampLimit :: "int \<Rightarrow> int" where
  "clampLimit limit =
     (if limit \<le> 0 then DefaultBatchLimit else if MaxBatchLimit < limit then MaxBatchLimit else limit)"

definition enrolmentEpoch :: "hub_env \<Rightarrow> string \<Rightarrow> time option" where
  "enrolmentEpoch E agentID = he_roster E agentID"

record batch =
  bt_Messages :: "msg list"
  bt_Cursor :: u64
  bt_More :: bool
  bt_TimedOut :: bool

definition read_batch :: "msg list \<times> u64 \<times> bool \<Rightarrow> batch" where
  "read_batch r = (case r of (msgs, nxt, rest) \<Rightarrow>
     \<lparr>bt_Messages = msgs, bt_Cursor = nxt, bt_More = rest, bt_TimedOut = False\<rparr>)"

definition hub_History ::
  "hub_env \<Rightarrow> time \<Rightarrow> string \<Rightarrow> u64 \<Rightarrow> int \<Rightarrow> msg_store \<Rightarrow> (hub_error + batch) \<times> msg_store" where
  "hub_History E now agentID after limit s =
     (case enrolmentEpoch E agentID of
        None \<Rightarrow> (Inl ErrUnknownSender, s)
      | Some epoch \<Rightarrow>
          (case Since now agentID epoch after (clampLimit limit) s of (r, s1) \<Rightarrow> (Inr (read_batch r), s1)))"

text \<open>The timer a poll is given; \<open>configured\<close> is the hub's own timeout as \<^verbatim>\<open>Open\<close> bounds it.\<close>

definition open_timeout :: "int \<Rightarrow> int" where
  "open_timeout t = (let t1 = (if t \<le> 0 then DefaultPollTimeout else t) in
     if MaxPollTimeout < t1 then MaxPollTimeout else t1)"

definition poll_timeout :: "int \<Rightarrow> int \<Rightarrow> int" where
  "poll_timeout configured t = (let t1 = (if t \<le> 0 then configured else t) in
     if MaxPollTimeout < t1 then MaxPollTimeout else t1)"

section \<open>Polls\<close>

record poll =
  po_agent :: string
  po_epoch :: time
  po_after :: u64
  po_limit :: int

datatype poll_pc =
    Entered | Missed | Registered | Parked
  | Leaving "hub_error + batch"
  | Returned "hub_error + batch"

record wait_sys =
  wt_store :: msg_store
  wt_applied :: "msg option"
  wt_poisoned :: bool
  wt_polls :: "nat \<rightharpoonup> poll \<times> poll_pc"
  wt_signal :: "nat \<Rightarrow> bool"
  wt_waiters :: "nat list"
  wt_byAgent :: "(string \<times> int) list"

definition poll_read :: "time \<Rightarrow> poll \<Rightarrow> msg_store \<Rightarrow> (msg list \<times> u64 \<times> bool) \<times> msg_store" where
  "poll_read now p s = Since now (po_agent p) (po_epoch p) (po_after p) (po_limit p) s"

definition agent_of :: "wait_sys \<Rightarrow> nat \<Rightarrow> string" where
  "agent_of s i = (case wt_polls s i of None \<Rightarrow> [] | Some (p, _) \<Rightarrow> po_agent p)"

definition eligible :: "msg \<Rightarrow> poll \<Rightarrow> bool" where
  "eligible m p \<longleftrightarrow> \<not> (mg_Pos m \<le> po_after p \<or> \<not> VisibleTo m (po_agent p) (po_epoch p))"

text \<open>\<^verbatim>\<open>notify\<close>: a non-blocking send to every eligible waiter.\<close>

definition notify :: "msg \<Rightarrow> wait_sys \<Rightarrow> wait_sys" where
  "notify m s = s\<lparr>wt_signal := (\<lambda>i. wt_signal s i \<or>
     i \<in> set (wt_waiters s) \<and> (case wt_polls s i of None \<Rightarrow> False | Some (p, _) \<Rightarrow> eligible m p))\<rparr>"

definition set_pc :: "nat \<Rightarrow> poll \<Rightarrow> poll_pc \<Rightarrow> wait_sys \<Rightarrow> wait_sys" where
  "set_pc i p pc s = s\<lparr>wt_polls := (wt_polls s)(i \<mapsto> (p, pc))\<rparr>"

definition empty_batch :: "poll \<Rightarrow> bool \<Rightarrow> batch" where
  "empty_batch p timedOut = \<lparr>bt_Messages = [], bt_Cursor = po_after p, bt_More = False, bt_TimedOut = timedOut\<rparr>"

text \<open>Registration, under \<^verbatim>\<open>waitMu\<close>: refused when the agent already holds its slot.\<close>

definition register :: "nat \<Rightarrow> poll \<Rightarrow> wait_sys \<Rightarrow> wait_sys" where
  "register i p s =
     (if MaxWaitersPerAgent \<le> getI (wt_byAgent s) (po_agent p)
      then set_pc i p (Returned (Inl ErrPollActive)) s
      else (set_pc i p Registered s)\<lparr>wt_waiters := i # wt_waiters s, wt_signal := (wt_signal s)(i := False),
             wt_byAgent := AList.update (po_agent p) (getI (wt_byAgent s) (po_agent p) + 1) (wt_byAgent s)\<rparr>)"

definition deregister :: "nat \<Rightarrow> poll \<Rightarrow> wait_sys \<Rightarrow> wait_sys" where
  "deregister i p s =
     (let n = getI (wt_byAgent s) (po_agent p) - 1 in
      s\<lparr>wt_waiters := remove1 i (wt_waiters s),
        wt_byAgent := (if 0 < n then AList.update (po_agent p) n (wt_byAgent s)
                       else AList.delete (po_agent p) (wt_byAgent s))\<rparr>)"

text \<open>What a read in progress does with what it got.\<close>

definition after_read :: "nat \<Rightarrow> poll \<Rightarrow> poll_pc \<Rightarrow> (batch \<Rightarrow> poll_pc) \<Rightarrow> time \<Rightarrow> wait_sys \<Rightarrow> wait_sys" where
  "after_read i p missed got now s =
     (case poll_read now p (wt_store s) of
        (r, st) \<Rightarrow> set_pc i p (if fst r = [] then missed else got (read_batch r)) (s\<lparr>wt_store := st\<rparr>))"

inductive wait_step :: "wait_sys \<Rightarrow> wait_sys \<Rightarrow> bool" where
  enter: "\<lbrakk>wt_polls s i = None; enrolmentEpoch E a = Some e\<rbrakk> \<Longrightarrow>
    wait_step s (set_pc i \<lparr>po_agent = a, po_epoch = e, po_after = after, po_limit = clampLimit limit\<rparr> Entered s)"
| unknown: "\<lbrakk>wt_polls s i = None; enrolmentEpoch E a = None\<rbrakk> \<Longrightarrow>
    wait_step s (set_pc i \<lparr>po_agent = a, po_epoch = 0, po_after = after, po_limit = clampLimit limit\<rparr>
      (Returned (Inl ErrUnknownSender)) s)"
| first_read: "wt_polls s i = Some (p, Entered) \<Longrightarrow>
    wait_step s (after_read i p Missed (\<lambda>b. Returned (Inr b)) now s)"
| gone: "wt_polls s i = Some (p, Missed) \<Longrightarrow> wait_step s (set_pc i p (Returned (Inl HubCancelled)) s)"
| registering: "wt_polls s i = Some (p, Missed) \<Longrightarrow> wait_step s (register i p s)"
| second_read: "wt_polls s i = Some (p, Registered) \<Longrightarrow>
    wait_step s (after_read i p Parked (\<lambda>b. Leaving (Inr b)) now s)"
| cancelled: "wt_polls s i = Some (p, Parked) \<Longrightarrow> wait_step s (set_pc i p (Leaving (Inl HubCancelled)) s)"
| timed_out: "wt_polls s i = Some (p, Parked) \<Longrightarrow>
    wait_step s (set_pc i p (Leaving (Inr (empty_batch p True))) s)"
| woken: "\<lbrakk>wt_polls s i = Some (p, Parked); wt_signal s i\<rbrakk> \<Longrightarrow>
    wait_step s (after_read i p (Leaving (Inr (empty_batch p False))) (\<lambda>b. Leaving (Inr b)) now
      (s\<lparr>wt_signal := (wt_signal s)(i := False)\<rparr>))"
| leaves: "wt_polls s i = Some (p, Leaving r) \<Longrightarrow> wait_step s (set_pc i p (Returned r) (deregister i p s))"
| applies: "\<lbrakk>wt_applied s = None; \<not> wt_poisoned s; store_Append now m (wt_store s) = (Inr (), st);
    id_ok m; ms_posHead (wt_store s) < mg_Pos m\<rbrakk> \<Longrightarrow> wait_step s (s\<lparr>wt_store := st, wt_applied := Some m\<rparr>)"
| announces: "wt_applied s = Some m \<Longrightarrow> wait_step s ((notify m s)\<lparr>wt_applied := None\<rparr>)"
| abandons: "wt_applied s = Some m \<Longrightarrow> wait_step s (s\<lparr>wt_applied := None, wt_poisoned := True\<rparr>)"
| reads: "hub_History E now a after limit (wt_store s) = (r, st) \<Longrightarrow> wait_step s (s\<lparr>wt_store := st\<rparr>)"


section \<open>The invariant\<close>

definition registered :: "poll_pc \<Rightarrow> bool" where
  "registered pc \<longleftrightarrow> pc = Registered \<or> pc = Parked \<or> (\<exists>r. pc = Leaving r)"

definition slots_ok :: "wait_sys \<Rightarrow> bool" where
  "slots_ok s \<longleftrightarrow> distinct (wt_waiters s) \<and>
     (\<forall>i. i \<in> set (wt_waiters s) \<longleftrightarrow> (\<exists>p pc. wt_polls s i = Some (p, pc) \<and> registered pc)) \<and>
     (\<forall>a. getI (wt_byAgent s) a = int (length (filter (\<lambda>i. agent_of s i = a) (wt_waiters s)))) \<and>
     (\<forall>a. int (length (filter (\<lambda>i. agent_of s i = a) (wt_waiters s))) \<le> MaxWaitersPerAgent) \<and>
     fst ` set (wt_byAgent s) \<subseteq> agent_of s ` set (wt_waiters s)"

definition unread :: "wait_sys \<Rightarrow> poll \<Rightarrow> msg list" where
  "unread s p = visible_after (po_agent p) (po_epoch p) (po_after p) (ms_msgs (wt_store s))"

definition woken_ok :: "wait_sys \<Rightarrow> bool" where
  "woken_ok s \<longleftrightarrow> (\<forall>i p. wt_polls s i = Some (p, Parked) \<longrightarrow> \<not> wt_signal s i \<longrightarrow> \<not> wt_poisoned s \<longrightarrow>
     set (unread s p) \<subseteq> set_option (wt_applied s))"

definition polls_ok :: "wait_sys \<Rightarrow> bool" where
  "polls_ok s \<longleftrightarrow> (\<forall>i p pc. wt_polls s i = Some (p, pc) \<longrightarrow> 0 < po_limit p \<and>
     (\<forall>b. pc = Leaving (Inr b) \<or> pc = Returned (Inr b) \<longrightarrow>
        (bt_TimedOut b \<longrightarrow> bt_Messages b = []) \<and> (bt_Messages b = [] \<longrightarrow> bt_Cursor b = po_after p)))"

definition wait_inv :: "wait_sys \<Rightarrow> bool" where
  "wait_inv s \<longleftrightarrow> mono_inv (wt_store s) \<and> slots_ok s \<and> woken_ok s \<and> polls_ok s"

definition wait_start :: "int \<Rightarrow> int \<Rightarrow> wait_sys" where
  "wait_start maxAge maxBytes =
     \<lparr>wt_store = store_New maxAge maxBytes, wt_applied = None, wt_poisoned = False, wt_polls = Map.empty,
      wt_signal = (\<lambda>_. False), wt_waiters = [], wt_byAgent = []\<rparr>"

lemma wait_start_inv: "wait_inv (wait_start a b)"
  by (simp add: wait_inv_def wait_start_def mono_inv_New slots_ok_def woken_ok_def polls_ok_def getI_def MaxWaitersPerAgent_def)

lemma clampLimit_pos: "0 < clampLimit n \<and> clampLimit n \<le> MaxBatchLimit"
  by (simp add: clampLimit_def DefaultBatchLimit_def MaxBatchLimit_def)

lemma mono_pre: "mono_inv s \<Longrightarrow> store_pre s"
  by (simp add: mono_inv_def)

lemma visible_after_prune:
  assumes "mono_inv s"
  shows "set (visible_after a e n (ms_msgs (pruneLocked now s))) \<subseteq> set (visible_after a e n (ms_msgs s))"
  using mono_inv_prune [OF assms, of now] by (auto simp: visible_after_def)

lemma poll_read_spec:
  assumes "mono_inv s" "0 < po_limit p" "poll_read now p s = (r, st)"
  shows "st = pruneLocked now s \<and> mono_inv st \<and>
    (fst r = [] \<longrightarrow> r = ([], po_after p, False) \<and> visible_after (po_agent p) (po_epoch p) (po_after p) (ms_msgs st) = [])"
proof -
  obtain us ws where "visible_after (po_agent p) (po_epoch p) (po_after p) (ms_msgs (pruneLocked now s)) = us @ ws"
    "Since now (po_agent p) (po_epoch p) (po_after p) (po_limit p) s = ((us, last (po_after p # map mg_Pos us), ws \<noteq> []), pruneLocked now s)"
    "us = [] \<longrightarrow> ws = []"
    by (rule Since_spec [OF mono_pre [OF assms(1)] assms(2)]) blast
  then show ?thesis using assms(3) mono_inv_prune [OF assms(1), of now] by (auto simp: poll_read_def)
qed


lemma set_pc_sel [simp]:
  "wt_store (set_pc i p pc s) = wt_store s" "wt_applied (set_pc i p pc s) = wt_applied s"
  "wt_poisoned (set_pc i p pc s) = wt_poisoned s" "wt_polls (set_pc i p pc s) = (wt_polls s)(i \<mapsto> (p, pc))"
  "wt_signal (set_pc i p pc s) = wt_signal s" "wt_waiters (set_pc i p pc s) = wt_waiters s"
  "wt_byAgent (set_pc i p pc s) = wt_byAgent s" "unread (set_pc i p pc s) q = unread s q"
  by (simp_all add: set_pc_def unread_def)

lemma slots_frame:
  assumes "slots_ok s" "wt_polls s' = wt_polls s" "wt_waiters s' = wt_waiters s" "wt_byAgent s' = wt_byAgent s"
  shows "slots_ok s'"
  using assms by (simp add: slots_ok_def agent_of_def)

lemma agent_of_cong: "wt_polls s' i = wt_polls s i \<Longrightarrow> agent_of s' i = agent_of s i"
  by (simp add: agent_of_def)

lemma slots_agents:
  assumes "slots_ok s" "\<And>i. i \<in> set (wt_waiters s) \<Longrightarrow> agent_of s' i = agent_of s i"
    "wt_waiters s' = wt_waiters s" "wt_byAgent s' = wt_byAgent s"
    "\<And>i. (\<exists>p pc. wt_polls s' i = Some (p, pc) \<and> registered pc) \<longleftrightarrow> (\<exists>p pc. wt_polls s i = Some (p, pc) \<and> registered pc)"
  shows "slots_ok s'"
proof -
  have "filter (\<lambda>i. agent_of s' i = a) (wt_waiters s) = filter (\<lambda>i. agent_of s i = a) (wt_waiters s)" for a
    using assms(2) by (auto intro: filter_cong)
  moreover have "agent_of s' ` set (wt_waiters s) = agent_of s ` set (wt_waiters s)"
    using assms(2) by (auto simp: image_iff)
  ultimately show ?thesis using assms(1,3,4,5) by (simp add: slots_ok_def)
qed

lemma slots_set_pc:
  assumes "slots_ok s" "wt_polls s i = Some (p, pc)" "registered pc' = registered pc"
  shows "slots_ok (set_pc i p pc' s)"
  by (rule slots_agents [OF assms(1)]) (use assms in \<open>auto simp: agent_of_def\<close>)

lemma slots_enter:
  assumes "slots_ok s" "wt_polls s i = None" "\<not> registered pc"
  shows "slots_ok (set_pc i p pc s)"
proof (rule slots_agents [OF assms(1)])
  have "i \<notin> set (wt_waiters s)" using assms by (auto simp: slots_ok_def)
  then show "agent_of (set_pc i p pc s) j = agent_of s j" if "j \<in> set (wt_waiters s)" for j
    using that by (intro agent_of_cong) auto
qed (use assms in auto)

lemma getI_update: "getI (AList.update k v m) x = (if x = k then v else getI m x)"
  by (simp add: getI_def update_conv')

lemma getI_delete: "getI (AList.delete k m) x = (if x = k then 0 else getI m x)"
  by (simp add: getI_def delete_conv')

lemma slots_register:
  assumes ok: "slots_ok s" and i: "wt_polls s i = Some (p, Missed)"
  shows "slots_ok (register i p s)"
proof (cases "MaxWaitersPerAgent \<le> getI (wt_byAgent s) (po_agent p)")
  case True
  then show ?thesis
    using slots_set_pc [OF ok i, of "Returned (Inl ErrPollActive)"] by (simp add: register_def registered_def)
next
  case False
  let ?s = "register i p s"
  have new: "i \<notin> set (wt_waiters s)" using ok i by (auto simp: slots_ok_def registered_def)
  have ag: "agent_of ?s j = agent_of s j" for j using i False by (simp add: register_def agent_of_def)
  have ai: "agent_of s i = po_agent p" using i by (simp add: agent_of_def)
  have "getI (wt_byAgent s) (po_agent p) = int (length (filter (\<lambda>i. agent_of s i = po_agent p) (wt_waiters s)))"
    using ok by (simp add: slots_ok_def)
  then have z: "getI (wt_byAgent s) (po_agent p) = 0" using False unfolding MaxWaitersPerAgent_def by linarith
  have f: "wt_waiters ?s = i # wt_waiters s" "wt_byAgent ?s = AList.update (po_agent p) 1 (wt_byAgent s)"
    "wt_polls ?s = (wt_polls s)(i \<mapsto> (p, Registered))"
    using False z by (simp_all add: register_def)
  have "fst ` set (AList.update (po_agent p) 1 (wt_byAgent s)) \<subseteq> insert (po_agent p) (fst ` set (wt_byAgent s))"
    using dom_update [of "po_agent p" "1" "wt_byAgent s"] by (simp add: dom_map_of_conv_image_fst)
  moreover have "fst ` set (wt_byAgent s) \<subseteq> agent_of s ` set (wt_waiters s)" using ok by (simp add: slots_ok_def)
  ultimately have "fst ` set (wt_byAgent ?s) \<subseteq> agent_of ?s ` set (wt_waiters ?s)"
    using f ai by (simp add: ag) blast
  then show ?thesis
    unfolding slots_ok_def using ok new i z ai
    by (auto simp: f ag getI_update slots_ok_def registered_def MaxWaitersPerAgent_def)
qed


lemma slots_leave:
  assumes ok: "slots_ok s" and i: "wt_polls s i = Some (p, Leaving r)"
  shows "slots_ok (set_pc i p (Returned r) (deregister i p s))"
proof -
  let ?s = "set_pc i p (Returned r) (deregister i p s)"
  have mem: "i \<in> set (wt_waiters s)" and d: "distinct (wt_waiters s)"
    using ok i by (auto simp: slots_ok_def registered_def)
  have ai: "agent_of s i = po_agent p" using i by (simp add: agent_of_def)
  have ag: "agent_of ?s j = agent_of s j" for j using i by (simp add: agent_of_def deregister_def Let_def)
  have cnt: "length (filter (\<lambda>j. agent_of s j = a) (remove1 i (wt_waiters s))) =
      length (filter (\<lambda>j. agent_of s j = a) (wt_waiters s)) - (if a = po_agent p then 1 else 0)" for a
    using mem ai by (simp add: filter_remove1 length_remove1)
  let ?n = "getI (wt_byAgent s) (po_agent p) - 1"
  have one: "getI (wt_byAgent s) (po_agent p) = 1"
  proof -
    have "filter (\<lambda>j. agent_of s j = po_agent p) (wt_waiters s) \<noteq> []" using mem ai by (auto simp: filter_empty_conv)
    then show ?thesis using ok unfolding slots_ok_def MaxWaitersPerAgent_def
      by (metis length_greater_0_conv of_nat_0_less_iff int_one_le_iff_zero_less order_antisym)
  qed
  have f: "wt_waiters ?s = remove1 i (wt_waiters s)" "wt_byAgent ?s = AList.delete (po_agent p) (wt_byAgent s)"
    "wt_polls ?s = (wt_polls s)(i \<mapsto> (p, Returned r))"
    using one by (simp_all add: deregister_def Let_def)
  have "fst ` set (AList.delete (po_agent p) (wt_byAgent s)) \<subseteq> agent_of s ` set (remove1 i (wt_waiters s))"
  proof
    fix a assume "a \<in> fst ` set (AList.delete (po_agent p) (wt_byAgent s))"
    then have "a \<in> fst ` set (wt_byAgent s)" "a \<noteq> po_agent p" by (auto simp: AList.delete_eq)
    moreover from this obtain j where "j \<in> set (wt_waiters s)" "a = agent_of s j" using ok by (auto simp: slots_ok_def)
    ultimately show "a \<in> agent_of s ` set (remove1 i (wt_waiters s))" using d ai by auto
  qed
  then have "fst ` set (wt_byAgent ?s) \<subseteq> agent_of ?s ` set (wt_waiters ?s)"
    unfolding f(1,2) by (simp add: ag)
  moreover have "getI (wt_byAgent ?s) a = int (length (filter (\<lambda>j. agent_of ?s j = a) (wt_waiters ?s)))" for a
    unfolding f(1,2) ag cnt using ok one by (simp add: getI_delete slots_ok_def)
  moreover have "int (length (filter (\<lambda>j. agent_of ?s j = a) (wt_waiters ?s))) \<le> MaxWaitersPerAgent" for a
    unfolding f(1,2) ag cnt using ok unfolding slots_ok_def MaxWaitersPerAgent_def
    by (meson diff_le_self of_nat_mono order_trans)
  moreover have "(j \<in> set (wt_waiters ?s)) = (\<exists>p pc. wt_polls ?s j = Some (p, pc) \<and> registered pc)" for j
    unfolding f(1,3) using ok d by (auto simp: slots_ok_def registered_def)
  moreover have "distinct (wt_waiters ?s)" unfolding f(1) using d by simp
  ultimately show ?thesis unfolding slots_ok_def by blast
qed


section \<open>Every step keeps it\<close>

lemma woken_pc:
  assumes "woken_ok s" "pc \<noteq> Parked"
  shows "woken_ok (set_pc i p pc s)"
  using assms by (auto simp: woken_ok_def)

lemma woken_store:
  assumes "woken_ok s" "mono_inv (wt_store s)"
  shows "woken_ok (s\<lparr>wt_store := pruneLocked now (wt_store s)\<rparr>)"
  using assms(1) visible_after_prune [OF assms(2)] by (fastforce simp: woken_ok_def unread_def)

lemma polls_pc:
  assumes "polls_ok s" "0 < po_limit p"
    and "\<And>b. pc = Leaving (Inr b) \<or> pc = Returned (Inr b) \<Longrightarrow>
        (bt_TimedOut b \<longrightarrow> bt_Messages b = []) \<and> (bt_Messages b = [] \<longrightarrow> bt_Cursor b = po_after p)"
  shows "polls_ok (set_pc i p pc s)"
  using assms by (auto simp: polls_ok_def)

lemma polls_frame: "polls_ok s \<Longrightarrow> wt_polls s' = wt_polls s \<Longrightarrow> polls_ok s'"
  by (simp add: polls_ok_def)

lemma polls_limit: "polls_ok s \<Longrightarrow> wt_polls s i = Some (p, pc) \<Longrightarrow> 0 < po_limit p"
  by (auto simp: polls_ok_def)

lemma after_read_inv:
  assumes inv: "wait_inv s" and i: "wt_polls s i = Some (p, pc)"
    and reg: "registered missed = registered pc" "\<And>b. registered (got b) = registered pc"
    and shape: "(missed = Missed \<or> missed = Parked \<or> missed = Leaving (Inr (empty_batch p False))) \<and>
      (got = (\<lambda>b. Leaving (Inr b)) \<or> got = (\<lambda>b. Returned (Inr b)))"
  shows "wait_inv (after_read i p missed got now s)"
proof -
  obtain r st where r: "poll_read now p (wt_store s) = (r, st)" by fastforce
  have lim: "0 < po_limit p" using inv i polls_limit by (auto simp: wait_inv_def)
  have mono: "mono_inv (wt_store s)" using inv by (simp add: wait_inv_def)
  note rs = poll_read_spec [OF mono lim r]
  let ?t = "s\<lparr>wt_store := st\<rparr>"
  let ?pc = "if fst r = [] then missed else got (read_batch r)"
  have st: "woken_ok ?t" using inv rs woken_store [of s now] by (auto simp: wait_inv_def)
  have w: "woken_ok (set_pc i p ?pc ?t)"
  proof (cases "?pc = Parked")
    case True
    then have "fst r = []" using shape by (auto split: if_splits)
    then have "unread ?t p = []" using rs unfolding unread_def by auto
    then show ?thesis using st True by (auto simp: woken_ok_def)
  qed (use st woken_pc in blast)
  have sl: "slots_ok (set_pc i p ?pc ?t)"
    using slots_set_pc [of ?t i p pc ?pc] slots_frame [of s ?t] inv i reg by (auto simp: wait_inv_def)
  have po: "polls_ok (set_pc i p ?pc ?t)"
    using polls_pc [of ?t p ?pc i] polls_frame [of s ?t] inv lim shape
    by (cases r) (auto simp: wait_inv_def read_batch_def empty_batch_def)
  have "mono_inv st" using rs by blast
  then show ?thesis using w sl po r by (simp add: wait_inv_def after_read_def)
qed

lemma set_pc_inv:
  assumes "wait_inv s" "wt_polls s i = Some (p, pc)" "registered pc' = registered pc" "pc' \<noteq> Parked"
    and "\<And>b. pc' = Leaving (Inr b) \<or> pc' = Returned (Inr b) \<Longrightarrow>
        (bt_TimedOut b \<longrightarrow> bt_Messages b = []) \<and> (bt_Messages b = [] \<longrightarrow> bt_Cursor b = po_after p)"
  shows "wait_inv (set_pc i p pc' s)"
  using assms slots_set_pc [OF _ assms(2,3)] woken_pc [OF _ assms(4)] polls_pc [of s p pc' i] polls_limit [of s i p pc]
  by (auto simp: wait_inv_def)

lemma append_store_inv:
  assumes "mono_inv s" "store_Append now m s = (Inr (), st)" "id_ok m" "ms_posHead s < mg_Pos m"
  shows "mono_inv st \<and> set (ms_msgs st) \<subseteq> insert m (set (ms_msgs s))"
proof -
  have c: "mg_Pos m \<noteq> 0" "ms_bySeq s (mg_Seq m) = None" "st = pruneLocked now (appended m s)"
    using assms(2) Append_eq [of now m s] by (auto split: if_splits)
  have mi: "mono_inv (appended m s)" by (rule mono_inv_appended [OF assms(1,3) c(1,2) assms(4)])
  have "ms_msgs (appended m s) = ms_msgs s @ [m]" using assms(4) by (simp add: place_def)
  then show ?thesis using mono_inv_prune [OF mi, of now] c(3) by auto
qed


lemma enter_inv:
  assumes "wait_inv s" "wt_polls s i = None" "\<not> registered pc" "0 < po_limit p" "\<forall>b. pc \<noteq> Returned (Inr b)"
  shows "wait_inv (set_pc i p pc s)"
  using assms slots_enter [of s i pc p] woken_pc [of s pc i p] polls_pc [of s p pc i]
  by (auto simp: wait_inv_def registered_def)

lemma register_inv:
  assumes "wait_inv s" "wt_polls s i = Some (p, Missed)"
  shows "wait_inv (register i p s)"
proof -
  have "woken_ok (register i p s)" using assms by (auto simp: wait_inv_def woken_ok_def register_def unread_def)
  moreover have "polls_ok (register i p s)"
    using assms polls_limit [of s i p Missed] by (auto simp: wait_inv_def polls_ok_def register_def)
  moreover have "wt_store (register i p s) = wt_store s" by (simp add: register_def)
  ultimately show ?thesis using slots_register [of s i p] assms by (simp add: wait_inv_def)
qed

lemma leave_inv:
  assumes "wait_inv s" "wt_polls s i = Some (p, Leaving r)"
  shows "wait_inv (set_pc i p (Returned r) (deregister i p s))"
proof -
  let ?d = "deregister i p s"
  have d: "wt_polls ?d = wt_polls s" "wt_store ?d = wt_store s" "wt_signal ?d = wt_signal s" "wt_applied ?d = wt_applied s"
    "wt_poisoned ?d = wt_poisoned s"
    by (simp_all add: deregister_def Let_def)
  have "woken_ok ?d" using assms(1) d by (simp add: wait_inv_def woken_ok_def unread_def)
  then have "woken_ok (set_pc i p (Returned r) ?d)" by (rule woken_pc) simp
  moreover have "polls_ok (set_pc i p (Returned r) ?d)"
    using assms d by (auto simp: wait_inv_def polls_ok_def)
  ultimately show ?thesis using slots_leave [of s i p r] assms d by (simp add: wait_inv_def)
qed

lemma apply_inv:
  assumes "wait_inv s" "wt_applied s = None" "store_Append now m (wt_store s) = (Inr (), st)"
    "id_ok m" "ms_posHead (wt_store s) < mg_Pos m"
  shows "wait_inv (s\<lparr>wt_store := st, wt_applied := Some m\<rparr>)"
proof -
  have st: "mono_inv st" "set (ms_msgs st) \<subseteq> insert m (set (ms_msgs (wt_store s)))"
    using append_store_inv [OF _ assms(3-5)] assms(1) by (auto simp: wait_inv_def)
  have "woken_ok (s\<lparr>wt_store := st, wt_applied := Some m\<rparr>)"
    using assms(1,2) st(2) by (fastforce simp: wait_inv_def woken_ok_def unread_def visible_after_def)
  then show ?thesis
    using st(1) assms(1) slots_frame [of s "s\<lparr>wt_store := st, wt_applied := Some m\<rparr>"]
      polls_frame [of s "s\<lparr>wt_store := st, wt_applied := Some m\<rparr>"] by (simp add: wait_inv_def)
qed

lemma notify_inv:
  assumes "wait_inv s" "wt_applied s = Some m"
  shows "wait_inv ((notify m s)\<lparr>wt_applied := None\<rparr>)"
proof -
  let ?s = "(notify m s)\<lparr>wt_applied := None\<rparr>"
  have f: "wt_polls ?s = wt_polls s" "wt_waiters ?s = wt_waiters s" "wt_byAgent ?s = wt_byAgent s" "wt_store ?s = wt_store s"
    "wt_poisoned ?s = wt_poisoned s"
    by (simp_all add: notify_def)
  have u: "unread s p = []" if p: "wt_polls s i = Some (p, Parked)" "\<not> wt_signal ?s i" "\<not> wt_poisoned s" for i p
  proof -
    have "slots_ok s" "woken_ok s" using assms(1) by (simp_all add: wait_inv_def)
    then have "i \<in> set (wt_waiters s)" using p(1) by (auto simp: slots_ok_def registered_def)
    then have e: "\<not> eligible m p" "\<not> wt_signal s i" using p by (auto simp: notify_def)
    have "set (unread s p) \<subseteq> {m}" using \<open>woken_ok s\<close> p(1,3) e(2) assms(2) unfolding woken_ok_def by fastforce
    moreover have "m \<notin> set (unread s p)" using e(1) by (auto simp: eligible_def unread_def visible_after_def)
    ultimately show ?thesis by (cases "unread s p") auto
  qed
  have "unread ?s p = unread s p" for p using f(4) by (simp only: unread_def)
  then have "woken_ok ?s" using u f(1,5) unfolding woken_ok_def by simp
  then show ?thesis
    using assms(1) slots_frame [OF _ f(1-3)] polls_frame [OF _ f(1)] f(4) by (simp add: wait_inv_def)
qed

lemma woken_inv:
  assumes i: "wt_polls s i = Some (p, Parked)" and inv: "wait_inv s"
  shows "wait_inv (after_read i p (Leaving (Inr (empty_batch p False))) (\<lambda>b. Leaving (Inr b)) now
      (s\<lparr>wt_signal := (wt_signal s)(i := False)\<rparr>))"
proof -
  let ?t = "s\<lparr>wt_signal := (wt_signal s)(i := False)\<rparr>"
  let ?u = "set_pc i p (Leaving (Inr (empty_batch p False))) ?t"
  have t: "wt_polls ?t = wt_polls s" "wt_waiters ?t = wt_waiters s" "wt_byAgent ?t = wt_byAgent s" "wt_store ?t = wt_store s"
    by simp_all
  have sl: "slots_ok ?t" "polls_ok ?t" using inv slots_frame [OF _ t(1-3)] polls_frame [OF _ t(1)] by (auto simp: wait_inv_def)
  have w: "woken_ok s" using inv by (simp add: wait_inv_def)
  have "woken_ok ?u"
    unfolding woken_ok_def
  proof (intro allI impI)
    fix j q assume j: "wt_polls ?u j = Some (q, Parked)" "\<not> wt_signal ?u j" "\<not> wt_poisoned ?u"
    then have "j \<noteq> i" by (auto split: if_splits)
    then have "wt_polls s j = Some (q, Parked)" "\<not> wt_signal s j" "\<not> wt_poisoned s" using j by simp_all
    then have "set (unread s q) \<subseteq> set_option (wt_applied s)" using w unfolding woken_ok_def by blast
    then show "set (unread ?u q) \<subseteq> set_option (wt_applied ?u)" by (simp add: unread_def)
  qed
  moreover have "slots_ok ?u" using sl(1) i by (intro slots_set_pc [where pc = Parked]) (auto simp: registered_def)
  moreover have "polls_ok ?u"
    using sl(2) polls_limit [of s i p Parked] i inv by (intro polls_pc) (auto simp: wait_inv_def empty_batch_def)
  ultimately have u: "wait_inv ?u" using inv by (simp add: wait_inv_def)
  have "wait_inv (after_read i p (Leaving (Inr (empty_batch p False))) (\<lambda>b. Leaving (Inr b)) now ?u)"
    by (rule after_read_inv [OF u, where pc = "Leaving (Inr (empty_batch p False))"]) (auto simp: registered_def)
  moreover have "after_read i p (Leaving (Inr (empty_batch p False))) (\<lambda>b. Leaving (Inr b)) now ?u =
      after_read i p (Leaving (Inr (empty_batch p False))) (\<lambda>b. Leaving (Inr b)) now ?t"
    by (simp add: after_read_def set_pc_def split: prod.splits)
  ultimately show ?thesis by simp
qed

lemma read_inv:
  assumes "wait_inv s" "hub_History E now a after limit (wt_store s) = (r, st)"
  shows "wait_inv (s\<lparr>wt_store := st\<rparr>)"
proof -
  have "st = wt_store s \<or> st = pruneLocked now (wt_store s)"
    using assms(2) by (auto simp: hub_History_def Since_def Let_def split: option.splits prod.splits if_splits)
  then show ?thesis
  proof
    assume st: "st = pruneLocked now (wt_store s)"
    have "slots_ok (s\<lparr>wt_store := st\<rparr>)" "polls_ok (s\<lparr>wt_store := st\<rparr>)"
      using assms(1) by (auto simp: wait_inv_def intro: slots_frame polls_frame)
    then show ?thesis
      using assms(1) woken_store [of s now] mono_inv_prune [of "wt_store s" now] by (simp add: wait_inv_def st)
  qed (use assms(1) in simp)
qed

lemma wait_step_inv:
  assumes "wait_step s s'" "wait_inv s"
  shows "wait_inv s'"
  using assms
proof induction
  case (first_read s i p now)
  then show ?case by (intro after_read_inv) (auto simp: registered_def)
next
  case (second_read s i p now)
  then show ?case by (intro after_read_inv) (auto simp: registered_def)
next
  case (woken s i p now)
  then show ?case by (intro woken_inv)
next
  case (reads E now a after limit s r st)
  then show ?case by (intro read_inv [OF reads(2,1)])
next
  case (abandons s m)
  then show ?case
    using slots_frame [of s "s\<lparr>wt_applied := None, wt_poisoned := True\<rparr>"] polls_frame [of s "s\<lparr>wt_applied := None, wt_poisoned := True\<rparr>"]
    by (auto simp: wait_inv_def woken_ok_def)
next
  case (enter s i E a e after limit)
  then show ?case using clampLimit_pos by (intro enter_inv) (auto simp: registered_def)
next
  case (unknown s i E a after limit)
  then show ?case using clampLimit_pos by (intro enter_inv) (auto simp: registered_def)
next
  case (gone s i p)
  then show ?case by (intro set_pc_inv [OF gone(2,1)]) (auto simp: registered_def)
next
  case (registering s i p)
  then show ?case by (intro register_inv)
next
  case (cancelled s i p)
  then show ?case by (intro set_pc_inv [OF cancelled(2,1)]) (auto simp: registered_def)
next
  case (timed_out s i p)
  then show ?case by (intro set_pc_inv [OF timed_out(2,1)]) (auto simp: registered_def empty_batch_def)
next
  case (leaves s i p r)
  then show ?case by (intro leave_inv)
next
  case (applies s now m st)
  then show ?case by (intro apply_inv)
next
  case (announces s m)
  then show ?case by (intro notify_inv)
qed


section \<open>Guarantees\<close>

lemma short_list_eq: "length xs \<le> 1 \<Longrightarrow> x \<in> set xs \<Longrightarrow> y \<in> set xs \<Longrightarrow> x = y"
  by (cases xs) auto

definition WaiterCount :: "wait_sys \<Rightarrow> nat" where
  "WaiterCount s = length (wt_waiters s)"

lemma wait_reachable_inv:
  assumes "wait_step\<^sup>*\<^sup>* (wait_start a b) s"
  shows "wait_inv s"
  using assms by induction (use wait_start_inv wait_step_inv in auto)

text \<open>
  C5. No wake-up is lost.  In every interleaving of polls, reads and publishes, whenever a long poll is parked
  and its own read would find a message, then, unless the publisher of that message is still
  between applying and announcing it (or the hub is poisoned), the poll has been signalled: it
  can return at once, and what it returns then is a non-empty batch.
\<close>

theorem no_lost_wakeup:
  assumes "wait_step\<^sup>*\<^sup>* (wait_start a b) s" and i: "wt_polls s i = Some (p, Parked)"
    and quiet: "wt_applied s = None" "\<not> wt_poisoned s"
    and got: "fst (fst (poll_read now p (wt_store s))) \<noteq> []"
  shows "wt_signal s i \<and> (\<exists>s' batch. wait_step s s' \<and> wt_polls s' i = Some (p, Leaving (Inr batch)) \<and>
    bt_Messages batch = fst (fst (poll_read now p (wt_store s))) \<and> \<not> bt_TimedOut batch)"
proof
  have inv: "mono_inv (wt_store s)" "woken_ok s" "polls_ok s"
    using wait_reachable_inv [OF assms(1)] by (simp_all add: wait_inv_def)
  have lim: "0 < po_limit p" using polls_limit [OF inv(3) i] .
  obtain us ws where u: "visible_after (po_agent p) (po_epoch p) (po_after p) (ms_msgs (pruneLocked now (wt_store s))) = us @ ws"
    "poll_read now p (wt_store s) = ((us, last (po_after p # map mg_Pos us), ws \<noteq> []), pruneLocked now (wt_store s))"
    unfolding poll_read_def by (rule Since_spec [OF mono_pre [OF inv(1)] lim]) blast
  have "us \<noteq> []" using got u(2) by simp
  then have "unread s p \<noteq> []"
    using visible_after_prune [OF inv(1), of "po_agent p" "po_epoch p" "po_after p" now] u(1) by (auto simp: unread_def)
  then show sig: "wt_signal s i" using inv(2) i quiet unfolding woken_ok_def by fastforce
  have "wait_step s (after_read i p (Leaving (Inr (empty_batch p False))) (\<lambda>b. Leaving (Inr b)) now
      (s\<lparr>wt_signal := (wt_signal s)(i := False)\<rparr>))"
    using i sig by (rule wait_step.woken)
  then show "\<exists>s' batch. wait_step s s' \<and> wt_polls s' i = Some (p, Leaving (Inr batch)) \<and>
    bt_Messages batch = fst (fst (poll_read now p (wt_store s))) \<and> \<not> bt_TimedOut batch"
    using \<open>us \<noteq> []\<close> u(2) by (fastforce simp: after_read_def read_batch_def)
qed

text \<open>
  C18. One long poll per agent, none leaked and none invented: in every interleaving at most one registered waiter
  belongs to an agent; when every call has returned no waiter and no counter is left; a call that times
  out returns no message, and one that returns no message returns the cursor it was given.
\<close>

theorem long_polls_exclusive:
  assumes "wait_step\<^sup>*\<^sup>* (wait_start a b) s"
  shows "(\<forall>i j. i \<in> set (wt_waiters s) \<and> j \<in> set (wt_waiters s) \<and> agent_of s i = agent_of s j \<longrightarrow> i = j) \<and>
    ((\<forall>i p pc. wt_polls s i = Some (p, pc) \<longrightarrow> (\<exists>r. pc = Returned r)) \<longrightarrow> WaiterCount s = 0 \<and> wt_byAgent s = []) \<and>
    (\<forall>i p batch. wt_polls s i = Some (p, Returned (Inr batch)) \<longrightarrow>
       (bt_TimedOut batch \<longrightarrow> bt_Messages batch = []) \<and> (bt_Messages batch = [] \<longrightarrow> bt_Cursor batch = po_after p))"
proof (intro conjI impI)
  have ok: "slots_ok s" "polls_ok s" using wait_reachable_inv [OF assms] by (simp_all add: wait_inv_def)
  show "\<forall>i j. i \<in> set (wt_waiters s) \<and> j \<in> set (wt_waiters s) \<and> agent_of s i = agent_of s j \<longrightarrow> i = j"
  proof (intro allI impI)
    fix i j assume ij: "i \<in> set (wt_waiters s) \<and> j \<in> set (wt_waiters s) \<and> agent_of s i = agent_of s j"
    let ?xs = "filter (\<lambda>k. agent_of s k = agent_of s i) (wt_waiters s)"
    have "int (length ?xs) \<le> 1" using ok(1) unfolding slots_ok_def MaxWaitersPerAgent_def by blast
    then have "length ?xs \<le> 1" by linarith
    moreover have "i \<in> set ?xs" "j \<in> set ?xs" using ij by auto
    ultimately show "i = j" using short_list_eq by metis
  qed
  show "WaiterCount s = 0" "wt_byAgent s = []" if "\<forall>i p pc. wt_polls s i = Some (p, pc) \<longrightarrow> (\<exists>r. pc = Returned r)"
  proof -
    have "i \<notin> set (wt_waiters s)" for i
    proof
      assume "i \<in> set (wt_waiters s)"
      then obtain p pc where "wt_polls s i = Some (p, pc)" "registered pc" using ok(1) unfolding slots_ok_def by blast
      then show False using that by (auto simp: registered_def)
    qed
    then have "wt_waiters s = []" by (cases "wt_waiters s") auto
    then show "WaiterCount s = 0" "wt_byAgent s = []" using ok(1) by (simp_all add: WaiterCount_def slots_ok_def)
  qed
  show "\<forall>i p batch. wt_polls s i = Some (p, Returned (Inr batch)) \<longrightarrow>
       (bt_TimedOut batch \<longrightarrow> bt_Messages batch = []) \<and> (bt_Messages batch = [] \<longrightarrow> bt_Cursor batch = po_after p)"
    using ok(2) unfolding polls_ok_def by blast
qed


section \<open>A poll that is woken\<close>

definition demo_poll :: poll where
  "demo_poll = \<lparr>po_agent = ''b2.bob-1'', po_epoch = 0, po_after = 0, po_limit = clampLimit 5\<rparr>"

definition demo_woken :: wait_sys where
  "demo_woken = (let s0 = wait_start 0 0;
     s1 = set_pc 0 demo_poll Entered s0;
     s2 = after_read 0 demo_poll Missed (\<lambda>b. Returned (Inr b)) 60 s1;
     s3 = register 0 demo_poll s2;
     s4 = after_read 0 demo_poll Parked (\<lambda>b. Leaving (Inr b)) 60 s3;
     m = demo_stored 7 10 ''b1-7'';
     s5 = s4\<lparr>wt_store := snd (store_Append 60 m (wt_store s4)), wt_applied := Some m\<rparr>
   in (notify m s5)\<lparr>wt_applied := None\<rparr>)"


lemma demo_reads:
  "poll_read 60 demo_poll (store_New 0 0) = (([], 0, False), store_New 0 0)"
  "store_Append 60 (demo_stored 7 10 ''b1-7'') (store_New 0 0) =
     (Inr (), snd (store_Append 60 (demo_stored 7 10 ''b1-7'') (store_New 0 0)))"
  "fst (fst (poll_read 60 demo_poll (snd (store_Append 60 (demo_stored 7 10 ''b1-7'') (store_New 0 0))))) =
     [demo_stored 7 10 ''b1-7'']"
  by (simp_all add: poll_read_def demo_poll_def clampLimit_def MaxBatchLimit_def store_eval Let_def)

lemma demo_run_woken:
  "wait_step\<^sup>*\<^sup>* (wait_start 0 0) demo_woken \<and> wt_polls demo_woken 0 = Some (demo_poll, Parked) \<and>
   wt_applied demo_woken = None \<and> \<not> wt_poisoned demo_woken \<and> wt_waiters demo_woken = [0] \<and>
   wt_store demo_woken = snd (store_Append 60 (demo_stored 7 10 ''b1-7'') (store_New 0 0))"
proof -
  define m where "m = demo_stored 7 10 ''b1-7''"
  define s1 where "s1 = set_pc 0 demo_poll Entered (wait_start 0 0)"
  define s2 where "s2 = after_read 0 demo_poll Missed (\<lambda>b. Returned (Inr b)) 60 s1"
  define s3 where "s3 = register 0 demo_poll s2"
  define s4 where "s4 = after_read 0 demo_poll Parked (\<lambda>b. Leaving (Inr b)) 60 s3"
  define s5 where "s5 = s4\<lparr>wt_store := snd (store_Append 60 m (wt_store s4)), wt_applied := Some m\<rparr>"
  have w: "demo_woken = (notify m s5)\<lparr>wt_applied := None\<rparr>"
    by (simp add: demo_woken_def Let_def s1_def s2_def s3_def s4_def s5_def m_def)
  have f1: "wt_store s1 = store_New 0 0" "wt_polls s1 0 = Some (demo_poll, Entered)" "wt_applied s1 = None" "\<not> wt_poisoned s1"
    "wt_waiters s1 = []" "wt_byAgent s1 = []"
    by (simp_all add: s1_def wait_start_def)
  then have f2: "wt_store s2 = store_New 0 0" "wt_polls s2 0 = Some (demo_poll, Missed)" "wt_applied s2 = None" "\<not> wt_poisoned s2"
    "wt_waiters s2 = []" "wt_byAgent s2 = []"
    by (simp_all add: s2_def after_read_def demo_reads(1))
  then have f3: "wt_store s3 = store_New 0 0" "wt_polls s3 0 = Some (demo_poll, Registered)" "wt_applied s3 = None" "\<not> wt_poisoned s3"
    "wt_waiters s3 = [0]"
    by (simp_all add: s3_def register_def getI_def MaxWaitersPerAgent_def)
  then have f4: "wt_store s4 = store_New 0 0" "wt_polls s4 0 = Some (demo_poll, Parked)" "wt_applied s4 = None" "\<not> wt_poisoned s4"
    "wt_waiters s4 = [0]"
    by (simp_all add: s4_def after_read_def demo_reads(1))
  have st: "wait_step (wait_start 0 0) s1"
    using wait_step.enter [of "wait_start 0 0" 0 "\<lparr>he_roster = \<lambda>_. Some 0, he_router = None, he_egress = False, he_acks = False, he_durable = True\<rparr>"
        "''b2.bob-1''" 0 0 5] by (simp add: demo_poll_def enrolmentEpoch_def wait_start_def s1_def)
  have st2: "wait_step s1 s2" unfolding s2_def using f1(2) by (rule wait_step.first_read)
  have st3: "wait_step s2 s3" unfolding s3_def using f2(2) by (rule wait_step.registering)
  have st4: "wait_step s3 s4" unfolding s4_def using f3(2) by (rule wait_step.second_read)
  have st5: "wait_step s4 s5"
    unfolding s5_def using f4(3,4) demo_reads(2) demo_stored_ok(1)
    by (intro wait_step.applies [where now = 60]) (simp_all add: f4(1) m_def store_New_def demo_stored_def)
  have st6: "wait_step s5 demo_woken" unfolding w by (rule wait_step.announces) (simp add: s5_def)
  note into = converse_rtranclp_into_rtranclp [of wait_step]
  have "wait_step\<^sup>*\<^sup>* (wait_start 0 0) demo_woken"
    by (rule into [OF st into [OF st2 into [OF st3 into [OF st4 into [OF st5 into [OF st6 rtranclp.rtrancl_refl]]]]]])
  then show ?thesis using f4 by (simp add: w notify_def s5_def m_def)
qed

theorem no_lost_wakeup_witness:
  "wt_polls demo_woken 0 = Some (demo_poll, Parked) \<and> wt_signal demo_woken 0 \<and>
   (\<exists>s' batch. wait_step demo_woken s' \<and> wt_polls s' 0 = Some (demo_poll, Leaving (Inr batch)) \<and>
      bt_Messages batch = [demo_stored 7 10 ''b1-7''])"
proof -
  note d = demo_run_woken
  have "fst (fst (poll_read 60 demo_poll (wt_store demo_woken))) = [demo_stored 7 10 ''b1-7'']"
    using d demo_reads(3) by simp
  with no_lost_wakeup [of 0 0 demo_woken 0 demo_poll 60] d
  have "wt_signal demo_woken 0 \<and> (\<exists>s' batch. wait_step demo_woken s' \<and> wt_polls s' 0 = Some (demo_poll, Leaving (Inr batch)) \<and>
    bt_Messages batch = [demo_stored 7 10 ''b1-7''] \<and> \<not> bt_TimedOut batch)" by simp
  then show ?thesis using d by blast
qed

theorem long_polls_exclusive_witness:
  "wt_waiters demo_woken = [0] \<and>
   {j. j \<in> set (wt_waiters demo_woken) \<and> agent_of demo_woken j = agent_of demo_woken 0} = {0}"
proof -
  have "0 \<in> set (wt_waiters demo_woken)" using demo_run_woken by simp
  then show ?thesis
    using long_polls_exclusive [OF demo_run_woken [THEN conjunct1], THEN conjunct1] demo_run_woken by blast
qed

end
