(* ===== verification/Base64.thy ===== *)
theory Base64
  imports Prelude
begin

text \<open>
  \<^verbatim>\<open>base64.RawURLEncoding\<close> of Go's standard library: the URL alphabet without padding.  The decoder
  skips carriage returns and newlines and ignores the unused bits of the last character.
\<close>

definition b64_char :: "nat \<Rightarrow> char" where
  "b64_char n = (if n < 26 then char_of (65 + n) else if n < 52 then char_of (71 + n)
     else if n < 62 then char_of (n - 4) else if n = 62 then CHR ''-'' else CHR ''_'')"

definition b64_val :: "char \<Rightarrow> nat option" where
  "b64_val c =
     (if is_upper c then Some (byte_val c - 65) else if is_lower c then Some (byte_val c - 71)
      else if is_digit c then Some (byte_val c + 4)
      else if c = CHR ''-'' then Some 62 else if c = CHR ''_'' then Some 63 else None)"

fun b64_sextets :: "bytes \<Rightarrow> nat list" where
  "b64_sextets [] = []"
| "b64_sextets [a] = [byte_val a div 4, byte_val a mod 4 * 16]"
| "b64_sextets [a, b] = [byte_val a div 4, byte_val a mod 4 * 16 + byte_val b div 16, byte_val b mod 16 * 4]"
| "b64_sextets (a # b # c # rest) =
     [byte_val a div 4, byte_val a mod 4 * 16 + byte_val b div 16, byte_val b mod 16 * 4 + byte_val c div 64,
      byte_val c mod 64] @ b64_sextets rest"

definition EncodeToString :: "bytes \<Rightarrow> string" where
  "EncodeToString b = map b64_char (b64_sextets b)"

fun b64_bytes :: "nat list \<Rightarrow> bytes option" where
  "b64_bytes [] = Some []"
| "b64_bytes [a] = None"
| "b64_bytes [a, b] = Some [char_of (a * 4 + b div 16)]"
| "b64_bytes [a, b, c] = Some [char_of (a * 4 + b div 16), char_of (b mod 16 * 16 + c div 4)]"
| "b64_bytes (a # b # c # d # rest) =
     map_option (\<lambda>r. char_of (a * 4 + b div 16) # char_of (b mod 16 * 16 + c div 4) # char_of (c mod 4 * 64 + d) # r)
       (b64_bytes rest)"

fun all_some :: "'a option list \<Rightarrow> 'a list option" where
  "all_some [] = Some []"
| "all_some (None # _) = None"
| "all_some (Some x # xs) = map_option ((#) x) (all_some xs)"

definition DecodeString :: "string \<Rightarrow> bytes option" where
  "DecodeString s =
     Option.bind (all_some (map b64_val (filter (\<lambda>c. c \<noteq> CHR 0x0A \<and> c \<noteq> CHR 0x0D) s))) b64_bytes"

section \<open>The decoder inverts the encoder\<close>

lemma byte_div: "byte_val c div 4 < 64" "byte_val c div 16 < 16" "byte_val c div 64 < 4"
  using of_char_lt_256 [of c] by (simp_all add: less_mult_imp_div_less)

lemma b64_char_code:
  "n < 26 \<Longrightarrow> byte_val (b64_char n) = 65 + n" "26 \<le> n \<Longrightarrow> n < 52 \<Longrightarrow> byte_val (b64_char n) = 71 + n"
  "52 \<le> n \<Longrightarrow> n < 62 \<Longrightarrow> byte_val (b64_char n) = n - 4"
  by (simp_all add: b64_char_def)

lemma b64_val_char:
  assumes "n < 64"
  shows "b64_val (b64_char n) = Some n \<and> 32 < byte_val (b64_char n)"
proof -
  consider "n < 26" | "26 \<le> n" "n < 52" | "52 \<le> n" "n < 62" | "n = 62" | "n = 63" using assms by linarith
  then show ?thesis
  proof cases
    case 4
    then show ?thesis by (simp add: b64_val_def b64_char_def is_upper_def is_lower_def is_digit_def)
  next
    case 5
    then show ?thesis by (simp add: b64_val_def b64_char_def is_upper_def is_lower_def is_digit_def)
  qed (use b64_char_code in \<open>auto simp: b64_val_def is_upper_def is_lower_def is_digit_def\<close>)
qed

lemma b64_sextets_lt: "n \<in> set (b64_sextets b) \<Longrightarrow> n < 64"
proof (induction b rule: b64_sextets.induct)
  case (2 a)
  then show ?case using byte_div [of a] mod_less_divisor [of 4 "byte_val a"] by auto
next
  case (3 a b)
  have "byte_val a mod 4 \<le> 3" "byte_val b mod 16 \<le> 15" by (simp_all add: flip: less_Suc_eq_le)
  then show ?case using 3 byte_div [of a] byte_div [of b] by auto
next
  case (4 a b c rest)
  have "byte_val a mod 4 \<le> 3" "byte_val b mod 16 \<le> 15" by (simp_all add: flip: less_Suc_eq_le)
  then show ?case using 4 byte_div [of a] byte_div [of b] byte_div [of c] by auto
qed simp

lemma b64_bytes_sextets: "b64_bytes (b64_sextets b) = Some b"
proof (induction b rule: b64_sextets.induct)
  case (3 a b)
  then show ?case using byte_div [of b] by simp
next
  case (4 a b c rest)
  then show ?case using byte_div [of b] byte_div [of c] by simp
qed simp_all

lemma all_some_map: "\<forall>x\<in>set xs. f x = Some (g x) \<Longrightarrow> all_some (map f xs) = Some (map g xs)"
  by (induction xs) auto

lemma Decode_Encode [simp]: "DecodeString (EncodeToString b) = Some b"
proof -
  let ?c = "map b64_char (b64_sextets b)"
  have "\<forall>c\<in>set ?c. 32 < byte_val c" using b64_sextets_lt [of _ b] b64_val_char by auto
  then have "\<forall>c\<in>set ?c. c \<noteq> CHR 0x0A \<and> c \<noteq> CHR 0x0D" by auto
  then have f: "filter (\<lambda>c. c \<noteq> CHR 0x0A \<and> c \<noteq> CHR 0x0D) ?c = ?c" by (rule filter_True)
  have "all_some (map (\<lambda>n. b64_val (b64_char n)) (b64_sextets b)) = Some (map (\<lambda>n. n) (b64_sextets b))"
    using b64_sextets_lt [of _ b] b64_val_char by (intro all_some_map) blast
  then have "all_some (map b64_val ?c) = Some (b64_sextets b)" by (simp add: comp_def)
  then show ?thesis by (simp only: DecodeString_def EncodeToString_def f bind.bind_lunit b64_bytes_sextets)
qed

lemma length_EncodeToString: "3 * length (EncodeToString b) \<le> 4 * length b + 2"
  by (induction b rule: b64_sextets.induct) (simp_all add: EncodeToString_def)

end
