(* ===== verification/HubCursor.thy ===== *)
theory HubCursor
  imports HubWait Base64
begin

text \<open>
  The opaque read cursor (\<^verbatim>\<open>internal/hub/cursor.go\<close>): the delivery position a reader resumes from, bound to
  the agent it was issued to.  The log line about an unknown version is outside the model.
\<close>

definition cursorVersion :: string where "cursorVersion = ''v2''"
definition cursorSep :: char where "cursorSep = CHR ''|''"
definition MaxCursorLen :: nat where "MaxCursorLen = 512"

definition EncodeCursor :: "string \<Rightarrow> u64 \<Rightarrow> string" where
  "EncodeCursor agentID after =
     EncodeToString (cursorVersion @ [cursorSep] @ agentID @ [cursorSep] @ FormatUint after)"

definition DecodeCursor :: "string \<Rightarrow> string \<Rightarrow> hub_error + u64" where
  "DecodeCursor agentID cursor =
     (if cursor = [] then Inr 0
      else if MaxCursorLen < length cursor then Inl ErrInvalidCursor
      else bindR (orErr (DecodeString cursor) ErrInvalidCursor) (\<lambda>raw.
      let parts = split_on cursorSep raw in
      if length parts \<noteq> 3 then Inl ErrInvalidCursor
      else if parts ! 1 \<noteq> agentID then Inl ErrInvalidCursor
      else if parts ! 0 \<noteq> cursorVersion then Inr 0
      else if parts ! 2 = [] \<or> (1 < length (parts ! 2) \<and> parts ! 2 ! 0 = CHR ''0'') then Inl ErrInvalidCursor
      else wrapErr (\<lambda>_. ErrInvalidCursor) (ParseUint (parts ! 2))))"

lemma cursor_parts:
  assumes "cursorSep \<notin> set agentID"
  shows "split_on cursorSep (cursorVersion @ [cursorSep] @ agentID @ [cursorSep] @ FormatUint n) =
    [cursorVersion, agentID, FormatUint n]"
proof -
  have "cursorSep \<notin> set cursorVersion" "cursorSep \<notin> set (FormatUint n)"
    by (simp add: cursorVersion_def cursorSep_def) (rule FormatUint_no_char, simp add: cursorSep_def is_digit_def)
  then show ?thesis using assms by (simp add: split_on_append split_on_single)
qed

lemma split_on_one: "split_on c s = [p] \<Longrightarrow> s = p"
  by (induction c s arbitrary: p rule: split_on.induct) (auto split: if_splits list.splits)

lemma split_on_more: "split_on c s = p # q # ps \<Longrightarrow> \<exists>t. s = p @ c # t \<and> split_on c t = q # ps"
proof (induction c s arbitrary: p rule: split_on.induct)
  case (2 c x xs)
  then show ?case by (cases "split_on c xs") (auto split: if_splits)
qed simp

lemma split_on_three: "split_on c s = [p, q, r] \<Longrightarrow> s = p @ c # q @ c # r"
  by (auto dest!: split_on_more split_on_one)

lemma FormatUint_not_padded: "\<not> (1 < length (FormatUint n) \<and> FormatUint n ! 0 = CHR ''0'')"
proof (cases "n = 0")
  case True
  then show ?thesis by (simp add: FormatUint_def show_nat.simps)
next
  case False
  then show ?thesis using FormatUint_hd_zero [of n] FormatUint_neq_Nil [of n] by (auto simp: hd_conv_nth)
qed

lemma cursor_fits:
  assumes "is_ok (ParseAgentID agentID)"
  shows "length (EncodeCursor agentID n) \<le> MaxCursorLen" "cursorSep \<notin> set agentID" "EncodeCursor agentID n \<noteq> []"
proof -
  obtain b s k where a: "AgentID b s k = Inr agentID" using assms by (auto simp: is_ok_iff ParseAgentID_iff)
  have "length agentID \<le> MaxAgentIDLen" using length_AgentID [OF a] .
  then show "length (EncodeCursor agentID n) \<le> MaxCursorLen"
    using length_EncodeToString [of "cursorVersion @ [cursorSep] @ agentID @ [cursorSep] @ FormatUint n"] length_FormatUint [of n]
    by (simp add: EncodeCursor_def MaxCursorLen_def MaxAgentIDLen_def maxAgentNameLen_def cursorVersion_def)
  have "cursorSep \<notin> set (FormatUint k)" by (rule FormatUint_no_char) (simp add: cursorSep_def is_digit_def)
  moreover have "bus_id_matches b" "agent_name_matches s" "agentID = b @ [agentIDSep] @ s @ [agentSuffixSep] @ FormatUint k"
    using a by (auto simp: AgentID_ok_iff)
  ultimately show "cursorSep \<notin> set agentID"
    by (cases s) (auto simp: bus_id_matches_def list_all_iff bus_id_char_def name_head_char_def name_tail_char_def
        cursorSep_def agentIDSep_def agentSuffixSep_def is_upper_def is_lower_def is_digit_def)
  show "EncodeCursor agentID n \<noteq> []"
    by (simp add: EncodeCursor_def EncodeToString_def cursorVersion_def)
qed

lemma decode_issued:
  assumes "is_ok (ParseAgentID other)"
  shows "DecodeCursor agentID (EncodeCursor other n) = (if other = agentID then Inr n else Inl ErrInvalidCursor)"
proof -
  let ?raw = "cursorVersion @ [cursorSep] @ other @ [cursorSep] @ FormatUint n"
  define c where "c = EncodeCursor other n"
  have c: "DecodeString c = Some ?raw" "length c \<le> MaxCursorLen" "c \<noteq> []"
    using cursor_fits(1,3) [OF assms, of n] by (simp_all add: c_def EncodeCursor_def)
  obtain raw where raw: "DecodeString c = Some raw" "split_on cursorSep raw = [cursorVersion, other, FormatUint n]"
    using c(1) cursor_parts [OF cursor_fits(2) [OF assms], of n] by blast
  have "DecodeCursor agentID c = (if other \<noteq> agentID then Inl ErrInvalidCursor
      else if FormatUint n = [] \<or> (1 < length (FormatUint n) \<and> FormatUint n ! 0 = CHR ''0'') then Inl ErrInvalidCursor
      else wrapErr (\<lambda>_. ErrInvalidCursor) (ParseUint (FormatUint n)))"
    using c(2,3) raw unfolding DecodeCursor_def by (simp add: Let_def)
  then show ?thesis unfolding c_def [symmetric] using FormatUint_not_padded [of n] by auto
qed




end
