(* ===== verification/AckStore.thy ===== *)
theory AckStore
  imports AckRecord
begin

text \<open>
  The delivery lifecycle table (\<^verbatim>\<open>internal/ack/store.go\<close>, \<^verbatim>\<open>status.go\<close>).

  A Go map is an association list, a set of strings a list without repetition.  Each function
  here is one critical section of the mutex; the clock reading it uses is its argument.  The
  mutating calls decide under the mutex, write the durable record outside it and fold the
  record in under it again, so each is split into its first section (\<open>Accept\<close>, \<open>Settle\<close>,
  \<open>MarkInFlight\<close>), which ends the call or yields a transition in progress, and the
  sections that follow the write (\<open>foldIn\<close>, \<open>releaseWriteSlot\<close>, \<open>release\<close>).
\<close>

section \<open>State\<close>

record ack_store =
  as_durable :: bool
  as_maxEntries :: int
  as_retention :: int
  as_records :: "(ack_pair \<times> ack_record) list"
  as_expiry :: "(ack_pair \<times> time) list"
  as_expiryHead :: nat
  as_bySender :: "(string \<times> int) list"
  as_byCorrelation :: "(string \<times> string list) list"
  as_writes :: int
  as_writesBySender :: "(string \<times> int) list"
  as_inflight :: "ack_pair list"
  as_sweptEntries :: u64
  as_capacityRefusals :: u64
  as_lastCapacityLog :: time

definition Retention :: int where "Retention = PeerOutageBudget"
definition AckMaxRecordBytes :: int where "AckMaxRecordBytes = 1024"
definition AckMaxRetainedBytes :: int where "AckMaxRetainedBytes = 64 * 1048576"
definition AckMaxEntries :: int where "AckMaxEntries = AckMaxRetainedBytes div AckMaxRecordBytes"
definition capacityLogInterval :: int where "capacityLogInterval = 60 * sec_ns"

definition ack_NewStore :: "int \<Rightarrow> int \<Rightarrow> ack_store" where
  "ack_NewStore maxEntries retention =
     \<lparr>as_durable = False,
      as_maxEntries = (if maxEntries \<le> 0 then AckMaxEntries else maxEntries),
      as_retention = (if retention \<le> 0 then Retention else retention),
      as_records = [], as_expiry = [], as_expiryHead = 0, as_bySender = [], as_byCorrelation = [],
      as_writes = 0, as_writesBySender = [], as_inflight = [], as_sweptEntries = 0,
      as_capacityRefusals = 0, as_lastCapacityLog = 0\<rparr>"

text \<open>\<^verbatim>\<open>Attach\<close>; the argument says whether the log handed in is non-nil.\<close>

definition ack_Attach :: "bool \<Rightarrow> ack_store \<Rightarrow> (ack_error + unit) \<times> ack_store" where
  "ack_Attach d s =
     (if \<not> d then (Inl ErrNotDurable, s)
      else if as_durable s then (Inl AckAlreadyAttached, s)
      else (Inr (), s\<lparr>as_durable := True\<rparr>))"

section \<open>The indices\<close>

definition incI :: "string \<Rightarrow> (string \<times> int) list \<Rightarrow> (string \<times> int) list" where
  "incI k m = AList.update k (getI m k + 1) m"

definition decI :: "string \<Rightarrow> (string \<times> int) list \<Rightarrow> (string \<times> int) list" where
  "decI k m = (if getI m k - 1 \<le> 0 then AList.delete k m else AList.update k (getI m k - 1) m)"

definition indexAddLocked :: "ack_pair \<Rightarrow> ack_store \<Rightarrow> ack_store" where
  "indexAddLocked k s =
     s\<lparr>as_byCorrelation :=
        AList.update (fst k)
          (List.insert (snd k) (case map_of (as_byCorrelation s) (fst k) of None \<Rightarrow> [] | Some st \<Rightarrow> st))
          (as_byCorrelation s)\<rparr>"

definition indexRemoveLocked :: "ack_pair \<Rightarrow> ack_store \<Rightarrow> ack_store" where
  "indexRemoveLocked k s =
     (case map_of (as_byCorrelation s) (fst k) of
        None \<Rightarrow> s
      | Some st \<Rightarrow>
          (let st' = filter (\<lambda>x. x \<noteq> snd k) st in
           s\<lparr>as_byCorrelation :=
              (if st' = [] then AList.delete (fst k) (as_byCorrelation s)
               else AList.update (fst k) st' (as_byCorrelation s))\<rparr>))"

section \<open>Retention\<close>

definition pushExpiryLocked :: "time \<Rightarrow> ack_record \<Rightarrow> ack_store \<Rightarrow> ack_store" where
  "pushExpiryLocked now r s =
     (let a = (if anchor r = 0 then now else anchor r) in
      s\<lparr>as_expiry := as_expiry s @ [(ack_key r, a + as_retention s)]\<rparr>)"

definition compactExpiryLocked :: "ack_store \<Rightarrow> ack_store" where
  "compactExpiryLocked s =
     (let live = length (as_expiry s) - as_expiryHead s in
      if live = 0 then s\<lparr>as_expiry := [], as_expiryHead := 0\<rparr>
      else if as_expiryHead s < live then s
      else s\<lparr>as_expiry := drop (as_expiryHead s) (as_expiry s), as_expiryHead := 0\<rparr>)"

definition delLocked :: "ack_pair \<Rightarrow> ack_store \<Rightarrow> ack_store" where
  "delLocked k s =
     (case map_of (as_records s) k of
        None \<Rightarrow> s
      | Some r \<Rightarrow>
          (let s1 = indexRemoveLocked k (s\<lparr>as_records := AList.delete k (as_records s)\<rparr>) in
           s1\<lparr>as_bySender := decI (ar_Sender r) (as_bySender s1)\<rparr>))"

definition pop_entry :: "time \<Rightarrow> ack_pair \<Rightarrow> ack_store \<Rightarrow> ack_store" where
  "pop_entry now k s =
     (let s1 = s\<lparr>as_sweptEntries := as_sweptEntries s + 1\<rparr>;
          s2 = (case map_of (as_records s1) k of
                  None \<Rightarrow> s1
                | Some r \<Rightarrow> if ack_Expired r now (as_retention s1) then delLocked k s1 else s1)
      in s2\<lparr>as_expiryHead := as_expiryHead s2 + 1\<rparr>)"

fun sweep_loop :: "time \<Rightarrow> (ack_pair \<times> time) list \<Rightarrow> ack_store \<Rightarrow> ack_store" where
  "sweep_loop now [] s = s"
| "sweep_loop now ((k, deadline) # rest) s =
     (if now < deadline then s else sweep_loop now rest (pop_entry now k s))"

definition zero_entry :: "ack_pair \<times> time" where "zero_entry = (([], []), 0)"

definition zero_entries :: "nat \<Rightarrow> nat \<Rightarrow> (ack_pair \<times> time) list \<Rightarrow> (ack_pair \<times> time) list" where
  "zero_entries a b xs = take a xs @ replicate (min b (length xs) - a) zero_entry @ drop (max a b) xs"

definition sweepLocked :: "time \<Rightarrow> ack_store \<Rightarrow> ack_store" where
  "sweepLocked now s =
     (let s' = sweep_loop now (drop (as_expiryHead s) (as_expiry s)) s in
      if as_expiryHead s' = as_expiryHead s then s'
      else compactExpiryLocked
             (s'\<lparr>as_expiry := zero_entries (as_expiryHead s) (as_expiryHead s') (as_expiry s')\<rparr>))"

section \<open>Insertion and transition\<close>

definition putLocked :: "time \<Rightarrow> ack_pair \<Rightarrow> ack_record \<Rightarrow> ack_store \<Rightarrow> ack_store" where
  "putLocked now k r s =
     (let prev = map_of (as_records s) k;
          s1 = (if prev = None
                then indexAddLocked k (s\<lparr>as_bySender := incI (ar_Sender r) (as_bySender s)\<rparr>) else s);
          s2 = s1\<lparr>as_records := AList.update k r (as_records s1)\<rparr>
      in case prev of
           None \<Rightarrow> pushExpiryLocked now r s2
         | Some p \<Rightarrow> if Terminal (ar_State r) \<and> \<not> Terminal (ar_State p)
                     then pushExpiryLocked now r s2 else s2)"

definition same_outcome :: "ack_record \<Rightarrow> ack_record \<Rightarrow> bool" where
  "same_outcome a b \<longleftrightarrow> ar_State a = ar_State b \<and> ar_Class a = ar_Class b \<and> ar_AttestedBy a = ar_AttestedBy b"

definition upsertLocked :: "ack_record \<Rightarrow> time \<Rightarrow> bool \<Rightarrow> ack_store \<Rightarrow> (ack_error + unit) \<times> ack_store" where
  "upsertLocked r now enforceCap s0 =
     (let s = sweepLocked now s0; k = ack_key r in
      case map_of (as_records s) k of
        None \<Rightarrow>
          if enforceCap \<and> as_maxEntries s \<le> int (length (as_records s)) then (Inl ErrAckCapacity, s)
          else (Inr (), putLocked now k r s)
      | Some existing \<Rightarrow>
          if ar_Sender existing \<noteq> ar_Sender r then (Inl ErrInvalidAckRecord, s)
          else if same_outcome existing r then (Inr (), s)
          else if Terminal (ar_State existing) then (Inl ErrTerminal, s)
          else if rank (ar_State r) \<le> rank (ar_State existing) then (Inl ErrInvalidAckRecord, s)
          else (Inr (), putLocked now k (r\<lparr>ar_AcceptedAt := ar_AcceptedAt existing\<rparr>) s))"

definition foldIn :: "time \<Rightarrow> ack_record \<Rightarrow> ack_store \<Rightarrow> ack_store" where
  "foldIn now r s = snd (upsertLocked r now False s)"

text \<open>\<^verbatim>\<open>Apply\<close> on an entry of kind \<open>ack\<close> whose body has the given JSON members.\<close>

definition ack_Apply :: "time \<Rightarrow> recordJSON \<Rightarrow> ack_store \<Rightarrow> ack_store" where
  "ack_Apply now body s =
     (case ack_DecodeRecord body of Inl _ \<Rightarrow> s | Inr r \<Rightarrow> snd (upsertLocked r now True s))"

section \<open>Admission and reservations\<close>

definition ack_pressureLine :: "ack_store \<Rightarrow> int" where
  "ack_pressureLine s = as_maxEntries s div 2"

definition refuseLocked :: "time \<Rightarrow> ack_store \<Rightarrow> ack_store" where
  "refuseLocked now s =
     (let s1 = s\<lparr>as_capacityRefusals := as_capacityRefusals s + 1\<rparr> in
      if as_lastCapacityLog s1 \<noteq> 0 \<and> time_sub now (as_lastCapacityLog s1) < capacityLogInterval then s1
      else s1\<lparr>as_lastCapacityLog := now\<rparr>)"

definition admitLocked :: "ack_record \<Rightarrow> time \<Rightarrow> ack_store \<Rightarrow> (ack_error + unit) \<times> ack_store" where
  "admitLocked r now s =
     (let held = int (length (as_records s)) + as_writes s in
      if as_maxEntries s \<le> held then (Inl ErrAckCapacity, refuseLocked now s)
      else if held < ack_pressureLine s then (Inr (), s)
      else
        let share = as_maxEntries s div (int (length (as_bySender s)) + 1);
            senderHeld = getI (as_bySender s) (ar_Sender r) + getI (as_writesBySender s) (ar_Sender r)
        in if share \<le> senderHeld then (Inl ErrAckQuota, refuseLocked now s) else (Inr (), s))"

definition reserveLocked :: "ack_pair \<Rightarrow> ack_store \<Rightarrow> (ack_error + unit) \<times> ack_store" where
  "reserveLocked k s =
     (if k \<in> set (as_inflight s) then (Inl ErrConcurrentTransition, s)
      else (Inr (), s\<lparr>as_inflight := k # as_inflight s\<rparr>))"

definition release :: "ack_pair \<Rightarrow> ack_store \<Rightarrow> ack_store" where
  "release k s = s\<lparr>as_inflight := filter (\<lambda>x. x \<noteq> k) (as_inflight s)\<rparr>"

definition releaseWriteSlot :: "string \<Rightarrow> ack_store \<Rightarrow> ack_store" where
  "releaseWriteSlot sender s =
     s\<lparr>as_writes := as_writes s - 1, as_writesBySender := decI sender (as_writesBySender s)\<rparr>"

definition validatePair :: "string \<Rightarrow> string \<Rightarrow> ack_error + ack_pair" where
  "validatePair correlationKey recipient =
     bindR (validateMessageID correlationKey) (\<lambda>_.
     bindR (validateAgentID recipient) (\<lambda>_. Inr (correlationKey, recipient)))"

section \<open>The calls\<close>

text \<open>
  The first section either ends the call or leaves a transition in progress: the record, whether
  a write slot is held for it, and how far the call has come.  \<open>Encoding\<close>: the record is to be
  encoded; \<open>Writing\<close>: the durable write is under way; \<open>Applied\<close>: the log has handed the entry to
  \<^verbatim>\<open>Apply\<close>; \<open>Unwinding\<close> and \<open>Releasing\<close>: the deferred calls are left.
\<close>

datatype phase = Encoding | Writing recordJSON | Applied | Unwinding | Releasing

record transition =
  tr_record :: ack_record
  tr_slot :: bool
  tr_phase :: phase

datatype call = Done "ack_error + unit" | Pending transition

definition ack_Accept :: "time \<Rightarrow> string \<Rightarrow> string \<Rightarrow> string \<Rightarrow> ack_store \<Rightarrow> call \<times> ack_store" where
  "ack_Accept now correlationKey sender recipient s0 =
     (if \<not> as_durable s0 then (Done (Inl ErrNotDurable), s0)
      else
      let rec = \<lparr>ar_CorrelationKey = correlationKey, ar_Recipient = recipient, ar_Sender = sender,
                 ar_State = StateAccepted, ar_Class = [], ar_AttestedBy = [],
                 ar_AcceptedAt = now, ar_SettledAt = 0\<rparr>
      in case ack_canonical rec of
        Inl e \<Rightarrow> (Done (Inl e), s0)
      | Inr (canon, body) \<Rightarrow>
          (let k = ack_key canon; s = sweepLocked now s0 in
           if map_of (as_records s) k \<noteq> None then (Done (Inr ()), s)
           else case admitLocked canon now s of
             (Inl e, s1) \<Rightarrow> (Done (Inl e), s1)
           | (Inr _, s1) \<Rightarrow>
             (case reserveLocked k s1 of
                (Inl e, s2) \<Rightarrow> (Done (Inl e), s2)
              | (Inr _, s2) \<Rightarrow>
                  (Pending \<lparr>tr_record = canon, tr_slot = True, tr_phase = Writing body\<rparr>,
                   s2\<lparr>as_writes := as_writes s2 + 1,
                      as_writesBySender := incI (ar_Sender canon) (as_writesBySender s2)\<rparr>))))"

text \<open>
  After the reservation \<^verbatim>\<open>Settle\<close> and \<^verbatim>\<open>MarkInFlight\<close> encode the record outside the mutex; an
  encoding error ends the call with the reservation still to be released.
\<close>

definition encode_reserved :: "transition \<Rightarrow> transition" where
  "encode_reserved tr =
     (case ack_canonical (tr_record tr) of
        Inl e \<Rightarrow> tr\<lparr>tr_phase := Unwinding\<rparr>
      | Inr (canon, body) \<Rightarrow> tr\<lparr>tr_record := canon, tr_phase := Writing body\<rparr>)"

definition ack_Settle :: "time \<Rightarrow> string \<Rightarrow> string \<Rightarrow> ack_state \<Rightarrow> string \<Rightarrow> string \<Rightarrow> ack_store \<Rightarrow> call \<times> ack_store" where
  "ack_Settle now correlationKey recipient state cls attestedBy s0 =
     (if \<not> as_durable s0 then (Done (Inl ErrNotDurable), s0)
      else if \<not> Terminal state then (Done (Inl ErrInvalidAckRecord), s0)
      else case validatePair correlationKey recipient of
        Inl e \<Rightarrow> (Done (Inl e), s0)
      | Inr k \<Rightarrow>
          (let s = sweepLocked now s0 in
           case map_of (as_records s) k of
             None \<Rightarrow> (Done (Inl ErrNoRecord), s)
           | Some existing \<Rightarrow>
               if Terminal (ar_State existing)
               then (if ar_State existing = state \<and> ar_Class existing = cls \<and> ar_AttestedBy existing = attestedBy
                     then (Done (Inr ()), s) else (Done (Inl ErrTerminal), s))
               else case reserveLocked k s of
                 (Inl e, s1) \<Rightarrow> (Done (Inl e), s1)
               | (Inr _, s1) \<Rightarrow>
                   (Pending \<lparr>tr_record =
                     \<lparr>ar_CorrelationKey = ar_CorrelationKey existing, ar_Recipient = ar_Recipient existing,
                      ar_Sender = ar_Sender existing, ar_State = state, ar_Class = cls,
                      ar_AttestedBy = attestedBy, ar_AcceptedAt = ar_AcceptedAt existing,
                      ar_SettledAt = now\<rparr>, tr_slot = False, tr_phase = Encoding\<rparr>, s1)))"

definition ack_MarkInFlight :: "time \<Rightarrow> string \<Rightarrow> string \<Rightarrow> ack_store \<Rightarrow> call \<times> ack_store" where
  "ack_MarkInFlight now correlationKey recipient s0 =
     (if \<not> as_durable s0 then (Done (Inl ErrNotDurable), s0)
      else case validatePair correlationKey recipient of
        Inl e \<Rightarrow> (Done (Inl e), s0)
      | Inr k \<Rightarrow>
          (let s = sweepLocked now s0 in
           case map_of (as_records s) k of
             None \<Rightarrow> (Done (Inl ErrNoRecord), s)
           | Some existing \<Rightarrow>
               if ar_State existing = StateInFlight then (Done (Inr ()), s)
               else if Terminal (ar_State existing) then (Done (Inr ()), s)
               else case reserveLocked k s of
                 (Inl e, s1) \<Rightarrow> (Done (Inl e), s1)
               | (Inr _, s1) \<Rightarrow>
                   (Pending \<lparr>tr_record = existing\<lparr>ar_State := StateInFlight\<rparr>, tr_slot = False,
                             tr_phase = Encoding\<rparr>, s1)))"

definition ack_Lookup :: "time \<Rightarrow> string \<Rightarrow> string \<Rightarrow> ack_store \<Rightarrow> ack_record option \<times> ack_store" where
  "ack_Lookup now correlationKey recipient s =
     (case validatePair correlationKey recipient of
        Inl _ \<Rightarrow> (None, s)
      | Inr k \<Rightarrow> (let s' = sweepLocked now s in (map_of (as_records s') k, s')))"

definition ack_Len :: "time \<Rightarrow> ack_store \<Rightarrow> int \<times> ack_store" where
  "ack_Len now s = (let s' = sweepLocked now s in (int (length (as_records s')), s'))"

record ack_stats =
  ak_Entries :: int
  ak_MaxEntries :: int
  ak_Senders :: int
  ak_UnderPressure :: bool
  ak_CapacityRefusals :: u64

definition ack_Stats :: "time \<Rightarrow> ack_store \<Rightarrow> ack_stats \<times> ack_store" where
  "ack_Stats now s =
     (let s' = sweepLocked now s in
      (\<lparr>ak_Entries = int (length (as_records s')), ak_MaxEntries = as_maxEntries s',
        ak_Senders = int (length (as_bySender s')),
        ak_UnderPressure = (ack_pressureLine s' \<le> int (length (as_records s')) + as_writes s'),
        ak_CapacityRefusals = as_capacityRefusals s'\<rparr>, s'))"

definition StatusRows :: "time \<Rightarrow> string \<Rightarrow> string \<Rightarrow> ack_store \<Rightarrow> ack_record list \<times> ack_store" where
  "StatusRows now correlationKey sender s =
     (if validateMessageID correlationKey \<noteq> Inr () then ([], s)
      else if validateAgentID sender \<noteq> Inr () then ([], s)
      else
        let s' = sweepLocked now s;
            st = (case map_of (as_byCorrelation s') correlationKey of None \<Rightarrow> [] | Some st \<Rightarrow> st);
            out = filter (\<lambda>r. ar_Sender r = sender)
                    (List.map_filter (\<lambda>recipient. map_of (as_records s') (correlationKey, recipient)) st)
        in (sort_key ar_Recipient out, s'))"

section \<open>The invariant\<close>

text \<open>
  The table seen as a finite map, and what the counters, the index and the retention queue have
  to say about it: each sender's counter is the number of its rows, each correlation key's set
  is the recipients with a row under it, and every row has a live queue entry at its deadline.
\<close>

abbreviation row :: "ack_store \<Rightarrow> ack_pair \<rightharpoonup> ack_record" where
  "row s \<equiv> map_of (as_records s)"

definition sender_keys :: "(ack_pair \<rightharpoonup> ack_record) \<Rightarrow> string \<Rightarrow> ack_pair set" where
  "sender_keys m b = {k. \<exists>r. m k = Some r \<and> ar_Sender r = b}"

definition counts_ok :: "(string \<times> int) list \<Rightarrow> (string \<Rightarrow> nat) \<Rightarrow> bool" where
  "counts_ok cs n \<longleftrightarrow> distinct (map fst cs) \<and>
     (\<forall>b. map_of cs b = (if n b = 0 then None else Some (int (n b))))"

definition corr_ok :: "(ack_pair \<rightharpoonup> ack_record) \<Rightarrow> (string \<times> string list) list \<Rightarrow> bool" where
  "corr_ok m bc \<longleftrightarrow> (\<forall>ck. case map_of bc ck of
       None \<Rightarrow> \<forall>rcp. m (ck, rcp) = None
     | Some st \<Rightarrow> st \<noteq> [] \<and> distinct st \<and> set st = {rcp. m (ck, rcp) \<noteq> None})"

definition rows_ok :: "(ack_pair \<rightharpoonup> ack_record) \<Rightarrow> bool" where
  "rows_ok m \<longleftrightarrow> (\<forall>k r. m k = Some r \<longrightarrow> k = ack_key r \<and> ack_validate r = Inr ())"

definition queue_ok :: "int \<Rightarrow> (ack_pair \<rightharpoonup> ack_record) \<Rightarrow> (ack_pair \<times> time) list \<Rightarrow> bool" where
  "queue_ok ret m q \<longleftrightarrow> (\<forall>k r. m k = Some r \<longrightarrow> (k, anchor r + ret) \<in> set q)"

definition ack_core :: "(ack_pair \<times> time) list \<Rightarrow> ack_store \<Rightarrow> bool" where
  "ack_core q s \<longleftrightarrow> distinct (map fst (as_records s)) \<and> rows_ok (row s) \<and>
     counts_ok (as_bySender s) (\<lambda>b. card (sender_keys (row s) b)) \<and>
     corr_ok (row s) (as_byCorrelation s) \<and> queue_ok (as_retention s) (row s) q"

abbreviation live_entries :: "ack_store \<Rightarrow> (ack_pair \<times> time) list" where
  "live_entries s \<equiv> drop (as_expiryHead s) (as_expiry s)"

definition ack_inv :: "ack_store \<Rightarrow> bool" where
  "ack_inv s \<longleftrightarrow> ack_core (live_entries s) s \<and> as_expiryHead s \<le> length (as_expiry s) \<and>
     (as_expiryHead s = 0 \<or> as_expiryHead s < length (live_entries s)) \<and> 0 < as_maxEntries s"

lemmas ack_inv_defs = ack_inv_def ack_core_def

lemma getI_counts: "counts_ok cs n \<Longrightarrow> getI cs b = int (n b)"
  by (simp add: counts_ok_def getI_def)

lemma counts_incI: "counts_ok cs n \<Longrightarrow> counts_ok (incI b cs) (n(b := Suc (n b)))"
  using getI_counts [of cs n b]
  by (auto simp: counts_ok_def incI_def update_conv distinct_update)

lemma counts_decI: "counts_ok cs n \<Longrightarrow> 0 < n b \<Longrightarrow> counts_ok (decI b cs) (n(b := n b - 1))"
  using getI_counts [of cs n b]
  by (auto simp: counts_ok_def decI_def update_conv delete_conv distinct_update distinct_delete)

lemma sender_keys_finite [simp]: "finite (sender_keys (map_of al) b)"
  by (rule finite_subset [OF _ finite_dom_map_of [of al]]) (auto simp: sender_keys_def)

lemma sender_keys_del:
  "m k = Some r \<Longrightarrow> sender_keys (m(k := None)) b =
     (if b = ar_Sender r then sender_keys m b - {k} else sender_keys m b)"
  by (auto simp: sender_keys_def)

lemma sender_keys_new:
  "m k = None \<Longrightarrow> sender_keys (m(k \<mapsto> r)) b =
     (if b = ar_Sender r then insert k (sender_keys m b) else sender_keys m b)"
  by (auto simp: sender_keys_def)

lemma sender_keys_replace:
  "m k = Some p \<Longrightarrow> ar_Sender r = ar_Sender p \<Longrightarrow> sender_keys (m(k \<mapsto> r)) b = sender_keys m b"
  by (auto simp: sender_keys_def)

lemma card_sender_del:
  "row s k = Some r \<Longrightarrow> (\<lambda>b. card (sender_keys ((row s)(k := None)) b)) =
     (\<lambda>b. card (sender_keys (row s) b))(ar_Sender r := card (sender_keys (row s) (ar_Sender r)) - 1)"
  by (rule ext) (simp add: sender_keys_del, simp add: sender_keys_def)

lemma card_sender_new:
  "row s k = None \<Longrightarrow> (\<lambda>b. card (sender_keys ((row s)(k \<mapsto> r)) b)) =
     (\<lambda>b. card (sender_keys (row s) b))(ar_Sender r := Suc (card (sender_keys (row s) (ar_Sender r))))"
  using sender_keys_finite [of "as_records s" "ar_Sender r"]
  by (intro ext) (simp add: sender_keys_new card_insert_if, simp add: sender_keys_def)

lemma length_records: "ack_core q s \<Longrightarrow> length (as_records s) = card (dom (row s))"
  by (metis ack_core_def distinct_card dom_map_of_conv_image_fst length_map set_map)

section \<open>Deleting and sweeping\<close>

lemma indexRemove_byCorrelation:
  "as_byCorrelation (indexRemoveLocked k s) =
     (case map_of (as_byCorrelation s) (fst k) of None \<Rightarrow> as_byCorrelation s
      | Some st \<Rightarrow> (if filter (\<lambda>x. x \<noteq> snd k) st = [] then AList.delete (fst k) (as_byCorrelation s)
         else AList.update (fst k) (filter (\<lambda>x. x \<noteq> snd k) st) (as_byCorrelation s)))"
  by (simp add: indexRemoveLocked_def Let_def split: option.split)

lemma indexRemove_frame [simp]:
  "as_records (indexRemoveLocked k s) = as_records s"
  "as_bySender (indexRemoveLocked k s) = as_bySender s"
  "as_expiry (indexRemoveLocked k s) = as_expiry s"
  "as_expiryHead (indexRemoveLocked k s) = as_expiryHead s"
  "as_retention (indexRemoveLocked k s) = as_retention s"
  "as_maxEntries (indexRemoveLocked k s) = as_maxEntries s"
  "as_durable (indexRemoveLocked k s) = as_durable s"
  "as_writes (indexRemoveLocked k s) = as_writes s"
  "as_writesBySender (indexRemoveLocked k s) = as_writesBySender s"
  "as_inflight (indexRemoveLocked k s) = as_inflight s"
  by (simp_all add: indexRemoveLocked_def Let_def split: option.split)

lemma corr_ok_remove:
  assumes "corr_ok m (as_byCorrelation s)" "m k \<noteq> None"
  shows "corr_ok (m(k := None)) (as_byCorrelation (indexRemoveLocked k s))"
proof -
  obtain ck rcp where k: "k = (ck, rcp)" by fastforce
  have "map_of (as_byCorrelation s) ck \<noteq> None"
    using assms(1) [unfolded corr_ok_def, rule_format, of ck] assms(2) k by (auto split: option.splits)
  then obtain st where st: "map_of (as_byCorrelation s) ck = Some st" "distinct st"
    "set st = {x. m (ck, x) \<noteq> None}"
    using assms(1) [unfolded corr_ok_def, rule_format, of ck] by auto
  have "corr_ok (m(k := None)) (if filter (\<lambda>x. x \<noteq> rcp) st = [] then AList.delete ck (as_byCorrelation s)
         else AList.update ck (filter (\<lambda>x. x \<noteq> rcp) st) (as_byCorrelation s))"
    unfolding corr_ok_def
  proof
    fix c
    show "case map_of (if filter (\<lambda>x. x \<noteq> rcp) st = [] then AList.delete ck (as_byCorrelation s)
         else AList.update ck (filter (\<lambda>x. x \<noteq> rcp) st) (as_byCorrelation s)) c of
         None \<Rightarrow> \<forall>x. (m(k := None)) (c, x) = None
       | Some st \<Rightarrow> st \<noteq> [] \<and> distinct st \<and> set st = {x. (m(k := None)) (c, x) \<noteq> None}"
    proof (cases "c = ck")
      case True
      then show ?thesis
        using st by (auto simp: k delete_conv update_conv filter_empty_conv)
    next
      case False
      then show ?thesis
        using assms(1) [unfolded corr_ok_def, rule_format, of c]
        by (auto simp: k delete_conv update_conv split: option.splits)
    qed
  qed
  then show ?thesis
    by (simp add: indexRemove_byCorrelation k st split: if_splits)
qed

lemma delLocked_frame [simp]:
  "as_expiry (delLocked k s) = as_expiry s" "as_expiryHead (delLocked k s) = as_expiryHead s"
  "as_retention (delLocked k s) = as_retention s" "as_maxEntries (delLocked k s) = as_maxEntries s"
  "as_durable (delLocked k s) = as_durable s" "as_writes (delLocked k s) = as_writes s"
  "as_writesBySender (delLocked k s) = as_writesBySender s"
  "as_inflight (delLocked k s) = as_inflight s"
  by (simp_all add: delLocked_def Let_def split: option.split)

lemma row_delLocked [simp]: "row (delLocked k s) = (row s)(k := None)"
  by (auto simp: delLocked_def Let_def delete_conv split: option.split)

lemma delLocked_core:
  assumes "ack_core q s" shows "ack_core q (delLocked k s)"
proof (cases "row s k")
  case None
  then show ?thesis using assms by (simp add: delLocked_def)
next
  case (Some r)
  have c: "counts_ok (as_bySender s) (\<lambda>b. card (sender_keys (row s) b))"
    using assms by (simp add: ack_core_def)
  have "k \<in> sender_keys (row s) (ar_Sender r)"
    using Some by (simp add: sender_keys_def)
  then have "0 < card (sender_keys (row s) (ar_Sender r))"
    by (auto simp: card_gt_0_iff)
  from counts_decI [OF c this]
  have "counts_ok (as_bySender (delLocked k s)) (\<lambda>b. card (sender_keys ((row s)(k := None)) b))"
    using Some by (simp add: delLocked_def Let_def card_sender_del)
  moreover have "corr_ok ((row s)(k := None)) (as_byCorrelation (delLocked k s))"
    using corr_ok_remove [of "row s" "s\<lparr>as_records := AList.delete k (as_records s)\<rparr>" k] assms Some
    by (simp add: delLocked_def Let_def ack_core_def)
  moreover have "distinct (map fst (as_records (delLocked k s)))"
    using assms Some by (simp add: delLocked_def Let_def ack_core_def distinct_delete)
  ultimately show ?thesis
    using assms by (auto simp: ack_core_def rows_ok_def queue_ok_def)
qed

lemma pop_entry_frame [simp]:
  "as_expiry (pop_entry now k s) = as_expiry s"
  "as_expiryHead (pop_entry now k s) = Suc (as_expiryHead s)"
  "as_retention (pop_entry now k s) = as_retention s" "as_maxEntries (pop_entry now k s) = as_maxEntries s"
  "as_durable (pop_entry now k s) = as_durable s" "as_writes (pop_entry now k s) = as_writes s"
  "as_writesBySender (pop_entry now k s) = as_writesBySender s"
  "as_inflight (pop_entry now k s) = as_inflight s"
  by (simp_all add: pop_entry_def Let_def split: option.split)

lemma row_pop_entry:
  "row (pop_entry now k s) =
     (case row s k of None \<Rightarrow> row s
      | Some r \<Rightarrow> if ack_Expired r now (as_retention s) then (row s)(k := None) else row s)"
  by (simp add: pop_entry_def Let_def split: option.split)

lemma ack_core_frame:
  "as_records s' = as_records s \<Longrightarrow> as_bySender s' = as_bySender s \<Longrightarrow>
     as_byCorrelation s' = as_byCorrelation s \<Longrightarrow> as_retention s' = as_retention s \<Longrightarrow>
     ack_core q s' = ack_core q s"
  by (simp add: ack_core_def)

lemma pop_entry_core:
  assumes "ack_core ((k, d) # q) s" "d \<le> now" shows "ack_core q (pop_entry now k s)"
proof -
  define s1 where "s1 = s\<lparr>as_sweptEntries := as_sweptEntries s + 1\<rparr>"
  have c1: "ack_core ((k, d) # q) s1"
    using assms(1) by (subst ack_core_frame [of s1 s]) (simp_all add: s1_def)
  have shrink: "ack_core q t" if "ack_core ((k, d) # q) t"
    "\<forall>r. row t k = Some r \<longrightarrow> now < anchor r + as_retention t" for t
    using that assms(2) unfolding ack_core_def queue_ok_def by fastforce
  have "ack_core q (case row s1 k of None \<Rightarrow> s1
      | Some r \<Rightarrow> if ack_Expired r now (as_retention s1) then delLocked k s1 else s1)"
  proof (cases "row s1 k")
    case None
    then show ?thesis using shrink [OF c1] by simp
  next
    case (Some r)
    then have v: "ack_validate r = Inr ()" using c1 unfolding ack_core_def rows_ok_def by blast
    show ?thesis
      using shrink [OF c1] shrink [OF delLocked_core [OF c1, of k]] Some Expired_iff [OF v]
      by auto
  qed
  then show ?thesis
    by (subst (asm) ack_core_frame [of "pop_entry now k s", symmetric])
      (simp_all add: pop_entry_def Let_def flip: s1_def)
qed

text \<open>What a run of the loop over the queue \<open>q\<close> has done when it stops after \<open>n\<close> pops.\<close>

definition swept_rows :: "time \<Rightarrow> ack_store \<Rightarrow> ack_store \<Rightarrow> bool" where
  "swept_rows now s s' \<longleftrightarrow>
     (\<forall>k. row s' k = row s k \<or>
        row s' k = None \<and> (\<exists>r. row s k = Some r \<and> ack_Expired r now (as_retention s))) \<and>
     as_retention s' = as_retention s \<and> as_maxEntries s' = as_maxEntries s \<and>
     as_durable s' = as_durable s \<and> as_writes s' = as_writes s \<and>
     as_writesBySender s' = as_writesBySender s \<and> as_inflight s' = as_inflight s"

lemma swept_rows_refl [simp]: "swept_rows now s s"
  by (simp add: swept_rows_def)

lemma swept_rows_pop: "swept_rows now s (pop_entry now k s)"
  by (auto simp: swept_rows_def row_pop_entry split: option.splits)

lemma swept_rows_trans:
  assumes "swept_rows now s t" "swept_rows now t u" shows "swept_rows now s u"
proof -
  have "row u k = row s k \<or> row u k = None \<and> (\<exists>r. row s k = Some r \<and> ack_Expired r now (as_retention s))" for k
  proof -
    have "row t k = row s k \<or> row t k = None \<and> (\<exists>r. row s k = Some r \<and> ack_Expired r now (as_retention s))"
      "row u k = row t k \<or> row u k = None \<and> (\<exists>r. row t k = Some r \<and> ack_Expired r now (as_retention t))"
      "as_retention t = as_retention s"
      using assms unfolding swept_rows_def by blast+
    then show ?thesis by (metis option.distinct(1))
  qed
  then show ?thesis using assms by (simp add: swept_rows_def)
qed

lemma sweep_loop_props:
  "\<exists>n\<le>length q. as_expiryHead (sweep_loop now q s) = as_expiryHead s + n \<and>
     as_expiry (sweep_loop now q s) = as_expiry s \<and> swept_rows now s (sweep_loop now q s) \<and>
     (ack_core q s \<longrightarrow> ack_core (drop n q) (sweep_loop now q s)) \<and>
     (drop n q = [] \<or> now < snd (hd (drop n q)))"
proof (induction q arbitrary: s)
  case Nil
  then show ?case by simp
next
  case (Cons e q)
  obtain k d where e: "e = (k, d)" by fastforce
  show ?case
  proof (cases "now < d")
    case True
    then show ?thesis by (intro exI [of _ 0]) (simp add: e)
  next
    case False
    from Cons.IH [of "pop_entry now k s"] obtain n where n: "n \<le> length q"
      "as_expiryHead (sweep_loop now q (pop_entry now k s)) = as_expiryHead (pop_entry now k s) + n"
      "as_expiry (sweep_loop now q (pop_entry now k s)) = as_expiry (pop_entry now k s)"
      "swept_rows now (pop_entry now k s) (sweep_loop now q (pop_entry now k s))"
      "ack_core q (pop_entry now k s) \<longrightarrow> ack_core (drop n q) (sweep_loop now q (pop_entry now k s))"
      "drop n q = [] \<or> now < snd (hd (drop n q))"
      by blast
    have "ack_core (e # q) s \<longrightarrow> ack_core (drop n q) (sweep_loop now q (pop_entry now k s))"
      using n(5) pop_entry_core [of k d q s now] False by (auto simp: e)
    then show ?thesis
      using n False swept_rows_trans [OF swept_rows_pop n(4)]
      by (intro exI [of _ "Suc n"]) (simp add: e)
  qed
qed

lemma drop_zero_entries: "a \<le> b \<Longrightarrow> b \<le> length xs \<Longrightarrow> drop b (zero_entries a b xs) = drop b xs"
  by (simp add: zero_entries_def max_def min_def)

lemma length_zero_entries: "a \<le> b \<Longrightarrow> b \<le> length xs \<Longrightarrow> length (zero_entries a b xs) = length xs"
  by (auto simp: zero_entries_def max_def min_def)

lemma compactExpiry_live:
  "as_expiryHead s \<le> length (as_expiry s) \<Longrightarrow>
     live_entries (compactExpiryLocked s) = live_entries s \<and>
     as_expiryHead (compactExpiryLocked s) \<le> length (as_expiry (compactExpiryLocked s)) \<and>
     (as_expiryHead (compactExpiryLocked s) = 0 \<or>
      as_expiryHead (compactExpiryLocked s) < length (live_entries (compactExpiryLocked s)))"
  by (auto simp: compactExpiryLocked_def Let_def)

lemma compactExpiry_frame [simp]:
  "as_records (compactExpiryLocked s) = as_records s"
  "as_bySender (compactExpiryLocked s) = as_bySender s"
  "as_byCorrelation (compactExpiryLocked s) = as_byCorrelation s"
  "as_retention (compactExpiryLocked s) = as_retention s"
  "as_maxEntries (compactExpiryLocked s) = as_maxEntries s"
  "as_durable (compactExpiryLocked s) = as_durable s"
  "as_writes (compactExpiryLocked s) = as_writes s"
  "as_writesBySender (compactExpiryLocked s) = as_writesBySender s"
  "as_inflight (compactExpiryLocked s) = as_inflight s"
  by (simp_all add: compactExpiryLocked_def Let_def)

lemma ack_core_compact [simp]: "ack_core q (compactExpiryLocked s) = ack_core q s"
  by (rule ack_core_frame) simp_all

lemma sweepLocked_rows: "swept_rows now s (sweepLocked now s)"
proof -
  obtain n where "swept_rows now s (sweep_loop now (live_entries s) s)"
    using sweep_loop_props [of "live_entries s" now s] by blast
  then show ?thesis by (simp add: sweepLocked_def Let_def swept_rows_def)
qed

lemma sweepLocked_props:
  assumes "ack_inv s"
  shows "ack_inv (sweepLocked now s) \<and>
    (\<exists>n. live_entries (sweepLocked now s) = drop n (live_entries s) \<and>
       (live_entries (sweepLocked now s) = [] \<or> now < snd (hd (live_entries (sweepLocked now s)))))"
proof -
  define t where "t = sweep_loop now (live_entries s) s"
  have i: "ack_core (live_entries s) s" "as_expiryHead s \<le> length (as_expiry s)"
    "as_expiryHead s = 0 \<or> as_expiryHead s < length (live_entries s)" "0 < as_maxEntries s"
    using assms by (simp_all add: ack_inv_def)
  obtain n where n: "n \<le> length (live_entries s)" "as_expiryHead t = as_expiryHead s + n"
    "as_expiry t = as_expiry s" "swept_rows now s t" "ack_core (drop n (live_entries s)) t"
    "drop n (live_entries s) = [] \<or> now < snd (hd (drop n (live_entries s)))"
    using sweep_loop_props [of "live_entries s" now s] i(1) unfolding t_def by blast
  show ?thesis
  proof (cases "n = 0")
    case True
    then have "sweepLocked now s = t"
      using n(2) by (simp add: sweepLocked_def Let_def t_def)
    moreover have "live_entries t = live_entries s" "as_maxEntries t = as_maxEntries s"
      using n True by (simp_all add: swept_rows_def)
    ultimately show ?thesis
      using n True i by (auto simp: ack_inv_def intro: exI [of _ 0])
  next
    case False
    define u where "u = t\<lparr>as_expiry := zero_entries (as_expiryHead s) (as_expiryHead t) (as_expiry t)\<rparr>"
    have sw: "sweepLocked now s = compactExpiryLocked u"
      using n(2) False by (simp add: sweepLocked_def Let_def t_def u_def)
    have le: "as_expiryHead u \<le> length (as_expiry u)"
      using n(1-3) i(2) by (simp add: u_def length_zero_entries)
    have live: "live_entries u = drop n (live_entries s)"
      using n(1-3) i(2) by (simp add: u_def drop_zero_entries add.commute)
    have core: "ack_core (drop n (live_entries s)) u"
      using n(5) by (subst ack_core_frame [of u t]) (simp_all add: u_def)
    have m: "0 < as_maxEntries (compactExpiryLocked u)"
      using n(4) i(4) by (simp add: u_def swept_rows_def)
    note c = compactExpiry_live [OF le]
    have lc: "live_entries (compactExpiryLocked u) = drop n (live_entries s)"
      using c live by simp
    have "ack_core (live_entries (compactExpiryLocked u)) (compactExpiryLocked u)"
      using core by (simp only: lc ack_core_compact)
    then have "ack_inv (compactExpiryLocked u)"
      using c m unfolding ack_inv_def by blast
    then show ?thesis
      using n(6) lc unfolding sw by metis
  qed
qed

lemmas sweepLocked_inv = sweepLocked_props [THEN conjunct1]

section \<open>Inserting and advancing\<close>

lemma indexAdd_frame [simp]:
  "as_records (indexAddLocked k s) = as_records s"
  "as_bySender (indexAddLocked k s) = as_bySender s"
  "as_expiry (indexAddLocked k s) = as_expiry s"
  "as_expiryHead (indexAddLocked k s) = as_expiryHead s"
  "as_retention (indexAddLocked k s) = as_retention s"
  "as_maxEntries (indexAddLocked k s) = as_maxEntries s"
  "as_durable (indexAddLocked k s) = as_durable s"
  "as_writes (indexAddLocked k s) = as_writes s"
  "as_writesBySender (indexAddLocked k s) = as_writesBySender s"
  "as_inflight (indexAddLocked k s) = as_inflight s"
  by (simp_all add: indexAddLocked_def)

lemma corr_ok_add:
  assumes "corr_ok m (as_byCorrelation s)"
  shows "corr_ok (m(k \<mapsto> r)) (as_byCorrelation (indexAddLocked k s))"
  unfolding corr_ok_def
proof
  fix c
  show "case map_of (as_byCorrelation (indexAddLocked k s)) c of
      None \<Rightarrow> \<forall>rcp. (m(k \<mapsto> r)) (c, rcp) = None
    | Some st \<Rightarrow> st \<noteq> [] \<and> distinct st \<and> set st = {rcp. (m(k \<mapsto> r)) (c, rcp) \<noteq> None}"
    using assms [unfolded corr_ok_def, rule_format, of c]
    by (cases k) (auto simp: indexAddLocked_def update_conv List.insert_def split: option.splits if_splits)
qed

lemma corr_ok_replace:
  "corr_ok m bc \<Longrightarrow> m k \<noteq> None \<Longrightarrow> corr_ok (m(k \<mapsto> r)) bc"
proof -
  assume c: "corr_ok m bc" and k: "m k \<noteq> None"
  have "((m(k \<mapsto> r)) x = None) = (m x = None)" for x using k by simp
  then show ?thesis using c unfolding corr_ok_def by (simp only: simp_thms)
qed

lemma row_putLocked [simp]: "row (putLocked now k r s) = (row s)(k \<mapsto> r)"
  by (auto simp: putLocked_def Let_def pushExpiryLocked_def update_conv split: option.split)

lemma putLocked_frame [simp]:
  "as_expiryHead (putLocked now k r s) = as_expiryHead s"
  "as_retention (putLocked now k r s) = as_retention s"
  "as_maxEntries (putLocked now k r s) = as_maxEntries s"
  "as_durable (putLocked now k r s) = as_durable s"
  "as_writes (putLocked now k r s) = as_writes s"
  "as_writesBySender (putLocked now k r s) = as_writesBySender s"
  "as_inflight (putLocked now k r s) = as_inflight s"
  by (simp_all add: putLocked_def Let_def pushExpiryLocked_def split: option.split)

lemma putLocked_records: "as_records (putLocked now k r s) = AList.update k r (as_records s)"
  by (simp add: putLocked_def Let_def pushExpiryLocked_def split: option.split)

lemma putLocked_bySender:
  "as_bySender (putLocked now k r s) =
     (if row s k = None then incI (ar_Sender r) (as_bySender s) else as_bySender s)"
  by (simp add: putLocked_def Let_def pushExpiryLocked_def split: option.split)

lemma putLocked_byCorrelation:
  "as_byCorrelation (putLocked now k r s) =
     (if row s k = None then as_byCorrelation (indexAddLocked k s) else as_byCorrelation s)"
  by (simp add: putLocked_def Let_def pushExpiryLocked_def indexAddLocked_def split: option.split)

lemma putLocked_expiry:
  "as_expiry (putLocked now k r s) = as_expiry s @
     (if row s k = None \<or> (\<exists>p. row s k = Some p \<and> Terminal (ar_State r) \<and> \<not> Terminal (ar_State p))
      then [(ack_key r, (if anchor r = 0 then now else anchor r) + as_retention s)] else [])"
  by (simp add: putLocked_def Let_def pushExpiryLocked_def split: option.split)

text \<open>A replacement keeps the sender, and its anchor unless the row is settled by it.\<close>

lemma putLocked_inv:
  assumes s: "ack_inv s" and v: "ack_validate r = Inr ()" and k: "k = ack_key r"
    and old: "\<And>p. row s k = Some p \<Longrightarrow> ar_Sender r = ar_Sender p \<and> \<not> Terminal (ar_State p) \<and>
               ar_AcceptedAt r = ar_AcceptedAt p"
  shows "ack_inv (putLocked now k r s)"
proof -
  let ?t = "putLocked now k r s"
  have i: "ack_core (live_entries s) s" "as_expiryHead s \<le> length (as_expiry s)"
    "as_expiryHead s = 0 \<or> as_expiryHead s < length (live_entries s)" "0 < as_maxEntries s"
    using s by (simp_all add: ack_inv_def)
  have nz: "anchor r \<noteq> 0" using v by (rule anchor_nonzero)
  define new where "new = (if row s k = None \<or> (\<exists>p. row s k = Some p \<and> Terminal (ar_State r) \<and> \<not> Terminal (ar_State p))
      then [(ack_key r, anchor r + as_retention s)] else [])"
  have live: "live_entries ?t = live_entries s @ new"
    using i(2) by (simp only: putLocked_expiry putLocked_frame nz if_False new_def drop_append) simp
  have own: "(k, anchor r + as_retention s) \<in> set (live_entries ?t)"
  proof (cases "new = []")
    case True
    then obtain p where p: "row s k = Some p" "\<not> Terminal (ar_State r)"
      using new_def old by (auto split: if_splits)
    then have "anchor r = anchor p" using old [OF p(1)] by (simp add: anchor_def)
    then have "(k, anchor r + as_retention s) \<in> set (live_entries s)"
      using i(1) p(1) unfolding ack_core_def queue_ok_def by metis
    then show ?thesis unfolding live by simp
  next
    case False
    then show ?thesis using new_def k unfolding live by (auto split: if_splits)
  qed
  have "rows_ok (row ?t)"
    using i(1) v k unfolding ack_core_def rows_ok_def by simp
  moreover have "queue_ok (as_retention ?t) (row ?t) (live_entries ?t)"
    using i(1) own unfolding ack_core_def queue_ok_def live by auto
  moreover have "counts_ok (as_bySender ?t) (\<lambda>b. card (sender_keys (row ?t) b))"
    using i(1) old counts_incI [of "as_bySender s" "\<lambda>b. card (sender_keys (row s) b)" "ar_Sender r"]
    by (cases "row s k") (simp_all add: ack_core_def putLocked_bySender card_sender_new sender_keys_replace)
  moreover have "corr_ok (row ?t) (as_byCorrelation ?t)"
    using i(1) corr_ok_add [of "row s" s k r] corr_ok_replace [of "row s" "as_byCorrelation s" k r]
    by (simp add: ack_core_def putLocked_byCorrelation)
  ultimately have "ack_core (live_entries ?t) ?t"
    using i(1) by (simp add: ack_core_def putLocked_records distinct_update)
  moreover have "as_expiryHead ?t \<le> length (as_expiry ?t)"
    using i(2) by (simp add: putLocked_expiry)
  moreover have "as_expiryHead ?t = 0 \<or> as_expiryHead ?t < length (live_entries ?t)"
    using i(3) unfolding live by auto
  ultimately show ?thesis
    using i(4) unfolding ack_inv_def by simp
qed

section \<open>What one section does to a row\<close>

text \<open>The only way a retained row may change: a strictly higher rank, same sender, same acceptance time.\<close>

definition advances :: "ack_record \<Rightarrow> ack_record \<Rightarrow> bool" where
  "advances r r' \<longleftrightarrow> r' = r \<or> (rank (ar_State r) < rank (ar_State r') \<and>
     ar_Sender r' = ar_Sender r \<and> ar_AcceptedAt r' = ar_AcceptedAt r)"

lemma advances_refl [simp]: "advances r r"
  by (simp add: advances_def)

lemma advances_trans: "advances a b \<Longrightarrow> advances b c \<Longrightarrow> advances a c"
  by (auto simp: advances_def)

lemma advances_Terminal: "advances r r' \<Longrightarrow> Terminal (ar_State r) \<Longrightarrow> r' = r"
  using rank_less_nonterminal by (auto simp: advances_def)

lemma sweep_row:
  "row (sweepLocked now s) k = row s k \<or>
     row (sweepLocked now s) k = None \<and> (\<exists>r. row s k = Some r \<and> ack_Expired r now (as_retention s))"
  using sweepLocked_rows [of now s] unfolding swept_rows_def by blast

lemma sweep_keeps:
  "row s k = Some r \<Longrightarrow> \<not> ack_Expired r now (as_retention s) \<Longrightarrow> row (sweepLocked now s) k = Some r"
  using sweep_row [of now s k] by auto

lemma sweep_only_removes: "row (sweepLocked now s) k = Some r \<Longrightarrow> row s k = Some r"
  using sweep_row [of now s k] by auto

lemma sweep_frame [simp]:
  "as_retention (sweepLocked now s) = as_retention s" "as_maxEntries (sweepLocked now s) = as_maxEntries s"
  "as_durable (sweepLocked now s) = as_durable s" "as_writes (sweepLocked now s) = as_writes s"
  "as_writesBySender (sweepLocked now s) = as_writesBySender s"
  "as_inflight (sweepLocked now s) = as_inflight s"
  using sweepLocked_rows [of now s] by (simp_all add: swept_rows_def)

lemma row_valid: "ack_inv s \<Longrightarrow> row s k = Some r \<Longrightarrow> k = ack_key r \<and> ack_validate r = Inr ()"
  unfolding ack_inv_def ack_core_def rows_ok_def by blast

lemma validate_AcceptedAt:
  "ack_validate r = Inr () \<Longrightarrow> ack_validate e = Inr () \<Longrightarrow>
     ack_validate (r\<lparr>ar_AcceptedAt := ar_AcceptedAt e\<rparr>) = Inr ()"
  by (auto simp: ack_validate_iff class_ok_def attested_ok_def)

lemma upsert_frame [simp]:
  "as_retention (snd (upsertLocked r now c s)) = as_retention s"
  "as_maxEntries (snd (upsertLocked r now c s)) = as_maxEntries s"
  "as_durable (snd (upsertLocked r now c s)) = as_durable s"
  "as_writes (snd (upsertLocked r now c s)) = as_writes s"
  "as_writesBySender (snd (upsertLocked r now c s)) = as_writesBySender s"
  "as_inflight (snd (upsertLocked r now c s)) = as_inflight s"
  by (simp_all add: upsertLocked_def Let_def split: option.split)

lemma upsert_inv:
  assumes s: "ack_inv s" and v: "ack_validate r = Inr ()"
  shows "ack_inv (snd (upsertLocked r now c s))"
proof -
  let ?t = "sweepLocked now s"
  have t: "ack_inv ?t" using s by (rule sweepLocked_inv)
  show ?thesis
  proof (cases "row ?t (ack_key r)")
    case None
    then show ?thesis
      using t putLocked_inv [OF t v refl, of now] by (simp add: upsertLocked_def Let_def)
  next
    case (Some e)
    have ve: "ack_validate e = Inr ()" using row_valid [OF t Some] by blast
    have "ack_inv (putLocked now (ack_key r) (r\<lparr>ar_AcceptedAt := ar_AcceptedAt e\<rparr>) ?t)"
      if "ar_Sender e = ar_Sender r" "\<not> Terminal (ar_State e)"
      using putLocked_inv [OF t validate_AcceptedAt [OF v ve], of "ack_key r" now] Some that
      by (simp add: ack_key_def)
    then show ?thesis
      using Some t by (simp add: upsertLocked_def Let_def)
  qed
qed

lemma upsert_other: "k \<noteq> ack_key r \<Longrightarrow> row (snd (upsertLocked r now c s)) k = row (sweepLocked now s) k"
  by (simp add: upsertLocked_def Let_def split: option.split)

lemma upsert_keeps:
  assumes k: "row s k = Some e" and x: "\<not> ack_Expired e now (as_retention s)"
  shows "\<exists>e'. row (snd (upsertLocked r now c s)) k = Some e' \<and> advances e e'"
proof (cases "k = ack_key r")
  case True
  have "row (sweepLocked now s) k = Some e" using sweep_keeps [OF k x] .
  then show ?thesis
    using True by (simp add: upsertLocked_def Let_def advances_def)
next
  case False
  then show ?thesis using sweep_keeps [OF k x] by (simp add: upsert_other)
qed

text \<open>A record that may still be folded in: nothing is held under its key, its own outcome is, or a lower one.\<close>

definition foldable :: "ack_store \<Rightarrow> ack_record \<Rightarrow> bool" where
  "foldable s r \<longleftrightarrow> (\<forall>e. row s (ack_key r) = Some e \<longrightarrow>
     ar_Sender e = ar_Sender r \<and>
     (same_outcome e r \<or> rank (ar_State e) < rank (ar_State r)))"

lemma foldable_sweep: "foldable s r \<Longrightarrow> foldable (sweepLocked now s) r"
  unfolding foldable_def using sweep_only_removes by blast

lemma foldable_upsert_self:
  assumes "foldable s r" shows "foldable (snd (upsertLocked r now c s)) r"
proof -
  have f: "foldable (sweepLocked now s) r" using assms by (rule foldable_sweep)
  show ?thesis
  proof (cases "row (sweepLocked now s) (ack_key r)")
    case None
    then show ?thesis by (simp add: foldable_def upsertLocked_def Let_def same_outcome_def)
  next
    case (Some e)
    then show ?thesis using f by (auto simp: foldable_def upsertLocked_def Let_def same_outcome_def)
  qed
qed

lemma foldable_upsert_other:
  "ack_key r \<noteq> ack_key q \<Longrightarrow> foldable s r \<Longrightarrow> foldable (snd (upsertLocked q now c s)) r"
  using foldable_sweep [of s r now] by (simp add: foldable_def upsert_other)

text \<open>Folding in such a record always leaves its outcome in the table.\<close>

lemma foldIn_records_outcome:
  assumes "foldable s r"
  shows "\<exists>e. row (foldIn now r s) (ack_key r) = Some e \<and> same_outcome e r \<and> ar_Sender e = ar_Sender r"
proof -
  have f: "foldable (sweepLocked now s) r" using assms by (rule foldable_sweep)
  show ?thesis
  proof (cases "row (sweepLocked now s) (ack_key r)")
    case None
    then show ?thesis by (simp add: foldIn_def upsertLocked_def Let_def same_outcome_def)
  next
    case (Some e)
    with f have e: "ar_Sender e = ar_Sender r" "same_outcome e r \<or> rank (ar_State e) < rank (ar_State r)"
      by (auto simp: foldable_def)
    then show ?thesis
      using Some rank_less_nonterminal [of "ar_State e" "ar_State r"]
      by (auto simp: foldIn_def upsertLocked_def Let_def same_outcome_def)
  qed
qed

lemma ack_NewStore_inv [simp]: "ack_inv (ack_NewStore maxEntries retention)"
  by (simp add: ack_inv_def ack_core_def ack_NewStore_def rows_ok_def counts_ok_def sender_keys_def
      corr_ok_def queue_ok_def AckMaxEntries_def AckMaxRetainedBytes_def AckMaxRecordBytes_def)

section \<open>Reading\<close>

lemma StatusRows_exact:
  assumes s: "ack_inv s" and v: "validateMessageID ck = Inr ()" "validateAgentID sender = Inr ()"
    and st: "StatusRows now ck sender s = (rows, s')"
  shows "sorted (map ar_Recipient rows) \<and> distinct rows \<and> s' = sweepLocked now s \<and>
    set rows = {r. row s' (ck, ar_Recipient r) = Some r \<and> ar_Sender r = sender}"
proof -
  define l where "l = (case map_of (as_byCorrelation s') ck of None \<Rightarrow> [] | Some l \<Rightarrow> l)"
  have s': "s' = sweepLocked now s" and rows: "rows = sort_key ar_Recipient (filter (\<lambda>r. ar_Sender r = sender)
      (List.map_filter (\<lambda>rcp. row s' (ck, rcp)) l))"
    using st v by (auto simp: StatusRows_def Let_def l_def)
  have inv: "ack_inv s'" using s s' sweepLocked_inv by simp
  have l: "distinct l" "set l = {rcp. row s' (ck, rcp) \<noteq> None}"
  proof -
    have "corr_ok (row s') (as_byCorrelation s')"
      using inv by (simp add: ack_inv_def ack_core_def)
    from this [unfolded corr_ok_def, rule_format, of ck] show "distinct l"
      "set l = {rcp. row s' (ck, rcp) \<noteq> None}"
      by (cases "map_of (as_byCorrelation s') ck"; simp add: l_def)+
  qed
  have key: "rcp = ar_Recipient r \<and> ck = ar_CorrelationKey r" if "row s' (ck, rcp) = Some r" for rcp r
    using row_valid [OF inv that] by (simp add: ack_key_def)
  have mf: "List.map_filter (\<lambda>rcp. row s' (ck, rcp)) l = map (\<lambda>rcp. the (row s' (ck, rcp))) l"
    using l(2) by (auto simp: List.map_filter_def intro!: filter_True)
  have "inj_on (\<lambda>rcp. the (row s' (ck, rcp))) (set l)"
    using key l(2) by (intro inj_onI) (metis (mono_tags, lifting) mem_Collect_eq option.exhaust_sel)
  then have "distinct (List.map_filter (\<lambda>rcp. row s' (ck, rcp)) l)"
    using l(1) by (simp add: mf distinct_map)
  moreover have "set (List.map_filter (\<lambda>rcp. row s' (ck, rcp)) l) = {r. row s' (ck, ar_Recipient r) = Some r}"
  proof (intro equalityI subsetI)
    fix r assume "r \<in> set (List.map_filter (\<lambda>rcp. row s' (ck, rcp)) l)"
    then obtain rcp where "row s' (ck, rcp) = Some r"
      using l(2) by (auto simp: mf simp del: map_of_eq_Some_iff)
    then show "r \<in> {r. row s' (ck, ar_Recipient r) = Some r}" using key by blast
  next
    fix r assume "r \<in> {r. row s' (ck, ar_Recipient r) = Some r}"
    then have r: "row s' (ck, ar_Recipient r) = Some r" by blast
    then have "ar_Recipient r \<in> set l" using l(2) by simp
    then show "r \<in> set (List.map_filter (\<lambda>rcp. row s' (ck, rcp)) l)"
      using r unfolding mf set_map by (metis image_eqI option.sel)
  qed
  ultimately show ?thesis
    using s' by (auto simp: rows)
qed

lemma sweep_exact:
  assumes s: "ack_inv s" and q: "sorted (map snd (live_entries s))"
  shows "row (sweepLocked now s) k =
    (case row s k of None \<Rightarrow> None | Some r \<Rightarrow> if ack_Expired r now (as_retention s) then None else Some r)"
proof -
  let ?t = "sweepLocked now s"
  have t: "ack_inv ?t" using s by (rule sweepLocked_inv)
  obtain n where n: "live_entries ?t = drop n (live_entries s)"
    "live_entries ?t = [] \<or> now < snd (hd (live_entries ?t))"
    using sweepLocked_props [OF s, of now] by blast
  have late: "now < d" if "(x, d) \<in> set (live_entries ?t)" for x d
  proof -
    have "sorted (map snd (live_entries ?t))"
      using sorted_wrt_drop [OF q, of n] by (simp only: n(1) drop_map)
    then show ?thesis
      using n(2) that by (cases "live_entries ?t") force+
  qed
  have "\<not> ack_Expired r now (as_retention s)" if "row ?t k = Some r" for r
  proof -
    have "(k, anchor r + as_retention ?t) \<in> set (live_entries ?t)"
      using t that unfolding ack_inv_def ack_core_def queue_ok_def by blast
    then show ?thesis
      using late Expired_iff row_valid [OF t that] by fastforce
  qed
  then show ?thesis
    using sweep_row [of now s k] by (auto split: option.splits)
qed

end
