(* ===== verification/AckProtocol.thy ===== *)
theory AckProtocol
  imports AckStore
begin

text \<open>
  The delivery lifecycle table under concurrent callers.  A state is the table and the
  transitions in progress; a step is one critical section of some call, or one event of a
  durable write, taken with some reading of the clock.  The log the table is attached to hands
  every entry it commits back to \<^verbatim>\<open>Apply\<close> before \<^verbatim>\<open>Write\<close> returns, and \<^verbatim>\<open>Write\<close> may report an
  error whether or not it did.  Nothing is assumed about the clock.
\<close>

section \<open>Steps\<close>

type_synonym ack_sys = "ack_store \<times> transition list"

definition begin_call :: "call \<times> ack_store \<Rightarrow> transition list \<Rightarrow> ack_sys" where
  "begin_call c P = (snd c, case fst c of Done _ \<Rightarrow> P | Pending tr \<Rightarrow> tr # P)"

inductive ack_step :: "time \<Rightarrow> ack_sys \<Rightarrow> ack_sys \<Rightarrow> bool" where
  attach: "ack_step now (s, P) (snd (ack_Attach d s), P)"
| accept: "ack_step now (s, P) (begin_call (ack_Accept now ck sender recipient s) P)"
| settle: "ack_step now (s, P) (begin_call (ack_Settle now ck recipient state cls att s) P)"
| mark: "ack_step now (s, P) (begin_call (ack_MarkInFlight now ck recipient s) P)"
| encode: "tr_phase tr = Encoding \<Longrightarrow> ack_step now (s, P @ tr # Q) (s, P @ encode_reserved tr # Q)"
| applied: "tr_phase tr = Writing body \<Longrightarrow>
    ack_step now (s, P @ tr # Q) (ack_Apply now body s, P @ tr\<lparr>tr_phase := Applied\<rparr> # Q)"
| fold: "tr_phase tr = Applied \<Longrightarrow>
    ack_step now (s, P @ tr # Q) (foldIn now (tr_record tr) s, P @ tr\<lparr>tr_phase := Unwinding\<rparr> # Q)"
| fail: "tr_phase tr = Applied \<or> tr_phase tr = Writing body \<Longrightarrow>
    ack_step now (s, P @ tr # Q) (s, P @ tr\<lparr>tr_phase := Unwinding\<rparr> # Q)"
| unwind: "tr_phase tr = Unwinding \<Longrightarrow>
    ack_step now (s, P @ tr # Q)
      (if tr_slot tr then releaseWriteSlot (ar_Sender (tr_record tr)) s else s,
       P @ tr\<lparr>tr_phase := Releasing\<rparr> # Q)"
| finish: "tr_phase tr = Releasing \<Longrightarrow>
    ack_step now (s, P @ tr # Q) (release (ack_key (tr_record tr)) s, P @ Q)"
| lookup: "ack_step now (s, P) (snd (ack_Lookup now ck recipient s), P)"
| len: "ack_step now (s, P) (snd (ack_Len now s), P)"
| stats: "ack_step now (s, P) (snd (ack_Stats now s), P)"
| status: "ack_step now (s, P) (snd (StatusRows now ck sender s), P)"

text \<open>A start: a new table, and the log replayed into it before anything is attached.\<close>

definition replay :: "ack_store \<Rightarrow> (time \<times> recordJSON) list \<Rightarrow> ack_store" where
  "replay = foldl (\<lambda>s (now, body). ack_Apply now body s)"

inductive ack_reachable :: "ack_sys \<Rightarrow> bool" where
  start: "ack_reachable (replay (ack_NewStore maxEntries retention) log, [])"
| step: "ack_reachable x \<Longrightarrow> ack_step now x y \<Longrightarrow> ack_reachable y"

inductive ack_trace :: "time list \<Rightarrow> ack_sys \<Rightarrow> ack_sys \<Rightarrow> bool" where
  none: "ack_trace [] x x"
| more: "ack_step now x y \<Longrightarrow> ack_trace ts y z \<Longrightarrow> ack_trace (now # ts) x z"

section \<open>The effect of a call on the table\<close>

text \<open>
  Two tables with the same rows, indices and queue; and the reservations of a table.
\<close>

definition same_table :: "ack_store \<Rightarrow> ack_store \<Rightarrow> bool" where
  "same_table s s' \<longleftrightarrow> as_records s' = as_records s \<and> as_expiry s' = as_expiry s \<and>
     as_expiryHead s' = as_expiryHead s \<and> as_bySender s' = as_bySender s \<and>
     as_byCorrelation s' = as_byCorrelation s \<and> as_retention s' = as_retention s \<and>
     as_maxEntries s' = as_maxEntries s"

definition reservations :: "ack_store \<Rightarrow> ack_pair list \<times> int \<times> (string \<times> int) list" where
  "reservations s = (as_inflight s, as_writes s, as_writesBySender s)"

lemma same_table_inv: "same_table s s' \<Longrightarrow> ack_inv s \<Longrightarrow> ack_inv s'"
  by (simp add: same_table_def ack_inv_def ack_core_def)

lemma same_table_row: "same_table s s' \<Longrightarrow> row s' = row s"
  by (simp add: same_table_def)

lemma same_table_refl [simp]: "same_table s s"
  by (simp add: same_table_def)

lemma same_table_simple [simp]:
  "same_table s (release k s)" "same_table s (releaseWriteSlot b s)"
  "same_table s (snd (ack_Attach d s))" "same_table s (snd (admitLocked r now s))"
  "same_table s (snd (reserveLocked k s))"
  by (simp_all add: same_table_def release_def releaseWriteSlot_def ack_Attach_def admitLocked_def
      refuseLocked_def reserveLocked_def Let_def)

lemma reservations_simple [simp]:
  "reservations (snd (ack_Attach d s)) = reservations s"
  "reservations (snd (admitLocked r now s)) = reservations s"
  "reservations (sweepLocked now s) = reservations s"
  "reservations (ack_Apply now body s) = reservations s"
  "reservations (foldIn now r s) = reservations s"
  by (simp_all add: reservations_def ack_Attach_def admitLocked_def refuseLocked_def Let_def
      ack_Apply_def foldIn_def split: sum.split)

lemma reserveLocked_cases:
  "reserveLocked k s = (q, s') \<Longrightarrow>
     (q = Inl ErrConcurrentTransition \<and> s' = s \<and> k \<in> set (as_inflight s)) \<or>
     (q = Inr () \<and> s' = s\<lparr>as_inflight := k # as_inflight s\<rparr> \<and> k \<notin> set (as_inflight s))"
  by (auto simp: reserveLocked_def split: if_splits)

text \<open>What the first section of a call can leave behind.\<close>

definition call_ok :: "time \<Rightarrow> ack_store \<Rightarrow> call \<times> ack_store \<Rightarrow> bool" where
  "call_ok now s c \<longleftrightarrow>
     (same_table s (snd c) \<or> same_table (sweepLocked now s) (snd c)) \<and>
     (case fst c of
        Done _ \<Rightarrow> reservations (snd c) = reservations s
      | Pending tr \<Rightarrow>
          ack_key (tr_record tr) \<notin> set (as_inflight s) \<and>
          as_inflight (snd c) = ack_key (tr_record tr) # as_inflight s \<and>
          as_writes (snd c) = as_writes s + (if tr_slot tr then 1 else 0) \<and>
          as_writesBySender (snd c) =
            (if tr_slot tr then incI (ar_Sender (tr_record tr)) (as_writesBySender s)
             else as_writesBySender s) \<and>
          foldable (snd c) (tr_record tr) \<and>
          (tr_phase tr = Encoding \<or>
           (\<exists>body. tr_phase tr = Writing body \<and> ack_canonical (tr_record tr) = Inr (tr_record tr, body))))"

lemma foldable_absent: "row s (ack_key r) = None \<Longrightarrow> foldable s r"
  by (simp add: foldable_def)

lemma foldable_same_table: "same_table s s' \<Longrightarrow> foldable s' r = foldable s r"
  by (simp add: foldable_def same_table_row)

lemma same_tableI:
  "as_records s' = as_records s \<Longrightarrow> as_expiry s' = as_expiry s \<Longrightarrow>
   as_expiryHead s' = as_expiryHead s \<Longrightarrow> as_bySender s' = as_bySender s \<Longrightarrow>
   as_byCorrelation s' = as_byCorrelation s \<Longrightarrow> as_retention s' = as_retention s \<Longrightarrow>
   as_maxEntries s' = as_maxEntries s \<Longrightarrow> same_table s s'"
  by (simp add: same_table_def)

lemma admitLocked_fields:
  "admitLocked r now s = (q, s1) \<Longrightarrow> same_table s s1 \<and> reservations s1 = reservations s"
  using same_table_simple(4) [of s r now] reservations_simple(2) [of r now s] by simp

lemma accept_ok: "call_ok now s (ack_Accept now ck sender recipient s)"
proof -
  define rec where "rec = \<lparr>ar_CorrelationKey = ck, ar_Recipient = recipient, ar_Sender = sender,
    ar_State = StateAccepted, ar_Class = [], ar_AttestedBy = [], ar_AcceptedAt = now, ar_SettledAt = 0\<rparr>"
  let ?t = "sweepLocked now s"
  show ?thesis
  proof (cases "\<not> as_durable s \<or> isl (ack_canonical rec)")
    case True
    then have "\<exists>e. ack_Accept now ck sender recipient s = (Done (Inl e), s)"
      by (auto simp: ack_Accept_def rec_def [symmetric] Let_def isl_def)
    then show ?thesis by (auto simp: call_ok_def)
  next
    case False
    then obtain c body where c0: "ack_canonical rec = Inr (c, body)" and d: "as_durable s"
      by (cases "ack_canonical rec") auto
    then have c: "ack_canonical rec = Inr (rec, body)" using ack_canonicalD by blast
    obtain q s1 where a: "admitLocked rec now ?t = (q, s1)" by fastforce
    obtain q2 s2 where r: "reserveLocked (ack_key rec) s1 = (q2, s2)" by fastforce
    note s1 = admitLocked_fields [OF a]
    have acc: "ack_Accept now ck sender recipient s =
      (if row ?t (ack_key rec) \<noteq> None then (Done (Inr ()), ?t)
       else case q of Inl e \<Rightarrow> (Done (Inl e), s1)
         | Inr _ \<Rightarrow> (case q2 of Inl e \<Rightarrow> (Done (Inl e), s2)
             | Inr _ \<Rightarrow> (Pending \<lparr>tr_record = rec, tr_slot = True, tr_phase = Writing body\<rparr>,
                 s2\<lparr>as_writes := as_writes s2 + 1,
                    as_writesBySender := incI (ar_Sender rec) (as_writesBySender s2)\<rparr>)))"
      using d c a r by (simp add: ack_Accept_def rec_def [symmetric] Let_def split: sum.split)
    have res: "reservations s1 = reservations s" using s1 by simp
    show ?thesis
    proof (cases "row ?t (ack_key rec)")
      case (Some e)
      then show ?thesis by (simp add: acc call_ok_def)
    next
      case None
      then have absent: "row s1 (ack_key rec) = None" using same_table_row [OF s1 [THEN conjunct1]] by simp
      show ?thesis
        using reserveLocked_cases [OF r] None s1 res absent c
        by (auto simp: acc call_ok_def reservations_def same_table_def foldable_def split: sum.split)
    qed
  qed
qed
lemma rank_nonterminal: "\<not> Terminal s \<Longrightarrow> Terminal t \<Longrightarrow> rank s < rank t"
  by (simp add: rank_def)

lemma rank_not_in_flight: "\<not> Terminal s \<Longrightarrow> s \<noteq> StateInFlight \<Longrightarrow> rank s < rank StateInFlight"
  by (simp add: rank_def)

text \<open>The shared tail of \<^verbatim>\<open>Settle\<close> and \<^verbatim>\<open>MarkInFlight\<close>: reserve the pair of an existing row and go on.\<close>

lemma reserve_tail_ok:
  assumes s: "ack_inv s" and e: "row (sweepLocked now s) k = Some e" and key: "ack_key next = ack_key e"
    and sender: "ar_Sender next = ar_Sender e" and rank: "rank (ar_State e) < rank (ar_State next)"
  shows "call_ok now s (case reserveLocked k (sweepLocked now s) of
      (Inl err, s1) \<Rightarrow> (Done (Inl err), s1)
    | (Inr _, s1) \<Rightarrow> (Pending \<lparr>tr_record = next, tr_slot = False, tr_phase = Encoding\<rparr>, s1))"
proof -
  have k: "ack_key next = k"
    using row_valid [OF sweepLocked_inv [OF s] e] key by simp
  obtain q s1 where r: "reserveLocked k (sweepLocked now s) = (q, s1)" by fastforce
  show ?thesis
    using reserveLocked_cases [OF r] e k sender rank
    by (auto simp: r call_ok_def reservations_def same_table_def foldable_def)
qed

lemma call_ok_Done:
  "s' = s \<or> s' = sweepLocked now s \<Longrightarrow> call_ok now s (Done q, s')"
  by (auto simp: call_ok_def)

lemma settle_ok: "ack_inv s \<Longrightarrow> call_ok now s (ack_Settle now ck recipient state cls att s)"
  by (auto simp: ack_Settle_def Let_def ack_key_def
      intro!: call_ok_Done reserve_tail_ok rank_nonterminal split: sum.split option.split)

lemma mark_ok: "ack_inv s \<Longrightarrow> call_ok now s (ack_MarkInFlight now ck recipient s)"
  by (auto simp: ack_MarkInFlight_def Let_def ack_key_def
      intro!: call_ok_Done reserve_tail_ok rank_not_in_flight split: sum.split option.split)

section \<open>The invariant of the whole\<close>

definition holds_slot :: "transition \<Rightarrow> bool" where
  "holds_slot tr \<longleftrightarrow> tr_slot tr \<and> tr_phase tr \<noteq> Releasing"

definition slots_of :: "transition list \<Rightarrow> string \<Rightarrow> nat" where
  "slots_of P b = length (filter (\<lambda>tr. holds_slot tr \<and> ar_Sender (tr_record tr) = b) P)"

definition transition_ok :: "ack_store \<Rightarrow> transition \<Rightarrow> bool" where
  "transition_ok s tr \<longleftrightarrow>
     (case tr_phase tr of
        Encoding \<Rightarrow> foldable s (tr_record tr)
      | Writing body \<Rightarrow> foldable s (tr_record tr) \<and> ack_canonical (tr_record tr) = Inr (tr_record tr, body)
      | Applied \<Rightarrow> foldable s (tr_record tr) \<and> ack_validate (tr_record tr) = Inr ()
      | _ \<Rightarrow> True)"

abbreviation tr_key :: "transition \<Rightarrow> ack_pair" where
  "tr_key tr \<equiv> ack_key (tr_record tr)"

definition sys_inv :: "ack_sys \<Rightarrow> bool" where
  "sys_inv x \<longleftrightarrow> (case x of (s, P) \<Rightarrow>
     ack_inv s \<and> distinct (map tr_key P) \<and> set (as_inflight s) = tr_key ` set P \<and>
     as_writes s = int (length (filter holds_slot P)) \<and>
     counts_ok (as_writesBySender s) (slots_of P) \<and> (\<forall>tr\<in>set P. transition_ok s tr))"

lemma transition_ok_mono:
  "(foldable s (tr_record tr) \<Longrightarrow> foldable s' (tr_record tr)) \<Longrightarrow> transition_ok s tr \<Longrightarrow> transition_ok s' tr"
  by (cases "tr_phase tr") (auto simp: transition_ok_def)

lemma sys_inv_table:
  assumes "sys_inv (s, P)" "ack_inv s'" "reservations s' = reservations s"
    "\<And>tr. tr \<in> set P \<Longrightarrow> foldable s (tr_record tr) \<Longrightarrow> foldable s' (tr_record tr)"
  shows "sys_inv (s', P)"
  using assms transition_ok_mono [of s _ s'] unfolding sys_inv_def reservations_def by auto

lemma sys_inv_sweep: "sys_inv (s, P) \<Longrightarrow> sys_inv (sweepLocked now s, P)"
  by (rule sys_inv_table [of s P]) (simp_all add: sys_inv_def sweepLocked_inv foldable_sweep)

lemma sys_inv_same_table:
  "sys_inv (s, P) \<Longrightarrow> same_table s s' \<Longrightarrow> reservations s' = reservations s \<Longrightarrow> sys_inv (s', P)"
  by (rule sys_inv_table [of s P]) (auto simp: sys_inv_def same_table_inv foldable_same_table)

lemma sys_inv_phase:
  assumes "sys_inv (s, P @ tr # Q)" "tr_record tr' = tr_record tr" "holds_slot tr' = holds_slot tr"
    "transition_ok s tr'"
  shows "sys_inv (s, P @ tr' # Q)"
proof -
  have "slots_of (P @ tr' # Q) = slots_of (P @ tr # Q)"
    using assms(2,3) by (intro ext) (simp add: slots_of_def)
  then show ?thesis using assms by (auto simp: sys_inv_def)
qed

lemma slots_of_Cons:
  "slots_of (tr # P) = (if holds_slot tr then (slots_of P)(ar_Sender (tr_record tr) := Suc (slots_of P (ar_Sender (tr_record tr))))
     else slots_of P)"
  by (rule ext) (simp add: slots_of_def)

lemma sys_inv_begin:
  assumes i: "sys_inv (s, P)" and c: "call_ok now s c"
  shows "sys_inv (begin_call c P)"
proof -
  obtain base where base: "same_table base (snd c)" "sys_inv (base, P)"
    "reservations base = reservations s"
    using c i sys_inv_sweep [OF i, of now] by (auto simp: call_ok_def)
  show ?thesis
  proof (cases "fst c")
    case (Done q)
    then show ?thesis
      using c base sys_inv_same_table [OF base(2,1)] by (simp add: call_ok_def begin_call_def)
  next
    case (Pending tr)
    have inv: "ack_inv (snd c)" using base same_table_inv by (auto simp: sys_inv_def)
    have "transition_ok (snd c) x" if "x \<in> set P" for x
      using base that transition_ok_mono [of base x "snd c"] foldable_same_table [OF base(1)]
      by (auto simp: sys_inv_def)
    moreover have "transition_ok (snd c) tr" and p: "tr_slot tr \<longrightarrow> tr_phase tr \<noteq> Releasing"
      using c Pending by (auto simp: call_ok_def transition_ok_def)
    moreover have "counts_ok (as_writesBySender (snd c)) (slots_of (tr # P))"
      using c Pending i counts_incI [of "as_writesBySender s" "slots_of P" "ar_Sender (tr_record tr)"] p
      by (auto simp: call_ok_def sys_inv_def slots_of_Cons holds_slot_def)
    ultimately show ?thesis
      using inv c Pending i p by (auto simp: begin_call_def sys_inv_def call_ok_def holds_slot_def)
  qed
qed

lemma canonical_decodes: "ack_canonical r = Inr (r, body) \<Longrightarrow> ack_DecodeRecord body = Inr r"
  by (auto simp: ack_canonical_def res)

text \<open>Handing a transition's own record to the table keeps what the other transitions rely on.\<close>

lemma sys_inv_upsert:
  assumes i: "sys_inv (s, P @ tr # Q)" and v: "ack_validate (tr_record tr) = Inr ()"
    and f: "foldable s (tr_record tr)"
  shows "sys_inv (snd (upsertLocked (tr_record tr) now c s), P @ tr # Q)"
proof (rule sys_inv_table [OF i])
  show "ack_inv (snd (upsertLocked (tr_record tr) now c s))"
    using i v by (simp add: sys_inv_def upsert_inv)
  show "reservations (snd (upsertLocked (tr_record tr) now c s)) = reservations s"
    by (simp add: reservations_def)
  fix x assume x: "x \<in> set (P @ tr # Q)" "foldable s (tr_record x)"
  show "foldable (snd (upsertLocked (tr_record tr) now c s)) (tr_record x)"
  proof (cases "x = tr")
    case True
    then show ?thesis using f foldable_upsert_self by simp
  next
    case False
    then have "tr_key x \<noteq> tr_key tr" using i x(1) by (auto simp: sys_inv_def image_iff)
    then show ?thesis using x(2) by (rule foldable_upsert_other)
  qed
qed

lemma sys_inv_member: "sys_inv (s, P @ tr # Q) \<Longrightarrow> transition_ok s tr"
  by (simp add: sys_inv_def)

lemma sys_inv_unwind:
  assumes i: "sys_inv (s, P @ tr # Q)" and ph: "tr_phase tr = Unwinding"
  shows "sys_inv (if tr_slot tr then releaseWriteSlot (ar_Sender (tr_record tr)) s else s,
    P @ tr\<lparr>tr_phase := Releasing\<rparr> # Q)"
proof (cases "tr_slot tr")
  case False
  then show ?thesis
    using sys_inv_phase [OF i, of "tr\<lparr>tr_phase := Releasing\<rparr>"] ph
    by (simp add: holds_slot_def transition_ok_def)
next
  case True
  let ?b = "ar_Sender (tr_record tr)" and ?t = "tr\<lparr>tr_phase := Releasing\<rparr>"
  have h: "holds_slot tr" "\<not> holds_slot ?t" using True ph by (simp_all add: holds_slot_def)
  have eq: "slots_of (P @ ?t # Q) = (slots_of (P @ tr # Q))(?b := slots_of (P @ tr # Q) ?b - 1)"
    and pos: "0 < slots_of (P @ tr # Q) ?b"
    using h by (auto simp: slots_of_def)
  have "counts_ok (as_writesBySender (releaseWriteSlot ?b s)) (slots_of (P @ ?t # Q))"
    using i pos counts_decI [of "as_writesBySender s" "slots_of (P @ tr # Q)" ?b] by (simp add: sys_inv_def releaseWriteSlot_def eq)
  moreover have "foldable (releaseWriteSlot ?b s) r = foldable s r" for r
    by (rule foldable_same_table) simp
  then have "transition_ok (releaseWriteSlot ?b s) x" if "x \<in> set (P @ ?t # Q)" for x
    using that i transition_ok_mono [of s x "releaseWriteSlot ?b s"]
    by (auto simp: sys_inv_def transition_ok_def [of _ ?t])
  moreover have "ack_inv (releaseWriteSlot ?b s)"
    using i same_table_inv [OF same_table_simple(2)] by (simp add: sys_inv_def)
  ultimately show ?thesis
    using i h True by (auto simp: sys_inv_def releaseWriteSlot_def)
qed

lemma sys_inv_finish:
  assumes i: "sys_inv (s, P @ tr # Q)" and ph: "tr_phase tr = Releasing"
  shows "sys_inv (release (tr_key tr) s, P @ Q)"
proof -
  have "foldable (release (tr_key tr) s) r = foldable s r" for r
    by (rule foldable_same_table) simp
  then have "transition_ok (release (tr_key tr) s) x" if "x \<in> set (P @ Q)" for x
    using that i transition_ok_mono [of s x "release (tr_key tr) s"] by (auto simp: sys_inv_def)
  moreover have "ack_inv (release (tr_key tr) s)"
    using i same_table_inv [OF same_table_simple(1)] by (simp add: sys_inv_def)
  moreover have "slots_of (P @ tr # Q) = slots_of (P @ Q)"
    using ph by (intro ext) (simp add: slots_of_def holds_slot_def)
  ultimately show ?thesis
    using i ph by (auto simp: sys_inv_def release_def holds_slot_def)
qed

lemma sys_inv_step:
  assumes "ack_step now x y" "sys_inv x" shows "sys_inv y"
  using assms
proof (induction rule: ack_step.induct)
  case (attach now s P d)
  then show ?case by (rule sys_inv_same_table) simp_all
next
  case accept
  then show ?case by (rule sys_inv_begin [OF _ accept_ok])
next
  case (settle now s P)
  then have "ack_inv s" by (simp add: sys_inv_def)
  then show ?case using settle sys_inv_begin settle_ok by blast
next
  case (mark now s P)
  then have "ack_inv s" by (simp add: sys_inv_def)
  then show ?case using mark sys_inv_begin mark_ok by blast
next
  case (encode tr now s P Q)
  have "foldable s (tr_record tr)"
    using sys_inv_member [OF encode(2)] encode(1) by (simp add: transition_ok_def)
  then show ?case
    by (intro sys_inv_phase [OF encode(2)])
      (auto simp: encode_reserved_def transition_ok_def holds_slot_def encode(1)
        dest: ack_canonicalD split: sum.split)
next
  case (applied tr body now s P Q)
  have tr: "foldable s (tr_record tr)" "ack_canonical (tr_record tr) = Inr (tr_record tr, body)"
    using sys_inv_member [OF applied(2)] applied(1) by (simp_all add: transition_ok_def)
  have v: "ack_validate (tr_record tr) = Inr ()" using ack_canonicalD [OF tr(2)] by simp
  have a: "ack_Apply now body s = snd (upsertLocked (tr_record tr) now True s)"
    using canonical_decodes [OF tr(2)] by (simp add: ack_Apply_def)
  show ?case
    unfolding a
    by (rule sys_inv_phase [OF sys_inv_upsert [OF applied(2) v tr(1)]])
      (simp_all add: holds_slot_def transition_ok_def v applied(1) foldable_upsert_self tr(1))
next
  case (fold tr now s P Q)
  have tr: "foldable s (tr_record tr)" "ack_validate (tr_record tr) = Inr ()"
    using sys_inv_member [OF fold(2)] fold(1) by (simp_all add: transition_ok_def)
  show ?case
    unfolding foldIn_def
    by (rule sys_inv_phase [OF sys_inv_upsert [OF fold(2) tr(2,1)]])
      (simp_all add: holds_slot_def transition_ok_def fold(1))
next
  case (fail tr body now s P Q)
  show ?case
    using fail(1) by (intro sys_inv_phase [OF fail(2)]) (auto simp: holds_slot_def transition_ok_def)
next
  case unwind
  then show ?case by (rule sys_inv_unwind [rotated])
next
  case finish
  then show ?case by (rule sys_inv_finish [rotated])
next
  case (lookup now s P)
  then show ?case
    using sys_inv_sweep by (auto simp: ack_Lookup_def Let_def split: sum.split)
next
  case len
  then show ?case using sys_inv_sweep by (simp add: ack_Len_def Let_def)
next
  case stats
  then show ?case using sys_inv_sweep by (simp add: ack_Stats_def Let_def)
next
  case status
  then show ?case using sys_inv_sweep by (simp add: StatusRows_def Let_def)
qed

lemma Apply_inv: "ack_inv s \<Longrightarrow> ack_inv (ack_Apply now body s)"
  by (auto simp: ack_Apply_def ack_DecodeRecord_def res Let_def upsert_inv split: sum.split)

lemma replay_inv: "ack_inv s \<Longrightarrow> ack_inv (replay s log)"
  by (induction log arbitrary: s) (auto simp: replay_def Apply_inv)

lemma replay_reservations: "reservations (replay s log) = reservations s"
  by (induction log arbitrary: s) (auto simp: replay_def)

lemma reachable_inv: "ack_reachable x \<Longrightarrow> sys_inv x"
proof (induction rule: ack_reachable.induct)
  case (start maxEntries retention log)
  have "reservations (replay (ack_NewStore maxEntries retention) log) = ([], 0, [])"
    by (simp add: replay_reservations) (simp add: reservations_def ack_NewStore_def)
  then show ?case
    by (simp add: sys_inv_def replay_inv reservations_def counts_ok_def slots_of_def)
next
  case (step x now y)
  then show ?case using sys_inv_step by blast
qed

section \<open>The effect of a step on a row\<close>

lemma call_keeps:
  assumes "call_ok now s c" "row s k = Some r" "\<not> ack_Expired r now (as_retention s)"
  shows "row (snd c) k = Some r \<and> as_retention (snd c) = as_retention s"
proof -
  have "same_table s (snd c) \<or> same_table (sweepLocked now s) (snd c)"
    using assms(1) by (simp add: call_ok_def)
  then show ?thesis
    using assms(2) sweep_keeps [OF assms(2,3)] by (elim disjE) (simp_all add: same_table_def)
qed

lemma step_keeps:
  assumes "ack_step now x y" "sys_inv x" "row (fst x) k = Some r"
    "\<not> ack_Expired r now (as_retention (fst x))"
  shows "(\<exists>r'. row (fst y) k = Some r' \<and> advances r r') \<and> as_retention (fst y) = as_retention (fst x)"
  using assms
proof (induction rule: ack_step.induct)
  case (attach now s P d)
  then show ?case by (simp add: ack_Attach_def)
next
  case (accept now s P)
  then show ?case using call_keeps [OF accept_ok] by (auto simp: begin_call_def)
next
  case (settle now s P)
  then have "ack_inv s" by (simp add: sys_inv_def)
  then show ?case using settle call_keeps [OF settle_ok] by (auto simp: begin_call_def)
next
  case (mark now s P)
  then have "ack_inv s" by (simp add: sys_inv_def)
  then show ?case using mark call_keeps [OF mark_ok] by (auto simp: begin_call_def)
next
  case (applied tr body now s P Q)
  then show ?case
    using upsert_keeps [of s k r now] by (auto simp: ack_Apply_def split: sum.split)
next
  case (fold tr now s P Q)
  then show ?case using upsert_keeps [of s k r now] by (auto simp: foldIn_def)
next
  case (lookup now s P)
  then show ?case
    using sweep_keeps [of s k r now] by (auto simp: ack_Lookup_def Let_def split: sum.split)
next
  case len
  then show ?case using sweep_keeps by (auto simp: ack_Len_def Let_def)
next
  case stats
  then show ?case using sweep_keeps by (auto simp: ack_Stats_def Let_def)
next
  case status
  then show ?case using sweep_keeps by (auto simp: StatusRows_def Let_def)
qed (auto simp: releaseWriteSlot_def release_def)

section \<open>A concrete run\<close>

text \<open>
  A table with room for one row and a retention of 100.  Amy's message to Bob is accepted at
  10; at 100 a delivery report starts and its durable write is slow; at 120 Bob's row has left
  the window and Amy's message to Eve takes the only place; at 130 the delivery report comes back.
\<close>

definition demo_row :: "string \<Rightarrow> ack_state \<Rightarrow> time \<Rightarrow> time \<Rightarrow> ack_record" where
  "demo_row recipient st accepted settled =
     \<lparr>ar_CorrelationKey = ''b1-7'', ar_Recipient = recipient, ar_Sender = ''b1.amy-1'',
      ar_State = st, ar_Class = [], ar_AttestedBy = (if Terminal st then ''peer_bus'' else []),
      ar_AcceptedAt = accepted, ar_SettledAt = settled\<rparr>"

definition demo_body :: "string \<Rightarrow> ack_state \<Rightarrow> time \<Rightarrow> time \<Rightarrow> recordJSON" where
  "demo_body recipient st accepted settled =
     \<lparr>j_Version = recordVersion, j_CorrelationKey = ''b1-7'', j_Recipient = recipient,
      j_Sender = ''b1.amy-1'', j_State = state_String st, j_Class = [],
      j_AttestedBy = (if Terminal st then ''peer_bus'' else []), j_AcceptedAt = Stamp accepted,
      j_SettledAt = (if Terminal st then Stamp settled else NoStamp)\<rparr>"

lemma canonical_demo:
  assumes "recipient = ''b2.bob-1'' \<or> recipient = ''b2.eve-1''"
    "st = StateAccepted \<and> z = 0 \<or> st = StateDelivered \<and> 0 < z" "0 < a" "a < 1000" "z < 1000"
  shows "ack_canonical (demo_row recipient st a z) = Inr (demo_row recipient st a z, demo_body recipient st a z)"
proof -
  have v: "ack_validate (demo_row recipient st a z) = Inr ()"
    using assms by (auto simp: ack_validate_iff demo_row_def demo_ids_valid stateNames_def class_ok_def
        Negative_def attested_ok_def attestation_Valid_def attestations_def)
  have t: "rfc3339_range a" "rfc3339_range z"
    using assms by (auto simp: rfc3339_range_def sec_ns_def)
  then obtain body where "ack_canonical (demo_row recipient st a z) = Inr (demo_row recipient st a z, body)"
    using ack_canonical_total [OF v] by (auto simp: demo_row_def)
  moreover have "ack_Encode (demo_row recipient st a z) = Inr (demo_body recipient st a z)"
    using v t by (simp add: ack_Encode_def) (simp add: demo_row_def demo_body_def formatTime_def)
  ultimately show ?thesis using ack_canonicalD by fastforce
qed

definition demo_table ::
  "(string \<times> ack_record) list \<Rightarrow> (string \<times> time) list \<Rightarrow> int \<Rightarrow> string list \<Rightarrow> u64 \<Rightarrow> ack_store" where
  "demo_table rows queue writes busy pops =
     \<lparr>as_durable = True, as_maxEntries = 1, as_retention = 100,
      as_records = map (\<lambda>(x, r). ((''b1-7'', x), r)) rows,
      as_expiry = map (\<lambda>(x, t). ((''b1-7'', x), t)) queue, as_expiryHead = 0,
      as_bySender = (if rows = [] then [] else [(''b1.amy-1'', int (length rows))]),
      as_byCorrelation = (if rows = [] then [] else [(''b1-7'', rev (map fst rows))]),
      as_writes = writes, as_writesBySender = (if writes = 0 then [] else [(''b1.amy-1'', writes)]),
      as_inflight = map (\<lambda>x. (''b1-7'', x)) busy, as_sweptEntries = pops,
      as_capacityRefusals = 0, as_lastCapacityLog = 0\<rparr>"

lemmas demo_simps = demo_table_def ack_key_def Let_def sweepLocked_def pop_entry_def
  delLocked_def indexRemoveLocked_def indexAddLocked_def compactExpiryLocked_def zero_entries_def
  putLocked_def pushExpiryLocked_def incI_def decI_def getI_def admitLocked_def ack_pressureLine_def
  reserveLocked_def release_def releaseWriteSlot_def upsertLocked_def foldIn_def same_outcome_def
  ack_Expired_def anchor_def begin_call_def validatePair_def demo_ids_valid

abbreviation (input) bob :: string where "bob \<equiv> ''b2.bob-1''"
abbreviation (input) eve :: string where "eve \<equiv> ''b2.eve-1''"

definition demo_tr :: "string \<Rightarrow> ack_state \<Rightarrow> time \<Rightarrow> time \<Rightarrow> bool \<Rightarrow> phase \<Rightarrow> transition" where
  "demo_tr recipient st a z slot ph =
     \<lparr>tr_record = demo_row recipient st a z, tr_slot = slot, tr_phase = ph\<rparr>"

lemma demo_Apply:
  assumes "recipient = ''b2.bob-1'' \<or> recipient = ''b2.eve-1''"
    "st = StateAccepted \<and> z = 0 \<or> st = StateDelivered \<and> 0 < z" "0 < a" "a < 1000" "z < 1000"
  shows "ack_Apply now (demo_body recipient st a z) s = snd (upsertLocked (demo_row recipient st a z) now True s)"
  using canonical_decodes [OF canonical_demo [OF assms]] by (simp add: ack_Apply_def)

lemma demo_accept_bob:
  "ack_Accept 10 ''b1-7'' ''b1.amy-1'' bob (demo_table [] [] 0 [] 0) =
     (Pending (demo_tr bob StateAccepted 10 0 True (Writing (demo_body bob StateAccepted 10 0))),
      demo_table [] [] 1 [bob] 0)"
  using canonical_demo [of bob StateAccepted 0 10]
  by (simp add: ack_Accept_def demo_row_def demo_tr_def demo_simps)

lemma demo_start: "ack_reachable (demo_table [] [] 0 [] 0, [])"
proof -
  have "ack_reachable (replay (ack_NewStore 1 100) [], [])" by (rule ack_reachable.start)
  from ack_reachable.step [OF this ack_step.attach [of 0 _ _ True]] show ?thesis
    by (simp add: replay_def ack_NewStore_def ack_Attach_def demo_table_def)
qed

lemma demo_row_sel [simp]:
  "ar_CorrelationKey (demo_row x st a z) = ''b1-7''" "ar_Recipient (demo_row x st a z) = x"
  "ar_Sender (demo_row x st a z) = ''b1.amy-1''" "ar_State (demo_row x st a z) = st"
  "ar_Class (demo_row x st a z) = []" "ar_AttestedBy (demo_row x st a z) = (if Terminal st then ''peer_bus'' else [])"
  "ar_AcceptedAt (demo_row x st a z) = a" "ar_SettledAt (demo_row x st a z) = z"
  by (simp_all add: demo_row_def)

lemma demo_tr_sel [simp]:
  "tr_record (demo_tr x st a z b ph) = demo_row x st a z" "tr_slot (demo_tr x st a z b ph) = b"
  "tr_phase (demo_tr x st a z b ph) = ph"
  "(demo_tr x st a z b ph)\<lparr>tr_phase := ph'\<rparr> = demo_tr x st a z b ph'"
  by (simp_all add: demo_tr_def)

text \<open>An acceptance that takes the only place, from its first section to its release.\<close>

lemma demo_accepting:
  assumes "recipient = bob \<or> recipient = eve" "0 < t" "t < 1000"
    "ack_reachable (demo_table [] [] 1 (recipient # busy) n,
       demo_tr recipient StateAccepted t 0 True (Writing (demo_body recipient StateAccepted t 0)) # Q)"
    "recipient \<notin> set busy"
  shows "ack_reachable (demo_table [(recipient, demo_row recipient StateAccepted t 0)]
    [(recipient, t + 100)] 0 busy n, Q)"
proof -
  let ?r = "demo_row recipient StateAccepted t 0"
  have "ack_reachable (demo_table [(recipient, ?r)] [(recipient, t + 100)] 1 (recipient # busy) n,
      demo_tr recipient StateAccepted t 0 True Applied # Q)"
    using ack_reachable.step [OF assms(4) ack_step.applied [of _ _ t _ "[]", simplified]] assms(1-3)
    by (simp add: demo_Apply demo_simps)
  from ack_reachable.step [OF this ack_step.fold [of _ t _ "[]", simplified]]
  have "ack_reachable (demo_table [(recipient, ?r)] [(recipient, t + 100)] 1 (recipient # busy) n,
      demo_tr recipient StateAccepted t 0 True Unwinding # Q)"
    using assms(1-3) by (simp add: demo_simps)
  from ack_reachable.step [OF this ack_step.unwind [of _ t _ "[]", simplified]]
  have "ack_reachable (demo_table [(recipient, ?r)] [(recipient, t + 100)] 0 (recipient # busy) n,
      demo_tr recipient StateAccepted t 0 True Releasing # Q)"
    by (simp add: demo_simps)
  moreover have "filter (\<lambda>x. x \<noteq> (''b1-7'', recipient)) (map (Pair ''b1-7'') busy) = map (Pair ''b1-7'') busy"
    using assms(5) by (auto simp: filter_id_conv)
  ultimately show ?thesis
    using ack_reachable.step [OF _ ack_step.finish [of _ t _ "[]", simplified]]
    by (fastforce simp: demo_simps)
qed

lemma demo_bob_accepted:
  "ack_reachable (demo_table [(bob, demo_row bob StateAccepted 10 0)] [(bob, 110)] 0 [] 0, [])"
  using demo_accepting [of bob 10 "[]" 0 "[]"]
    ack_reachable.step [OF demo_start ack_step.accept [of 10 _ _ "''b1-7''" "''b1.amy-1''" bob]]
  by (simp add: demo_accept_bob begin_call_def)

lemma demo_settling:
  "ack_reachable (demo_table [(bob, demo_row bob StateAccepted 10 0)] [(bob, 110)] 0 [bob] 0,
     [demo_tr bob StateDelivered 10 100 False (Writing (demo_body bob StateDelivered 10 100))])"
proof -
  have "ack_Settle 100 ''b1-7'' bob StateDelivered [] ''peer_bus''
      (demo_table [(bob, demo_row bob StateAccepted 10 0)] [(bob, 110)] 0 [] 0) =
    (Pending (demo_tr bob StateDelivered 10 100 False Encoding),
     demo_table [(bob, demo_row bob StateAccepted 10 0)] [(bob, 110)] 0 [bob] 0)"
    by (simp add: ack_Settle_def demo_simps demo_tr_def demo_row_def)
  then have "ack_reachable (demo_table [(bob, demo_row bob StateAccepted 10 0)] [(bob, 110)] 0 [bob] 0,
     [demo_tr bob StateDelivered 10 100 False Encoding])"
    using ack_reachable.step [OF demo_bob_accepted
        ack_step.settle [of 100 _ _ "''b1-7''" bob StateDelivered "[]" "''peer_bus''"]]
    by (simp add: begin_call_def)
  from ack_reachable.step [OF this ack_step.encode [of _ 100 _ "[]", simplified]] show ?thesis
    using canonical_demo [of bob StateDelivered 100 10]
    by (simp add: encode_reserved_def) (simp add: demo_tr_def)
qed

lemma demo_applied:
  "ack_reachable (demo_table [(eve, demo_row eve StateAccepted 120 0)] [(eve, 220)] 0 [bob] 1,
     [demo_tr bob StateDelivered 10 100 False Applied])"
proof -
  let ?tr = "demo_tr bob StateDelivered 10 100 False"
  have "ack_Accept 120 ''b1-7'' ''b1.amy-1'' eve
      (demo_table [(bob, demo_row bob StateAccepted 10 0)] [(bob, 110)] 0 [bob] 0) =
    (Pending (demo_tr eve StateAccepted 120 0 True (Writing (demo_body eve StateAccepted 120 0))),
     demo_table [] [] 1 [eve, bob] 1)"
    using canonical_demo [of eve StateAccepted 0 120]
    by (simp add: ack_Accept_def demo_row_def demo_tr_def demo_simps)
  then have "ack_reachable (demo_table [(eve, demo_row eve StateAccepted 120 0)] [(eve, 220)] 0 [bob] 1,
      [?tr (Writing (demo_body bob StateDelivered 10 100))])"
    using demo_accepting [of eve 120 "[bob]" 1 "[?tr (Writing (demo_body bob StateDelivered 10 100))]"]
      ack_reachable.step [OF demo_settling ack_step.accept [of 120 _ _ "''b1-7''" "''b1.amy-1''" eve]]
    by (simp add: begin_call_def)
  from ack_reachable.step [OF this ack_step.applied [of _ _ 130 _ "[]", simplified]]
  show ?thesis by (simp add: demo_Apply demo_simps)
qed

lemma demo_overflow:
  "ack_reachable (demo_table [(eve, demo_row eve StateAccepted 120 0), (bob, demo_row bob StateDelivered 10 100)]
     [(eve, 220), (bob, 200)] 0 [bob] 1, [demo_tr bob StateDelivered 10 100 False Unwinding])"
  using ack_reachable.step [OF demo_applied ack_step.fold [of _ 130 _ "[]", simplified]]
  by (simp add: demo_simps)

section \<open>Properties\<close>



text \<open>
  C21.  A caller told that its transition succeeded has its outcome in the table: whenever a
  durable write has returned without error, folding the record in leaves a row for that pair
  with exactly the offered state, class and attestation, and the offered sender.
\<close>

theorem ack_success_is_recorded:
  assumes "ack_reachable (s, P @ tr # Q)" "tr_phase tr = Applied"
  shows "\<exists>e. row (foldIn now (tr_record tr) s) (ack_key (tr_record tr)) = Some e \<and>
    ar_State e = ar_State (tr_record tr) \<and> ar_Class e = ar_Class (tr_record tr) \<and>
    ar_AttestedBy e = ar_AttestedBy (tr_record tr) \<and> ar_Sender e = ar_Sender (tr_record tr)"
proof -
  have "foldable s (tr_record tr)"
    using sys_inv_member [OF reachable_inv [OF assms(1)]] assms(2) by (simp add: transition_ok_def)
  from foldIn_records_outcome [OF this] show ?thesis by (auto simp: same_outcome_def)
qed

theorem ack_success_is_recorded_witness:
  "\<exists>e. row (foldIn 130 (demo_row bob StateDelivered 10 100)
       (demo_table [(eve, demo_row eve StateAccepted 120 0)] [(eve, 220)] 0 [bob] 1)) (''b1-7'', bob) = Some e \<and>
     ar_State e = StateDelivered"
  using ack_success_is_recorded [of _ "[]" "demo_tr bob StateDelivered 10 100 False Applied" "[]" 130]
    demo_applied by (fastforce simp: ack_key_def)

text \<open>
  C22.  At most one transition of a pair is in progress at a time, however calls interleave: the
  reservations are exactly the pairs of the transitions in progress, no pair appears twice, and
  a settlement or in-flight mark of a reserved pair ends at once.  The write slots counted
  against the bounds are exactly the acceptances that have not given theirs back, for the whole
  table and for each sender.
\<close>

theorem ack_reservations_exact:
  assumes "ack_reachable (s, P)"
  shows "distinct (map tr_key P) \<and> set (as_inflight s) = tr_key ` set P \<and>
    as_writes s = int (length (filter holds_slot P)) \<and>
    (\<forall>b. getI (as_writesBySender s) b = int (slots_of P b)) \<and>
    (\<forall>tr\<in>set P. \<forall>now st cls att. \<exists>q.
       fst (ack_Settle now (fst (tr_key tr)) (snd (tr_key tr)) st cls att s) = Done q)"
proof -
  have i: "sys_inv (s, P)" using assms by (rule reachable_inv)
  have "\<exists>q. fst (ack_Settle now (fst (tr_key tr)) (snd (tr_key tr)) st cls att s) = Done q"
    if "tr \<in> set P" for tr now st cls att
  proof -
    have busy: "tr_key tr \<in> set (as_inflight s)" using i that by (auto simp: sys_inv_def)
    show ?thesis
    proof (cases "fst (ack_Settle now (fst (tr_key tr)) (snd (tr_key tr)) st cls att s)")
      case (Pending t)
      have c: "call_ok now s (ack_Settle now (fst (tr_key tr)) (snd (tr_key tr)) st cls att s)"
        using i settle_ok by (simp add: sys_inv_def)
      have "tr_key t = tr_key tr"
        using Pending row_valid [OF sweepLocked_inv, of s]
        by (auto simp: ack_Settle_def Let_def validatePair_def reserveLocked_def busy res
            split: sum.splits option.splits if_splits)
      then show ?thesis using c Pending busy by (simp add: call_ok_def)
    qed simp
  qed
  then show ?thesis
    using i getI_counts by (auto simp: sys_inv_def)
qed

theorem ack_reservations_exact_witness:
  "set (as_inflight (demo_table [(eve, demo_row eve StateAccepted 120 0)] [(eve, 220)] 0 [bob] 1)) =
     {(''b1-7'', bob)}"
  using ack_reservations_exact [OF demo_applied] by (simp add: ack_key_def)

text \<open>
  C31.  The status query answers from the index exactly what the table holds: for well-formed
  arguments the answer lists, in order of recipient and without repetition, precisely the rows
  of that correlation key whose sender is the one asking, and never another sender's row.
\<close>

theorem status_rows_exact:
  assumes "ack_reachable (s, P)" "validateMessageID ck = Inr ()" "validateAgentID sender = Inr ()"
    and "StatusRows now ck sender s = (rows, s')"
  shows "sorted (map ar_Recipient rows) \<and> distinct rows \<and>
    set rows = {r. row s' (ck, ar_Recipient r) = Some r \<and> ar_Sender r = sender}"
proof -
  have "ack_inv s" using reachable_inv [OF assms(1)] by (simp add: sys_inv_def)
  from StatusRows_exact [OF this assms(2-4)] show ?thesis by blast
qed

theorem status_rows_exact_witness:
  "set (fst (StatusRows 20 ''b1-7'' ''b1.amy-1''
      (demo_table [(bob, demo_row bob StateAccepted 10 0)] [(bob, 110)] 0 [] 0))) =
   {demo_row bob StateAccepted 10 0}"
proof -
  let ?s = "demo_table [(bob, demo_row bob StateAccepted 10 0)] [(bob, 110)] 0 [] 0"
  have sw: "sweepLocked 20 ?s = ?s" by (simp add: demo_simps)
  obtain rows where rows: "StatusRows 20 ''b1-7'' ''b1.amy-1'' ?s = (rows, ?s)"
    by (simp add: StatusRows_def demo_ids_valid Let_def sw)
  have "set rows = {r. row ?s (''b1-7'', ar_Recipient r) = Some r \<and> ar_Sender r = ''b1.amy-1''}"
    using status_rows_exact [OF demo_bob_accepted _ _ rows] by (simp add: demo_ids_valid)
  also have "\<dots> = {demo_row bob StateAccepted 10 0}"
    by (auto simp: demo_table_def split: if_splits)
  finally show ?thesis by (simp add: rows)
qed

text \<open>
  C30.  The bookkeeping of the table is exact in every reachable state: each sender's count is
  the number of its rows, a correlation key is in the index exactly when it has a row, every
  row passes its checks and has an entry in the live retention queue at its own deadline, so no
  row is ever held for good; and while the queue is in order a sweep removes precisely the
  rows whose window has passed.
\<close>

theorem ack_bookkeeping_exact:
  assumes "ack_reachable (s, P)"
  shows "(\<forall>b. getI (as_bySender s) b = int (card {k. \<exists>r. row s k = Some r \<and> ar_Sender r = b})) \<and>
    (\<forall>ck. (map_of (as_byCorrelation s) ck \<noteq> None) = (\<exists>rcp. row s (ck, rcp) \<noteq> None)) \<and>
    (\<forall>k r. row s k = Some r \<longrightarrow> ack_validate r = Inr () \<and>
       (k, anchor r + as_retention s) \<in> set (live_entries s)) \<and>
    (sorted (map snd (live_entries s)) \<longrightarrow> (\<forall>now k. row (sweepLocked now s) k =
       (case row s k of None \<Rightarrow> None
        | Some r \<Rightarrow> if ack_Expired r now (as_retention s) then None else Some r)))"
proof -
  have i: "ack_inv s" using reachable_inv [OF assms] by (simp add: sys_inv_def)
  have c: "corr_ok (row s) (as_byCorrelation s)"
    and n: "counts_ok (as_bySender s) (\<lambda>b. card (sender_keys (row s) b))"
    and q: "queue_ok (as_retention s) (row s) (live_entries s)"
    using i by (simp_all add: ack_inv_def ack_core_def)
  have "(map_of (as_byCorrelation s) ck \<noteq> None) = (\<exists>rcp. row s (ck, rcp) \<noteq> None)" for ck
  proof (cases "map_of (as_byCorrelation s) ck")
    case None
    then show ?thesis using c [unfolded corr_ok_def, rule_format, of ck] by simp
  next
    case (Some st)
    then have "hd st \<in> {rcp. row s (ck, rcp) \<noteq> None}"
      using c [unfolded corr_ok_def, rule_format, of ck] hd_in_set [of st] by simp
    then show ?thesis using Some by blast
  qed
  moreover have "ack_validate r = Inr () \<and> (k, anchor r + as_retention s) \<in> set (live_entries s)"
    if "row s k = Some r" for k r
    using q row_valid [OF i that] that unfolding queue_ok_def by blast
  ultimately show ?thesis
    using getI_counts [OF n] sweep_exact [OF i] unfolding sender_keys_def by blast
qed

theorem ack_bookkeeping_exact_witness:
  "getI (as_bySender (demo_table [(bob, demo_row bob StateAccepted 10 0)] [(bob, 110)] 0 [] 0)) ''b1.amy-1'' =
     int (card {k. \<exists>r. row (demo_table [(bob, demo_row bob StateAccepted 10 0)] [(bob, 110)] 0 [] 0) k = Some r \<and>
       ar_Sender r = ''b1.amy-1''})"
  using ack_bookkeeping_exact [OF demo_bob_accepted] by blast

text \<open>
  C39.  The entry cap of the live table is not hard.  A settlement holds the reservation of its
  pair but no write slot, so when its row leaves the retention window while its durable write
  is under way, another acceptance can take the place, and folding the settlement in, which
  does not check the cap, leaves more rows than the cap allows.
\<close>

theorem ack_cap_can_be_exceeded:
  "\<exists>s P. ack_reachable (s, P) \<and> as_maxEntries s < int (length (as_records s))"
  by (rule exI, rule exI, rule conjI [OF demo_overflow]) (simp add: demo_table_def)

end
