(* ===== verification/Invite.thy ===== *)
theory Invite
  imports EventLog Base64
begin

text \<open>
  Invitations (\<^verbatim>\<open>internal/invite\<close>): identifiers, secrets, the record with its states and checks, and
  the store: minting, revocation, the two-phase redemption, replay and retention.  A handle of the Go code (\<^verbatim>\<open>*transition\<close>,
  \<^verbatim>\<open>*Redemption\<close>) is a number into a table of the store, so that two handles of the same invite are told apart as pointers are.
  Random bytes and clock readings are arguments; the JSON text is the parameter \<open>Q\<close>.
\<close>

section \<open>Identifiers and secrets\<close>

datatype inv_error =
    ErrInvalidInviteID | ErrInvalidInvite | ErrUnknownInvite | ErrExpired | ErrRevoked | ErrAlreadyRedeemed
  | ErrKeyReuse | ErrRedemptionInFlight | ErrInviteCapacity | ErrInvalidTTL | ErrInvResultTooLarge | ErrInvNotDurable
  | InvRandom | InvLog log_error | InvAttachedTwice | InvResolved

definition MaxInviteIDLen :: nat where "MaxInviteIDLen = 64"
definition inviteIDRandBytes :: nat where "inviteIDRandBytes = 10"
definition SecretBytes :: nat where "SecretBytes = 32"
definition DigestSize :: nat where "DigestSize = 32"
definition MaxSecretLen :: nat where "MaxSecretLen = 256"
definition inv_MaxBusIDLen :: nat where "inv_MaxBusIDLen = 64"
definition MaxLabelLen :: nat where "MaxLabelLen = 128"
definition MaxReasonLen :: nat where "MaxReasonLen = 128"
definition inv_MaxRecordBytes :: int where "inv_MaxRecordBytes = 2048"
definition inv_MaxRetainedBytes :: int where "inv_MaxRetainedBytes = 16 * 1048576"
definition MaxInvites :: int where "MaxInvites = inv_MaxRetainedBytes div inv_MaxRecordBytes"
definition SpentRetention :: int where "SpentRetention = RetentionWindow"
definition DefaultTTL :: int where "DefaultTTL = 24 * 3600 * sec_ns"
definition MaxTTL :: int where "MaxTTL = 7 * 24 * 3600 * sec_ns"
definition ReservationTTL :: int where "ReservationTTL = 30 * sec_ns"

text \<open>\<^verbatim>\<open>base32.StdEncoding\<close> without padding, for inputs of whole five-byte groups.\<close>

definition b32_char :: "nat \<Rightarrow> char" where
  "b32_char n = (if n < 26 then char_of (65 + n) else char_of (24 + n))"

fun b32_encode :: "bytes \<Rightarrow> string" where
  "b32_encode (a # b # c # d # e # rest) =
     (let n = (((byte_val a * 256 + byte_val b) * 256 + byte_val c) * 256 + byte_val d) * 256 + byte_val e in
      map (\<lambda>i. b32_char (n div 32 ^ i mod 32)) [7, 6, 5, 4, 3, 2, 1, 0] @ b32_encode rest)"
| "b32_encode _ = []"

definition invite_id_char :: "char \<Rightarrow> bool" where
  "invite_id_char c \<longleftrightarrow> is_lower c \<or> (CHR ''2'' \<le> c \<and> c \<le> CHR ''7'')"

definition invite_id_matches :: "string \<Rightarrow> bool" where
  "invite_id_matches s \<longleftrightarrow> has_prefix s ''inv-'' \<and> list_all invite_id_char (drop 4 s) \<and>
     16 \<le> length (drop 4 s) \<and> length (drop 4 s) \<le> 32"

definition ValidateInviteID :: "string \<Rightarrow> inv_error + unit" where
  "ValidateInviteID iid =
     (if iid = [] then Inl ErrInvalidInviteID
      else if MaxInviteIDLen < length iid then Inl ErrInvalidInviteID
      else if \<not> invite_id_matches iid then Inl ErrInvalidInviteID
      else Inr ())"

definition GenerateInviteID :: "bytes option \<Rightarrow> inv_error + string" where
  "GenerateInviteID rnd =
     bindR (orErr rnd InvRandom) (\<lambda>buf.
     let iid = ''inv-'' @ to_lower (b32_encode buf) in bindR (ValidateInviteID iid) (\<lambda>_. Inr iid))"

definition GenerateSecret :: "bytes option \<Rightarrow> inv_error + string" where
  "GenerateSecret rnd = bindR (orErr rnd InvRandom) (\<lambda>b. Inr (EncodeToString b))"

definition HashSecret :: "string \<Rightarrow> bytes" where "HashSecret secret = sha256 secret"

definition VerifySecret :: "string \<Rightarrow> bytes \<Rightarrow> bool" where
  "VerifySecret presented stored \<longleftrightarrow> HashSecret presented = stored"

section \<open>Records\<close>

datatype inv_state = StateOpen | StateRedeemed | StateRevoked | InvStateOther nat

definition inv_state_String :: "inv_state \<Rightarrow> string" where
  "inv_state_String s =
     (case s of StateOpen \<Rightarrow> ''open'' | StateRedeemed \<Rightarrow> ''redeemed'' | StateRevoked \<Rightarrow> ''revoked''
      | InvStateOther n \<Rightarrow> ''State('' @ show_nat n @ '')'')"

definition inv_parseState :: "string \<Rightarrow> inv_error + inv_state" where
  "inv_parseState s =
     (if s = ''open'' then Inr StateOpen
      else if s = ''redeemed'' then Inr StateRedeemed
      else if s = ''revoked'' then Inr StateRevoked
      else Inl ErrInvalidInvite)"

record invite =
  iv_ID :: string
  iv_BusID :: string
  iv_SecretDigest :: bytes
  iv_Label :: string
  iv_CreatedAt :: time
  iv_ExpiresAt :: time
  iv_State :: inv_state
  iv_RedeemedAt :: time
  iv_RedeemedBy :: string
  iv_RedeemKey :: string
  iv_RedeemFingerprint :: bytes
  iv_Result :: bytes
  iv_CertFingerprint :: bytes
  iv_RevokedAt :: time
  iv_RevokedReason :: string

record invite_json =
  ij_ID :: string
  ij_BusID :: string
  ij_SecretDigest :: string
  ij_Label :: string
  ij_CreatedAt :: stamp
  ij_ExpiresAt :: stamp
  ij_State :: string
  ij_RedeemedAt :: stamp
  ij_RedeemedBy :: string
  ij_RedeemKey :: string
  ij_RedeemFingerprint :: string
  ij_Result :: bytes
  ij_CertFingerprint :: string
  ij_RevokedAt :: stamp
  ij_RevokedReason :: string

record invite_codec =
  ic_record :: "invite_json \<Rightarrow> bytes option"
  un_invite :: "bytes \<Rightarrow> invite_json option"
  ic_compact :: "bytes \<Rightarrow> bytes option"

definition InviteRecordKind :: string where "InviteRecordKind = ''invite''"
definition zeroDigest :: bytes where "zeroDigest = replicate 32 (CHR 0x00)"

definition Expired :: "invite \<Rightarrow> time \<Rightarrow> bool" where
  "Expired r now \<longleftrightarrow> iv_ExpiresAt r < now"

definition mustHaveNoRedemption :: "invite \<Rightarrow> bool" where
  "mustHaveNoRedemption r \<longleftrightarrow> iv_RedeemedAt r = 0 \<and> iv_RedeemedBy r = [] \<and> iv_RedeemKey r = [] \<and>
     iv_RedeemFingerprint r = zeroDigest \<and> iv_Result r = [] \<and> iv_CertFingerprint r = zeroDigest"

definition mustHaveNoRevocation :: "invite \<Rightarrow> bool" where
  "mustHaveNoRevocation r \<longleftrightarrow> iv_RevokedAt r = 0 \<and> iv_RevokedReason r = []"

definition inv_validate :: "invite \<Rightarrow> inv_error + unit" where
  "inv_validate r =
     bindR (wrapErr (\<lambda>_. ErrInvalidInvite) (ValidateInviteID (iv_ID r))) (\<lambda>_.
     if iv_BusID r = [] then Inl ErrInvalidInvite
     else if inv_MaxBusIDLen < length (iv_BusID r) then Inl ErrInvalidInvite
     else if iv_SecretDigest r = zeroDigest then Inl ErrInvalidInvite
     else if MaxLabelLen < length (iv_Label r) then Inl ErrInvalidInvite
     else if iv_CreatedAt r = 0 then Inl ErrInvalidInvite
     else if iv_ExpiresAt r = 0 then Inl ErrInvalidInvite
     else if \<not> iv_CreatedAt r < iv_ExpiresAt r then Inl ErrInvalidInvite
     else case iv_State r of
       StateOpen \<Rightarrow>
         if \<not> mustHaveNoRedemption r then Inl ErrInvalidInvite
         else if \<not> mustHaveNoRevocation r then Inl ErrInvalidInvite else Inr ()
     | StateRedeemed \<Rightarrow>
         if iv_RedeemedAt r = 0 then Inl ErrInvalidInvite
         else if iv_RedeemedBy r = [] then Inl ErrInvalidInvite
         else if MaxAgentLen < length (iv_RedeemedBy r) then Inl ErrInvalidInvite
         else bindR (wrapErr (\<lambda>_. ErrInvalidInvite) (ValidateKey (iv_RedeemKey r))) (\<lambda>_.
         if iv_RedeemFingerprint r = zeroDigest then Inl ErrInvalidInvite
         else if MaxResultBytes < length (iv_Result r) then Inl ErrInvResultTooLarge
         else if \<not> mustHaveNoRevocation r then Inl ErrInvalidInvite else Inr ())
     | StateRevoked \<Rightarrow>
         if iv_RevokedAt r = 0 then Inl ErrInvalidInvite
         else if MaxReasonLen < length (iv_RevokedReason r) then Inl ErrInvalidInvite
         else if \<not> mustHaveNoRedemption r then Inl ErrInvalidInvite else Inr ()
     | InvStateOther _ \<Rightarrow> Inl ErrInvalidInvite)"

definition canonicalResult :: "invite_codec \<Rightarrow> bytes \<Rightarrow> inv_error + bytes" where
  "canonicalResult Q result =
     (if result = [] then Inr []
      else case ic_compact Q result of
        None \<Rightarrow> Inl ErrInvalidInvite
      | Some b \<Rightarrow>
          if b = json_null then Inr []
          else if MaxResultBytes < length b then Inl ErrInvResultTooLarge else Inr b)"

definition inv_to_json :: "invite \<Rightarrow> bytes \<Rightarrow> invite_json" where
  "inv_to_json r result =
     (let red = iv_State r = StateRedeemed; rev = iv_State r = StateRevoked in
      \<lparr>ij_ID = iv_ID r, ij_BusID = iv_BusID r, ij_SecretDigest = hex_encode (iv_SecretDigest r), ij_Label = iv_Label r,
       ij_CreatedAt = formatTime (iv_CreatedAt r), ij_ExpiresAt = formatTime (iv_ExpiresAt r),
       ij_State = inv_state_String (iv_State r),
       ij_RedeemedAt = (if red then formatTime (iv_RedeemedAt r) else NoStamp),
       ij_RedeemedBy = (if red then iv_RedeemedBy r else []), ij_RedeemKey = (if red then iv_RedeemKey r else []),
       ij_RedeemFingerprint = (if red then hex_encode (iv_RedeemFingerprint r) else []), ij_Result = result,
       ij_CertFingerprint = (if red \<and> iv_CertFingerprint r \<noteq> zeroDigest then hex_encode (iv_CertFingerprint r) else []),
       ij_RevokedAt = (if rev then formatTime (iv_RevokedAt r) else NoStamp),
       ij_RevokedReason = (if rev then iv_RevokedReason r else [])\<rparr>)"

definition inv_Encode :: "invite_codec \<Rightarrow> invite \<Rightarrow> inv_error + bytes" where
  "inv_Encode Q r =
     bindR (inv_validate r) (\<lambda>_.
     bindR (canonicalResult Q (iv_Result r)) (\<lambda>result. orErr (ic_record Q (inv_to_json r result)) ErrInvalidInvite))"

definition inv_parseTime :: "stamp \<Rightarrow> inv_error + time" where
  "inv_parseTime v = (case v of Stamp t \<Rightarrow> Inr t | _ \<Rightarrow> Inl ErrInvalidInvite)"

definition parseDigest :: "string \<Rightarrow> inv_error + bytes" where
  "parseDigest v =
     bindR (orErr (hex_decode v) ErrInvalidInvite) (\<lambda>b. if length b \<noteq> DigestSize then Inl ErrInvalidInvite else Inr b)"

definition inv_DecodeRecord :: "invite_codec \<Rightarrow> bytes \<Rightarrow> inv_error + invite" where
  "inv_DecodeRecord Q b =
     bindR (orErr (un_invite Q b) ErrInvalidInvite) (\<lambda>j.
     bindR (inv_parseState (ij_State j)) (\<lambda>state.
     bindR (inv_parseTime (ij_CreatedAt j)) (\<lambda>createdAt.
     bindR (inv_parseTime (ij_ExpiresAt j)) (\<lambda>expiresAt.
     bindR (parseDigest (ij_SecretDigest j)) (\<lambda>digest.
     bindR (if ij_CertFingerprint j \<noteq> [] then parseDigest (ij_CertFingerprint j) else Inr zeroDigest) (\<lambda>cert.
     bindR (if ij_RedeemFingerprint j \<noteq> [] then parseDigest (ij_RedeemFingerprint j) else Inr zeroDigest) (\<lambda>fp.
     bindR (if ij_RedeemedAt j \<noteq> NoStamp then inv_parseTime (ij_RedeemedAt j) else Inr 0) (\<lambda>redeemedAt.
     bindR (if ij_RevokedAt j \<noteq> NoStamp then inv_parseTime (ij_RevokedAt j) else Inr 0) (\<lambda>revokedAt.
     let r = \<lparr>iv_ID = ij_ID j, iv_BusID = ij_BusID j, iv_SecretDigest = digest, iv_Label = ij_Label j,
              iv_CreatedAt = createdAt, iv_ExpiresAt = expiresAt, iv_State = state, iv_RedeemedAt = redeemedAt,
              iv_RedeemedBy = ij_RedeemedBy j, iv_RedeemKey = ij_RedeemKey j, iv_RedeemFingerprint = fp,
              iv_Result = ij_Result j, iv_CertFingerprint = cert, iv_RevokedAt = revokedAt,
              iv_RevokedReason = ij_RevokedReason j\<rparr>
     in bindR (inv_validate r) (\<lambda>_. Inr r))))))))))"

definition inv_canonical :: "invite_codec \<Rightarrow> invite \<Rightarrow> inv_error + invite \<times> bytes" where
  "inv_canonical Q r =
     bindR (inv_Encode Q r) (\<lambda>body. bindR (inv_DecodeRecord Q body) (\<lambda>out. Inr (out, body)))"

section \<open>The store\<close>

record inv_transition =
  tr_what :: string
  tr_since :: time
  tr_consumed :: bool
  tr_done :: bool

record invite_store =
  vs_busID :: string
  vs_attached :: bool
  vs_maxInvites :: int
  vs_defaultTTL :: int
  vs_maxTTL :: int
  vs_spentRetention :: int
  vs_reservationTTL :: int
  vs_invites :: "(string \<times> invite) list"
  vs_inflight :: "(string \<times> nat) list"
  vs_trans :: "inv_transition list"
  vs_pendingMints :: int
  vs_dummyDigest :: bytes

definition or_default :: "int \<Rightarrow> int \<Rightarrow> int" where
  "or_default v d = (if v \<le> 0 then d else v)"

definition inv_NewStore ::
  "string \<Rightarrow> int \<Rightarrow> int \<Rightarrow> int \<Rightarrow> int \<Rightarrow> int \<Rightarrow> bytes option \<Rightarrow> inv_error + invite_store" where
  "inv_NewStore busID maxInvites defaultTTL maxTTL spentRetention reservationTTL rnd =
     bindR (orErr rnd InvRandom) (\<lambda>dummy. Inr
       \<lparr>vs_busID = busID, vs_attached = False, vs_maxInvites = or_default maxInvites MaxInvites,
        vs_defaultTTL = or_default defaultTTL DefaultTTL, vs_maxTTL = or_default maxTTL MaxTTL,
        vs_spentRetention = or_default spentRetention SpentRetention,
        vs_reservationTTL = or_default reservationTTL ReservationTTL,
        vs_invites = [], vs_inflight = [], vs_trans = [], vs_pendingMints = 0, vs_dummyDigest = dummy\<rparr>)"

definition inv_Attach :: "bool \<Rightarrow> invite_store \<Rightarrow> (inv_error + unit) \<times> invite_store" where
  "inv_Attach isNil s =
     (if isNil then (Inl ErrInvNotDurable, s)
      else if vs_attached s then (Inl InvAttachedTwice, s)
      else (Inr (), s\<lparr>vs_attached := True\<rparr>))"

definition retiredAt :: "invite_store \<Rightarrow> invite \<Rightarrow> time" where
  "retiredAt s r =
     (case iv_State r of
        StateRedeemed \<Rightarrow> iv_RedeemedAt r + vs_spentRetention s
      | StateRevoked \<Rightarrow> (if iv_RevokedAt r < iv_ExpiresAt r then iv_ExpiresAt r else iv_RevokedAt r) + vs_spentRetention s
      | _ \<Rightarrow> iv_ExpiresAt r + vs_spentRetention s)"

text \<open>The two loops of \<^verbatim>\<open>sweepLocked\<close>; each entry is decided by itself, so the order of a Go map does not matter.\<close>

definition retired :: "invite_store \<Rightarrow> time \<Rightarrow> string \<times> invite \<Rightarrow> bool" where
  "retired s now x \<longleftrightarrow> map_of (vs_inflight s) (fst x) = None \<and> retiredAt s (snd x) < now"

definition abandoned :: "invite_store \<Rightarrow> time \<Rightarrow> nat \<Rightarrow> bool" where
  "abandoned s now t \<longleftrightarrow> \<not> tr_consumed (vs_trans s ! t) \<and> vs_reservationTTL s < time_sub now (tr_since (vs_trans s ! t))"

definition inv_sweep :: "time \<Rightarrow> invite_store \<Rightarrow> invite_store" where
  "inv_sweep now s =
     (let reaped = filter (\<lambda>x. abandoned s now (snd x)) (vs_inflight s) in
      s\<lparr>vs_invites := filter (\<lambda>x. \<not> retired s now x) (vs_invites s),
        vs_inflight := filter (\<lambda>x. \<not> abandoned s now (snd x)) (vs_inflight s),
        vs_trans := foldl (\<lambda>ts x. ts[snd x := (ts ! snd x)\<lparr>tr_done := True\<rparr>]) (vs_trans s) reaped\<rparr>)"

definition inv_Len :: "time \<Rightarrow> invite_store \<Rightarrow> nat \<times> invite_store" where
  "inv_Len now s = (let s1 = inv_sweep now s in (length (vs_invites s1), s1))"

definition inv_Lookup :: "time \<Rightarrow> string \<Rightarrow> invite_store \<Rightarrow> invite option \<times> invite_store" where
  "inv_Lookup now iid s = (let s1 = inv_sweep now s in (map_of (vs_invites s1) iid, s1))"

definition sameEvent :: "invite \<Rightarrow> invite \<Rightarrow> bool" where
  "sameEvent a b \<longleftrightarrow>
     (case iv_State a of
        StateRedeemed \<Rightarrow> iv_RedeemKey a = iv_RedeemKey b \<and> iv_RedeemedBy a = iv_RedeemedBy b \<and> iv_RedeemedAt a = iv_RedeemedAt b
      | StateRevoked \<Rightarrow> iv_RevokedAt a = iv_RevokedAt b
      | _ \<Rightarrow> False)"

definition put_invite :: "invite \<Rightarrow> invite_store \<Rightarrow> invite_store" where
  "put_invite r s = s\<lparr>vs_invites := AList.update (iv_ID r) r (vs_invites s)\<rparr>"

definition inv_upsert :: "time \<Rightarrow> invite \<Rightarrow> invite_store \<Rightarrow> (inv_error + unit) \<times> invite_store" where
  "inv_upsert now r s0 =
     (let s = inv_sweep now s0 in
      case map_of (vs_invites s) (iv_ID r) of
        None \<Rightarrow>
          if vs_maxInvites s \<le> int (length (vs_invites s)) then (Inl ErrInviteCapacity, s) else (Inr (), put_invite r s)
      | Some existing \<Rightarrow>
          if iv_SecretDigest existing \<noteq> iv_SecretDigest r then (Inl ErrInvalidInvite, s)
          else if iv_BusID existing \<noteq> iv_BusID r then (Inl ErrInvalidInvite, s)
          else if iv_State existing = StateOpen \<and> iv_State r = StateOpen then
            if iv_CreatedAt existing \<noteq> iv_CreatedAt r then (Inl ErrInvalidInvite, s) else (Inr (), s)
          else if iv_State existing = StateOpen then (Inr (), put_invite r s)
          else if iv_State r = iv_State existing then
            if sameEvent existing r then (Inr (), s)
            else if iv_State r = StateRedeemed then (Inl ErrAlreadyRedeemed, s)
            else (Inr (), s)
          else (Inl ErrInvalidInvite, s))"

definition inv_foldIn :: "time \<Rightarrow> invite \<Rightarrow> invite_store \<Rightarrow> invite_store" where
  "inv_foldIn now r s = snd (inv_upsert now r s)"

definition bytes_of :: "bytes option \<Rightarrow> bytes" where
  "bytes_of b = (case b of None \<Rightarrow> [] | Some x \<Rightarrow> x)"

definition inv_Apply :: "invite_codec \<Rightarrow> invite_store applier" where
  "inv_Apply Q now c s =
     (if en_Kind (cm_Entry c) \<noteq> InviteRecordKind then (True, s)
      else case inv_DecodeRecord Q (bytes_of (en_Body (cm_Entry c))) of
        Inl _ \<Rightarrow> (True, s)
      | Inr rec \<Rightarrow> (True, snd (inv_upsert now rec s)))"

section \<open>Transitions\<close>

definition beginTransition :: "string \<Rightarrow> string \<Rightarrow> time \<Rightarrow> invite_store \<Rightarrow> (inv_error + nat) \<times> invite_store" where
  "beginTransition iid what now s =
     (case map_of (vs_inflight s) iid of
        Some _ \<Rightarrow> (Inl ErrRedemptionInFlight, s)
      | None \<Rightarrow>
          (Inr (length (vs_trans s)),
           s\<lparr>vs_inflight := AList.update iid (length (vs_trans s)) (vs_inflight s),
             vs_trans := vs_trans s @ [\<lparr>tr_what = what, tr_since = now, tr_consumed = False, tr_done = False\<rparr>]\<rparr>))"

definition releaseLocked :: "string \<Rightarrow> nat \<Rightarrow> invite_store \<Rightarrow> invite_store" where
  "releaseLocked iid t s =
     (if tr_done (vs_trans s ! t) then s
      else let s1 = s\<lparr>vs_trans := (vs_trans s)[t := (vs_trans s ! t)\<lparr>tr_done := True\<rparr>]\<rparr> in
        if map_of (vs_inflight s1) iid = Some t then s1\<lparr>vs_inflight := AList.delete iid (vs_inflight s1)\<rparr> else s1)"

definition set_consumed :: "nat \<Rightarrow> invite_store \<Rightarrow> invite_store" where
  "set_consumed t s = s\<lparr>vs_trans := (vs_trans s)[t := (vs_trans s ! t)\<lparr>tr_consumed := True\<rparr>]\<rparr>"

text \<open>\<^verbatim>\<open>Mint\<close> up to the write, and the deferred decrement.\<close>

definition mint_start ::
  "invite_codec \<Rightarrow> bytes option \<Rightarrow> bytes option \<Rightarrow> time \<Rightarrow> string \<Rightarrow> int \<Rightarrow> invite_store \<Rightarrow>
     (inv_error + string \<times> string \<times> int) \<times> invite_store" where
  "mint_start Q rnd1 rnd2 now label ttl0 s =
     (if \<not> vs_attached s then (Inl ErrInvNotDurable, s)
      else if vs_busID s = [] then (Inl ErrInvalidInvite, s)
      else if MaxLabelLen < length label then (Inl ErrInvalidInvite, s)
      else case (if ttl0 = 0 then Inr (vs_defaultTTL s) else if ttl0 < 0 then Inl ErrInvalidTTL
                 else if vs_maxTTL s < ttl0 then Inl ErrInvalidTTL else Inr ttl0) of
        Inl e \<Rightarrow> (Inl e, s)
      | Inr ttl \<Rightarrow>
     (case bindR (GenerateInviteID rnd1) (\<lambda>iid. bindR (GenerateSecret rnd2) (\<lambda>sec. Inr (iid, sec))) of
        Inl e \<Rightarrow> (Inl e, s)
      | Inr (iid, sec) \<Rightarrow>
          (let s1 = inv_sweep now s in
           if vs_maxInvites s1 \<le> int (length (vs_invites s1)) + vs_pendingMints s1 then (Inl ErrInviteCapacity, s1)
           else if map_of (vs_invites s1) iid \<noteq> None then (Inl ErrInvalidInviteID, s1)
           else (Inr (iid, sec, ttl), s1\<lparr>vs_pendingMints := vs_pendingMints s1 + 1\<rparr>))))"

definition open_invite :: "string \<Rightarrow> string \<Rightarrow> string \<Rightarrow> string \<Rightarrow> time \<Rightarrow> int \<Rightarrow> invite" where
  "open_invite iid busID sec label now ttl =
     \<lparr>iv_ID = iid, iv_BusID = busID, iv_SecretDigest = HashSecret sec, iv_Label = label, iv_CreatedAt = now,
      iv_ExpiresAt = now + ttl, iv_State = StateOpen, iv_RedeemedAt = 0, iv_RedeemedBy = [], iv_RedeemKey = [],
      iv_RedeemFingerprint = zeroDigest, iv_Result = [], iv_CertFingerprint = zeroDigest, iv_RevokedAt = 0,
      iv_RevokedReason = []\<rparr>"

definition mint_done :: "invite_store \<Rightarrow> invite_store" where
  "mint_done s = s\<lparr>vs_pendingMints := vs_pendingMints s - 1\<rparr>"

text \<open>\<^verbatim>\<open>Revoke\<close> up to the reservation; \<open>Inr (cur, None)\<close> is an invite already revoked.\<close>

definition revoke_start ::
  "time \<Rightarrow> string \<Rightarrow> string \<Rightarrow> invite_store \<Rightarrow> (inv_error + invite \<times> nat option) \<times> invite_store" where
  "revoke_start now iid reason s =
     (case ValidateInviteID iid of
        Inl e \<Rightarrow> (Inl e, s)
      | Inr _ \<Rightarrow>
     if MaxReasonLen < length reason then (Inl ErrInvalidInvite, s)
     else if \<not> vs_attached s then (Inl ErrInvNotDurable, s)
     else let s1 = inv_sweep now s in
       case map_of (vs_invites s1) iid of
         None \<Rightarrow> (Inl ErrUnknownInvite, s1)
       | Some cur \<Rightarrow>
           if iv_State cur = StateRevoked then (Inr (cur, None), s1)
           else if iv_State cur = StateRedeemed then (Inl ErrAlreadyRedeemed, s1)
           else case beginTransition iid ''revocation'' now s1 of
               (Inl e, s2) \<Rightarrow> (Inl e, s2)
             | (Inr t, s2) \<Rightarrow> (Inr (cur, Some t), s2))"

definition revoked_invite :: "invite \<Rightarrow> time \<Rightarrow> string \<Rightarrow> invite" where
  "revoked_invite cur now reason = cur\<lparr>iv_State := StateRevoked, iv_RevokedAt := now, iv_RevokedReason := reason\<rparr>"

section \<open>Redemption\<close>

datatype redeem_outcome = OutcomeReserved | OutcomeReplay

record redeem_request =
  rq_InviteID :: string
  rq_Secret :: string
  rq_Key :: string
  rq_Fingerprint :: bytes

record redeem_result =
  rr_AgentID :: string
  rr_Response :: bytes
  rr_CertFingerprint :: bytes

record redemption =
  rd_req :: redeem_request
  rd_invite :: invite
  rd_outcome :: redeem_outcome
  rd_t :: nat
  rd_consumed :: "invite option"

definition withoutSecret :: "redeem_request \<Rightarrow> redeem_request" where
  "withoutSecret r = r\<lparr>rq_Secret := []\<rparr>"

definition inv_Begin :: "time \<Rightarrow> redeem_request \<Rightarrow> invite_store \<Rightarrow> (inv_error + redemption) \<times> invite_store" where
  "inv_Begin now req s =
     (case bindR (ValidateInviteID (rq_InviteID req)) (\<lambda>_.
           bindR (wrapErr (\<lambda>_. ErrInvalidInvite) (ValidateKey (rq_Key req))) (\<lambda>_.
           if rq_Secret req = [] \<or> MaxSecretLen < length (rq_Secret req) then Inl ErrUnknownInvite else Inr ())) of
        Inl e \<Rightarrow> (Inl e, s)
      | Inr _ \<Rightarrow>
          (let s1 = inv_sweep now s; known = map_of (vs_invites s1) (rq_InviteID req);
               digest = (case known of None \<Rightarrow> vs_dummyDigest s1 | Some cur \<Rightarrow> iv_SecretDigest cur) in
           case known of
             None \<Rightarrow> (Inl ErrUnknownInvite, s1)
           | Some cur \<Rightarrow>
             if \<not> VerifySecret (rq_Secret req) digest then (Inl ErrUnknownInvite, s1)
             else if map_of (vs_inflight s1) (rq_InviteID req) \<noteq> None then (Inl ErrRedemptionInFlight, s1)
             else if iv_State cur = StateRevoked then (Inl ErrRevoked, s1)
             else if iv_State cur = StateRedeemed then
               if iv_RedeemKey cur \<noteq> rq_Key req then (Inl ErrAlreadyRedeemed, s1)
               else if iv_RedeemFingerprint cur \<noteq> rq_Fingerprint req then (Inl ErrKeyReuse, s1)
               else (Inr \<lparr>rd_req = withoutSecret req, rd_invite = cur, rd_outcome = OutcomeReplay, rd_t = 0, rd_consumed = None\<rparr>, s1)
             else if Expired cur now then (Inl ErrExpired, s1)
             else case beginTransition (rq_InviteID req) ''redemption'' now s1 of
                 (Inl e, s2) \<Rightarrow> (Inl e, s2)
               | (Inr t, s2) \<Rightarrow>
                   (Inr \<lparr>rd_req = withoutSecret req, rd_invite = cur, rd_outcome = OutcomeReserved, rd_t = t, rd_consumed = None\<rparr>, s2)))"

definition redemption_Result :: "redemption \<Rightarrow> bytes" where
  "redemption_Result r = (if rd_outcome r \<noteq> OutcomeReplay then [] else iv_Result (rd_invite r))"

definition redeemed_invite :: "redemption \<Rightarrow> redeem_result \<Rightarrow> time \<Rightarrow> invite" where
  "redeemed_invite r res now = (rd_invite r)\<lparr>iv_State := StateRedeemed, iv_RedeemedAt := now, iv_RedeemedBy := rr_AgentID res,
     iv_RedeemKey := rq_Key (rd_req r), iv_RedeemFingerprint := rq_Fingerprint (rd_req r), iv_Result := rr_Response res,
     iv_CertFingerprint := rr_CertFingerprint res\<rparr>"

definition inv_Consume ::
  "invite_codec \<Rightarrow> time \<Rightarrow> redeem_result \<Rightarrow> redemption \<Rightarrow> invite_store \<Rightarrow> (inv_error + bytes) \<times> redemption \<times> invite_store" where
  "inv_Consume Q now res r s =
     (if rd_outcome r \<noteq> OutcomeReserved then (Inl InvResolved, r, s)
      else if rr_AgentID res = [] then (Inl ErrInvalidInvite, r, s)
      else if tr_done (vs_trans s ! rd_t r) then (Inl InvResolved, r, s)
      else if tr_consumed (vs_trans s ! rd_t r) then (Inl InvResolved, r, s)
      else case inv_canonical Q (redeemed_invite r res now) of
        Inl e \<Rightarrow> (Inl e, r, s)
      | Inr (rec, body) \<Rightarrow> (Inr body, r\<lparr>rd_consumed := Some rec\<rparr>, set_consumed (rd_t r) s))"

definition inv_Commit :: "time \<Rightarrow> redemption \<Rightarrow> invite_store \<Rightarrow> (inv_error + unit) \<times> invite_store" where
  "inv_Commit now r s =
     (if rd_outcome r = OutcomeReplay then (Inr (), s)
      else if tr_done (vs_trans s ! rd_t r) then (Inr (), s)
      else if \<not> tr_consumed (vs_trans s ! rd_t r) then (Inl InvResolved, s)
      else case rd_consumed r of
        None \<Rightarrow> (Inl InvResolved, s)
      | Some rec \<Rightarrow> (Inr (), releaseLocked (rq_InviteID (rd_req r)) (rd_t r) (inv_foldIn now rec s)))"

definition inv_Abort :: "redemption \<Rightarrow> invite_store \<Rightarrow> invite_store" where
  "inv_Abort r s =
     (if rd_outcome r = OutcomeReplay then s
      else if tr_done (vs_trans s ! rd_t r) then s
      else releaseLocked (rq_InviteID (rd_req r)) (rd_t r) s)"

section \<open>The calls\<close>

type_synonym invite_log = "invite_store event_log"

abbreviation upd_inv :: "(invite_store \<Rightarrow> invite_store) \<Rightarrow> invite_log \<Rightarrow> invite_log" where
  "upd_inv f L \<equiv> L\<lparr>el_mem := f (el_mem L)\<rparr>"

definition invite_entry :: "bytes \<Rightarrow> entry" where
  "invite_entry body = \<lparr>en_Kind = InviteRecordKind, en_Body = Some body, en_Idem = None, en_Audit = None\<rparr>"

definition inv_Mint ::
  "invite_codec \<Rightarrow> write_fate \<Rightarrow> bytes option \<Rightarrow> bytes option \<Rightarrow> (nat \<Rightarrow> time) \<Rightarrow> string \<Rightarrow> int \<Rightarrow> invite_log \<Rightarrow>
     (inv_error + invite \<times> string) \<times> invite_log" where
  "inv_Mint Q fate rnd1 rnd2 clk label ttl L =
     (case mint_start Q rnd1 rnd2 (clk 0) label ttl (el_mem L) of
        (Inl e, s1) \<Rightarrow> (Inl e, L\<lparr>el_mem := s1\<rparr>)
      | (Inr (iid, sec, ttl), s1) \<Rightarrow>
     (case inv_canonical Q (open_invite iid (vs_busID s1) sec label (clk 0) ttl) of
        Inl e \<Rightarrow> (Inl e, L\<lparr>el_mem := mint_done s1\<rparr>)
      | Inr (rec, body) \<Rightarrow>
     (case event_Write (inv_Apply Q) fate (clk 1) (invite_entry body) (L\<lparr>el_mem := s1\<rparr>) of
        (Inl e, L2) \<Rightarrow> (Inl (InvLog e), upd_inv mint_done L2)
      | (Inr _, L2) \<Rightarrow> (Inr (rec, sec), upd_inv (mint_done \<circ> inv_foldIn (clk 2) rec) L2))))"

definition inv_Revoke ::
  "invite_codec \<Rightarrow> write_fate \<Rightarrow> (nat \<Rightarrow> time) \<Rightarrow> string \<Rightarrow> string \<Rightarrow> invite_log \<Rightarrow> (inv_error + invite) \<times> invite_log" where
  "inv_Revoke Q fate clk iid reason L =
     (case revoke_start (clk 0) iid reason (el_mem L) of
        (Inl e, s1) \<Rightarrow> (Inl e, L\<lparr>el_mem := s1\<rparr>)
      | (Inr (cur, None), s1) \<Rightarrow> (Inr cur, L\<lparr>el_mem := s1\<rparr>)
      | (Inr (cur, Some t), s1) \<Rightarrow>
     (case inv_canonical Q (revoked_invite cur (clk 0) reason) of
        Inl e \<Rightarrow> (Inl e, L\<lparr>el_mem := releaseLocked iid t s1\<rparr>)
      | Inr (rec, body) \<Rightarrow>
     (case event_Write (inv_Apply Q) fate (clk 1) (invite_entry body) (L\<lparr>el_mem := set_consumed t s1\<rparr>) of
        (Inl e, L2) \<Rightarrow> (Inl (InvLog e), if e = ErrDiverged then L2 else upd_inv (releaseLocked iid t) L2)
      | (Inr _, L2) \<Rightarrow> (Inr rec, upd_inv (releaseLocked iid t \<circ> inv_foldIn (clk 2) rec) L2))))"

definition inv_Redeem ::
  "invite_codec \<Rightarrow> write_fate \<Rightarrow> (nat \<Rightarrow> time) \<Rightarrow> redeem_request \<Rightarrow> redeem_result \<Rightarrow> invite_log \<Rightarrow>
     (inv_error + invite) \<times> invite_log" where
  "inv_Redeem Q fate clk req res L =
     (if \<not> vs_attached (el_mem L) then (Inl ErrInvNotDurable, L)
      else case inv_Begin (clk 0) req (el_mem L) of
        (Inl e, s1) \<Rightarrow> (Inl e, L\<lparr>el_mem := s1\<rparr>)
      | (Inr r, s1) \<Rightarrow>
     if rd_outcome r = OutcomeReplay then (Inr (rd_invite r), L\<lparr>el_mem := s1\<rparr>)
     else case inv_Consume Q (clk 1) res r s1 of
        (Inl e, r1, s2) \<Rightarrow> (Inl e, L\<lparr>el_mem := inv_Abort r1 s2\<rparr>)
      | (Inr body, r1, s2) \<Rightarrow>
     (case event_Write (inv_Apply Q) fate (clk 2) (invite_entry body) (L\<lparr>el_mem := s2\<rparr>) of
        (Inl e, L2) \<Rightarrow> (Inl (InvLog e), if e = ErrDiverged then L2 else upd_inv (inv_Abort r1) L2)
      | (Inr _, L2) \<Rightarrow>
          (case inv_Commit (clk 3) r1 (el_mem L2) of
             (Inl e, s3) \<Rightarrow> (Inl e, L2\<lparr>el_mem := s3\<rparr>)
           | (Inr _, s3) \<Rightarrow> (Inr (the (rd_consumed r1)), L2\<lparr>el_mem := s3\<rparr>))))"

end
