(* ===== verification/InviteOnce.thy ===== *)
theory InviteOnce
  imports Invite
begin

text \<open>
  An invitation is spent once.  The calls of \<^verbatim>\<open>internal/invite/store.go\<close> release the mutex around the durable
  write, so the step relation \<open>inv_step\<close> works on critical sections: each process stands between two of them, the log decides
  the fate of each write, and a restart replays the log into a fresh store and forgets the processes.  The
  invariant relates the table, the reservations and the processes to the committed records.
\<close>

section \<open>Rows and reservations\<close>

abbreviation row :: "invite_store \<Rightarrow> string \<Rightarrow> invite option" where
  "row s \<equiv> map_of (vs_invites s)"

abbreviation holder :: "invite_store \<Rightarrow> string \<Rightarrow> nat option" where
  "holder s \<equiv> map_of (vs_inflight s)"

abbreviation live :: "invite_store \<Rightarrow> nat \<Rightarrow> bool" where
  "live s t \<equiv> t < length (vs_trans s) \<and> \<not> tr_done (vs_trans s ! t)"

definition store_ok :: "invite_store \<Rightarrow> bool" where
  "store_ok s \<longleftrightarrow> distinct (map fst (vs_invites s)) \<and> distinct (map fst (vs_inflight s)) \<and>
     distinct (map snd (vs_inflight s)) \<and> (\<forall>x\<in>set (vs_inflight s). snd x < length (vs_trans s))"

lemma map_of_filter_distinct:
  "distinct (map fst al) \<Longrightarrow>
     map_of (filter P al) k = (case map_of al k of None \<Rightarrow> None | Some v \<Rightarrow> if P (k, v) then Some v else None)"
  by (induction al) (auto simp: map_of_eq_None_iff dom_map_of_conv_image_fst split: option.splits)

lemma foldl_done:
  "length (foldl (\<lambda>ts x. ts[snd x := (ts ! snd x)\<lparr>tr_done := True\<rparr>]) ts xs) = length ts"
  "t < length ts \<Longrightarrow> foldl (\<lambda>ts x. ts[snd x := (ts ! snd x)\<lparr>tr_done := True\<rparr>]) ts xs ! t =
     (if t \<in> snd ` set xs then (ts ! t)\<lparr>tr_done := True\<rparr> else ts ! t)"
proof -
  show "length (foldl (\<lambda>ts x. ts[snd x := (ts ! snd x)\<lparr>tr_done := True\<rparr>]) ts xs) = length ts"
    by (induction xs arbitrary: ts) simp_all
  show "foldl (\<lambda>ts x. ts[snd x := (ts ! snd x)\<lparr>tr_done := True\<rparr>]) ts xs ! t =
     (if t \<in> snd ` set xs then (ts ! t)\<lparr>tr_done := True\<rparr> else ts ! t)" if "t < length ts"
    using that
  proof (induction xs arbitrary: ts)
    case (Cons x xs)
    then show ?case by (cases "snd x = t") (auto simp: nth_list_update_neq)
  qed simp
qed

lemma sweep_fields [simp]:
  "vs_busID (inv_sweep now s) = vs_busID s" "vs_attached (inv_sweep now s) = vs_attached s"
  "vs_maxInvites (inv_sweep now s) = vs_maxInvites s" "length (vs_trans (inv_sweep now s)) = length (vs_trans s)"
  "vs_spentRetention (inv_sweep now s) = vs_spentRetention s"
  by (simp_all add: inv_sweep_def Let_def foldl_done)

lemma sweep_holder:
  assumes "store_ok s"
  shows "holder (inv_sweep now s) k = (case holder s k of None \<Rightarrow> None | Some t \<Rightarrow> if abandoned s now t then None else Some t)"
  using assms map_of_filter_distinct [of "vs_inflight s" "\<lambda>x. \<not> abandoned s now (snd x)" k]
  by (simp add: inv_sweep_def Let_def store_ok_def split: option.splits)

lemma inv_sweep_row:
  assumes "store_ok s"
  shows "row (inv_sweep now s) k = (case row s k of None \<Rightarrow> None | Some r \<Rightarrow> if retired s now (k, r) then None else Some r)"
  using assms map_of_filter_distinct [of "vs_invites s" "\<lambda>x. \<not> retired s now x" k]
  by (simp add: inv_sweep_def Let_def store_ok_def split: option.splits)

lemma sweep_row_cases:
  assumes "store_ok s"
  shows "row (inv_sweep now s) k \<noteq> None \<Longrightarrow> row (inv_sweep now s) k = row s k"
    "holder s k \<noteq> None \<Longrightarrow> row (inv_sweep now s) k = row s k"
  using inv_sweep_row [OF assms, of now k] by (auto simp: retired_def split: option.splits if_splits)

lemma sweep_trans:
  assumes "store_ok s" "t < length (vs_trans s)"
  shows "tr_consumed (vs_trans (inv_sweep now s) ! t) = tr_consumed (vs_trans s ! t)"
    "tr_done (vs_trans s ! t) \<Longrightarrow> tr_done (vs_trans (inv_sweep now s) ! t)"
    "live (inv_sweep now s) t \<Longrightarrow> holder s k = Some t \<Longrightarrow> holder (inv_sweep now s) k = Some t"
    "tr_consumed (vs_trans s ! t) \<Longrightarrow> live s t \<Longrightarrow> live (inv_sweep now s) t"
proof -
  let ?reaped = "filter (\<lambda>x. abandoned s now (snd x)) (vs_inflight s)"
  have n: "vs_trans (inv_sweep now s) ! t = (if t \<in> snd ` set ?reaped then (vs_trans s ! t)\<lparr>tr_done := True\<rparr> else vs_trans s ! t)"
    using foldl_done(2) [OF assms(2), of ?reaped] by (simp add: inv_sweep_def Let_def)
  show "tr_consumed (vs_trans (inv_sweep now s) ! t) = tr_consumed (vs_trans s ! t)" by (simp add: n)
  show "tr_done (vs_trans s ! t) \<Longrightarrow> tr_done (vs_trans (inv_sweep now s) ! t)" by (simp add: n)
  show "holder (inv_sweep now s) k = Some t" if "live (inv_sweep now s) t" "holder s k = Some t"
  proof -
    have "(k, t) \<in> set (vs_inflight s)" using that(2) by (rule map_of_SomeD)
    then have "\<not> abandoned s now t" using that(1) n by (force split: if_splits)
    then show ?thesis using sweep_holder [OF assms(1)] that(2) by simp
  qed
  show "live (inv_sweep now s) t" if "tr_consumed (vs_trans s ! t)" "live s t"
    using that n by (auto simp: abandoned_def)
qed

lemma sweep_ok: "store_ok s \<Longrightarrow> store_ok (inv_sweep now s)"
  unfolding store_ok_def by (auto simp: inv_sweep_def Let_def foldl_done distinct_map_filter)

lemma put_invite_row: "row (put_invite r s) k = (if k = iv_ID r then Some r else row s k)"
  by (simp add: put_invite_def update_conv)

lemma put_invite_frame [simp]:
  "vs_inflight (put_invite r s) = vs_inflight s" "vs_trans (put_invite r s) = vs_trans s"
  "vs_busID (put_invite r s) = vs_busID s" "vs_attached (put_invite r s) = vs_attached s"
  "vs_maxInvites (put_invite r s) = vs_maxInvites s"
  by (simp_all add: put_invite_def)

lemma put_invite_ok: "store_ok s \<Longrightarrow> store_ok (put_invite r s)"
  by (simp add: store_ok_def put_invite_def distinct_update)

text \<open>What an upsert leaves: the swept store, possibly with the record put in place of nothing or of an open row.\<close>

lemma upsert_state:
  "snd (inv_upsert now r s) = inv_sweep now s \<or>
   snd (inv_upsert now r s) = put_invite r (inv_sweep now s) \<and>
     (\<forall>x. row (inv_sweep now s) (iv_ID r) = Some x \<longrightarrow> iv_State x = StateOpen \<and> iv_State r \<noteq> StateOpen)"
  by (auto simp: inv_upsert_def Let_def split: option.split)

lemma inv_upsert_frame:
  "vs_inflight (snd (inv_upsert now r s)) = vs_inflight (inv_sweep now s)"
  "vs_trans (snd (inv_upsert now r s)) = vs_trans (inv_sweep now s)"
  "vs_busID (snd (inv_upsert now r s)) = vs_busID s" "vs_attached (snd (inv_upsert now r s)) = vs_attached s"
  "vs_maxInvites (snd (inv_upsert now r s)) = vs_maxInvites s"
  using upsert_state [of now r s] by auto

lemma upsert_ok: "store_ok s \<Longrightarrow> store_ok (snd (inv_upsert now r s))"
  using upsert_state [of now r s] sweep_ok put_invite_ok by metis

lemma upsert_other_row:
  "k \<noteq> iv_ID r \<Longrightarrow> row (snd (inv_upsert now r s)) k = row (inv_sweep now s) k"
  using upsert_state [of now r s] by (auto simp: put_invite_row)

text \<open>A spent record replaces the open row of the same invite, and a settled row stays.\<close>

lemma upsert_spent:
  assumes "iv_State r \<noteq> StateOpen" "row (inv_sweep now s) (iv_ID r) = Some x"
    "iv_SecretDigest x = iv_SecretDigest r" "iv_BusID x = iv_BusID r" "iv_State x = StateOpen"
  shows "row (snd (inv_upsert now r s)) (iv_ID r) = Some r"
  using assms by (simp add: inv_upsert_def Let_def put_invite_row)

lemma upsert_settled:
  assumes "row (inv_sweep now s) (iv_ID r) = Some x" "iv_State x \<noteq> StateOpen"
  shows "snd (inv_upsert now r s) = inv_sweep now s"
  using assms by (simp add: inv_upsert_def Let_def)

lemma upsert_row_cases:
  "row (snd (inv_upsert now r s)) (iv_ID r) \<in> {row (inv_sweep now s) (iv_ID r), Some r}"
  using upsert_state [of now r s] by (auto simp: put_invite_row)

section \<open>Committed records\<close>

definition inv_rec_of :: "invite_codec \<Rightarrow> committed \<Rightarrow> invite option" where
  "inv_rec_of Q c =
     (if en_Kind (cm_Entry c) \<noteq> InviteRecordKind then None
      else case inv_DecodeRecord Q (bytes_of (en_Body (cm_Entry c))) of Inl _ \<Rightarrow> None | Inr r \<Rightarrow> Some r)"

definition inv_recs :: "invite_codec \<Rightarrow> committed list \<Rightarrow> invite list" where
  "inv_recs Q cs = List.map_filter (inv_rec_of Q) cs"

lemma inv_recs_simps [simp]:
  "inv_recs Q [] = []" "inv_recs Q (xs @ ys) = inv_recs Q xs @ inv_recs Q ys"
  "inv_recs Q (c # cs) = (case inv_rec_of Q c of None \<Rightarrow> inv_recs Q cs | Some r \<Rightarrow> r # inv_recs Q cs)"
  by (simp_all add: inv_recs_def map_filter_def split: option.split)

lemma inv_Apply_eq:
  "inv_Apply Q now c s = (True, case inv_rec_of Q c of None \<Rightarrow> s | Some r \<Rightarrow> snd (inv_upsert now r s))"
  by (auto simp: inv_Apply_def inv_rec_of_def split: sum.splits)

abbreviation spent :: "invite \<Rightarrow> bool" where
  "spent r \<equiv> iv_State r \<noteq> StateOpen"

text \<open>
  Which record may follow the committed ones: the open record of a new identifier, or a record of the same
  invite that ends it, redeemed at most once.
\<close>

definition fits :: "invite list \<Rightarrow> invite \<Rightarrow> bool" where
  "fits R r \<longleftrightarrow>
     (if spent r
      then \<forall>x\<in>set R. iv_ID x = iv_ID r \<longrightarrow> iv_SecretDigest x = iv_SecretDigest r \<and> iv_BusID x = iv_BusID r \<and>
             \<not> (iv_State r = StateRedeemed \<and> iv_State x = StateRedeemed)
      else iv_ID r \<notin> iv_ID ` set R)"

fun log_fits :: "invite list \<Rightarrow> invite list \<Rightarrow> bool" where
  "log_fits R [] \<longleftrightarrow> True"
| "log_fits R (r # rs) \<longleftrightarrow> fits R r \<and> log_fits (R @ [r]) rs"

lemma log_fits_append: "log_fits R (xs @ ys) \<longleftrightarrow> log_fits R xs \<and> log_fits (R @ xs) ys"
  by (induction R xs rule: log_fits.induct) auto

lemma fitsD:
  assumes "fits R r" "z \<in> set R" "iv_ID z = iv_ID r"
  shows "spent r" "iv_SecretDigest z = iv_SecretDigest r" "iv_BusID z = iv_BusID r"
    "\<not> (iv_State r = StateRedeemed \<and> iv_State z = StateRedeemed)"
proof -
  have "iv_ID r \<in> iv_ID ` set R" using assms(2,3) by (metis image_eqI)
  then show s: "spent r" using assms(1) by (simp add: fits_def split: if_splits)
  then show "iv_SecretDigest z = iv_SecretDigest r" "iv_BusID z = iv_BusID r"
    "\<not> (iv_State r = StateRedeemed \<and> iv_State z = StateRedeemed)"
    using assms by (simp_all add: fits_def)
qed

lemma log_fits_agree:
  assumes "log_fits [] R" "x \<in> set R" "y \<in> set R" "iv_ID x = iv_ID y"
  shows "iv_SecretDigest x = iv_SecretDigest y \<and> iv_BusID x = iv_BusID y"
  using assms
proof (induction R rule: rev_induct)
  case (snoc r R)
  then have f: "fits R r" "log_fits [] R" by (simp_all add: log_fits_append)
  note d = fitsD(2,3) [OF f(1)]
  consider "x = r" "y = r" | "x = r" "y \<in> set R" | "x \<in> set R" "y = r" | "x \<in> set R" "y \<in> set R"
    using snoc.prems by auto
  then show ?case
  proof cases
    case 2
    then show ?thesis using d [of y] snoc.prems(4) by simp
  next
    case 3
    then show ?thesis using d [of x] snoc.prems(4) by simp
  next
    case 4
    then show ?thesis using snoc.IH f(2) snoc.prems(4) by simp
  qed simp
qed simp

lemma log_fits_one_redemption:
  "log_fits [] R \<Longrightarrow> length (filter (\<lambda>r. iv_ID r = iid \<and> iv_State r = StateRedeemed) R) \<le> 1"
proof (induction R rule: rev_induct)
  case (snoc r R)
  then have f: "fits R r" "log_fits [] R" by (simp_all add: log_fits_append)
  have "filter (\<lambda>x. iv_ID x = iid \<and> iv_State x = StateRedeemed) R = []" if "iv_ID r = iid" "iv_State r = StateRedeemed"
    using f(1) that by (auto simp: fits_def filter_empty_conv)
  then show ?case using snoc f(2) by auto
qed simp

section \<open>The table and the log\<close>

definition mem_ok :: "invite_store \<Rightarrow> invite list \<Rightarrow> bool" where
  "mem_ok s R \<longleftrightarrow> store_ok s \<and>
     (\<forall>k r. row s k = Some r \<longrightarrow> r \<in> set R \<and> iv_ID r = k \<and> (\<forall>x\<in>set R. iv_ID x = k \<longrightarrow> spent x \<longrightarrow> spent r))"

lemma mem_okD:
  assumes "mem_ok s R" "row s k = Some r"
  shows "r \<in> set R" "iv_ID r = k" "\<And>x. x \<in> set R \<Longrightarrow> iv_ID x = k \<Longrightarrow> spent x \<Longrightarrow> spent r"
  using assms unfolding mem_ok_def by blast+

lemma mem_okI:
  assumes "store_ok s" "\<And>k r. row s k = Some r \<Longrightarrow> r \<in> set R \<and> iv_ID r = k \<and> (\<forall>x\<in>set R. iv_ID x = k \<longrightarrow> spent x \<longrightarrow> spent r)"
  shows "mem_ok s R"
  using assms unfolding mem_ok_def by blast

lemma mem_ok_store: "mem_ok s R \<Longrightarrow> store_ok s"
  by (simp add: mem_ok_def)

lemma mem_ok_sweep:
  assumes "mem_ok s R"
  shows "mem_ok (inv_sweep now s) R"
proof -
  have "row s k = Some r" if "row (inv_sweep now s) k = Some r" for k r
    using sweep_row_cases(1) [of s now k] assms that by (simp add: mem_ok_def)
  then show ?thesis using assms sweep_ok unfolding mem_ok_def by blast
qed

lemma mem_ok_cong: "mem_ok s R \<Longrightarrow> vs_invites s' = vs_invites s \<Longrightarrow> store_ok s' \<Longrightarrow> mem_ok s' R"
  by (simp add: mem_ok_def)

lemma mem_ok_put:
  assumes "mem_ok s R" "r \<in> set R" "\<And>x. x \<in> set R \<Longrightarrow> iv_ID x = iv_ID r \<Longrightarrow> spent x \<Longrightarrow> spent r"
  shows "mem_ok (put_invite r s) R"
  using assms put_invite_ok unfolding mem_ok_def by (auto simp: put_invite_row split: if_splits)

text \<open>Folding in a record that is already committed.\<close>

lemma mem_ok_fold:
  assumes m: "mem_ok s R" and r: "r \<in> set R" and o: "\<And>x. x \<in> set R \<Longrightarrow> iv_ID x = iv_ID r \<Longrightarrow> spent x \<Longrightarrow> spent r"
  shows "mem_ok (snd (inv_upsert now r s)) R"
proof -
  have "mem_ok (put_invite r (inv_sweep now s)) R" by (rule mem_ok_put [OF mem_ok_sweep [OF m] r]) (rule o)
  then show ?thesis using upsert_state [of now r s] mem_ok_sweep [OF m] by metis
qed

text \<open>Applying the next record of the log.\<close>

lemma mem_ok_apply:
  assumes m: "mem_ok s R" and f: "fits R r"
  shows "mem_ok (snd (inv_upsert now r s)) (R @ [r])"
proof (rule mem_okI [OF upsert_ok [OF mem_ok_store [OF m]]])
  let ?s = "inv_sweep now s" and ?u = "snd (inv_upsert now r s)"
  fix k q assume q: "row ?u k = Some q"
  note m1 = mem_ok_sweep [OF m, of now]
  consider (other) "k \<noteq> iv_ID r" "row ?s k = Some q" | (new) "k = iv_ID r" "q = r"
    | (kept) "k = iv_ID r" "row ?s k = Some q" "q \<noteq> r"
    using q upsert_other_row [of k r now s] upsert_row_cases [of now r s] by (cases "k = iv_ID r"; cases "q = r") auto
  then show "q \<in> set (R @ [r]) \<and> iv_ID q = k \<and> (\<forall>x\<in>set (R @ [r]). iv_ID x = k \<longrightarrow> spent x \<longrightarrow> spent q)"
  proof cases
    case other
    have "\<forall>x\<in>set R. iv_ID x = k \<longrightarrow> spent x \<longrightarrow> spent q" using mem_okD(3) [OF m1 other(2)] by blast
    then show ?thesis using mem_okD(1,2) [OF m1 other(2)] other(1) by simp
  next
    case new
    then show ?thesis using fitsD(1) [OF f] by auto
  next
    case kept
    note d = fitsD [OF f mem_okD(1) [OF m1 kept(2)]] mem_okD(1,2) [OF m1 kept(2)]
    have r: "row ?s (iv_ID r) = Some q" "iv_ID q = iv_ID r" using kept d(6) by simp_all
    then have "spent q" using upsert_spent [OF d(1) r(1) d(2,3)] q kept(1,3) by auto
    then show ?thesis using d(5,6) by simp
  qed
qed

lemma mem_ok_replay:
  assumes "mem_ok s R" "log_fits R (inv_recs Q cs)" "length clks = length cs"
  shows "mem_ok (replay_events (inv_Apply Q) s (zip clks cs)) (R @ inv_recs Q cs)"
  using assms
proof (induction cs arbitrary: s R clks)
  case (Cons c cs)
  obtain t ts where k: "clks = t # ts" using Cons.prems(3) by (cases clks) auto
  show ?case
  proof (cases "inv_rec_of Q c")
    case None
    then show ?thesis using Cons k by (simp add: inv_Apply_eq)
  next
    case (Some r)
    have "mem_ok (snd (inv_upsert t r s)) (R @ [r])" "log_fits (R @ [r]) (inv_recs Q cs)"
      using Cons.prems Some mem_ok_apply by auto
    then show ?thesis using Cons.IH [of _ "R @ [r]" ts] Cons.prems(3) k Some by (simp add: inv_Apply_eq)
  qed
qed simp

section \<open>Operations of the store\<close>

text \<open>
  What an operation may do to the transitions other than those in \<open>T\<close>: abandon a reservation that is not
  consumed, nothing else.
\<close>

definition moves :: "invite_store \<Rightarrow> invite_store \<Rightarrow> nat set \<Rightarrow> bool" where
  "moves s s' T \<longleftrightarrow> length (vs_trans s) \<le> length (vs_trans s') \<and>
     (\<forall>t. t < length (vs_trans s) \<longrightarrow> t \<notin> T \<longrightarrow>
        tr_consumed (vs_trans s' ! t) = tr_consumed (vs_trans s ! t) \<and>
        (tr_done (vs_trans s ! t) \<longrightarrow> tr_done (vs_trans s' ! t)) \<and>
        (tr_consumed (vs_trans s ! t) \<longrightarrow> tr_done (vs_trans s' ! t) \<longrightarrow> tr_done (vs_trans s ! t)) \<and>
        (\<forall>k. \<not> tr_done (vs_trans s' ! t) \<longrightarrow> holder s k = Some t \<longrightarrow> holder s' k = Some t))"

lemma moves_same: "vs_trans s' = vs_trans s \<Longrightarrow> vs_inflight s' = vs_inflight s \<Longrightarrow> moves s s' T"
  by (simp add: moves_def)

lemma moves_sweep: "store_ok s \<Longrightarrow> moves s (inv_sweep now s) T"
  using sweep_trans [of s _ now] unfolding moves_def by (metis order.refl sweep_fields(4))

lemma moves_upsert: "store_ok s \<Longrightarrow> moves s (snd (inv_upsert now r s)) T"
  using moves_sweep [of s now T] inv_upsert_frame(1,2) [of now r s] by (simp add: moves_def)

lemma set_consumed_fields [simp]:
  "vs_invites (set_consumed t s) = vs_invites s" "vs_inflight (set_consumed t s) = vs_inflight s"
  "length (vs_trans (set_consumed t s)) = length (vs_trans s)" "vs_busID (set_consumed t s) = vs_busID s"
  by (simp_all add: set_consumed_def)

lemma moves_set_consumed: "moves s (set_consumed t s) {t}"
  by (auto simp: moves_def set_consumed_def nth_list_update_neq)

lemma releaseLocked_fields [simp]:
  "vs_invites (releaseLocked iid t s) = vs_invites s" "length (vs_trans (releaseLocked iid t s)) = length (vs_trans s)"
  "vs_busID (releaseLocked iid t s) = vs_busID s"
  by (simp_all add: releaseLocked_def Let_def)

lemma moves_release: "moves s (releaseLocked iid t s) {t}"
  by (auto simp: moves_def releaseLocked_def Let_def nth_list_update_neq delete_conv)

lemma release_ok: "store_ok s \<Longrightarrow> store_ok (releaseLocked iid t s)"
proof -
  assume s: "store_ok s"
  have "distinct (map snd (AList.delete iid (vs_inflight s)))"
    using s by (simp add: store_ok_def AList.delete_eq distinct_map_filter)
  then show ?thesis
    using s distinct_delete [of "vs_inflight s" iid]
    by (auto simp: store_ok_def releaseLocked_def Let_def AList.delete_eq dest: in_set_conv_nth [THEN iffD1])
qed

lemma set_consumed_ok: "store_ok s \<Longrightarrow> store_ok (set_consumed t s)"
  by (simp add: store_ok_def)

lemma mem_ok_release: "mem_ok s R \<Longrightarrow> mem_ok (releaseLocked iid t s) R"
  by (rule mem_ok_cong) (simp_all add: release_ok mem_ok_store)

lemma mem_ok_set_consumed: "mem_ok s R \<Longrightarrow> mem_ok (set_consumed t s) R"
  by (rule mem_ok_cong) (simp_all add: set_consumed_ok mem_ok_store)

lemma update_new: "map_of al k = None \<Longrightarrow> AList.update k v al = al @ [(k, v)]"
  by (induction al) (auto split: if_splits)

text \<open>A reservation of an invite nobody holds.\<close>

lemma beginTransition_ok:
  assumes s: "store_ok s" and b: "beginTransition iid what now s = (Inr t, s')"
  shows "t = length (vs_trans s)" "store_ok s'" "moves s s' T" "holder s' iid = Some t" "length (vs_trans s') = Suc t"
    "\<not> tr_done (vs_trans s' ! t)" "\<not> tr_consumed (vs_trans s' ! t)" "vs_invites s' = vs_invites s" "vs_busID s' = vs_busID s"
proof -
  have n: "holder s iid = None" "t = length (vs_trans s)"
    and e: "s' = s\<lparr>vs_inflight := vs_inflight s @ [(iid, t)], vs_trans := vs_trans s @ [\<lparr>tr_what = what, tr_since = now, tr_consumed = False, tr_done = False\<rparr>]\<rparr>"
    using b update_new [of "vs_inflight s" iid] by (auto simp: beginTransition_def split: option.splits)
  show "t = length (vs_trans s)" by (rule n)
  have i: "iid \<notin> fst ` set (vs_inflight s)" using n(1) by (simp add: map_of_eq_None_iff)
  show "store_ok s'"
    using s i n(2) unfolding store_ok_def e by (auto simp: less_Suc_eq)
  show "moves s s' T"
    using n unfolding moves_def e by (auto simp: nth_append map_add_def)
  show "holder s' iid = Some t" "length (vs_trans s') = Suc t" "\<not> tr_done (vs_trans s' ! t)" "\<not> tr_consumed (vs_trans s' ! t)"
    "vs_invites s' = vs_invites s" "vs_busID s' = vs_busID s"
    using n unfolding e by (simp_all add: map_add_def)
qed

lemma beginTransition_refused: "beginTransition iid what now s = (Inl e, s') \<Longrightarrow> s' = s"
  by (simp add: beginTransition_def split: option.splits)

lemma movesD:
  assumes "moves s s' T" "t < length (vs_trans s)" "t \<notin> T"
  shows "t < length (vs_trans s')" "tr_consumed (vs_trans s' ! t) = tr_consumed (vs_trans s ! t)"
    "tr_done (vs_trans s ! t) \<Longrightarrow> tr_done (vs_trans s' ! t)"
    "tr_consumed (vs_trans s ! t) \<Longrightarrow> tr_done (vs_trans s' ! t) \<Longrightarrow> tr_done (vs_trans s ! t)"
    "\<not> tr_done (vs_trans s' ! t) \<Longrightarrow> holder s k = Some t \<Longrightarrow> holder s' k = Some t"
  using assms unfolding moves_def by (meson order.strict_trans2, blast+)

lemma moves_trans:
  assumes a: "moves s s1 T" and b: "moves s1 s2 T"
  shows "moves s s2 T"
  unfolding moves_def
proof (intro conjI allI impI)
  show "length (vs_trans s) \<le> length (vs_trans s2)" using assms by (simp add: moves_def)
  fix t assume t: "t < length (vs_trans s)" "t \<notin> T"
  note A = movesD [OF a t] and B = movesD [OF b movesD(1) [OF a t] t(2)]
  show "tr_consumed (vs_trans s2 ! t) = tr_consumed (vs_trans s ! t)" using A(2) B(2) by simp
  show "tr_done (vs_trans s ! t) \<Longrightarrow> tr_done (vs_trans s2 ! t)" using A(3) B(3) by blast
  show "tr_consumed (vs_trans s ! t) \<Longrightarrow> tr_done (vs_trans s2 ! t) \<Longrightarrow> tr_done (vs_trans s ! t)" using A(2,4) B(4) by blast
  fix k assume "\<not> tr_done (vs_trans s2 ! t)" "holder s k = Some t"
  then show "holder s2 k = Some t" using A(5) B(3,5) by blast
qed

section \<open>Processes\<close>

text \<open>
  Where a call stands between two critical sections: \<^verbatim>\<open>Mint\<close> before its write, before its fold and before its decrement;
  a redemption after \<^verbatim>\<open>Begin\<close>, after \<^verbatim>\<open>Consume\<close>, after its write, and before \<^verbatim>\<open>Abort\<close>; \<^verbatim>\<open>Revoke\<close> before
  it marks its reservation, before its write, before its fold and before the deferred release.
\<close>

datatype inv_proc =
    PMint invite bytes | PMinted invite | PCount
  | PRedeem redemption | PConsumed redemption bytes | PRedeemed redemption | PAbort redemption
  | PRevoke string nat invite bytes | PRevoking string nat invite bytes | PRevoked string nat invite | PRelease string nat

type_synonym inv_system = "invite_log \<times> (nat \<Rightarrow> inv_proc option)"

definition mint_proc ::
  "invite_codec \<Rightarrow> time \<Rightarrow> string \<Rightarrow> string \<Rightarrow> inv_error + string \<times> string \<times> int \<Rightarrow> inv_proc option" where
  "mint_proc Q now label busID r =
     (case r of Inl _ \<Rightarrow> None
      | Inr (iid, sec, ttl) \<Rightarrow>
          (case inv_canonical Q (open_invite iid busID sec label now ttl) of
             Inl _ \<Rightarrow> Some PCount | Inr (rec, body) \<Rightarrow> Some (PMint rec body)))"

definition revoke_proc ::
  "invite_codec \<Rightarrow> time \<Rightarrow> string \<Rightarrow> string \<Rightarrow> inv_error + invite \<times> nat option \<Rightarrow> inv_proc option" where
  "revoke_proc Q now iid reason r =
     (case r of Inl _ \<Rightarrow> None
      | Inr (cur, None) \<Rightarrow> None
      | Inr (cur, Some t) \<Rightarrow>
          (case inv_canonical Q (revoked_invite cur now reason) of
             Inl _ \<Rightarrow> Some (PRelease iid t) | Inr (rec, body) \<Rightarrow> Some (PRevoke iid t rec body)))"

definition begin_proc :: "inv_error + redemption \<Rightarrow> inv_proc option" where
  "begin_proc r = (case r of Inl _ \<Rightarrow> None | Inr rd \<Rightarrow> if rd_outcome rd = OutcomeReplay then None else Some (PRedeem rd))"

definition consume_proc :: "inv_error + bytes \<Rightarrow> redemption \<Rightarrow> inv_proc" where
  "consume_proc b rd = (case b of Inl _ \<Rightarrow> PAbort rd | Inr body \<Rightarrow> PConsumed rd body)"

text \<open>Where a process goes with the outcome of its write.\<close>

fun written_proc :: "log_error + committed \<Rightarrow> inv_proc \<Rightarrow> inv_proc option" where
  "written_proc w (PMint rec body) = Some (case w of Inl _ \<Rightarrow> PCount | Inr _ \<Rightarrow> PMinted rec)"
| "written_proc w (PConsumed rd body) =
     (case w of Inl e \<Rightarrow> if e = ErrDiverged then None else Some (PAbort rd) | Inr _ \<Rightarrow> Some (PRedeemed rd))"
| "written_proc w (PRevoking iid t rec body) =
     (case w of Inl e \<Rightarrow> if e = ErrDiverged then None else Some (PRelease iid t) | Inr _ \<Rightarrow> Some (PRevoked iid t rec))"
| "written_proc w p = Some p"

fun proc_body :: "inv_proc \<Rightarrow> bytes option" where
  "proc_body (PMint rec body) = Some body"
| "proc_body (PConsumed rd body) = Some body"
| "proc_body (PRevoking iid t rec body) = Some body"
| "proc_body p = None"

fun proc_trans :: "inv_proc \<Rightarrow> nat option" where
  "proc_trans (PRedeem rd) = Some (rd_t rd)"
| "proc_trans (PConsumed rd body) = Some (rd_t rd)"
| "proc_trans (PRedeemed rd) = Some (rd_t rd)"
| "proc_trans (PAbort rd) = Some (rd_t rd)"
| "proc_trans (PRevoke iid t rec body) = Some t"
| "proc_trans (PRevoking iid t rec body) = Some t"
| "proc_trans (PRevoked iid t rec) = Some t"
| "proc_trans (PRelease iid t) = Some t"
| "proc_trans p = None"

text \<open>The invite a process may still write a record of, the one it is about to create, and the one it has just created.\<close>

fun proc_target :: "inv_proc \<Rightarrow> string option" where
  "proc_target (PRedeem rd) = Some (rq_InviteID (rd_req rd))"
| "proc_target (PConsumed rd body) = Some (rq_InviteID (rd_req rd))"
| "proc_target (PRevoke iid t rec body) = Some iid"
| "proc_target (PRevoking iid t rec body) = Some iid"
| "proc_target p = None"

fun proc_mints :: "inv_proc \<Rightarrow> string option" where
  "proc_mints (PMint rec body) = Some (iv_ID rec)"
| "proc_mints p = None"

fun proc_minted :: "inv_proc \<Rightarrow> string option" where
  "proc_minted (PMinted rec) = Some (iv_ID rec)"
| "proc_minted p = None"

definition handed_out :: "(nat \<Rightarrow> inv_proc option) \<Rightarrow> string \<Rightarrow> bool" where
  "handed_out P iid \<longleftrightarrow> (\<forall>i p. P i = Some p \<longrightarrow> proc_minted p \<noteq> Some iid)"

definition unused_id :: "invite_codec \<Rightarrow> inv_system \<Rightarrow> bytes option \<Rightarrow> bool" where
  "unused_id Q S rnd \<longleftrightarrow> (\<forall>iid. GenerateInviteID rnd = Inr iid \<longrightarrow> iid \<notin> iv_ID ` set (inv_recs Q (el_done (fst S))) \<and>
     (\<forall>i p. snd S i = Some p \<longrightarrow> proc_mints p \<noteq> Some iid))"

definition inv_serving :: "invite_log \<Rightarrow> invite_log" where
  "inv_serving L = upd_inv (\<lambda>s. s\<lparr>vs_attached := True\<rparr>) L"

text \<open>
  The steps.  A new identifier has not been drawn before, and an invite is redeemed or revoked
  only once \<^verbatim>\<open>Mint\<close> has folded it in and can return it.  Any process may be overtaken by any other, may stop for good,
  and is lost in a restart.
\<close>

inductive inv_step :: "invite_codec \<Rightarrow> invite_store \<Rightarrow> inv_system \<Rightarrow> inv_system \<Rightarrow> bool" for Q m0 where
  looked_up: "inv_step Q m0 (L, P) (upd_inv (inv_sweep now) L, P)"
| mint: "\<lbrakk>P i = None; mint_start Q rnd1 rnd2 now label ttl (el_mem L) = (r, s1); unused_id Q (L, P) rnd1\<rbrakk> \<Longrightarrow>
     inv_step Q m0 (L, P) (L\<lparr>el_mem := s1\<rparr>, P(i := mint_proc Q now label (vs_busID s1) r))"
| mint_fold: "P i = Some (PMinted rec) \<Longrightarrow> inv_step Q m0 (L, P) (upd_inv (inv_foldIn now rec) L, P(i \<mapsto> PCount))"
| mint_count: "P i = Some PCount \<Longrightarrow> inv_step Q m0 (L, P) (upd_inv mint_done L, P(i := None))"
| revoke: "\<lbrakk>P i = None; revoke_start now iid reason (el_mem L) = (r, s1); handed_out P iid\<rbrakk> \<Longrightarrow>
     inv_step Q m0 (L, P) (L\<lparr>el_mem := s1\<rparr>, P(i := revoke_proc Q now iid reason r))"
| revoke_mark: "P i = Some (PRevoke iid t rec body) \<Longrightarrow>
     inv_step Q m0 (L, P) (upd_inv (set_consumed t) L, P(i \<mapsto> PRevoking iid t rec body))"
| revoke_fold: "P i = Some (PRevoked iid t rec) \<Longrightarrow>
     inv_step Q m0 (L, P) (upd_inv (inv_foldIn now rec) L, P(i \<mapsto> PRelease iid t))"
| release: "P i = Some (PRelease iid t) \<Longrightarrow> inv_step Q m0 (L, P) (upd_inv (releaseLocked iid t) L, P(i := None))"
| redeem: "\<lbrakk>P i = None; inv_Begin now req (el_mem L) = (r, s1); handed_out P (rq_InviteID req)\<rbrakk> \<Longrightarrow>
     inv_step Q m0 (L, P) (L\<lparr>el_mem := s1\<rparr>, P(i := begin_proc r))"
| consume: "\<lbrakk>P i = Some (PRedeem rd); inv_Consume Q now res rd (el_mem L) = (b, rd', s1)\<rbrakk> \<Longrightarrow>
     inv_step Q m0 (L, P) (L\<lparr>el_mem := s1\<rparr>, P(i \<mapsto> consume_proc b rd'))"
| commit: "\<lbrakk>P i = Some (PRedeemed rd); inv_Commit now rd (el_mem L) = (x, s1)\<rbrakk> \<Longrightarrow>
     inv_step Q m0 (L, P) (L\<lparr>el_mem := s1\<rparr>, P(i := None))"
| give_up: "P i = Some (PRedeem rd) \<Longrightarrow> inv_step Q m0 (L, P) (L, P(i \<mapsto> PAbort rd))"
| abort: "P i = Some (PAbort rd) \<Longrightarrow> inv_step Q m0 (L, P) (upd_inv (inv_Abort rd) L, P(i := None))"
| written: "\<lbrakk>P i = Some p; proc_body p = Some body; event_Write (inv_Apply Q) fate now (invite_entry body) L = (w, L')\<rbrakk> \<Longrightarrow>
     inv_step Q m0 (L, P) (L', P(i := written_proc w p))"
| other: "\<lbrakk>event_Write (inv_Apply Q) fate now e L = (w, L'); en_Kind e \<noteq> InviteRecordKind\<rbrakk> \<Longrightarrow> inv_step Q m0 (L, P) (L', P)"
| restart: "length clks = length (restart_events L found) \<Longrightarrow>
     inv_step Q m0 (L, P) (inv_serving (event_Open (inv_Apply Q) m0 found clks L), Map.empty)"

definition inv_runs :: "invite_codec \<Rightarrow> invite_store \<Rightarrow> inv_system \<Rightarrow> bool" where
  "inv_runs Q m0 S \<longleftrightarrow> (inv_step Q m0)\<^sup>*\<^sup>* (inv_serving (empty_log m0), Map.empty) S"

section \<open>The invariant\<close>

definition agrees :: "invite list \<Rightarrow> invite \<Rightarrow> bool" where
  "agrees R r \<longleftrightarrow> (\<exists>x\<in>set R. iv_ID x = iv_ID r \<and> iv_SecretDigest x = iv_SecretDigest r \<and> iv_BusID x = iv_BusID r)"

definition unredeemed :: "invite list \<Rightarrow> string \<Rightarrow> bool" where
  "unredeemed R iid \<longleftrightarrow> (\<forall>x\<in>set R. iv_ID x = iid \<longrightarrow> iv_State x \<noteq> StateRedeemed)"

definition holds :: "invite_store \<Rightarrow> invite list \<Rightarrow> string \<Rightarrow> nat \<Rightarrow> bool" where
  "holds s R iid t \<longleftrightarrow> (\<not> tr_done (vs_trans s ! t) \<longrightarrow> holder s iid = Some t \<and> unredeemed R iid)"

fun proc_ok :: "invite_codec \<Rightarrow> invite_store \<Rightarrow> invite list \<Rightarrow> inv_proc \<Rightarrow> bool" where
  "proc_ok Q s R (PMint rec body) \<longleftrightarrow>
     inv_DecodeRecord Q body = Inr rec \<and> iv_State rec = StateOpen \<and> iv_BusID rec = vs_busID s \<and> iv_ID rec \<notin> iv_ID ` set R"
| "proc_ok Q s R (PMinted rec) \<longleftrightarrow> rec \<in> set R \<and> (\<forall>x\<in>set R. iv_ID x = iv_ID rec \<longrightarrow> \<not> spent x)"
| "proc_ok Q s R PCount \<longleftrightarrow> True"
| "proc_ok Q s R (PRedeem rd) \<longleftrightarrow> rd_invite rd \<in> set R \<and> iv_ID (rd_invite rd) = rq_InviteID (rd_req rd) \<and>
     rd_t rd < length (vs_trans s) \<and> holds s R (rq_InviteID (rd_req rd)) (rd_t rd)"
| "proc_ok Q s R (PConsumed rd body) \<longleftrightarrow>
     (\<exists>rec. rd_consumed rd = Some rec \<and> inv_DecodeRecord Q body = Inr rec \<and> iv_State rec = StateRedeemed \<and>
        iv_ID rec = rq_InviteID (rd_req rd) \<and> agrees R rec) \<and>
     rd_t rd < length (vs_trans s) \<and> tr_consumed (vs_trans s ! rd_t rd) \<and> \<not> tr_done (vs_trans s ! rd_t rd) \<and>
     holds s R (rq_InviteID (rd_req rd)) (rd_t rd)"
| "proc_ok Q s R (PRedeemed rd) \<longleftrightarrow>
     (\<exists>rec. rd_consumed rd = Some rec \<and> rec \<in> set R \<and> spent rec) \<and> rd_t rd < length (vs_trans s)"
| "proc_ok Q s R (PAbort rd) \<longleftrightarrow> rd_t rd < length (vs_trans s)"
| "proc_ok Q s R (PRevoke iid t rec body) \<longleftrightarrow>
     inv_DecodeRecord Q body = Inr rec \<and> iv_State rec = StateRevoked \<and> iv_ID rec = iid \<and> agrees R rec \<and> t < length (vs_trans s)"
| "proc_ok Q s R (PRevoking iid t rec body) \<longleftrightarrow>
     inv_DecodeRecord Q body = Inr rec \<and> iv_State rec = StateRevoked \<and> iv_ID rec = iid \<and> agrees R rec \<and> t < length (vs_trans s)"
| "proc_ok Q s R (PRevoked iid t rec) \<longleftrightarrow> rec \<in> set R \<and> spent rec \<and> t < length (vs_trans s)"
| "proc_ok Q s R (PRelease iid t) \<longleftrightarrow> t < length (vs_trans s)"

definition apart :: "inv_proc \<Rightarrow> inv_proc \<Rightarrow> bool" where
  "apart p q \<longleftrightarrow> (proc_trans p = None \<or> proc_trans p \<noteq> proc_trans q) \<and> (proc_mints p = None \<or> proc_mints p \<noteq> proc_mints q) \<and>
     (proc_minted p = None \<or> proc_minted p \<noteq> proc_target q) \<and> (proc_minted q = None \<or> proc_minted q \<noteq> proc_target p)"

lemma holds_moves:
  assumes "moves s s' T" "t < length (vs_trans s)" "t \<notin> T" "holds s R iid t"
  shows "holds s' R iid t"
  using movesD [OF assms(1-3)] assms(4) unfolding holds_def by blast

lemma proc_ok_moves:
  assumes m: "moves s s' T" and t: "\<And>t. proc_trans p = Some t \<Longrightarrow> t \<notin> T" and b: "vs_busID s' = vs_busID s" and p: "proc_ok Q s R p"
  shows "proc_ok Q s' R p"
proof (cases "proc_trans p")
  case None
  then show ?thesis using p b by (cases p) auto
next
  case (Some u)
  have l: "u < length (vs_trans s)" using p Some by (cases p) auto
  note D = movesD [OF m l t [OF Some]]
  show ?thesis using p Some D(1,2,4) holds_moves [OF m l t [OF Some]] by (cases p) auto
qed

text \<open>Appending a committed record: which processes it cannot disturb.\<close>

definition undisturbed :: "invite_store \<Rightarrow> invite \<Rightarrow> inv_proc \<Rightarrow> bool" where
  "undisturbed s r p \<longleftrightarrow> proc_mints p \<noteq> Some (iv_ID r) \<and> (spent r \<longrightarrow> proc_minted p \<noteq> Some (iv_ID r)) \<and>
     (iv_State r = StateRedeemed \<longrightarrow> proc_target p = Some (iv_ID r) \<longrightarrow> (\<forall>t. proc_trans p = Some t \<longrightarrow> holder s (iv_ID r) \<noteq> Some t))"

lemma agrees_mono: "agrees R r \<Longrightarrow> agrees (R @ [x]) r"
  unfolding agrees_def by auto

lemma holds_append:
  assumes "holds s R iid t" "iv_State r = StateRedeemed \<longrightarrow> iid = iv_ID r \<longrightarrow> holder s (iv_ID r) \<noteq> Some t"
  shows "holds s (R @ [r]) iid t"
  using assms unfolding holds_def unredeemed_def by auto

lemma proc_ok_append:
  assumes "proc_ok Q s R p" "undisturbed s r p"
  shows "proc_ok Q s (R @ [r]) p"
  using assms agrees_mono by (cases p) (auto simp: undisturbed_def intro: holds_append)

definition inv_ok :: "invite_codec \<Rightarrow> string \<Rightarrow> inv_system \<Rightarrow> bool" where
  "inv_ok Q bus S \<longleftrightarrow> (let L = fst S; P = snd S; s = el_mem L; R = inv_recs Q (el_done L) in
     mem_ok s R \<and> log_fits [] R \<and> vs_busID s = bus \<and> (\<forall>x\<in>set R. iv_BusID x = bus) \<and>
     (\<forall>i p. P i = Some p \<longrightarrow> proc_ok Q s R p) \<and> (\<forall>i j p q. P i = Some p \<longrightarrow> P j = Some q \<longrightarrow> i \<noteq> j \<longrightarrow> apart p q) \<and>
     (\<forall>c r. el_doubt L = Some c \<longrightarrow> \<not> el_up L \<and> (inv_rec_of Q c = Some r \<longrightarrow> fits R r \<and> iv_BusID r = bus)))"

lemma inv_okI:
  assumes "mem_ok (el_mem L) (inv_recs Q (el_done L))" "log_fits [] (inv_recs Q (el_done L))" "vs_busID (el_mem L) = bus"
    "\<forall>x\<in>set (inv_recs Q (el_done L)). iv_BusID x = bus"
    "\<And>i p. P i = Some p \<Longrightarrow> proc_ok Q (el_mem L) (inv_recs Q (el_done L)) p"
    "\<And>i j p q. P i = Some p \<Longrightarrow> P j = Some q \<Longrightarrow> i \<noteq> j \<Longrightarrow> apart p q"
    "\<And>c. el_doubt L = Some c \<Longrightarrow> \<not> el_up L"
    "\<And>c r. el_doubt L = Some c \<Longrightarrow> inv_rec_of Q c = Some r \<Longrightarrow> fits (inv_recs Q (el_done L)) r \<and> iv_BusID r = bus"
  shows "inv_ok Q bus (L, P)"
  using assms unfolding inv_ok_def Let_def fst_conv snd_conv by blast

lemma inv_okD:
  assumes "inv_ok Q bus (L, P)"
  shows "mem_ok (el_mem L) (inv_recs Q (el_done L))" "log_fits [] (inv_recs Q (el_done L))" "vs_busID (el_mem L) = bus"
    "\<And>x. x \<in> set (inv_recs Q (el_done L)) \<Longrightarrow> iv_BusID x = bus"
    "\<And>i p. P i = Some p \<Longrightarrow> proc_ok Q (el_mem L) (inv_recs Q (el_done L)) p"
    "\<And>i j p q. P i = Some p \<Longrightarrow> P j = Some q \<Longrightarrow> i \<noteq> j \<Longrightarrow> apart p q"
    "\<And>c. el_doubt L = Some c \<Longrightarrow> \<not> el_up L"
    "\<And>c r. el_doubt L = Some c \<Longrightarrow> inv_rec_of Q c = Some r \<Longrightarrow> fits (inv_recs Q (el_done L)) r \<and> iv_BusID r = bus"
  using assms unfolding inv_ok_def Let_def fst_conv snd_conv by blast+

lemma apart_sym: "apart p q \<Longrightarrow> apart q p"
  unfolding apart_def by auto

text \<open>A process that moves on keeps its distance when it gains nothing.\<close>

lemma apart_next:
  assumes "apart p q" "proc_trans p' \<in> {None, proc_trans p}" "proc_mints p' \<in> {None, proc_mints p}"
    "proc_minted p' \<in> {None, proc_minted p}" "proc_target p' \<in> {None, proc_target p}"
  shows "apart p' q"
  using assms unfolding apart_def by auto

text \<open>A step in memory: process \<open>i\<close> goes on as \<open>p'\<close> and touches no transition but its own.\<close>

lemma local_step:
  assumes I: "inv_ok Q bus (L, P)" and m: "mem_ok s' (inv_recs Q (el_done L))" and b: "vs_busID s' = vs_busID (el_mem L)"
    and v: "moves (el_mem L) s' T" and T: "\<And>t. t \<in> T \<Longrightarrow> \<exists>p. P i = Some p \<and> proc_trans p = Some t"
    and p': "\<And>p. p' = Some p \<Longrightarrow> proc_ok Q s' (inv_recs Q (el_done L)) p"
    and a: "\<And>p j q. p' = Some p \<Longrightarrow> j \<noteq> i \<Longrightarrow> P j = Some q \<Longrightarrow> apart p q"
  shows "inv_ok Q bus (L\<lparr>el_mem := s'\<rparr>, P(i := p'))"
proof (rule inv_okI)
  note D = inv_okD [OF I]
  let ?P = "P(i := p')" and ?L = "L\<lparr>el_mem := s'\<rparr>"
  show "mem_ok (el_mem ?L) (inv_recs Q (el_done ?L))" "vs_busID (el_mem ?L) = bus" using m b D(3) by simp_all
  show "log_fits [] (inv_recs Q (el_done ?L))" "\<forall>x\<in>set (inv_recs Q (el_done ?L)). iv_BusID x = bus" using D(2,4) by auto
  show "\<And>c. el_doubt ?L = Some c \<Longrightarrow> \<not> el_up ?L" using D(7) by simp
  show "\<And>c r. el_doubt ?L = Some c \<Longrightarrow> inv_rec_of Q c = Some r \<Longrightarrow> fits (inv_recs Q (el_done ?L)) r \<and> iv_BusID r = bus"
    using D(8) by simp
  show "apart p q" if "?P j = Some p" "?P k = Some q" "j \<noteq> k" for j k p q
    using that a D(6) apart_sym by (cases "j = i"; cases "k = i") auto
  fix j p assume j: "?P j = Some p"
  show "proc_ok Q (el_mem ?L) (inv_recs Q (el_done ?L)) p"
  proof (cases "j = i")
    case True
    then show ?thesis using j p' by simp
  next
    case False
    then have q: "P j = Some p" using j by simp
    have "t \<notin> T" if "proc_trans p = Some t" for t
      using T [of t] D(6) [OF q _ False] that unfolding apart_def by auto
    then show ?thesis using proc_ok_moves [OF v _ b D(5) [OF q]] by simp
  qed
qed

lemma goes_on:
  assumes I: "inv_ok Q bus (L, P)" and i: "P i = Some p" and m: "mem_ok s' (inv_recs Q (el_done L))" and b: "vs_busID s' = vs_busID (el_mem L)"
    and v: "moves (el_mem L) s' T" and T: "\<And>t. t \<in> T \<Longrightarrow> proc_trans p = Some t"
    and p': "\<And>q. p' = Some q \<Longrightarrow> proc_ok Q s' (inv_recs Q (el_done L)) q"
    and n: "\<And>q. p' = Some q \<Longrightarrow> proc_trans q \<in> {None, proc_trans p} \<and> proc_mints q \<in> {None, proc_mints p} \<and>
      proc_minted q \<in> {None, proc_minted p} \<and> proc_target q \<in> {None, proc_target p}"
  shows "inv_ok Q bus (L\<lparr>el_mem := s'\<rparr>, P(i := p'))"
proof (rule local_step [OF I m b v])
  show "\<exists>p. P i = Some p \<and> proc_trans p = Some t" if "t \<in> T" for t using T [OF that] i by blast
  show "apart q r" if "p' = Some q" "j \<noteq> i" "P j = Some r" for q j r
    using apart_next [OF inv_okD(6) [OF I i that(3)], of q] n [OF that(1)] that(2) by blast
qed (rule p')

section \<open>The codec\<close>

text \<open>
  What the records rely on of the JSON text: the identifier, the bus identifier, the digest and the state are plain
  ASCII and come back as they were written.
\<close>

definition inv_codec_ok :: "invite_codec \<Rightarrow> string \<Rightarrow> bool" where
  "inv_codec_ok Q bus \<longleftrightarrow>
     (\<forall>j b. ValidateInviteID (ij_ID j) = Inr () \<longrightarrow> ij_BusID j = bus \<longrightarrow> ic_record Q j = Some b \<longrightarrow>
        (\<exists>j'. un_invite Q b = Some j' \<and> ij_ID j' = ij_ID j \<and> ij_BusID j' = ij_BusID j \<and>
           ij_SecretDigest j' = ij_SecretDigest j \<and> ij_State j' = ij_State j))"

lemma decoded_fields:
  assumes "inv_DecodeRecord Q b = Inr r" "un_invite Q b = Some j"
  shows "iv_ID r = ij_ID j" "iv_BusID r = ij_BusID j" "parseDigest (ij_SecretDigest j) = Inr (iv_SecretDigest r)"
    "inv_parseState (ij_State j) = Inr (iv_State r)"
  using assms by (auto simp: inv_DecodeRecord_def res Let_def)

lemma parse_state_String: "inv_parseState (inv_state_String st) = Inr st' \<Longrightarrow> st \<in> {StateOpen, StateRedeemed, StateRevoked} \<Longrightarrow> st' = st"
  by (auto simp: inv_parseState_def inv_state_String_def)

lemma canonical_record:
  assumes C: "inv_codec_ok Q bus" and b: "iv_BusID r = bus" and c: "inv_canonical Q r = Inr (rec, body)"
  shows "inv_DecodeRecord Q body = Inr rec" "iv_ID rec = iv_ID r" "iv_BusID rec = iv_BusID r"
    "iv_SecretDigest rec = iv_SecretDigest r" "iv_State rec = iv_State r"
proof -
  obtain res where d: "inv_validate r = Inr ()" "ic_record Q (inv_to_json r res) = Some body" "inv_DecodeRecord Q body = Inr rec"
    using c by (auto simp: inv_canonical_def inv_Encode_def res)
  let ?j = "inv_to_json r res"
  have j: "ij_ID ?j = iv_ID r" "ij_BusID ?j = iv_BusID r" "ij_SecretDigest ?j = hex_encode (iv_SecretDigest r)"
    "ij_State ?j = inv_state_String (iv_State r)" by (simp_all add: inv_to_json_def Let_def)
  have v: "ValidateInviteID (iv_ID r) = Inr ()" "iv_State r \<in> {StateOpen, StateRedeemed, StateRevoked}"
    using d(1) by (auto simp: inv_validate_def res split: inv_state.splits)
  obtain j' where j': "un_invite Q body = Some j'" "ij_ID j' = iv_ID r" "ij_BusID j' = iv_BusID r"
      "ij_SecretDigest j' = hex_encode (iv_SecretDigest r)" "ij_State j' = inv_state_String (iv_State r)"
    using C d(2) j v(1) b unfolding inv_codec_ok_def by metis
  note f = decoded_fields [OF d(3) j'(1)]
  show "inv_DecodeRecord Q body = Inr rec" "iv_ID rec = iv_ID r" "iv_BusID rec = iv_BusID r" using d(3) f j' by simp_all
  show "iv_SecretDigest rec = iv_SecretDigest r" using f(3) j'(4) by (auto simp: parseDigest_def res split: if_splits)
  show "iv_State rec = iv_State r" using parse_state_String v(2) f(4) j'(5) by metis
qed

section \<open>Every step keeps the invariant\<close>

lemma mem_ok_same:
  "mem_ok s R \<Longrightarrow> vs_invites s' = vs_invites s \<Longrightarrow> vs_inflight s' = vs_inflight s \<Longrightarrow> vs_trans s' = vs_trans s \<Longrightarrow> mem_ok s' R"
  by (simp add: mem_ok_def store_ok_def)

lemma step_mint:
  assumes C: "inv_codec_ok Q bus" and I: "inv_ok Q bus (L, P)" and i: "P i = None"
    and m: "mint_start Q rnd1 rnd2 now label ttl (el_mem L) = (r, s1)" and u: "unused_id Q (L, P) rnd1"
  shows "inv_ok Q bus (L\<lparr>el_mem := s1\<rparr>, P(i := mint_proc Q now label (vs_busID s1) r))"
proof -
  note D = inv_okD [OF I]
  have s1: "s1 = el_mem L \<or> s1 = inv_sweep now (el_mem L) \<or>
      s1 = (inv_sweep now (el_mem L))\<lparr>vs_pendingMints := vs_pendingMints (inv_sweep now (el_mem L)) + 1\<rparr>"
    using m by (auto simp: mint_start_def Let_def split: if_splits sum.splits)
  have g: "GenerateInviteID rnd1 = Inr iid" if "r = Inr (iid, sec, ttl)" for iid sec ttl
    using m that by (auto simp: mint_start_def Let_def res split: if_splits sum.splits)
  have sw: "mem_ok (inv_sweep now (el_mem L)) (inv_recs Q (el_done L))" by (rule mem_ok_sweep [OF D(1)])
  note vs = moves_sweep [OF mem_ok_store [OF D(1)], of now "{}"]
  have "mem_ok s1 (inv_recs Q (el_done L)) \<and> vs_busID s1 = vs_busID (el_mem L) \<and> moves (el_mem L) s1 {}"
    using s1
  proof (elim disjE)
    assume "s1 = el_mem L"
    then show ?thesis using D(1) moves_same by simp
  next
    assume "s1 = inv_sweep now (el_mem L)"
    then show ?thesis using sw vs by simp
  next
    assume e: "s1 = (inv_sweep now (el_mem L))\<lparr>vs_pendingMints := vs_pendingMints (inv_sweep now (el_mem L)) + 1\<rparr>"
    show ?thesis unfolding e
      by (intro conjI mem_ok_same [OF sw] moves_trans [OF vs moves_same]) simp_all
  qed
  then have ok: "mem_ok s1 (inv_recs Q (el_done L))" "vs_busID s1 = vs_busID (el_mem L)" and v: "moves (el_mem L) s1 {}" by simp_all
  have p: "p = PCount \<or> (\<exists>rec body iid. p = PMint rec body \<and> iv_ID rec = iid \<and> GenerateInviteID rnd1 = Inr iid \<and>
      inv_DecodeRecord Q body = Inr rec \<and> iv_State rec = StateOpen \<and> iv_BusID rec = vs_busID s1)"
    if "mint_proc Q now label (vs_busID s1) r = Some p" for p
  proof (cases r)
    case (Inl e)
    then show ?thesis using that by (simp add: mint_proc_def)
  next
    case (Inr x)
    obtain iid sec l where x: "x = (iid, sec, l)" by (cases x)
    let ?o = "open_invite iid (vs_busID s1) sec label now l"
    show ?thesis
    proof (cases "inv_canonical Q ?o")
      case (Inr y)
      have o: "iv_ID ?o = iid" "iv_BusID ?o = vs_busID s1" "iv_State ?o = StateOpen" by (simp_all add: open_invite_def)
      then have b: "iv_BusID ?o = bus" using ok(2) D(3) by simp
      obtain rec body where y: "y = (rec, body)" by (cases y)
      show ?thesis
        using canonical_record [OF C b Inr [unfolded y]] that g [of iid sec l] \<open>r = Inr x\<close> Inr x y o by (auto simp: mint_proc_def)
    qed (use that Inr x in \<open>simp add: mint_proc_def\<close>)
  qed
  show ?thesis
  proof (rule local_step [OF I ok v])
    show "proc_ok Q s1 (inv_recs Q (el_done L)) p" if "mint_proc Q now label (vs_busID s1) r = Some p" for p
      using p [OF that] u by (auto simp: unused_id_def)
    show "apart p q" if "mint_proc Q now label (vs_busID s1) r = Some p" "j \<noteq> i" "P j = Some q" for p j q
      using p [OF that(1)] u that(3) unfolding unused_id_def apart_def by auto
  qed simp
qed


lemma step_mint_fold:
  assumes I: "inv_ok Q bus (L, P)" and i: "P i = Some (PMinted rec)"
  shows "inv_ok Q bus (upd_inv (inv_foldIn now rec) L, P(i \<mapsto> PCount))"
proof -
  note D = inv_okD [OF I] and p = inv_okD(5) [OF I i]
  show ?thesis unfolding inv_foldIn_def
  proof (rule goes_on [OF I i _ inv_upsert_frame(3) moves_upsert [OF mem_ok_store [OF D(1)], of _ _ "{}"]])
    show "mem_ok (snd (inv_upsert now rec (el_mem L))) (inv_recs Q (el_done L))"
      using p by (intro mem_ok_fold [OF D(1)]) auto
  qed auto
qed

lemma step_revoke_fold:
  assumes I: "inv_ok Q bus (L, P)" and i: "P i = Some (PRevoked iid t rec)"
  shows "inv_ok Q bus (upd_inv (inv_foldIn now rec) L, P(i \<mapsto> PRelease iid t))"
proof -
  note D = inv_okD [OF I] and p = inv_okD(5) [OF I i]
  note v = moves_upsert [OF mem_ok_store [OF D(1)], of now rec "{}"]
  show ?thesis unfolding inv_foldIn_def
  proof (rule goes_on [OF I i _ inv_upsert_frame(3) v])
    show "mem_ok (snd (inv_upsert now rec (el_mem L))) (inv_recs Q (el_done L))"
      using p by (intro mem_ok_fold [OF D(1)]) auto
  qed (use p movesD(1) [OF v, of t] in auto)
qed

lemma step_release:
  assumes I: "inv_ok Q bus (L, P)" and i: "P i = Some p" "proc_trans p = Some t"
  shows "inv_ok Q bus (upd_inv (releaseLocked iid t) L, P(i := None))"
  by (rule goes_on [OF I i(1) _ _ moves_release]) (simp_all add: i(2) mem_ok_release [OF inv_okD(1) [OF I]])

lemma step_revoke_mark:
  assumes I: "inv_ok Q bus (L, P)" and i: "P i = Some (PRevoke iid t rec body)"
  shows "inv_ok Q bus (upd_inv (set_consumed t) L, P(i \<mapsto> PRevoking iid t rec body))"
  by (rule goes_on [OF I i _ _ moves_set_consumed])
    (use inv_okD(5) [OF I i] in \<open>auto simp: mem_ok_set_consumed [OF inv_okD(1) [OF I]]\<close>)

lemma step_quiet:
  assumes I: "inv_ok Q bus (L, P)" and i: "P i = Some p" and r: "proc_trans p' = proc_trans p" "proc_ok Q (el_mem L) (inv_recs Q (el_done L)) p'"
    "proc_mints p' = None" "proc_minted p' = None" "proc_target p' \<in> {None, proc_target p}"
  shows "inv_ok Q bus (L, P(i \<mapsto> p'))"
proof -
  have "inv_ok Q bus (L\<lparr>el_mem := el_mem L\<rparr>, P(i \<mapsto> p'))"
    using r by (intro goes_on [OF I i inv_okD(1) [OF I] refl moves_same [where T = "{}", OF refl refl]]) auto
  then show ?thesis by simp
qed

lemma sweep_step:
  assumes I: "inv_ok Q bus (L, P)" and i: "P i = None"
  shows "inv_ok Q bus (L\<lparr>el_mem := inv_sweep now (el_mem L)\<rparr>, P(i := None))" "inv_ok Q bus (L\<lparr>el_mem := el_mem L\<rparr>, P(i := None))"
proof -
  note D = inv_okD [OF I]
  show "inv_ok Q bus (L\<lparr>el_mem := inv_sweep now (el_mem L)\<rparr>, P(i := None))"
    by (rule local_step [OF I mem_ok_sweep [OF D(1)] _ moves_sweep [OF mem_ok_store [OF D(1)], of _ "{}"]]) simp_all
  show "inv_ok Q bus (L\<lparr>el_mem := el_mem L\<rparr>, P(i := None))" using I i fun_upd_triv [of P i] by simp
qed

text \<open>A call that has just reserved the invite of an unspent row.\<close>

lemma step_reserve:
  assumes I: "inv_ok Q bus (L, P)" and i: "P i = None" and h: "handed_out P iid"
    and b: "beginTransition iid what now (inv_sweep now (el_mem L)) = (Inr t, s1)"
    and t: "proc_trans p = Some t" and n: "proc_mints p = None" "proc_minted p = None" "proc_target p \<in> {None, Some iid}"
    and p: "store_ok s1 \<Longrightarrow> holder s1 iid = Some t \<Longrightarrow> length (vs_trans s1) = Suc t \<Longrightarrow> proc_ok Q s1 (inv_recs Q (el_done L)) p"
  shows "inv_ok Q bus (L\<lparr>el_mem := s1\<rparr>, P(i \<mapsto> p))"
proof -
  note D = inv_okD [OF I]
  note m = mem_ok_sweep [OF D(1), of now]
  note B = beginTransition_ok [OF mem_ok_store [OF m] b]
  note v = moves_trans [OF moves_sweep [OF mem_ok_store [OF D(1)]] B(3), of "{}"]
  show ?thesis
  proof (rule local_step [OF I mem_ok_cong [OF m B(8,2)] _ v])
    show "vs_busID s1 = vs_busID (el_mem L)" using B(9) by simp
    show "proc_ok Q s1 (inv_recs Q (el_done L)) q" if "Some p = Some q" for q using p B(2,4,5) that by simp
    show "apart q r" if "Some p = Some q" "j \<noteq> i" "P j = Some r" for q j r
    proof -
      have "proc_trans r \<noteq> Some t" using D(5) [OF that(3)] B(1) by (cases r) auto
      moreover have "proc_minted r \<noteq> Some iid" using h that(3) by (simp add: handed_out_def)
      ultimately show ?thesis using that(1) t n unfolding apart_def by auto
    qed
  qed simp
qed


lemma agreesI: "x \<in> set R \<Longrightarrow> iv_ID x = iv_ID r \<Longrightarrow> iv_SecretDigest x = iv_SecretDigest r \<Longrightarrow> iv_BusID x = iv_BusID r \<Longrightarrow> agrees R r"
  unfolding agrees_def by blast

lemma revoke_start_cases:
  assumes "revoke_start now iid reason s = (r, s1)"
  obtains (kept) "s1 = s" "\<And>cur t. r \<noteq> Inr (cur, Some t)" | (swept) "s1 = inv_sweep now s" "\<And>cur t. r \<noteq> Inr (cur, Some t)"
  | (reserved) cur t where "row (inv_sweep now s) iid = Some cur" "beginTransition iid ''revocation'' now (inv_sweep now s) = (Inr t, s1)"
      "r = Inr (cur, Some t)"
  using assms
  by (auto simp: revoke_start_def Let_def dest: beginTransition_refused
      split: if_splits sum.splits option.splits prod.splits)

lemma step_revoke:
  assumes C: "inv_codec_ok Q bus" and I: "inv_ok Q bus (L, P)" and i: "P i = None" and h: "handed_out P iid"
    and r: "revoke_start now iid reason (el_mem L) = (r, s1)"
  shows "inv_ok Q bus (L\<lparr>el_mem := s1\<rparr>, P(i := revoke_proc Q now iid reason r))"
  using r
proof (cases rule: revoke_start_cases)
  case kept
  then have "revoke_proc Q now iid reason r = None" by (auto simp: revoke_proc_def split: sum.splits option.splits)
  then show ?thesis using sweep_step(2) [OF I i] kept by simp
next
  case swept
  then have "revoke_proc Q now iid reason r = None" by (auto simp: revoke_proc_def split: sum.splits option.splits)
  then show ?thesis using sweep_step(1) [OF I i] swept by simp
next
  case (reserved cur t)
  note D = inv_okD [OF I]
  note c = mem_okD(1,2) [OF mem_ok_sweep [OF D(1)] reserved(1)]
  let ?n = "revoked_invite cur now reason"
  have n: "iv_ID ?n = iid" "iv_BusID ?n = bus" "iv_State ?n = StateRevoked" "iv_SecretDigest ?n = iv_SecretDigest cur" "iv_BusID cur = bus"
    using c D(4) by (simp_all add: revoked_invite_def)
  show ?thesis
  proof (cases "inv_canonical Q ?n")
    case (Inl e)
    then show ?thesis
      using step_reserve [OF I i h reserved(2), of "PRelease iid t"] reserved(3) by (simp add: revoke_proc_def)
  next
    case (Inr y)
    obtain rec body where y: "y = (rec, body)" by (cases y)
    note k = canonical_record [OF C n(2) Inr [unfolded y]]
    have "agrees (inv_recs Q (el_done L)) rec" using c n k by (intro agreesI [OF c(1)]) simp_all
    then show ?thesis
      using step_reserve [OF I i h reserved(2), of "PRevoke iid t rec body"] reserved(3) Inr y k n by (simp add: revoke_proc_def)
  qed
qed

lemma inv_Begin_cases:
  assumes "inv_Begin now req s = (r, s1)"
  obtains (kept) e where "s1 = s" "r = Inl e" | (swept) e where "s1 = inv_sweep now s" "r = Inl e"
  | (replay) cur where "s1 = inv_sweep now s" "row s1 (rq_InviteID req) = Some cur" "iv_State cur = StateRedeemed"
      "iv_RedeemKey cur = rq_Key req" "iv_RedeemFingerprint cur = rq_Fingerprint req"
      "r = Inr \<lparr>rd_req = withoutSecret req, rd_invite = cur, rd_outcome = OutcomeReplay, rd_t = 0, rd_consumed = None\<rparr>"
  | (reserved) cur t where "row (inv_sweep now s) (rq_InviteID req) = Some cur" "iv_State cur \<noteq> StateRevoked" "iv_State cur \<noteq> StateRedeemed"
      "beginTransition (rq_InviteID req) ''redemption'' now (inv_sweep now s) = (Inr t, s1)"
      "r = Inr \<lparr>rd_req = withoutSecret req, rd_invite = cur, rd_outcome = OutcomeReserved, rd_t = t, rd_consumed = None\<rparr>"
  using assms
  by (auto simp: inv_Begin_def Let_def dest: beginTransition_refused
      split: if_splits sum.splits option.splits prod.splits)


lemma recs_state:
  assumes "r \<in> set (inv_recs Q cs)"
  shows "iv_State r \<in> {StateOpen, StateRedeemed, StateRevoked}"
proof -
  obtain c where "inv_rec_of Q c = Some r" using assms by (auto simp: inv_recs_def map_filter_def)
  then have "inv_validate r = Inr ()"
    by (auto simp: inv_rec_of_def inv_DecodeRecord_def Let_def res split: if_splits sum.splits)
  then show ?thesis by (auto simp: inv_validate_def res split: inv_state.splits)
qed

lemma step_redeem:
  assumes I: "inv_ok Q bus (L, P)" and i: "P i = None" and h: "handed_out P (rq_InviteID req)"
    and r: "inv_Begin now req (el_mem L) = (r, s1)"
  shows "inv_ok Q bus (L\<lparr>el_mem := s1\<rparr>, P(i := begin_proc r))"
  using r
proof (cases rule: inv_Begin_cases)
  case (reserved cur t)
  note D = inv_okD [OF I]
  note c = mem_okD [OF mem_ok_sweep [OF D(1)] reserved(1)]
  let ?rd = "\<lparr>rd_req = withoutSecret req, rd_invite = cur, rd_outcome = OutcomeReserved, rd_t = t, rd_consumed = None\<rparr>"
  have "iv_State cur = StateOpen" using recs_state [OF c(1)] reserved(2,3) by auto
  then have "unredeemed (inv_recs Q (el_done L)) (rq_InviteID req)" using c(3) unfolding unredeemed_def by force
  then show ?thesis
    using step_reserve [OF I i h reserved(4), of "PRedeem ?rd"] reserved(5) c(1,2)
    by (simp add: begin_proc_def holds_def withoutSecret_def)
qed (use sweep_step [OF I i] in \<open>simp_all add: begin_proc_def\<close>)

lemma step_consume:
  assumes C: "inv_codec_ok Q bus" and I: "inv_ok Q bus (L, P)" and i: "P i = Some (PRedeem rd)"
    and r: "inv_Consume Q now res rd (el_mem L) = (b, rd', s1)"
  shows "inv_ok Q bus (L\<lparr>el_mem := s1\<rparr>, P(i \<mapsto> consume_proc b rd'))"
proof -
  note D = inv_okD [OF I] and p = inv_okD(5) [OF I i]
  consider e where "b = Inl e" "rd' = rd" "s1 = el_mem L"
    | rec body where "b = Inr body" "rd' = rd\<lparr>rd_consumed := Some rec\<rparr>" "s1 = set_consumed (rd_t rd) (el_mem L)"
      "inv_canonical Q (redeemed_invite rd res now) = Inr (rec, body)" "\<not> tr_done (vs_trans (el_mem L) ! rd_t rd)"
    using r by (auto simp: inv_Consume_def split: if_splits sum.splits)
  then show ?thesis
  proof cases
    case 1
    then show ?thesis using step_quiet [OF I i, of "PAbort rd"] p by (simp add: consume_proc_def)
  next
    case 2
    let ?n = "redeemed_invite rd res now"
    have n: "iv_ID ?n = rq_InviteID (rd_req rd)" "iv_BusID ?n = bus" "iv_State ?n = StateRedeemed"
      "iv_SecretDigest ?n = iv_SecretDigest (rd_invite rd)" "iv_BusID (rd_invite rd) = bus"
      using p D(4) by (simp_all add: redeemed_invite_def)
    note k = canonical_record [OF C n(2) 2(4)]
    have a: "agrees (inv_recs Q (el_done L)) rec" using p n k by (intro agreesI [of "rd_invite rd"]) simp_all
    have t: "rd_t rd < length (vs_trans (el_mem L))" using p by simp
    have s: "vs_trans s1 ! rd_t rd = (vs_trans (el_mem L) ! rd_t rd)\<lparr>tr_consumed := True\<rparr>" "vs_inflight s1 = vs_inflight (el_mem L)"
      using t 2(3) by (simp_all add: set_consumed_def)
    have "holds s1 (inv_recs Q (el_done L)) (rq_InviteID (rd_req rd)) (rd_t rd)" using p s by (simp add: holds_def)
    then have q: "proc_ok Q s1 (inv_recs Q (el_done L)) (PConsumed rd' body)" using 2 k n a t s by simp
    show ?thesis unfolding 2(1) consume_proc_def sum.case
    proof (rule goes_on [OF I i])
      show "moves (el_mem L) s1 {rd_t rd}" using 2(3) moves_set_consumed by simp
      show "mem_ok s1 (inv_recs Q (el_done L))" using 2(3) mem_ok_set_consumed [OF D(1)] by simp
    qed (use 2 q in auto)
  qed
qed

lemma step_commit:
  assumes I: "inv_ok Q bus (L, P)" and i: "P i = Some (PRedeemed rd)" and r: "inv_Commit now rd (el_mem L) = (x, s1)"
  shows "inv_ok Q bus (L\<lparr>el_mem := s1\<rparr>, P(i := None))"
proof -
  note D = inv_okD [OF I] and p = inv_okD(5) [OF I i]
  obtain rec where c: "rd_consumed rd = Some rec" "rec \<in> set (inv_recs Q (el_done L))" "spent rec" using p by auto
  let ?u = "snd (inv_upsert now rec (el_mem L))"
  have m: "mem_ok ?u (inv_recs Q (el_done L))" using c by (intro mem_ok_fold [OF D(1)]) auto
  have v: "moves (el_mem L) (releaseLocked iid (rd_t rd) ?u) {rd_t rd}" for iid
    by (rule moves_trans [OF moves_upsert [OF mem_ok_store [OF D(1)]] moves_release])
  have "s1 = el_mem L \<or> s1 = releaseLocked (rq_InviteID (rd_req rd)) (rd_t rd) ?u"
    using r c(1) by (auto simp: inv_Commit_def inv_foldIn_def split: if_splits)
  then show ?thesis
  proof
    assume s: "s1 = el_mem L"
    show ?thesis unfolding s by (rule goes_on [OF I i D(1) refl moves_same [where T = "{}", OF refl refl]]) simp_all
  next
    assume s: "s1 = releaseLocked (rq_InviteID (rd_req rd)) (rd_t rd) ?u"
    show ?thesis unfolding s
      by (rule goes_on [OF I i mem_ok_release [OF m] _ v]) (simp_all add: inv_upsert_frame)
  qed
qed

lemma step_abort:
  assumes I: "inv_ok Q bus (L, P)" and i: "P i = Some (PAbort rd)"
  shows "inv_ok Q bus (upd_inv (inv_Abort rd) L, P(i := None))"
proof -
  consider "inv_Abort rd (el_mem L) = el_mem L" | "inv_Abort rd (el_mem L) = releaseLocked (rq_InviteID (rd_req rd)) (rd_t rd) (el_mem L)"
    unfolding inv_Abort_def by metis
  then show ?thesis
  proof cases
    case 1
    then show ?thesis
      using goes_on [OF I i inv_okD(1) [OF I] refl moves_same [where T = "{}", OF refl refl], of None] by simp
  next
    case 2
    then show ?thesis using step_release [OF I i, of "rd_t rd"] by simp
  qed
qed


section \<open>Writes and restarts\<close>

lemma agrees_all:
  assumes "log_fits [] R" "agrees R r" "x \<in> set R" "iv_ID x = iv_ID r"
  shows "iv_SecretDigest x = iv_SecretDigest r \<and> iv_BusID x = iv_BusID r"
proof -
  obtain y where y: "y \<in> set R" "iv_ID y = iv_ID r" "iv_SecretDigest y = iv_SecretDigest r" "iv_BusID y = iv_BusID r"
    using assms(2) unfolding agrees_def by blast
  then show ?thesis using log_fits_agree [OF assms(1,3) y(1)] assms(4) by simp
qed

lemma target_known: "proc_ok Q s R q \<Longrightarrow> proc_target q = Some k \<Longrightarrow> k \<in> iv_ID ` set R"
  by (cases q) (auto simp: agrees_def, metis image_eqI, metis image_eqI, metis image_eqI, metis image_eqI)

text \<open>What a process is about to write, and whom its commit leaves alone.\<close>

lemma writer_record:
  assumes I: "inv_ok Q bus (L, P)" and i: "P i = Some p" and b: "proc_body p = Some body"
  obtains r where "inv_DecodeRecord Q body = Inr r" "fits (inv_recs Q (el_done L)) r" "iv_BusID r = bus"
    "\<And>j q. P j = Some q \<Longrightarrow> j \<noteq> i \<Longrightarrow> undisturbed (el_mem L) r q"
    "\<And>s. proc_ok Q s (inv_recs Q (el_done L)) p \<Longrightarrow> proc_ok Q s (inv_recs Q (el_done L) @ [r]) (the (written_proc (Inr c) p))"
proof -
  note D = inv_okD [OF I] and ok = inv_okD(5) [OF I i]
  let ?R = "inv_recs Q (el_done L)"
  have fits: "fits ?R r" if "agrees ?R r" "spent r" "iv_State r = StateRedeemed \<Longrightarrow> unredeemed ?R (iv_ID r)" for r
    using agrees_all [OF D(2) that(1)] that(2,3) unfolding fits_def unredeemed_def by auto
  have bus: "iv_BusID r = bus" if "agrees ?R r" for r using that D(4) unfolding agrees_def by metis
  have quiet: "proc_mints q \<noteq> Some (iv_ID r) \<and> proc_minted q \<noteq> Some (iv_ID r)"
    if q: "P j = Some q" "j \<noteq> i" and r: "agrees ?R r" "proc_target p = Some (iv_ID r)" for j q r
  proof -
    have "iv_ID r \<in> iv_ID ` set ?R" using target_known [OF ok r(2)] .
    then have "proc_mints q \<noteq> Some (iv_ID r)" using D(5) [OF q(1)] by (cases q) auto
    then show ?thesis using D(6) [OF i q(1)] q(2) r(2) unfolding apart_def by auto
  qed
  show thesis
  proof (cases p)
    case (PMint rec bd)
    have "undisturbed (el_mem L) rec q" if "P j = Some q" "j \<noteq> i" for j q
      using D(6) [OF i that(1)] that(2) ok PMint unfolding apart_def undisturbed_def by auto
    then show thesis by (rule that [rotated 3]) (use ok PMint b D(3) in \<open>auto simp: fits_def, metis image_eqI\<close>)
  next
    case (PConsumed rd bd)
    obtain rec where r: "rd_consumed rd = Some rec" "inv_DecodeRecord Q bd = Inr rec" "iv_State rec = StateRedeemed"
        "iv_ID rec = rq_InviteID (rd_req rd)" "agrees ?R rec" using ok PConsumed by auto
    have h: "holder (el_mem L) (iv_ID rec) = Some (rd_t rd)" "unredeemed ?R (iv_ID rec)" using ok PConsumed r(4) by (auto simp: holds_def)
    have "undisturbed (el_mem L) rec q" if "P j = Some q" "j \<noteq> i" for j q
      using quiet [OF that r(5)] D(6) [OF i that(1)] that(2) PConsumed r(4) h(1) unfolding apart_def undisturbed_def by auto
    then show thesis by (rule that [rotated 3]) (use PConsumed r h fits bus b in auto)
  next
    case (PRevoking iid t rec bd)
    have r: "inv_DecodeRecord Q bd = Inr rec" "iv_State rec = StateRevoked" "iv_ID rec = iid" "agrees ?R rec" using ok PRevoking by auto
    have "undisturbed (el_mem L) rec q" if "P j = Some q" "j \<noteq> i" for j q
      using quiet [OF that r(4)] PRevoking r(2,3) unfolding undisturbed_def by auto
    then show thesis by (rule that [rotated 3]) (use PRevoking r fits [OF r(4)] bus b in auto)
  qed (use b in simp_all)
qed

lemma inv_ok_down:
  assumes I: "inv_ok Q bus (L, P)"
    and d: "\<And>c r. d = Some c \<Longrightarrow> inv_rec_of Q c = Some r \<Longrightarrow> fits (inv_recs Q (el_done L)) r \<and> iv_BusID r = bus"
  shows "inv_ok Q bus (L\<lparr>el_doubt := d, el_up := False\<rparr>, P)"
  by (rule inv_okI) (use inv_okD [OF I] d in auto)

lemma rec_of_entry:
  "inv_rec_of Q \<lparr>cm_PrepareIndex = p, cm_CommitIndex = c, cm_Entry = invite_entry body\<rparr> =
     (case inv_DecodeRecord Q body of Inl _ \<Rightarrow> None | Inr r \<Rightarrow> Some r)"
  "cm_Entry cm = invite_entry body \<Longrightarrow> inv_rec_of Q cm = (case inv_DecodeRecord Q body of Inl _ \<Rightarrow> None | Inr r \<Rightarrow> Some r)"
  by (simp_all add: inv_rec_of_def invite_entry_def bytes_of_def)


lemma step_written:
  assumes I: "inv_ok Q bus (L, P)" and i: "P i = Some p" and b: "proc_body p = Some body"
    and w: "event_Write (inv_Apply Q) fate now (invite_entry body) L = (w, L')"
  shows "inv_ok Q bus (L', P(i := written_proc w p))"
proof -
  note D = inv_okD [OF I] and ok = inv_okD(5) [OF I i]
  let ?R = "inv_recs Q (el_done L)"
  obtain r where r: "inv_DecodeRecord Q body = Inr r" "fits ?R r" "iv_BusID r = bus"
      "\<And>j q. P j = Some q \<Longrightarrow> j \<noteq> i \<Longrightarrow> undisturbed (el_mem L) r q"
      "\<And>s. proc_ok Q s ?R p \<Longrightarrow> proc_ok Q s (?R @ [r]) (the (written_proc (Inr undefined) p))"
    by (rule writer_record [OF I i b, where c = undefined]) (rule that)
  have lost: "inv_ok Q bus (L, P(i := written_proc (Inl e) p))" for e
  proof -
    have "inv_ok Q bus (L\<lparr>el_mem := el_mem L\<rparr>, P(i := written_proc (Inl e) p))"
      by (rule goes_on [OF I i D(1) refl moves_same [where T = "{}", OF refl refl]])
        (use ok b in \<open>cases p; auto split: if_splits\<close>)+
    then show ?thesis by simp
  qed
  show ?thesis using w
  proof (cases rule: event_Write_cases)
    case (failed err)
    then show ?thesis using lost inv_ok_down [OF lost, where d = "el_doubt L"] D(8) by auto
  next
    case (doubt err pi ci)
    show ?thesis unfolding doubt(2,3) by (rule inv_ok_down [OF lost]) (use r(1-3) in \<open>auto simp: rec_of_entry(1)\<close>)
  next
    case (committed cm m)
    have c: "inv_rec_of Q cm = Some r" using committed(3) r(1) by (simp add: rec_of_entry(2))
    then have m: "m = snd (inv_upsert now r (el_mem L))" using committed(4) by (simp add: inv_Apply_eq)
    note v = moves_upsert [OF mem_ok_store [OF D(1)], of now r "{}"]
    have keep: "proc_ok Q m ?R p" using proc_ok_moves [OF v _ _ ok] by (simp add: m inv_upsert_frame)
    have others: "proc_ok Q m (?R @ [r]) q" if "P j = Some q" "j \<noteq> i" for j q
      using proc_ok_moves [OF v _ _ proc_ok_append [OF D(5) [OF that(1)] r(4) [OF that]]] by (simp add: m inv_upsert_frame)
    have s: "written_proc w p = Some (the (written_proc (Inr undefined) p))" using b committed(2) by (cases p) auto
    let ?p = "the (written_proc (Inr undefined) p)"
    have n: "proc_trans ?p = proc_trans p" "proc_mints ?p = None" "proc_target ?p = None"
      "proc_minted ?p = proc_mints p" using b by (cases p; simp)+
    have a: "apart ?p q" if q: "P j = Some q" "j \<noteq> i" for j q
    proof -
      have "proc_mints p \<noteq> proc_target q \<or> proc_mints p = None"
        using target_known [OF D(5) [OF q(1)]] ok by (cases p) auto
      then show ?thesis using D(6) [OF i q(1)] q(2) n unfolding apart_def by auto
    qed
    show ?thesis unfolding committed(5) s
    proof (rule inv_okI)
      show "apart x y" if "(P(i \<mapsto> ?p)) j = Some x" "(P(i \<mapsto> ?p)) k = Some y" "j \<noteq> k" for j k x y
        using that a D(6) apart_sym by (cases "j = i"; cases "k = i") auto
      show "proc_ok Q (el_mem (L\<lparr>el_mem := m, el_done := el_done L @ [cm]\<rparr>)) (inv_recs Q (el_done (L\<lparr>el_mem := m, el_done := el_done L @ [cm]\<rparr>))) x"
        if "(P(i \<mapsto> ?p)) j = Some x" for j x
        using that r(5) [OF keep] others c by (cases "j = i") auto
    qed (use c m mem_ok_apply [OF D(1) r(2)] D r(2,3) committed(1) in \<open>auto simp: log_fits_append inv_upsert_frame\<close>)
  next
    case (diverged cm m)
    then show ?thesis by (simp add: inv_Apply_eq)
  qed
qed


lemma step_other:
  assumes I: "inv_ok Q bus (L, P)" and k: "en_Kind e \<noteq> InviteRecordKind" and w: "event_Write (inv_Apply Q) fate now e L = (w, L')"
  shows "inv_ok Q bus (L', P)"
proof -
  note D = inv_okD [OF I]
  have n: "inv_rec_of Q c = None" if "cm_Entry c = e" for c using that k by (simp add: inv_rec_of_def)
  show ?thesis using w
  proof (cases rule: event_Write_cases)
    case (failed err)
    then show ?thesis using I inv_ok_down [OF I, where d = "el_doubt L"] D(8) by auto
  next
    case (doubt err pi ci)
    show ?thesis unfolding doubt(3) by (rule inv_ok_down [OF I]) (auto simp: n)
  next
    case (committed cm m)
    have e: "m = el_mem L" "inv_rec_of Q cm = None" using committed(3,4) n by (simp_all add: inv_Apply_eq)
    show ?thesis unfolding committed(5) by (rule inv_okI) (use D e in \<open>simp_all\<close>)
  next
    case (diverged cm m)
    then show ?thesis by (simp add: inv_Apply_eq)
  qed
qed

definition inv_fresh :: "invite_store \<Rightarrow> bool" where
  "inv_fresh s \<longleftrightarrow> vs_invites s = [] \<and> vs_inflight s = [] \<and> vs_trans s = []"

lemma replay_bus: "vs_busID (replay_events (inv_Apply Q) s xs) = vs_busID s"
  by (induction "inv_Apply Q" s xs rule: replay_events.induct) (auto simp: inv_Apply_eq inv_upsert_frame split: option.split)

lemma inv_ok_opened:
  assumes m: "mem_ok s R" and R: "R = inv_recs Q cs" "log_fits [] R" "\<forall>x\<in>set R. iv_BusID x = bus" and b: "vs_busID s = bus"
  shows "inv_ok Q bus (inv_serving \<lparr>el_mem = s, el_done = cs, el_doubt = None, el_up = True\<rparr>, Map.empty)"
  by (rule inv_okI) (use m R b mem_ok_same [OF m] in \<open>simp_all add: inv_serving_def\<close>)

lemma step_restart:
  assumes I: "inv_ok Q bus (L, P)" and f: "inv_fresh m0" "vs_busID m0 = bus" and l: "length clks = length (restart_events L found)"
  shows "inv_ok Q bus (inv_serving (event_Open (inv_Apply Q) m0 found clks L), Map.empty)"
proof -
  note D = inv_okD [OF I]
  let ?R = "inv_recs Q (restart_events L found)"
  have "log_fits [] ?R \<and> (\<forall>x\<in>set ?R. iv_BusID x = bus)"
    using D(2,4,8) by (auto simp: restart_events_def log_fits_append split: option.split)
  moreover have "mem_ok m0 []" using f by (simp add: mem_ok_def store_ok_def inv_fresh_def)
  ultimately show ?thesis
    using mem_ok_replay [of m0 "[]" Q "restart_events L found" clks] l f(2) unfolding event_Open_def
    by (intro inv_ok_opened [where R = ?R]) (auto simp: replay_bus)
qed

lemma inv_step_ok:
  assumes C: "inv_codec_ok Q bus" and f: "inv_fresh m0" "vs_busID m0 = bus" and s: "inv_step Q m0 S S'" and I: "inv_ok Q bus S"
  shows "inv_ok Q bus S'"
  using s
proof cases
  case (looked_up L P now)
  note D = inv_okD [OF I [unfolded looked_up(1)]]

  have "inv_ok Q bus (L\<lparr>el_mem := inv_sweep now (el_mem L)\<rparr>, P(i := P i))" for i
    by (rule local_step [OF I [unfolded looked_up(1)] mem_ok_sweep [OF D(1)] _ moves_sweep [OF mem_ok_store [OF D(1)], of _ "{}"]])
      (use D(5,6) proc_ok_moves [OF moves_sweep [OF mem_ok_store [OF D(1)], of _ "{}"]] in auto)
  then show ?thesis using looked_up by simp
next
  case (mint_count P i L)
  note D = inv_okD [OF I [unfolded mint_count(1)]]
  show ?thesis unfolding mint_count(2)
    by (rule goes_on [OF I [unfolded mint_count(1)] mint_count(3) mem_ok_same [OF D(1)] _ moves_same [where T = "{}"]]) (simp_all add: mint_done_def)
next
  case (give_up P i rd L)
  then show ?thesis using step_quiet [OF I [unfolded give_up(1)] give_up(3), of "PAbort rd"] inv_okD(5) [OF I [unfolded give_up(1)] give_up(3)] by simp
qed (use I C f step_mint step_mint_fold step_revoke step_revoke_mark step_revoke_fold step_release step_redeem step_consume step_commit
      step_abort step_written step_other step_restart in \<open>auto\<close>)

lemma inv_runs_ok:
  assumes "inv_codec_ok Q bus" "inv_fresh m0" "vs_busID m0 = bus" "inv_runs Q m0 S"
  shows "inv_ok Q bus S"
  using assms(4) unfolding inv_runs_def
proof (induction rule: rtranclp_induct)
  case base
  have "mem_ok m0 []" using assms(2) by (simp add: mem_ok_def store_ok_def inv_fresh_def)
  then show ?case using inv_ok_opened [of m0 "[]" Q "[]" bus] assms(3) by (simp add: empty_log_def)
next
  case (step S S')
  then show ?case using inv_step_ok [OF assms(1-3)] by blast
qed


section \<open>An invitation is spent once\<close>



definition demo_inv_store :: invite_store where
  "demo_inv_store = (case inv_NewStore ''b1'' 0 0 0 0 0 (Some ''dummy'') of Inr s \<Rightarrow> s)"

definition demo_inv_json :: invite_json where
  "demo_inv_json = inv_to_json (open_invite ''inv-abcdefghijklmnop'' ''b1'' ''secret'' ''label'' sec_ns DefaultTTL) []"

definition demo_inv_codec :: invite_codec where
  "demo_inv_codec = \<lparr>ic_record = (\<lambda>j. if j = demo_inv_json then Some ''1'' else None),
     un_invite = (\<lambda>b. if b = ''1'' then Some demo_inv_json else None), ic_compact = Some\<rparr>"

lemma demo_inv_codec_ok: "inv_codec_ok demo_inv_codec ''b1''"
  by (simp add: inv_codec_ok_def demo_inv_codec_def)

definition demo_inv_request :: redeem_request where
  "demo_inv_request = \<lparr>rq_InviteID = ''inv-abcdefghijklmnop'', rq_Secret = ''secret'', rq_Key = ''k1'', rq_Fingerprint = sha256 ''payload''\<rparr>"


end
