(* ===== verification/Outbox.thy ===== *)
theory Outbox
  imports EventLog Message AckStore Utf8
begin

text \<open>
  The relay outbox (\<^verbatim>\<open>internal/relay/outbox.go\<close>): the durable record of one delivery owed to one peer, the
  bounded table of such records with its counters and reservations, and the checkpoint of the table.
  A call that writes is split where it releases the mutex.  The Go maps are association lists; clock
  readings are arguments; the JSON text is the parameter \<open>Q\<close>.
\<close>

section \<open>Peers\<close>

datatype peer_error = PeerLocalBusID | ErrInvalidBusID | ErrBusIDCollision

definition ValidatePeerBusID :: "string \<Rightarrow> string \<Rightarrow> peer_error + unit" where
  "ValidatePeerBusID localBusID peerBusID =
     bindR (wrapErr (\<lambda>_. PeerLocalBusID) (ValidateBusID localBusID)) (\<lambda>_.
     if MaxPeerBusIDLen < length peerBusID then Inl ErrInvalidBusID
     else bindR (wrapErr (\<lambda>_. ErrInvalidBusID) (ValidateBusID peerBusID)) (\<lambda>_.
     if equal_fold peerBusID localBusID then Inl ErrBusIDCollision else Inr ()))"

section \<open>Records\<close>

datatype outbox_error =
    ErrInvalidOutboxRecord | ErrOutboxCapacity | ErrOutboxNotDurable | ErrOutboxUnknownJob | ErrOutboxSettled
  | ErrOutboxExpired | ErrOutboxInFlight | ErrOutboxSelfAddressed | OutboxPeer peer_error | OutboxLog log_error
  | OutboxConfig | OutboxAttachedTwice | OutboxCheckpointDecode | OutboxCheckpointMismatch | OutboxActive | OutboxNoCandidate

definition OutboxRecordKind :: string where "OutboxRecordKind = ''outbox''"
definition outboxJobIDSep :: string where "outboxJobIDSep = ''|''"
definition MaxOutboxJobIDLen :: nat where "MaxOutboxJobIDLen = MaxPeerBusIDLen + length outboxJobIDSep + MaxMessageIDLen"
definition MaxPeers :: int where "MaxPeers = 64"
definition DefaultQueueDepth :: int where "DefaultQueueDepth = 256"
definition MaxOutboxJobs :: int where "MaxOutboxJobs = MaxPeers * DefaultQueueDepth"
definition MaxOutboxRetainedJobs :: int where "MaxOutboxRetainedJobs = MaxOutboxJobs"
definition MaxOutboxRetainedBytes :: int where "MaxOutboxRetainedBytes = MaxOutboxRetainedJobs * 2048"
definition RetryHorizonCeiling :: int where "RetryHorizonCeiling = PeerOutageBudget"
definition OutboxRetryHorizon :: int where "OutboxRetryHorizon = RetryHorizonCeiling"
definition OutboxSettledRetention :: int where "OutboxSettledRetention = RetryHorizonCeiling"
definition MaxOutboxReasonLen :: nat where "MaxOutboxReasonLen = 256"
definition OutboxReasonUnspecified :: string where
  "OutboxReasonUnspecified = ''unspecified: the caller abandoned this job without stating a reason''"
definition OutboxClockSkewAllowance :: int where "OutboxClockSkewAllowance = 5 * 60 * sec_ns"
definition contentSHA256HexLen :: nat where "contentSHA256HexLen = 64"

datatype outbox_state = OutboxPending | OutboxDelivered | OutboxAbandoned | OutboxStateOther nat

definition ob_state_String :: "outbox_state \<Rightarrow> string" where
  "ob_state_String s =
     (case s of OutboxPending \<Rightarrow> ''pending'' | OutboxDelivered \<Rightarrow> ''delivered'' | OutboxAbandoned \<Rightarrow> ''abandoned''
      | OutboxStateOther n \<Rightarrow> ''OutboxState('' @ show_nat n @ '')'')"

definition ob_Terminal :: "outbox_state \<Rightarrow> bool" where
  "ob_Terminal s \<longleftrightarrow> s = OutboxDelivered \<or> s = OutboxAbandoned"

definition parseOutboxState :: "string \<Rightarrow> outbox_error + outbox_state" where
  "parseOutboxState s =
     (if s = ''pending'' then Inr OutboxPending
      else if s = ''delivered'' then Inr OutboxDelivered
      else if s = ''abandoned'' then Inr OutboxAbandoned
      else Inl ErrInvalidOutboxRecord)"

definition DeriveJobID :: "string \<Rightarrow> string \<Rightarrow> string" where
  "DeriveJobID peerBusID originMessageID = peerBusID @ outboxJobIDSep @ originMessageID"

record outbox_record =
  ox_JobID :: string
  ox_PeerBusID :: string
  ox_OriginMessageID :: string
  ox_Size :: int
  ox_ContentSHA256 :: string
  ox_EnqueuedAt :: time
  ox_State :: outbox_state
  ox_SettledAt :: time
  ox_Reason :: string

record outbox_json =
  xj_JobID :: string
  xj_PeerBusID :: string
  xj_OriginMessageID :: string
  xj_Size :: int
  xj_ContentSHA256 :: string
  xj_EnqueuedAt :: stamp
  xj_State :: string
  xj_SettledAt :: stamp
  xj_Reason :: string

definition ob_OriginBus :: "outbox_record \<Rightarrow> string" where
  "ob_OriginBus r = (case ParseMessageID (ox_OriginMessageID r) of Inl _ \<Rightarrow> [] | Inr (b, _) \<Rightarrow> b)"

definition ob_Expired :: "outbox_record \<Rightarrow> time \<Rightarrow> int \<Rightarrow> bool" where
  "ob_Expired r now horizon \<longleftrightarrow> ox_State r = OutboxPending \<and> horizon < time_sub now (ox_EnqueuedAt r)"

definition FutureDated :: "outbox_record \<Rightarrow> time \<Rightarrow> int \<Rightarrow> bool" where
  "FutureDated r now allowance \<longleftrightarrow> ox_State r = OutboxPending \<and> now + allowance < ox_EnqueuedAt r"

definition Retired :: "outbox_record \<Rightarrow> time \<Rightarrow> int \<Rightarrow> bool" where
  "Retired r now retention \<longleftrightarrow> ob_Terminal (ox_State r) \<and> retention < time_sub now (ox_SettledAt r)"

definition mustBeSettled :: "outbox_record \<Rightarrow> outbox_error + unit" where
  "mustBeSettled r =
     (if ox_SettledAt r = 0 then Inl ErrInvalidOutboxRecord
      else if ox_SettledAt r < ox_EnqueuedAt r then Inl ErrInvalidOutboxRecord else Inr ())"

definition sanitiseOutboxReason :: "string \<Rightarrow> string" where
  "sanitiseOutboxReason reason0 =
     (let reason1 = (if utf8_valid reason0 then reason0 else to_valid False [CHR 0xEF, CHR 0xBF, CHR 0xBD] reason0);
          reason = (if MaxOutboxReasonLen < length reason1 then take (rune_cut reason1 MaxOutboxReasonLen) reason1 else reason1)
      in if is_blank reason then OutboxReasonUnspecified else reason)"

definition hex_lower :: "char \<Rightarrow> bool" where
  "hex_lower c \<longleftrightarrow> (CHR ''0'' \<le> c \<and> c \<le> CHR ''9'') \<or> (CHR ''a'' \<le> c \<and> c \<le> CHR ''f'')"

definition validateContentSHA256 :: "string \<Rightarrow> outbox_error + unit" where
  "validateContentSHA256 h =
     (if length h \<noteq> contentSHA256HexLen then Inl ErrInvalidOutboxRecord
      else if list_all hex_lower h then Inr () else Inl ErrInvalidOutboxRecord)"

definition ob_validate :: "outbox_record \<Rightarrow> outbox_error + unit" where
  "ob_validate r =
     (if MaxOutboxJobIDLen < length (ox_JobID r) then Inl ErrInvalidOutboxRecord
      else if MaxPeerBusIDLen < length (ox_PeerBusID r) then Inl ErrInvalidOutboxRecord
      else bindR (wrapErr (\<lambda>_. ErrInvalidOutboxRecord) (ValidateBusID (ox_PeerBusID r))) (\<lambda>_.
      if MaxMessageIDLen < length (ox_OriginMessageID r) then Inl ErrInvalidOutboxRecord
      else bindR (wrapErr (\<lambda>_. ErrInvalidOutboxRecord) (ParseMessageID (ox_OriginMessageID r))) (\<lambda>_.
      if ox_JobID r \<noteq> DeriveJobID (ox_PeerBusID r) (ox_OriginMessageID r) then Inl ErrInvalidOutboxRecord
      else if ox_Size r < 0 \<or> int MaxBodyBytes < ox_Size r then Inl ErrInvalidOutboxRecord
      else bindR (validateContentSHA256 (ox_ContentSHA256 r)) (\<lambda>_.
      if ox_EnqueuedAt r = 0 then Inl ErrInvalidOutboxRecord
      else case ox_State r of
        OutboxPending \<Rightarrow>
          if ox_SettledAt r \<noteq> 0 then Inl ErrInvalidOutboxRecord
          else if ox_Reason r \<noteq> [] then Inl ErrInvalidOutboxRecord else Inr ()
      | OutboxDelivered \<Rightarrow>
          bindR (mustBeSettled r) (\<lambda>_. if ox_Reason r \<noteq> [] then Inl ErrInvalidOutboxRecord else Inr ())
      | OutboxAbandoned \<Rightarrow>
          bindR (mustBeSettled r) (\<lambda>_.
          if ox_Reason r = [] then Inl ErrInvalidOutboxRecord
          else if MaxOutboxReasonLen < length (ox_Reason r) then Inl ErrInvalidOutboxRecord
          else if \<not> utf8_valid (ox_Reason r) then Inl ErrInvalidOutboxRecord else Inr ())
      | OutboxStateOther _ \<Rightarrow> Inl ErrInvalidOutboxRecord))))"

record outbox_snapshot =
  sn_Version :: int
  sn_HighWater :: u64
  sn_Records :: "bytes list"

record outbox_codec =
  oc_record :: "outbox_json \<Rightarrow> bytes option"
  un_outbox :: "bytes \<Rightarrow> outbox_json option"
  oc_snapshot :: "outbox_snapshot \<Rightarrow> bytes option"
  un_snapshot :: "bytes \<Rightarrow> outbox_snapshot option"

definition ob_to_json :: "outbox_record \<Rightarrow> outbox_json" where
  "ob_to_json r =
     \<lparr>xj_JobID = ox_JobID r, xj_PeerBusID = ox_PeerBusID r, xj_OriginMessageID = ox_OriginMessageID r, xj_Size = ox_Size r,
      xj_ContentSHA256 = ox_ContentSHA256 r, xj_EnqueuedAt = formatTime (ox_EnqueuedAt r), xj_State = ob_state_String (ox_State r),
      xj_SettledAt = (if ob_Terminal (ox_State r) then formatTime (ox_SettledAt r) else NoStamp),
      xj_Reason = (if ox_State r = OutboxAbandoned then ox_Reason r else [])\<rparr>"

definition ob_Encode :: "outbox_codec \<Rightarrow> outbox_record \<Rightarrow> outbox_error + bytes" where
  "ob_Encode Q r = bindR (ob_validate r) (\<lambda>_. orErr (oc_record Q (ob_to_json r)) ErrInvalidOutboxRecord)"

definition parseOutboxTime :: "stamp \<Rightarrow> outbox_error + time" where
  "parseOutboxTime v = (case v of Stamp t \<Rightarrow> Inr t | _ \<Rightarrow> Inl ErrInvalidOutboxRecord)"

definition DecodeOutboxRecord :: "outbox_codec \<Rightarrow> bytes \<Rightarrow> outbox_error + outbox_record" where
  "DecodeOutboxRecord Q b =
     bindR (orErr (un_outbox Q b) ErrInvalidOutboxRecord) (\<lambda>j.
     bindR (parseOutboxState (xj_State j)) (\<lambda>state.
     bindR (parseOutboxTime (xj_EnqueuedAt j)) (\<lambda>enqueuedAt.
     bindR (if xj_SettledAt j \<noteq> NoStamp then parseOutboxTime (xj_SettledAt j) else Inr 0) (\<lambda>settledAt.
     let r = \<lparr>ox_JobID = xj_JobID j, ox_PeerBusID = xj_PeerBusID j, ox_OriginMessageID = xj_OriginMessageID j,
              ox_Size = xj_Size j, ox_ContentSHA256 = xj_ContentSHA256 j, ox_EnqueuedAt = enqueuedAt, ox_State = state,
              ox_SettledAt = settledAt, ox_Reason = xj_Reason j\<rparr>
     in bindR (ob_validate r) (\<lambda>_. Inr r)))))"

definition canonicalOutboxRecord :: "outbox_codec \<Rightarrow> outbox_record \<Rightarrow> outbox_error + outbox_record \<times> bytes" where
  "canonicalOutboxRecord Q r =
     bindR (ob_Encode Q r) (\<lambda>body. bindR (DecodeOutboxRecord Q body) (\<lambda>canon. Inr (canon, body)))"

text \<open>The last instant of the year 9999.\<close>

definition lastInstant :: time where "lastInstant = 3652059 * 86400 * sec_ns - 1"

definition settled_variant :: "outbox_record \<Rightarrow> outbox_state \<Rightarrow> outbox_record" where
  "settled_variant r state =
     r\<lparr>ox_State := state, ox_SettledAt := (if lastInstant < ox_EnqueuedAt r then ox_EnqueuedAt r else lastInstant),
       ox_Reason := (if state = OutboxAbandoned then replicate MaxOutboxReasonLen (CHR 0x00) else [])\<rparr>"

definition outboxLifecycleReservation :: "outbox_codec \<Rightarrow> outbox_record \<Rightarrow> outbox_error + int" where
  "outboxLifecycleReservation Q r =
     bindR (ob_Encode Q r) (\<lambda>pending.
     bindR (ob_Encode Q (settled_variant r OutboxDelivered)) (\<lambda>d.
     bindR (ob_Encode Q (settled_variant r OutboxAbandoned)) (\<lambda>a.
     Inr (max (max (int (length pending)) (int (length d))) (int (length a))))))"

section \<open>The table\<close>

record outbox_candidate =
  cd_omitted :: "(string \<times> bytes) list"
  cd_terminal :: "(string \<times> bytes) list"

record outbox =
  ob_busID :: string
  ob_attached :: bool
  ob_maxJobs :: int
  ob_maxPendingPerPeer :: int
  ob_maxRetainedJobs :: int
  ob_maxRetainedBytes :: int
  ob_maxRetainedPerPeer :: int
  ob_retryHorizon :: int
  ob_settledRetention :: int
  ob_jobs :: "(string \<times> outbox_record) list"
  ob_pendingJobs :: int
  ob_pendingByPeer :: "(string \<times> int) list"
  ob_pendingWrites :: int
  ob_pendingWritesByPeer :: "(string \<times> int) list"
  ob_retainedJobs :: int
  ob_retainedBytes :: int
  ob_retainedByPeer :: "(string \<times> int) list"
  ob_reservationBytes :: "(string \<times> int) list"
  ob_retainedWriteJobs :: int
  ob_retainedWriteBytes :: int
  ob_retainedWritesByPeer :: "(string \<times> int) list"
  ob_checkpointReclaims :: bool
  ob_expired :: "string list"
  ob_candidate :: "outbox_candidate option"
  ob_restoredHighWater :: u64
  ob_inflight :: "string list"

record outbox_options =
  oo_BusID :: string
  oo_MaxJobs :: int
  oo_MaxPendingPerPeer :: int
  oo_MaxRetainedJobs :: int
  oo_MaxRetainedBytes :: int
  oo_MaxRetainedPerPeer :: int
  oo_RetryHorizon :: int
  oo_SettledRetention :: int

definition positive_or :: "int \<Rightarrow> int \<Rightarrow> int" where
  "positive_or v d = (if v \<le> 0 then d else v)"

definition share :: "int \<Rightarrow> int" where
  "share n = (if n div MaxPeers = 0 then 1 else n div MaxPeers)"

text \<open>\<open>log\<close> is the log given at construction: whether there is one, and whether it reclaims by checkpoints.\<close>

definition NewOutbox :: "(bool \<times> bool) \<Rightarrow> outbox_options \<Rightarrow> outbox_error + outbox" where
  "NewOutbox log opt =
     bindR (wrapErr (\<lambda>_. OutboxConfig) (ValidateBusID (oo_BusID opt))) (\<lambda>_.
     let maxJobs = positive_or (oo_MaxJobs opt) MaxOutboxJobs;
         perPeer = positive_or (oo_MaxPendingPerPeer opt) (share maxJobs);
         retJobs = positive_or (oo_MaxRetainedJobs opt) MaxOutboxRetainedJobs;
         retBytes = positive_or (oo_MaxRetainedBytes opt) MaxOutboxRetainedBytes;
         retPeer = positive_or (oo_MaxRetainedPerPeer opt) (share retJobs);
         horizon = positive_or (oo_RetryHorizon opt) OutboxRetryHorizon;
         retention = positive_or (oo_SettledRetention opt) OutboxSettledRetention
     in if maxJobs < perPeer then Inl OutboxConfig
        else if retJobs < retPeer then Inl OutboxConfig
        else if retention < horizon then Inl OutboxConfig
        else Inr \<lparr>ob_busID = oo_BusID opt, ob_attached = fst log, ob_maxJobs = maxJobs, ob_maxPendingPerPeer = perPeer,
          ob_maxRetainedJobs = retJobs, ob_maxRetainedBytes = retBytes, ob_maxRetainedPerPeer = retPeer, ob_retryHorizon = horizon,
          ob_settledRetention = retention, ob_jobs = [], ob_pendingJobs = 0, ob_pendingByPeer = [], ob_pendingWrites = 0,
          ob_pendingWritesByPeer = [], ob_retainedJobs = 0, ob_retainedBytes = 0, ob_retainedByPeer = [], ob_reservationBytes = [],
          ob_retainedWriteJobs = 0, ob_retainedWriteBytes = 0, ob_retainedWritesByPeer = [], ob_checkpointReclaims = fst log \<and> snd log,
          ob_expired = [], ob_candidate = None, ob_restoredHighWater = 0, ob_inflight = []\<rparr>)"

definition ob_Attach :: "(bool \<times> bool) \<Rightarrow> outbox \<Rightarrow> (outbox_error + unit) \<times> outbox" where
  "ob_Attach log s =
     (if \<not> fst log then (Inl ErrOutboxNotDurable, s)
      else if ob_attached s then (Inl OutboxAttachedTwice, s)
      else (Inr (), s\<lparr>ob_attached := True, ob_checkpointReclaims := snd log\<rparr>))"

text \<open>Decrement a counter of a map and delete it at zero.\<close>

definition decZ :: "string \<Rightarrow> (string \<times> int) list \<Rightarrow> (string \<times> int) list" where
  "decZ k m = (let v = getI m k - 1 in if v = 0 then AList.delete k m else AList.update k v m)"

definition removePending :: "string \<Rightarrow> outbox \<Rightarrow> outbox" where
  "removePending peer s = s\<lparr>ob_pendingJobs := ob_pendingJobs s - 1, ob_pendingByPeer := decZ peer (ob_pendingByPeer s)\<rparr>"

definition reserved_for :: "outbox_codec \<Rightarrow> string \<Rightarrow> outbox_record \<Rightarrow> outbox \<Rightarrow> int" where
  "reserved_for Q jid r s =
     (if getI (ob_reservationBytes s) jid \<noteq> 0 then getI (ob_reservationBytes s) jid
      else case (if ox_State r = OutboxPending then outboxLifecycleReservation Q r
                 else bindR (ob_Encode Q r) (\<lambda>b. Inr (int (length b)))) of
        Inl _ \<Rightarrow> int MaxPayloadSize
      | Inr n \<Rightarrow> n)"

definition ob_put :: "outbox_codec \<Rightarrow> string \<Rightarrow> outbox_record \<Rightarrow> outbox \<Rightarrow> outbox" where
  "ob_put Q jid r s =
     (let old = map_of (ob_jobs s) jid;
          wasPending = (case old of None \<Rightarrow> False | Some q \<Rightarrow> ox_State q = OutboxPending);
          s1 = (case old of None \<Rightarrow> s | Some q \<Rightarrow> if wasPending then removePending (ox_PeerBusID q) s else s);
          s2 = (if old = None then
                  (let n = reserved_for Q jid r s1 in
                   s1\<lparr>ob_reservationBytes := (if getI (ob_reservationBytes s1) jid = 0 then AList.update jid n (ob_reservationBytes s1)
                                              else ob_reservationBytes s1),
                      ob_retainedJobs := ob_retainedJobs s1 + 1, ob_retainedBytes := ob_retainedBytes s1 + n,
                      ob_retainedByPeer := incI (ox_PeerBusID r) (ob_retainedByPeer s1)\<rparr>)
                else s1);
          s3 = s2\<lparr>ob_jobs := AList.update jid r (ob_jobs s2)\<rparr>;
          s4 = (if wasPending \<and> ob_Terminal (ox_State r) then s3\<lparr>ob_expired := removeAll jid (ob_expired s3)\<rparr> else s3)
      in if ox_State r = OutboxPending
         then s4\<lparr>ob_pendingJobs := ob_pendingJobs s4 + 1, ob_pendingByPeer := incI (ox_PeerBusID r) (ob_pendingByPeer s4)\<rparr>
         else s4)"

definition ob_del :: "string \<Rightarrow> outbox \<Rightarrow> outbox" where
  "ob_del jid s =
     (let s1 = (case map_of (ob_jobs s) jid of
                  None \<Rightarrow> s
                | Some old \<Rightarrow>
                    (let t = (if ox_State old = OutboxPending then removePending (ox_PeerBusID old) s else s) in
                     t\<lparr>ob_retainedJobs := ob_retainedJobs t - 1,
                       ob_retainedBytes := ob_retainedBytes t - getI (ob_reservationBytes t) jid,
                       ob_retainedByPeer := decZ (ox_PeerBusID old) (ob_retainedByPeer t)\<rparr>))
      in s1\<lparr>ob_jobs := AList.delete jid (ob_jobs s1), ob_reservationBytes := AList.delete jid (ob_reservationBytes s1),
            ob_expired := removeAll jid (ob_expired s1)\<rparr>)"

text \<open>The sweep decides each record by itself, so the order of a Go map does not matter.\<close>

definition outdated :: "outbox \<Rightarrow> time \<Rightarrow> outbox_record \<Rightarrow> bool" where
  "outdated s now r \<longleftrightarrow> FutureDated r now OutboxClockSkewAllowance \<or> ob_Expired r now (ob_retryHorizon s) \<or>
     Retired r now (ob_settledRetention s)"

definition sweep_one :: "time \<Rightarrow> outbox \<Rightarrow> string \<times> outbox_record \<Rightarrow> outbox" where
  "sweep_one now s x =
     (if fst x \<in> set (ob_expired s) then s
      else if outdated s now (snd x) then
        if ob_checkpointReclaims s then s\<lparr>ob_expired := fst x # ob_expired s\<rparr> else ob_del (fst x) s
      else s)"

definition ob_sweep :: "time \<Rightarrow> outbox \<Rightarrow> outbox" where
  "ob_sweep now s = foldl (sweep_one now) s (ob_jobs s)"

definition merged_settlement :: "outbox_record \<Rightarrow> outbox_record \<Rightarrow> outbox_record" where
  "merged_settlement existing r =
     existing\<lparr>ox_State := ox_State r,
       ox_SettledAt := (if ox_SettledAt r < ox_EnqueuedAt existing then ox_EnqueuedAt existing else ox_SettledAt r),
       ox_Reason := ox_Reason r\<rparr>"

definition ob_upsert :: "outbox_codec \<Rightarrow> outbox_record \<Rightarrow> time \<Rightarrow> outbox \<Rightarrow> (outbox_error + unit) \<times> outbox" where
  "ob_upsert Q r now s0 =
     (let s = ob_sweep now s0 in
      if equal_fold (ox_PeerBusID r) (ob_busID s) then (Inl ErrOutboxSelfAddressed, s)
      else if FutureDated r now OutboxClockSkewAllowance then (Inl ErrInvalidOutboxRecord, s)
      else if ob_Expired r now (ob_retryHorizon s) then (Inl ErrOutboxExpired, s)
      else case map_of (ob_jobs s) (ox_JobID r) of
        None \<Rightarrow> if Retired r now (ob_settledRetention s) then (Inr (), s) else (Inr (), ob_put Q (ox_JobID r) r s)
      | Some existing \<Rightarrow>
          if Retired r now (ob_settledRetention s) \<and> ob_Terminal (ox_State existing) then (Inr (), s)
          else if ox_PeerBusID existing \<noteq> ox_PeerBusID r \<or> ox_OriginMessageID existing \<noteq> ox_OriginMessageID r
            then (Inl ErrInvalidOutboxRecord, s)
          else if ox_ContentSHA256 existing \<noteq> ox_ContentSHA256 r \<or> ox_Size existing \<noteq> ox_Size r then
            if ob_Terminal (ox_State r) \<and> ox_State existing = OutboxPending
            then (Inr (), ob_put Q (ox_JobID r) (merged_settlement existing r) s)
            else (Inl ErrInvalidOutboxRecord, s)
          else if ox_State existing = OutboxPending \<and> ox_State r = OutboxPending then
            if ox_EnqueuedAt existing \<noteq> ox_EnqueuedAt r then (Inl ErrInvalidOutboxRecord, s) else (Inr (), s)
          else if ox_State existing = OutboxPending then (Inr (), ob_put Q (ox_JobID r) r s)
          else if ox_State r = OutboxPending then (Inl ErrOutboxSettled, s)
          else if ox_State existing = ox_State r then (Inr (), s)
          else (Inl ErrOutboxSettled, s))"

definition ob_foldIn :: "outbox_codec \<Rightarrow> outbox_record \<Rightarrow> time \<Rightarrow> outbox \<Rightarrow> outbox" where
  "ob_foldIn Q r now s = snd (ob_upsert Q r now s)"

definition entry_body :: "entry \<Rightarrow> bytes" where
  "entry_body e = (case en_Body e of None \<Rightarrow> [] | Some b \<Rightarrow> b)"

definition ob_Apply :: "outbox_codec \<Rightarrow> outbox applier" where
  "ob_Apply Q now c s =
     (if en_Kind (cm_Entry c) \<noteq> OutboxRecordKind then (True, s)
      else case DecodeOutboxRecord Q (entry_body (cm_Entry c)) of
        Inl _ \<Rightarrow> (True, s)
      | Inr rec \<Rightarrow>
          if cm_CommitIndex c \<le> ob_restoredHighWater s then (True, s) else (True, snd (ob_upsert Q rec now s)))"

section \<open>Enqueue and settle\<close>

record outbox_job =
  jb_PeerBusID :: string
  jb_OriginMessageID :: string
  jb_Size :: int
  jb_ContentSHA256 :: string

definition pending_record :: "outbox_job \<Rightarrow> time \<Rightarrow> outbox_record" where
  "pending_record job now =
     \<lparr>ox_JobID = DeriveJobID (jb_PeerBusID job) (jb_OriginMessageID job), ox_PeerBusID = jb_PeerBusID job,
      ox_OriginMessageID = jb_OriginMessageID job, ox_Size = jb_Size job, ox_ContentSHA256 = jb_ContentSHA256 job,
      ox_EnqueuedAt = now, ox_State = OutboxPending, ox_SettledAt = 0, ox_Reason = []\<rparr>"

text \<open>
  The section before the write: the job is known already (\<open>Found\<close>) or its slots and its identifier are
  reserved (\<open>Reserved\<close>).
\<close>

datatype enqueue_plan = Found outbox_record | Reserved outbox_record bytes int

definition admit_job :: "outbox_record \<Rightarrow> int \<Rightarrow> outbox \<Rightarrow> bool" where
  "admit_job canon reservation s \<longleftrightarrow>
     (let peer = ox_PeerBusID canon in
      ob_pendingJobs s + ob_pendingWrites s < ob_maxJobs s \<and>
      getI (ob_pendingByPeer s) peer + getI (ob_pendingWritesByPeer s) peer < ob_maxPendingPerPeer s \<and>
      ob_retainedJobs s + ob_retainedWriteJobs s < ob_maxRetainedJobs s \<and>
      ob_retainedBytes s + ob_retainedWriteBytes s + reservation \<le> ob_maxRetainedBytes s \<and>
      getI (ob_retainedByPeer s) peer + getI (ob_retainedWritesByPeer s) peer < ob_maxRetainedPerPeer s)"

definition reserve_job :: "outbox_record \<Rightarrow> int \<Rightarrow> outbox \<Rightarrow> outbox" where
  "reserve_job canon reservation s =
     (let peer = ox_PeerBusID canon in
      s\<lparr>ob_pendingWrites := ob_pendingWrites s + 1, ob_pendingWritesByPeer := incI peer (ob_pendingWritesByPeer s),
        ob_retainedWriteJobs := ob_retainedWriteJobs s + 1, ob_retainedWriteBytes := ob_retainedWriteBytes s + reservation,
        ob_retainedWritesByPeer := incI peer (ob_retainedWritesByPeer s),
        ob_reservationBytes := AList.update (ox_JobID canon) reservation (ob_reservationBytes s),
        ob_inflight := ox_JobID canon # ob_inflight s\<rparr>)"

definition enqueue_start :: "outbox_codec \<Rightarrow> time \<Rightarrow> outbox_job \<Rightarrow> outbox \<Rightarrow> (outbox_error + enqueue_plan) \<times> outbox" where
  "enqueue_start Q now job s =
     (if \<not> ob_attached s then (Inl ErrOutboxNotDurable, s)
      else case bindR (wrapErr OutboxPeer (ValidatePeerBusID (ob_busID s) (jb_PeerBusID job))) (\<lambda>_.
                bindR (canonicalOutboxRecord Q (pending_record job now)) (\<lambda>(canon, body).
                bindR (outboxLifecycleReservation Q canon) (\<lambda>n. Inr (canon, body, n)))) of
        Inl e \<Rightarrow> (Inl e, s)
      | Inr (canon, body, n) \<Rightarrow>
          (let s1 = ob_sweep now s in
           case map_of (ob_jobs s1) (ox_JobID canon) of
             Some existing \<Rightarrow>
               if ob_Terminal (ox_State existing) then (Inl ErrOutboxSettled, s1)
               else if ox_ContentSHA256 existing \<noteq> jb_ContentSHA256 job \<or> ox_Size existing \<noteq> jb_Size job
                 then (Inl ErrInvalidOutboxRecord, s1)
               else (Inr (Found existing), s1)
           | None \<Rightarrow>
               if ox_JobID canon \<in> set (ob_inflight s1) then (Inl ErrOutboxInFlight, s1)
               else if \<not> admit_job canon n s1 then (Inl ErrOutboxCapacity, s1)
               else (Inr (Reserved canon body n), reserve_job canon n s1)))"

definition enqueue_done :: "outbox_record \<Rightarrow> int \<Rightarrow> outbox \<Rightarrow> outbox" where
  "enqueue_done canon reservation s =
     (let peer = ox_PeerBusID canon in
      s\<lparr>ob_pendingWrites := ob_pendingWrites s - 1, ob_pendingWritesByPeer := decZ peer (ob_pendingWritesByPeer s),
        ob_retainedWriteJobs := ob_retainedWriteJobs s - 1, ob_retainedWriteBytes := ob_retainedWriteBytes s - reservation,
        ob_retainedWritesByPeer := decZ peer (ob_retainedWritesByPeer s),
        ob_reservationBytes := (if map_of (ob_jobs s) (ox_JobID canon) = None then AList.delete (ox_JobID canon) (ob_reservationBytes s)
                                else ob_reservationBytes s),
        ob_inflight := removeAll (ox_JobID canon) (ob_inflight s)\<rparr>)"

definition settled_record :: "outbox_record \<Rightarrow> outbox_state \<Rightarrow> string \<Rightarrow> time \<Rightarrow> outbox_record" where
  "settled_record existing state reason now =
     existing\<lparr>ox_State := state, ox_SettledAt := (if now < ox_EnqueuedAt existing then ox_EnqueuedAt existing else now), ox_Reason := reason\<rparr>"

text \<open>\<open>Inr (r, True)\<close>: the transition of the job is reserved; \<open>Inr (r, False)\<close>: the settlement is a repetition.\<close>

definition settle_start ::
  "time \<Rightarrow> string \<Rightarrow> outbox_state \<Rightarrow> string \<Rightarrow> outbox \<Rightarrow> (outbox_error + outbox_record \<times> bool) \<times> outbox" where
  "settle_start now jid state reason0 s =
     (if \<not> ob_attached s then (Inl ErrOutboxNotDurable, s)
      else if \<not> ob_Terminal state then (Inl ErrInvalidOutboxRecord, s)
      else let reason = (if state = OutboxDelivered then [] else sanitiseOutboxReason reason0); s1 = ob_sweep now s in
        case map_of (ob_jobs s1) jid of
          None \<Rightarrow> (Inl ErrOutboxUnknownJob, s1)
        | Some existing \<Rightarrow>
            if ob_Terminal (ox_State existing) then
              if ox_State existing = state \<and> ox_Reason existing = reason then (Inr (existing, False), s1) else (Inl ErrOutboxSettled, s1)
            else if jid \<in> set (ob_inflight s1) then (Inl ErrOutboxInFlight, s1)
            else (Inr (settled_record existing state reason now, True), s1\<lparr>ob_inflight := jid # ob_inflight s1\<rparr>))"

definition settle_done :: "string \<Rightarrow> outbox \<Rightarrow> outbox" where
  "settle_done jid s = s\<lparr>ob_inflight := removeAll jid (ob_inflight s)\<rparr>"

text \<open>The calls without interleaving.\<close>

type_synonym outbox_log = "outbox event_log"

abbreviation upd_ob :: "(outbox \<Rightarrow> outbox) \<Rightarrow> outbox_log \<Rightarrow> outbox_log" where
  "upd_ob f L \<equiv> L\<lparr>el_mem := f (el_mem L)\<rparr>"

definition outbox_entry :: "bytes \<Rightarrow> entry" where
  "outbox_entry body = \<lparr>en_Kind = OutboxRecordKind, en_Body = Some body, en_Idem = None, en_Audit = None\<rparr>"

definition Enqueue ::
  "outbox_codec \<Rightarrow> write_fate \<Rightarrow> (nat \<Rightarrow> time) \<Rightarrow> outbox_job \<Rightarrow> outbox_log \<Rightarrow> (outbox_error + outbox_record) \<times> outbox_log" where
  "Enqueue Q fate clk job L =
     (case enqueue_start Q (clk 0) job (el_mem L) of
        (Inl e, s) \<Rightarrow> (Inl e, L\<lparr>el_mem := s\<rparr>)
      | (Inr (Found r), s) \<Rightarrow> (Inr r, L\<lparr>el_mem := s\<rparr>)
      | (Inr (Reserved canon body n), s) \<Rightarrow>
     (case event_Write (ob_Apply Q) fate (clk 1) (outbox_entry body) (L\<lparr>el_mem := s\<rparr>) of
        (Inl e, L1) \<Rightarrow> (Inl (OutboxLog e), upd_ob (enqueue_done canon n) L1)
      | (Inr _, L1) \<Rightarrow> (Inr canon, upd_ob (enqueue_done canon n \<circ> ob_foldIn Q canon (clk 2)) L1)))"

definition ob_Settle ::
  "outbox_codec \<Rightarrow> write_fate \<Rightarrow> (nat \<Rightarrow> time) \<Rightarrow> string \<Rightarrow> outbox_state \<Rightarrow> string \<Rightarrow> outbox_log \<Rightarrow>
     (outbox_error + outbox_record) \<times> outbox_log" where
  "ob_Settle Q fate clk jid state reason L =
     (case settle_start (clk 0) jid state reason (el_mem L) of
        (Inl e, s) \<Rightarrow> (Inl e, L\<lparr>el_mem := s\<rparr>)
      | (Inr (r, False), s) \<Rightarrow> (Inr r, L\<lparr>el_mem := s\<rparr>)
      | (Inr (r, True), s) \<Rightarrow>
     (case canonicalOutboxRecord Q r of
        Inl e \<Rightarrow> (Inl e, L\<lparr>el_mem := settle_done jid s\<rparr>)
      | Inr (canon, body) \<Rightarrow>
     (case event_Write (ob_Apply Q) fate (clk 1) (outbox_entry body) (L\<lparr>el_mem := s\<rparr>) of
        (Inl e, L1) \<Rightarrow> (Inl (OutboxLog e), upd_ob (settle_done jid) L1)
      | (Inr _, L1) \<Rightarrow> (Inr canon, upd_ob (settle_done jid \<circ> ob_foldIn Q canon (clk 2)) L1))))"

section \<open>Queries\<close>

definition ob_Lookup :: "time \<Rightarrow> string \<Rightarrow> outbox \<Rightarrow> outbox_record option \<times> outbox" where
  "ob_Lookup now jid s =
     (let s1 = ob_sweep now s in (if jid \<in> set (ob_expired s1) then None else map_of (ob_jobs s1) jid, s1))"

definition Jobs :: "time \<Rightarrow> outbox_state list \<Rightarrow> outbox \<Rightarrow> outbox_record list \<times> outbox" where
  "Jobs now states s =
     (let s1 = ob_sweep now s;
          out = map snd (filter (\<lambda>x. fst x \<notin> set (ob_expired s1) \<and> (states = [] \<or> ox_State (snd x) \<in> set states)) (ob_jobs s1))
      in (sort_key ox_EnqueuedAt (sort_key ox_JobID out), s1))"

definition Pending :: "time \<Rightarrow> outbox \<Rightarrow> outbox_record list \<times> outbox" where
  "Pending now s = Jobs now [OutboxPending] s"

definition ob_Len :: "time \<Rightarrow> outbox \<Rightarrow> nat \<times> outbox" where
  "ob_Len now s = (let s1 = ob_sweep now s in (length (ob_jobs s1), s1))"

section \<open>Checkpoints\<close>

definition outboxCheckpointVersion :: int where "outboxCheckpointVersion = 1"

fun encode_rows :: "outbox_codec \<Rightarrow> (string \<times> outbox_record) list \<Rightarrow> outbox_error + (string \<times> bytes) list" where
  "encode_rows Q [] = Inr []"
| "encode_rows Q ((jid, r) # xs) =
     bindR (ob_Encode Q r) (\<lambda>b. bindR (encode_rows Q xs) (\<lambda>bs. Inr ((jid, b) # bs)))"

definition zero_outbox_record :: outbox_record where
  "zero_outbox_record = \<lparr>ox_JobID = [], ox_PeerBusID = [], ox_OriginMessageID = [], ox_Size = 0, ox_ContentSHA256 = [], ox_EnqueuedAt = 0,
     ox_State = OutboxStateOther 0, ox_SettledAt = 0, ox_Reason = []\<rparr>"

text \<open>\<^verbatim>\<open>Snapshot\<close>; \<open>ids\<close> of the code is \<open>kept\<close>, sorted by job id.\<close>

definition ob_Snapshot :: "outbox_codec \<Rightarrow> time \<Rightarrow> u64 \<Rightarrow> outbox \<Rightarrow> (outbox_error + bytes) \<times> outbox" where
  "ob_Snapshot Q now highWater s =
     (let s1 = ob_sweep now s;
          kept = sort_key fst (filter (\<lambda>x. fst x \<notin> set (ob_expired s1)) (ob_jobs s1));
          omitted = map (\<lambda>k. (k, case map_of (ob_jobs s1) k of None \<Rightarrow> zero_outbox_record | Some r \<Rightarrow> r)) (ob_expired s1)
      in case bindR (encode_rows Q omitted) (\<lambda>om. bindR (encode_rows Q kept) (\<lambda>ks.
              bindR (orErr (oc_snapshot Q \<lparr>sn_Version = outboxCheckpointVersion, sn_HighWater = highWater, sn_Records = map snd ks\<rparr>)
                       OutboxCheckpointDecode) (\<lambda>b. Inr (om, ks, b)))) of
           Inl e \<Rightarrow> (Inl e, s1)
         | Inr (om, ks, b) \<Rightarrow>
             (Inr b, s1\<lparr>ob_candidate := Some \<lparr>cd_omitted = om,
                cd_terminal = filter (\<lambda>x. case map_of (ob_jobs s1) (fst x) of None \<Rightarrow> False | Some r \<Rightarrow> ob_Terminal (ox_State r)) ks\<rparr>\<rparr>))"

fun decode_rows :: "outbox_codec \<Rightarrow> string list \<Rightarrow> string \<Rightarrow> bytes list \<Rightarrow> outbox_error + outbox_record list" where
  "decode_rows Q seen lst [] = Inr []"
| "decode_rows Q seen lst (b # bs) =
     bindR (wrapErr (\<lambda>_. OutboxCheckpointDecode) (DecodeOutboxRecord Q b)) (\<lambda>r.
     if ob_Encode Q r \<noteq> Inr b then Inl OutboxCheckpointDecode
     else if ox_JobID r \<in> set seen then Inl OutboxCheckpointDecode
     else if lst \<noteq> [] \<and> ox_JobID r < lst then Inl OutboxCheckpointDecode
     else bindR (decode_rows Q (ox_JobID r # seen) (ox_JobID r) bs) (\<lambda>rs. Inr (r # rs)))"

definition ob_Restore :: "outbox_codec \<Rightarrow> bytes \<Rightarrow> u64 \<Rightarrow> outbox \<Rightarrow> (outbox_error + unit) \<times> outbox" where
  "ob_Restore Q snapshot highWater s =
     (case bindR (orErr (un_snapshot Q snapshot) OutboxCheckpointDecode) (\<lambda>d.
           if sn_Version d \<noteq> outboxCheckpointVersion \<or> sn_HighWater d \<noteq> highWater then Inl OutboxCheckpointMismatch
           else decode_rows Q [] [] (sn_Records d)) of
        Inl e \<Rightarrow> (Inl e, s)
      | Inr records \<Rightarrow>
          if ob_inflight s \<noteq> [] \<or> ob_pendingWrites s \<noteq> 0 then (Inl OutboxActive, s)
          else (let s0 = s\<lparr>ob_jobs := [], ob_pendingJobs := 0, ob_pendingByPeer := [], ob_retainedJobs := 0, ob_retainedBytes := 0,
                  ob_retainedByPeer := [], ob_reservationBytes := [], ob_expired := []\<rparr>;
                s1 = foldl (\<lambda>t r. ob_put Q (ox_JobID r) r t) s0 records
            in (Inr (), s1\<lparr>ob_restoredHighWater := highWater\<rparr>)))"

definition rebaseTerminal :: "string \<Rightarrow> outbox_record \<Rightarrow> bytes \<Rightarrow> outbox \<Rightarrow> outbox" where
  "rebaseTerminal jid r body s =
     (if \<not> ob_Terminal (ox_State r) then s
      else s\<lparr>ob_reservationBytes := AList.update jid (int (length body)) (ob_reservationBytes s),
             ob_retainedBytes := ob_retainedBytes s + (int (length body) - getI (ob_reservationBytes s) jid)\<rparr>)"

definition reclaim_omitted :: "outbox_codec \<Rightarrow> outbox \<Rightarrow> string \<times> bytes \<Rightarrow> outbox" where
  "reclaim_omitted Q s x =
     (case map_of (ob_jobs s) (fst x) of
        None \<Rightarrow> s
      | Some r \<Rightarrow>
          (case ob_Encode Q r of
             Inr body \<Rightarrow>
               if fst x \<in> set (ob_expired s) \<and> body = snd x then ob_del (fst x) s
               else rebaseTerminal (fst x) r body (s\<lparr>ob_expired := removeAll (fst x) (ob_expired s)\<rparr>)
           | Inl _ \<Rightarrow> s\<lparr>ob_expired := removeAll (fst x) (ob_expired s)\<rparr>))"

definition rebase_published :: "outbox_codec \<Rightarrow> outbox \<Rightarrow> string \<times> bytes \<Rightarrow> outbox" where
  "rebase_published Q s x =
     (case map_of (ob_jobs s) (fst x) of
        None \<Rightarrow> s
      | Some r \<Rightarrow>
          if \<not> ob_Terminal (ox_State r) then s
          else if ob_Encode Q r \<noteq> Inr (snd x) then s else rebaseTerminal (fst x) r (snd x) s)"

text \<open>The sections of \<^verbatim>\<open>Checkpoint\<close> before and after the log publishes; \<open>published\<close> is the log's answer.\<close>

definition checkpoint_start :: "outbox \<Rightarrow> outbox" where
  "checkpoint_start s = s\<lparr>ob_candidate := None\<rparr>"

definition checkpoint_done :: "outbox_codec \<Rightarrow> (log_error + unit) \<Rightarrow> outbox \<Rightarrow> (outbox_error + unit) \<times> outbox" where
  "checkpoint_done Q published s =
     (case published of
        Inl e \<Rightarrow> (Inl (OutboxLog e), s\<lparr>ob_candidate := None\<rparr>)
      | Inr _ \<Rightarrow>
          (case ob_candidate s of
             None \<Rightarrow> (Inl OutboxNoCandidate, s)
           | Some cand \<Rightarrow>
               (let s1 = foldl (reclaim_omitted Q) (s\<lparr>ob_candidate := None\<rparr>) (cd_omitted cand) in
                (Inr (), foldl (rebase_published Q) s1 (cd_terminal cand)))))"

end
