(* ===== verification/OutboxBooks.thy ===== *)
theory OutboxBooks
  imports Outbox
begin

text \<open>
  The bookkeeping of the relay outbox.  The code never counts its table: it keeps the number of pending jobs, the number per peer,
  the retained records, their bytes and their number per peer as running counters, which every admission decision reads.
  \<open>books_ok\<close> says that they describe exactly the table, and every critical section keeps it.
\<close>

section \<open>Counting rows\<close>

definition cnt :: "('b \<Rightarrow> bool) \<Rightarrow> ('a \<times> 'b) list \<Rightarrow> nat" where
  "cnt P al = length (filter (\<lambda>x. P (snd x)) al)"

lemma cnt_Nil [simp]: "cnt P [] = 0"
  by (simp add: cnt_def)

lemma cnt_new: "map_of al k = None \<Longrightarrow> cnt P (AList.update k v al) = cnt P al + (if P v then 1 else 0)"
  by (induction al) (auto simp: cnt_def split: if_splits)

lemma cnt_replace:
  "map_of al k = Some q \<Longrightarrow> cnt P (AList.update k v al) + (if P q then 1 else 0) = cnt P al + (if P v then 1 else 0)"
  by (induction al) (auto simp: cnt_def split: if_splits)

lemma delete_absent: "map_of al k = None \<Longrightarrow> AList.delete k al = al"
  by (induction al) (auto split: if_splits)

lemma cnt_delete:
  "distinct (map fst al) \<Longrightarrow> map_of al k = Some q \<Longrightarrow> cnt P (AList.delete k al) + (if P q then 1 else 0) = cnt P al"
proof (induction al)
  case (Cons x al)
  show ?case
  proof (cases "fst x = k")
    case True
    then have "map_of al k = None" using Cons.prems(1) by (auto simp: map_of_eq_None_iff)
    then show ?thesis using Cons.prems(2) True by (cases x) (simp add: cnt_def delete_absent)
  next
    case False
    then show ?thesis using Cons by (cases x) (auto simp: cnt_def)
  qed
qed simp

lemma cnt_pos: "map_of al k = Some q \<Longrightarrow> P q \<Longrightarrow> 0 < cnt P al"
  by (force simp: cnt_def filter_empty_conv dest!: map_of_SomeD)

definition bytes_total :: "('a \<Rightarrow> int) \<Rightarrow> ('a \<times> 'b) list \<Rightarrow> int" where
  "bytes_total f al = sum_list (map (\<lambda>x. f (fst x)) al)"

lemma bytes_total_Nil [simp]: "bytes_total f [] = 0"
  by (simp add: bytes_total_def)

lemma bytes_total_update: "bytes_total f (AList.update k v al) = bytes_total f al + (if map_of al k = None then f k else 0)"
  by (induction al) (auto simp: bytes_total_def)

lemma bytes_total_delete: "distinct (map fst al) \<Longrightarrow> bytes_total f (AList.delete k al) = bytes_total f al - (if map_of al k = None then 0 else f k)"
proof (induction al)
  case (Cons x al)
  show ?case
  proof (cases "fst x = k")
    case True
    then have "map_of al k = None" using Cons.prems by (auto simp: map_of_eq_None_iff)
    then show ?thesis using True by (cases x) (simp add: bytes_total_def delete_absent)
  qed (use Cons in \<open>cases x, auto simp: bytes_total_def\<close>)
qed simp

lemma bytes_total_cong: "(\<And>k. k \<in> fst ` set al \<Longrightarrow> f k = g k) \<Longrightarrow> bytes_total f al = bytes_total g al"
  by (auto simp: bytes_total_def intro!: arg_cong [where f = sum_list])

lemma bytes_total_other: "map_of al k = None \<Longrightarrow> bytes_total (f(k := v)) al = bytes_total f al"
  by (rule bytes_total_cong) (auto simp: map_of_eq_None_iff)

lemma getI_updated: "getI (AList.update k v m) = (getI m)(k := v)"
  by (rule ext) (simp add: getI_def update_conv)

lemma getI_deleted: "getI (AList.delete k m) = (getI m)(k := 0)"
  by (rule ext) (simp add: getI_def delete_conv)

lemma counts_decZ: "counts_ok cs n \<Longrightarrow> 0 < n b \<Longrightarrow> counts_ok (decZ b cs) (n(b := n b - 1))"
  using getI_counts [of cs n b] counts_decI [of cs n b] by (cases "n b = 1") (auto simp: decZ_def decI_def Let_def)

section \<open>The invariant\<close>

abbreviation job :: "outbox \<Rightarrow> string \<Rightarrow> outbox_record option" where
  "job s \<equiv> map_of (ob_jobs s)"

abbreviation owed :: "outbox_record \<Rightarrow> bool" where
  "owed r \<equiv> ox_State r = OutboxPending"

definition books_ok :: "outbox \<Rightarrow> bool" where
  "books_ok s \<longleftrightarrow> distinct (map fst (ob_jobs s)) \<and> (\<forall>k r. job s k = Some r \<longrightarrow> ox_JobID r = k) \<and>
     ob_pendingJobs s = int (cnt owed (ob_jobs s)) \<and>
     counts_ok (ob_pendingByPeer s) (\<lambda>p. cnt (\<lambda>r. owed r \<and> ox_PeerBusID r = p) (ob_jobs s)) \<and>
     ob_retainedJobs s = int (length (ob_jobs s)) \<and>
     counts_ok (ob_retainedByPeer s) (\<lambda>p. cnt (\<lambda>r. ox_PeerBusID r = p) (ob_jobs s)) \<and>
     ob_retainedBytes s = bytes_total (getI (ob_reservationBytes s)) (ob_jobs s) \<and>
     set (ob_expired s) \<subseteq> dom (job s)"

lemma length_update: "length (AList.update k v al) = length al + (if map_of al k = None then 1 else 0)"
  by (induction al) auto

lemma length_delete: "distinct (map fst al) \<Longrightarrow> map_of al k = Some q \<Longrightarrow> Suc (length (AList.delete k al)) = length al"
  using cnt_delete [of al k q "\<lambda>_. True"] by (simp add: cnt_def)


section \<open>Rows change, counters follow\<close>

lemma ob_del_fields [simp]:
  "ob_jobs (ob_del jid s) = AList.delete jid (ob_jobs s)"
  "ob_expired (ob_del jid s) = removeAll jid (ob_expired s)" "ob_reservationBytes (ob_del jid s) = AList.delete jid (ob_reservationBytes s)"
  "ob_busID (ob_del jid s) = ob_busID s" "ob_retryHorizon (ob_del jid s) = ob_retryHorizon s"
  "ob_settledRetention (ob_del jid s) = ob_settledRetention s" "ob_checkpointReclaims (ob_del jid s) = ob_checkpointReclaims s"
  "ob_inflight (ob_del jid s) = ob_inflight s" "ob_restoredHighWater (ob_del jid s) = ob_restoredHighWater s"
  "ob_attached (ob_del jid s) = ob_attached s"
  by (simp_all add: ob_del_def removePending_def Let_def split: option.split)

lemma ob_del_counts:
  assumes "job s jid = Some q"
  shows "ob_pendingJobs (ob_del jid s) = (if owed q then ob_pendingJobs s - 1 else ob_pendingJobs s)"
    "ob_pendingByPeer (ob_del jid s) = (if owed q then decZ (ox_PeerBusID q) (ob_pendingByPeer s) else ob_pendingByPeer s)"
    "ob_retainedJobs (ob_del jid s) = ob_retainedJobs s - 1"
    "ob_retainedBytes (ob_del jid s) = ob_retainedBytes s - getI (ob_reservationBytes s) jid"
    "ob_retainedByPeer (ob_del jid s) = decZ (ox_PeerBusID q) (ob_retainedByPeer s)"
  using assms by (simp_all add: ob_del_def removePending_def Let_def)

lemma counts_minus:
  assumes "counts_ok cs n" "0 < n b" "\<And>c. m c = (if c = b then n c - 1 else n c)"
  shows "counts_ok (decZ b cs) m"
proof -
  have "m = n(b := n b - 1)" using assms(3) by auto
  then show ?thesis using counts_decZ [OF assms(1,2)] by simp
qed

lemma counts_plus:
  assumes "counts_ok cs n" "\<And>c. m c = (if c = b then Suc (n c) else n c)"
  shows "counts_ok (incI b cs) m"
proof -
  have "m = n(b := Suc (n b))" using assms(2) by auto
  then show ?thesis using counts_incI [OF assms(1)] by simp
qed

lemma counts_same: "counts_ok cs n \<Longrightarrow> (\<And>c. m c = n c) \<Longrightarrow> counts_ok cs m"
  by (simp add: counts_ok_def)

lemma books_del:
  assumes s: "books_ok s"
  shows "books_ok (ob_del jid s)"
proof (cases "job s jid")
  case None
  have "AList.delete jid (ob_jobs s) = ob_jobs s" using None by (rule delete_absent)
  moreover have "removeAll jid (ob_expired s) = ob_expired s"
    using s None by (auto simp: books_ok_def domIff intro!: removeAll_id)
  moreover have "bytes_total ((getI (ob_reservationBytes s))(jid := 0)) (ob_jobs s) = bytes_total (getI (ob_reservationBytes s)) (ob_jobs s)"
    using None by (rule bytes_total_other)
  ultimately show ?thesis using s None by (simp add: books_ok_def ob_del_def Let_def getI_deleted)
next
  case (Some q)
  let ?al = "ob_jobs s" and ?al' = "AList.delete jid (ob_jobs s)"
  have d: "distinct (map fst ?al)" using s by (simp add: books_ok_def)
  note f = ob_del_counts [OF Some] and c = cnt_delete [OF d Some]
  have peer: "cnt (\<lambda>r. ox_PeerBusID r = p) ?al' = (if p = ox_PeerBusID q then cnt (\<lambda>r. ox_PeerBusID r = p) ?al - 1 else cnt (\<lambda>r. ox_PeerBusID r = p) ?al)" for p
    using c [of "\<lambda>r. ox_PeerBusID r = p"] by auto
  have pend: "cnt (\<lambda>r. owed r \<and> ox_PeerBusID r = p) ?al' = (if owed q \<and> p = ox_PeerBusID q then cnt (\<lambda>r. owed r \<and> ox_PeerBusID r = p) ?al - 1
      else cnt (\<lambda>r. owed r \<and> ox_PeerBusID r = p) ?al)" for p
    using c [of "\<lambda>r. owed r \<and> ox_PeerBusID r = p"] by auto
  have 1: "counts_ok (ob_retainedByPeer (ob_del jid s)) (\<lambda>p. cnt (\<lambda>r. ox_PeerBusID r = p) ?al')"
    unfolding f by (rule counts_minus [where n = "\<lambda>p. cnt (\<lambda>r. ox_PeerBusID r = p) ?al"])
      (use s cnt_pos [OF Some] peer in \<open>simp_all add: books_ok_def\<close>)
  have 2: "counts_ok (ob_pendingByPeer (ob_del jid s)) (\<lambda>p. cnt (\<lambda>r. owed r \<and> ox_PeerBusID r = p) ?al')"
  proof (cases "owed q")
    case True
    then show ?thesis unfolding f
      using counts_minus [where n = "\<lambda>p. cnt (\<lambda>r. owed r \<and> ox_PeerBusID r = p) ?al", OF _ cnt_pos [OF Some]] pend s by (simp add: books_ok_def)
  next
    case False
    then show ?thesis unfolding f using s pend by (auto simp: books_ok_def intro: counts_same)
  qed
  have 3: "ob_pendingJobs (ob_del jid s) = int (cnt owed ?al')" "ob_retainedJobs (ob_del jid s) = int (length ?al')"
    using f s c [of owed] length_delete [OF d Some] by (auto simp: books_ok_def)
  have 4: "ob_retainedBytes (ob_del jid s) = bytes_total (getI (ob_reservationBytes (ob_del jid s))) ?al'"
    using f s Some bytes_total_delete [OF d, of _ jid] bytes_total_other [of ?al' jid "getI (ob_reservationBytes s)" 0]
    by (simp add: books_ok_def getI_deleted delete_conv)
  have 5: "job (ob_del jid s) k = Some r \<Longrightarrow> ox_JobID r = k" for k r
    using s by (auto simp: books_ok_def delete_conv split: if_splits)
  have 6: "set (ob_expired (ob_del jid s)) \<subseteq> dom (job (ob_del jid s))"    using s unfolding books_ok_def by (auto simp: delete_conv subset_iff dom_def)
  show ?thesis using 1 2 3 4 5 6 d distinct_delete [OF d, of jid] unfolding books_ok_def by simp
qed


lemma ob_put_fields [simp]:
  "ob_jobs (ob_put Q jid r s) = AList.update jid r (ob_jobs s)"
  "ob_busID (ob_put Q jid r s) = ob_busID s" "ob_retryHorizon (ob_put Q jid r s) = ob_retryHorizon s"
  "ob_settledRetention (ob_put Q jid r s) = ob_settledRetention s" "ob_checkpointReclaims (ob_put Q jid r s) = ob_checkpointReclaims s"
  "ob_inflight (ob_put Q jid r s) = ob_inflight s" "ob_restoredHighWater (ob_put Q jid r s) = ob_restoredHighWater s"
  "ob_attached (ob_put Q jid r s) = ob_attached s" "set (ob_expired (ob_put Q jid r s)) \<subseteq> set (ob_expired s)"
  by (auto simp: ob_put_def removePending_def Let_def split: option.split)

lemma ob_put_new:
  assumes "job s jid = None"
  shows "ob_pendingJobs (ob_put Q jid r s) = (if owed r then ob_pendingJobs s + 1 else ob_pendingJobs s)"
    "ob_pendingByPeer (ob_put Q jid r s) = (if owed r then incI (ox_PeerBusID r) (ob_pendingByPeer s) else ob_pendingByPeer s)"
    "ob_retainedJobs (ob_put Q jid r s) = ob_retainedJobs s + 1"
    "ob_retainedBytes (ob_put Q jid r s) = ob_retainedBytes s + getI (ob_reservationBytes (ob_put Q jid r s)) jid"
    "ob_retainedByPeer (ob_put Q jid r s) = incI (ox_PeerBusID r) (ob_retainedByPeer s)"
    "\<exists>n. getI (ob_reservationBytes (ob_put Q jid r s)) = (getI (ob_reservationBytes s))(jid := n)"
  using assms by (simp_all add: ob_put_def Let_def getI_updated reserved_for_def) (metis fun_upd_triv)

lemma ob_put_old:
  assumes "job s jid = Some q"
  shows "ob_pendingJobs (ob_put Q jid r s) = ob_pendingJobs s - (if owed q then 1 else 0) + (if owed r then 1 else 0)"
    "ob_pendingByPeer (ob_put Q jid r s) = (let m = (if owed q then decZ (ox_PeerBusID q) (ob_pendingByPeer s) else ob_pendingByPeer s)
       in if owed r then incI (ox_PeerBusID r) m else m)"
    "ob_retainedJobs (ob_put Q jid r s) = ob_retainedJobs s" "ob_retainedBytes (ob_put Q jid r s) = ob_retainedBytes s"
    "ob_retainedByPeer (ob_put Q jid r s) = ob_retainedByPeer s" "ob_reservationBytes (ob_put Q jid r s) = ob_reservationBytes s"
  using assms by (simp_all add: ob_put_def removePending_def Let_def)

lemma books_put_new:
  assumes s: "books_ok s" and n: "job s jid = None" and j: "ox_JobID r = jid"
  shows "books_ok (ob_put Q jid r s)"
proof -
  let ?al = "ob_jobs s" and ?t = "ob_put Q jid r s"
  note f = ob_put_new [OF n, of Q r] and c = cnt_new [OF n]
  have 1: "counts_ok (ob_retainedByPeer ?t) (\<lambda>p. cnt (\<lambda>r. ox_PeerBusID r = p) (ob_jobs ?t))"
    unfolding f by (rule counts_plus [where n = "\<lambda>p. cnt (\<lambda>r. ox_PeerBusID r = p) ?al"]) (use s in \<open>auto simp: books_ok_def c\<close>)
  have 2: "counts_ok (ob_pendingByPeer ?t) (\<lambda>p. cnt (\<lambda>r. owed r \<and> ox_PeerBusID r = p) (ob_jobs ?t))"
  proof (cases "owed r")
    case True
    then show ?thesis unfolding f
      using counts_plus [where n = "\<lambda>p. cnt (\<lambda>r. owed r \<and> ox_PeerBusID r = p) ?al" and b = "ox_PeerBusID r"] s by (auto simp: books_ok_def c)
  next
    case False
    then show ?thesis unfolding f using s by (auto simp: books_ok_def c intro: counts_same)
  qed
  have 3: "ob_pendingJobs ?t = int (cnt owed (ob_jobs ?t))" "ob_retainedJobs ?t = int (length (ob_jobs ?t))"
    using f s n by (auto simp: books_ok_def c length_update)
  obtain m where m: "getI (ob_reservationBytes ?t) = (getI (ob_reservationBytes s))(jid := m)" using f(6) by blast
  have 4: "ob_retainedBytes ?t = bytes_total (getI (ob_reservationBytes ?t)) (ob_jobs ?t)"
    unfolding f(4) using s n bytes_total_other [OF n] by (simp add: books_ok_def m bytes_total_update)
  have 5: "set (ob_expired ?t) \<subseteq> dom (job ?t)"
    using s ob_put_fields(9) [of Q jid r s] unfolding books_ok_def by (auto simp: update_conv subset_iff dom_def)
  have 6: "distinct (map fst (ob_jobs ?t))" using s by (simp add: books_ok_def distinct_update)
  have 7: "job ?t k = Some q \<Longrightarrow> ox_JobID q = k" for k q using s j by (auto simp: books_ok_def update_conv split: if_splits)
  show ?thesis unfolding books_ok_def using 1 2 3 4 5 6 7 by blast
qed

lemma books_put_old:
  assumes s: "books_ok s" and n: "job s jid = Some q" and j: "ox_JobID r = jid" and p: "ox_PeerBusID r = ox_PeerBusID q"
    and o: "owed q" "\<not> owed r"
  shows "books_ok (ob_put Q jid r s)"
proof -
  let ?al = "ob_jobs s" and ?t = "ob_put Q jid r s"
  note f = ob_put_old [OF n, of Q r] and c = cnt_replace [OF n, of _ r]
  have peer: "cnt (\<lambda>r. ox_PeerBusID r = x) (AList.update jid r ?al) = cnt (\<lambda>r. ox_PeerBusID r = x) ?al" for x
    using c [of "\<lambda>r. ox_PeerBusID r = x"] p by (auto split: if_splits)
  have pend: "cnt (\<lambda>r. owed r \<and> ox_PeerBusID r = x) (AList.update jid r ?al) =
      (if x = ox_PeerBusID q then cnt (\<lambda>r. owed r \<and> ox_PeerBusID r = x) ?al - 1 else cnt (\<lambda>r. owed r \<and> ox_PeerBusID r = x) ?al)" for x
    using c [of "\<lambda>r. owed r \<and> ox_PeerBusID r = x"] o by auto
  have 1: "counts_ok (ob_retainedByPeer ?t) (\<lambda>p. cnt (\<lambda>r. ox_PeerBusID r = p) (ob_jobs ?t))"
    unfolding f using s by (auto simp: books_ok_def peer intro: counts_same)
  have 2: "counts_ok (ob_pendingByPeer ?t) (\<lambda>p. cnt (\<lambda>r. owed r \<and> ox_PeerBusID r = p) (ob_jobs ?t))"
    unfolding f using counts_minus [where n = "\<lambda>p. cnt (\<lambda>r. owed r \<and> ox_PeerBusID r = p) ?al", OF _ cnt_pos [OF n]] pend s o
    by (simp add: books_ok_def)
  have 3: "ob_pendingJobs ?t = int (cnt owed (ob_jobs ?t))" "ob_retainedJobs ?t = int (length (ob_jobs ?t))"
    using f s n o c [of owed] by (auto simp: books_ok_def length_update)
  have 4: "ob_retainedBytes ?t = bytes_total (getI (ob_reservationBytes ?t)) (ob_jobs ?t)"
    using f s n by (simp add: books_ok_def bytes_total_update)
  have 5: "set (ob_expired ?t) \<subseteq> dom (job ?t)"
    using s ob_put_fields(9) [of Q jid r s] unfolding books_ok_def by (auto simp: update_conv subset_iff dom_def)
  have 6: "distinct (map fst (ob_jobs ?t))" using s by (simp add: books_ok_def distinct_update)
  have 7: "job ?t k = Some q \<Longrightarrow> ox_JobID q = k" for k q using s j by (auto simp: books_ok_def update_conv split: if_splits)
  show ?thesis unfolding books_ok_def using 1 2 3 4 5 6 7 by blast
qed


section \<open>Sweep and upsert\<close>

lemma sweep_induct:
  assumes "P s" "\<And>t x. P t \<Longrightarrow> P (sweep_one now t x)"
  shows "P (ob_sweep now s)"
proof -
  have "P (foldl (sweep_one now) t xs)" if "P t" for t xs using that assms(2) by (induction xs arbitrary: t) simp_all
  then show ?thesis using assms(1) by (simp add: ob_sweep_def)
qed

lemma sweep_fixed [simp]:
  "ob_busID (ob_sweep now s) = ob_busID s" "ob_retryHorizon (ob_sweep now s) = ob_retryHorizon s"
  "ob_settledRetention (ob_sweep now s) = ob_settledRetention s" "ob_inflight (ob_sweep now s) = ob_inflight s"
  "ob_restoredHighWater (ob_sweep now s) = ob_restoredHighWater s" "ob_attached (ob_sweep now s) = ob_attached s"
  by (rule sweep_induct; simp add: sweep_one_def)+

lemma sweep_job: "job (ob_sweep now s) k = None \<or> job (ob_sweep now s) k = job s k"
  by (rule sweep_induct [where P = "\<lambda>t. job t k = None \<or> job t k = job s k"]) (auto simp: sweep_one_def delete_conv)

lemma books_expire: "books_ok s \<Longrightarrow> job s k = Some r \<Longrightarrow> books_ok (s\<lparr>ob_expired := k # ob_expired s\<rparr>)"
  unfolding books_ok_def by (simp add: domI)

lemma books_sweep:
  assumes "books_ok s"
  shows "books_ok (ob_sweep now s)"
proof -
  have "books_ok (foldl (sweep_one now) t xs)"
    if "books_ok t" "distinct (map fst xs)" "\<forall>x\<in>set xs. job t (fst x) = Some (snd x)" for t xs
    using that
  proof (induction xs arbitrary: t)
    case (Cons x xs)
    have "books_ok (sweep_one now t x)"
      using Cons.prems(1,3) books_del [OF Cons.prems(1)] books_expire [OF Cons.prems(1)] by (simp add: sweep_one_def)
    moreover have "\<forall>y\<in>set xs. job (sweep_one now t x) (fst y) = Some (snd y)"
    proof
      fix y assume y: "y \<in> set xs"
      then have "fst y \<noteq> fst x" using Cons.prems(2) by (metis distinct.simps(2) image_eqI list.simps(9) set_map)
      then show "job (sweep_one now t x) (fst y) = Some (snd y)" using y Cons.prems(3) by (simp add: sweep_one_def delete_conv)
    qed
    ultimately show ?case using Cons by simp
  qed simp
  moreover have d: "distinct (map fst (ob_jobs s))" using assms by (simp add: books_ok_def)
  moreover have "\<forall>x\<in>set (ob_jobs s). job s (fst x) = Some (snd x)"
    using map_of_is_SomeI [OF d] by (metis prod.collapse)
  ultimately show ?thesis using assms unfolding ob_sweep_def by blast
qed

text \<open>What an upsert does to the swept table: nothing, a new row, or the settlement of a pending one.\<close>

lemma upsert_cases:
  obtains (same) "snd (ob_upsert Q r now s) = ob_sweep now s"
  | (new) "job (ob_sweep now s) (ox_JobID r) = None" "snd (ob_upsert Q r now s) = ob_put Q (ox_JobID r) r (ob_sweep now s)"
      "\<not> FutureDated r now OutboxClockSkewAllowance" "\<not> ob_Expired r now (ob_retryHorizon s)" "\<not> equal_fold (ox_PeerBusID r) (ob_busID s)"
  | (settled) q r' where "job (ob_sweep now s) (ox_JobID r) = Some q" "owed q" "\<not> owed r" "r' = r \<or> r' = merged_settlement q r"
      "ox_PeerBusID r = ox_PeerBusID q" "snd (ob_upsert Q r now s) = ob_put Q (ox_JobID r) r' (ob_sweep now s)"
proof -
  let ?s = "ob_sweep now s"
  show thesis
  proof (cases "job ?s (ox_JobID r)")
    case None
    have "snd (ob_upsert Q r now s) = ?s \<or>
        snd (ob_upsert Q r now s) = ob_put Q (ox_JobID r) r ?s \<and> \<not> FutureDated r now OutboxClockSkewAllowance \<and>
        \<not> ob_Expired r now (ob_retryHorizon s) \<and> \<not> equal_fold (ox_PeerBusID r) (ob_busID s)"
      by (simp add: ob_upsert_def Let_def None)
    then show thesis using that(1) that(2) [OF None] by blast
  next
    case (Some q)
    have "snd (ob_upsert Q r now s) = ?s \<or>
        owed q \<and> \<not> owed r \<and> ox_PeerBusID r = ox_PeerBusID q \<and>
        (snd (ob_upsert Q r now s) = ob_put Q (ox_JobID r) r ?s \<or> snd (ob_upsert Q r now s) = ob_put Q (ox_JobID r) (merged_settlement q r) ?s)"
      by (simp add: ob_upsert_def Let_def Some ob_Terminal_def)
    then show thesis using that(1) that(3) [OF Some] by blast
  qed
qed

lemma books_upsert:
  assumes "books_ok s"
  shows "books_ok (snd (ob_upsert Q r now s))"
proof (cases rule: upsert_cases [of Q r now s])
  case same
  then show ?thesis using books_sweep [OF assms] by simp
next
  case new
  then show ?thesis using books_put_new [OF books_sweep [OF assms] new(1) refl] by simp
next
  case (settled q r')
  have "ox_JobID q = ox_JobID r" using books_sweep [OF assms, of now] settled(1) by (simp add: books_ok_def)
  moreover have "\<not> owed r'" "ox_PeerBusID r' = ox_PeerBusID q" "ox_JobID r' = ox_JobID r"
    using settled(3-5) calculation by (auto simp: merged_settlement_def)
  ultimately show ?thesis unfolding settled(6) using books_put_old [OF books_sweep [OF assms] settled(1) _ _ settled(2)] by simp
qed


section \<open>Every critical section\<close>

lemma books_cong:
  "books_ok s \<Longrightarrow> ob_jobs s' = ob_jobs s \<Longrightarrow> ob_pendingJobs s' = ob_pendingJobs s \<Longrightarrow> ob_pendingByPeer s' = ob_pendingByPeer s \<Longrightarrow>
     ob_retainedJobs s' = ob_retainedJobs s \<Longrightarrow> ob_retainedBytes s' = ob_retainedBytes s \<Longrightarrow> ob_retainedByPeer s' = ob_retainedByPeer s \<Longrightarrow>
     bytes_total (getI (ob_reservationBytes s')) (ob_jobs s) = bytes_total (getI (ob_reservationBytes s)) (ob_jobs s) \<Longrightarrow>
     set (ob_expired s') \<subseteq> set (ob_expired s) \<Longrightarrow> books_ok s'"
  unfolding books_ok_def by (simp, blast)

lemma books_enqueue_start:
  assumes "books_ok s" "enqueue_start Q now jb s = (r, s')"
  shows "books_ok s'"
proof -
  have "s' = s \<or> s' = ob_sweep now s \<or> (\<exists>canon n. s' = reserve_job canon n (ob_sweep now s) \<and> job (ob_sweep now s) (ox_JobID canon) = None)"
    using assms(2) by (auto simp: enqueue_start_def Let_def split: if_splits sum.splits option.splits prod.splits)
  then show ?thesis
  proof (elim disjE exE conjE)
    fix canon n assume e: "s' = reserve_job canon n (ob_sweep now s)" and j: "job (ob_sweep now s) (ox_JobID canon) = None"
    show ?thesis
      by (rule books_cong [OF books_sweep [OF assms(1), of now]]) (simp_all add: e reserve_job_def Let_def getI_updated bytes_total_other [OF j])
  qed (use assms(1) books_sweep in simp_all)
qed

lemma books_enqueue_done: "books_ok s \<Longrightarrow> books_ok (enqueue_done canon n s)"
  by (rule books_cong) (auto simp: enqueue_done_def Let_def getI_deleted bytes_total_other)

lemma books_settle_start:
  assumes "books_ok s" "settle_start now jid state reason s = (r, s')"
  shows "books_ok s'"
proof -
  have "snd (settle_start now jid state reason s) \<in> {s, ob_sweep now s, (ob_sweep now s)\<lparr>ob_inflight := jid # ob_inflight (ob_sweep now s)\<rparr>}"
    by (simp add: settle_start_def Let_def del: sweep_fixed split: option.split)
  then have "s' = s \<or> s' = ob_sweep now s \<or> s' = (ob_sweep now s)\<lparr>ob_inflight := jid # ob_inflight (ob_sweep now s)\<rparr>"
    unfolding assms(2) by simp
  then show ?thesis
  proof (elim disjE)
    assume e: "s' = (ob_sweep now s)\<lparr>ob_inflight := jid # ob_inflight (ob_sweep now s)\<rparr>"
    show ?thesis unfolding e by (rule books_cong [OF books_sweep [OF assms(1), of now]]) auto
  qed (use assms(1) books_sweep in simp_all)
qed

lemma bytes_total_changed:
  "distinct (map fst al) \<Longrightarrow> map_of al k = Some q \<Longrightarrow> bytes_total (f(k := v)) al = bytes_total f al + (v - f k)"
proof (induction al)
  case (Cons x al)
  show ?case
  proof (cases "fst x = k")
    case True
    then have "map_of al k = None" using Cons.prems(1) by (auto simp: map_of_eq_None_iff)
    then show ?thesis using True bytes_total_other [of al k f v] by (simp add: bytes_total_def)
  qed (use Cons in \<open>cases x, auto simp: bytes_total_def\<close>)
qed simp

lemma books_rebase:
  assumes s: "books_ok s" and j: "job s jid = Some r"
  shows "books_ok (rebaseTerminal jid r body s)"
proof -
  have d: "distinct (map fst (ob_jobs s))" using s by (simp add: books_ok_def)
  show ?thesis
    using s bytes_total_changed [OF d j, of "getI (ob_reservationBytes s)" "int (length body)"]
    unfolding books_ok_def by (simp add: rebaseTerminal_def getI_updated)
qed

lemma books_unexpire: "books_ok s \<Longrightarrow> books_ok (s\<lparr>ob_expired := removeAll k (ob_expired s)\<rparr>)"
  by (rule books_cong) auto

lemma books_checkpoint:
  assumes "books_ok s" "checkpoint_done Q published s = (r, s')"
  shows "books_ok s'"
proof -
  have o: "books_ok (reclaim_omitted Q t x)" if "books_ok t" for t x
    using that books_del books_unexpire [OF that] books_rebase [OF books_unexpire [OF that]]
    by (auto simp: reclaim_omitted_def split: option.split sum.split)
  have p: "books_ok (rebase_published Q t x)" if "books_ok t" for t x
    using that books_rebase [OF that] by (auto simp: rebase_published_def split: option.split)
  have "books_ok (foldl (reclaim_omitted Q) t xs)" if "books_ok t" for t xs using that o by (induction xs arbitrary: t) simp_all
  moreover have "books_ok (foldl (rebase_published Q) t xs)" if "books_ok t" for t xs using that p by (induction xs arbitrary: t) simp_all
  moreover have "books_ok (s\<lparr>ob_candidate := None\<rparr>)" using assms(1) by (rule books_cong) simp_all
  ultimately show ?thesis using assms by (auto simp: checkpoint_done_def Let_def split: sum.splits option.splits)
qed

lemma decode_rows_distinct:
  "decode_rows Q seen lst bs = Inr rs \<Longrightarrow> distinct (map ox_JobID rs) \<and> set (map ox_JobID rs) \<inter> set seen = {}"
proof (induction bs arbitrary: seen lst rs)
  case (Cons b bs)
  obtain r qs where r: "rs = r # qs" "ox_JobID r \<notin> set seen" "decode_rows Q (ox_JobID r # seen) (ox_JobID r) bs = Inr qs"
    using Cons.prems by (auto simp: res split: if_splits)
  show ?case using Cons.IH [OF r(3)] r(1,2) by auto
qed simp

lemma books_put_all:
  assumes "books_ok s" "distinct (map ox_JobID rs)" "\<forall>r\<in>set rs. job s (ox_JobID r) = None"
  shows "books_ok (foldl (\<lambda>t r. ob_put Q (ox_JobID r) r t) s rs)"
  using assms
proof (induction rs arbitrary: s)
  case (Cons r rs)
  have "books_ok (ob_put Q (ox_JobID r) r s)" using Cons.prems by (intro books_put_new) simp_all
  moreover have "\<forall>q\<in>set rs. job (ob_put Q (ox_JobID r) r s) (ox_JobID q) = None"
  proof
    fix q assume q: "q \<in> set rs"
    then have "ox_JobID q \<noteq> ox_JobID r" using Cons.prems(2) by (metis distinct.simps(2) image_eqI list.simps(9) set_map)
    then show "job (ob_put Q (ox_JobID r) r s) (ox_JobID q) = None" using q Cons.prems(3) by (simp add: update_conv)
  qed
  ultimately show ?case using Cons by simp
qed simp

lemma books_restore:
  assumes "books_ok s" "ob_Restore Q b hw s = (r, s')"
  shows "books_ok s'"
proof -
  let ?s0 = "s\<lparr>ob_jobs := [], ob_pendingJobs := 0, ob_pendingByPeer := [], ob_retainedJobs := 0, ob_retainedBytes := 0,
    ob_retainedByPeer := [], ob_reservationBytes := [], ob_expired := []\<rparr>"
  have z: "books_ok ?s0" by (simp add: books_ok_def counts_ok_def)
  have "s' = s \<or> (\<exists>rs. s' = (foldl (\<lambda>t r. ob_put Q (ox_JobID r) r t) ?s0 rs)\<lparr>ob_restoredHighWater := hw\<rparr> \<and> distinct (map ox_JobID rs))"
    using assms(2) decode_rows_distinct
    by (force simp: ob_Restore_def Let_def res split: sum.splits if_splits)
  then show ?thesis
  proof (elim disjE exE conjE)
    fix rs assume e: "s' = (foldl (\<lambda>t r. ob_put Q (ox_JobID r) r t) ?s0 rs)\<lparr>ob_restoredHighWater := hw\<rparr>" and d: "distinct (map ox_JobID rs)"
    show ?thesis unfolding e by (rule books_cong [OF books_put_all [OF z d]]) auto
  qed (use assms(1) in simp)
qed


text \<open>
  Every critical section of \<^verbatim>\<open>outbox.go\<close>, in any order and with any clock reading; \<open>folded\<close> is the section of \<^verbatim>\<open>foldIn\<close> and of \<^verbatim>\<open>Apply\<close>.
\<close>

inductive ob_section :: "outbox_codec \<Rightarrow> outbox \<Rightarrow> outbox \<Rightarrow> bool" for Q where
  attached: "ob_Attach log s = (r, s') \<Longrightarrow> ob_section Q s s'"
| queried: "ob_section Q s (ob_sweep now s)"
| enqueued: "enqueue_start Q now jb s = (r, s') \<Longrightarrow> ob_section Q s s'"
| enqueue_left: "ob_section Q s (enqueue_done canon n s)"
| settling: "settle_start now jid state reason s = (r, s') \<Longrightarrow> ob_section Q s s'"
| settle_left: "ob_section Q s (settle_done jid s)"
| folded: "ob_section Q s (snd (ob_upsert Q rec now s))"
| snapshot: "ob_Snapshot Q now hw s = (r, s') \<Longrightarrow> ob_section Q s s'"
| restored: "ob_Restore Q b hw s = (r, s') \<Longrightarrow> ob_section Q s s'"
| checkpoint_begun: "ob_section Q s (checkpoint_start s)"
| checkpoint_ended: "checkpoint_done Q published s = (r, s') \<Longrightarrow> ob_section Q s s'"

lemma books_section:
  assumes "ob_section Q s s'" "books_ok s"
  shows "books_ok s'"
  using assms
proof cases
  case (attached log r)
  have "snd (ob_Attach log s) \<in> {s, s\<lparr>ob_attached := True, ob_checkpointReclaims := snd log\<rparr>}" by (simp add: ob_Attach_def)
  then have "s' \<in> {s, s\<lparr>ob_attached := True, ob_checkpointReclaims := snd log\<rparr>}" unfolding attached by simp
  then show ?thesis using books_cong [OF assms(2), of "s\<lparr>ob_attached := True, ob_checkpointReclaims := snd log\<rparr>"] assms(2) by auto
next
  case (settle_left jid)
  then show ?thesis using books_cong [OF assms(2), of s'] by (auto simp: settle_done_def)
next
  case checkpoint_begun
  then show ?thesis using books_cong [OF assms(2), of s'] by (auto simp: checkpoint_start_def)
next
  case (snapshot now hw r)
  have "\<exists>c. snd (ob_Snapshot Q now hw s) = (ob_sweep now s)\<lparr>ob_candidate := c\<rparr>"
    by (auto simp: ob_Snapshot_def Let_def split: sum.split intro: exI [of _ "ob_candidate (ob_sweep now s)"])
  then obtain c where "s' = (ob_sweep now s)\<lparr>ob_candidate := c\<rparr>" unfolding snapshot by auto
  then show ?thesis using books_cong [OF books_sweep [OF assms(2), of now], of s'] by auto
next
  case (enqueued now jb r)
  then show ?thesis by (rule books_enqueue_start [OF assms(2)])
next
  case (settling now jid state reason r)
  then show ?thesis by (rule books_settle_start [OF assms(2)])
next
  case (restored b hw r)
  then show ?thesis by (rule books_restore [OF assms(2)])
next
  case (checkpoint_ended published r)
  then show ?thesis by (rule books_checkpoint [OF assms(2)])
qed (simp_all add: assms(2) books_sweep books_enqueue_done books_upsert)

lemma books_new: "NewOutbox log opt = Inr s \<Longrightarrow> books_ok s"
  by (auto simp: NewOutbox_def res Let_def books_ok_def counts_ok_def split: if_splits)

lemma books_always:
  assumes "NewOutbox log opt = Inr s0" "(ob_section Q)\<^sup>*\<^sup>* s0 s"
  shows "books_ok s"
  using assms(2)
proof (induction rule: rtranclp_induct)
  case base
  then show ?case using books_new [OF assms(1)] .
qed (rule books_section)

lemma insort_lex:
  assumes "sorted_wrt (\<lambda>a b. f a < f b \<or> f a = f b \<and> g a < g b) zs" "\<forall>z\<in>set zs. g x < g z"
  shows "sorted_wrt (\<lambda>a b. f a < f b \<or> f a = f b \<and> g a < g b) (insort_key f x zs)"
  using assms
proof (induction zs)
  case (Cons z zs)
  show ?case
  proof (cases "f x \<le> f z")
    case True
    have "f x < f y \<or> f x = f y \<and> g x < g y" if "y \<in> set (z # zs)" for y
    proof -
      have "f z \<le> f y" using that Cons.prems(1) by auto
      then show ?thesis using True Cons.prems(2) that by (metis le_less order.trans)
    qed
    then show ?thesis using True Cons.prems(1) by simp
  next
    case False
    then show ?thesis using Cons by (auto simp: set_insort_key)
  qed
qed simp

lemma sort_stable_lex:
  assumes "distinct (map g xs)"
  shows "sorted_wrt (\<lambda>a b. f a < f b \<or> f a = f b \<and> g a < g b) (sort_key f (sort_key g xs))"
proof -
  have "sorted_wrt (<) (map g (sort_key g xs))"
    using assms by (simp add: strict_sorted_iff distinct_map)
  then have "sorted_wrt (\<lambda>a b. g a < g b) (sort_key g xs)" by (simp add: sorted_wrt_map)
  moreover have "sorted_wrt (\<lambda>a b. f a < f b \<or> f a = f b \<and> g a < g b) (sort_key f zs)" if "sorted_wrt (\<lambda>a b. g a < g b) zs" for zs
    using that by (induction zs) (auto intro: insort_lex)
  ultimately show ?thesis by blast
qed


section \<open>What the counters and the listing say\<close>

lemma books_key: "books_ok s \<Longrightarrow> job s k = Some r \<Longrightarrow> ox_JobID r = k"
  unfolding books_ok_def by blast

lemma Jobs_exact:
  assumes s: "books_ok s" and j: "Jobs now states s = (rs, s1)"
  shows "s1 = ob_sweep now s" "sorted_wrt (\<lambda>a b. ox_EnqueuedAt a < ox_EnqueuedAt b \<or> ox_EnqueuedAt a = ox_EnqueuedAt b \<and> ox_JobID a < ox_JobID b) rs"
    "set rs = {r. job s1 (ox_JobID r) = Some r \<and> ox_JobID r \<notin> set (ob_expired s1) \<and> (states = [] \<or> ox_State r \<in> set states)}"
proof -
  show e: "s1 = ob_sweep now s" using j by (simp add: Jobs_def Let_def)
  let ?sel = "filter (\<lambda>x. fst x \<notin> set (ob_expired s1) \<and> (states = [] \<or> ox_State (snd x) \<in> set states)) (ob_jobs s1)"
  have rs: "rs = sort_key ox_EnqueuedAt (sort_key ox_JobID (map snd ?sel))" using j e by (simp add: Jobs_def Let_def)
  have b: "books_ok s1" unfolding e by (rule books_sweep [OF s])
  then have d: "distinct (map fst (ob_jobs s1))" by (simp add: books_ok_def)
  have k: "ox_JobID (snd x) = fst x" if "x \<in> set (ob_jobs s1)" for x
    by (rule books_key [OF b map_of_is_SomeI [OF d]]) (simp add: that)
  have "map ox_JobID (map snd ?sel) = map fst ?sel" using k by simp
  moreover have "distinct (map fst ?sel)" by (rule distinct_map_filter [OF d])
  ultimately have "distinct (map ox_JobID (map snd ?sel))" by (simp only:)
  then show "sorted_wrt (\<lambda>a b. ox_EnqueuedAt a < ox_EnqueuedAt b \<or> ox_EnqueuedAt a = ox_EnqueuedAt b \<and> ox_JobID a < ox_JobID b) rs"
    unfolding rs by (rule sort_stable_lex)
  have m: "r \<in> snd ` set ?sel \<longleftrightarrow> job s1 (ox_JobID r) = Some r \<and> ox_JobID r \<notin> set (ob_expired s1) \<and> (states = [] \<or> ox_State r \<in> set states)" for r
  proof
    assume "r \<in> snd ` set ?sel"
    then obtain y where y: "r = snd y" "y \<in> set ?sel" by (rule imageE)
    then have x: "(fst y, r) \<in> set (ob_jobs s1)" "fst y \<notin> set (ob_expired s1)" "states = [] \<or> ox_State r \<in> set states" by simp_all
    then show "job s1 (ox_JobID r) = Some r \<and> ox_JobID r \<notin> set (ob_expired s1) \<and> (states = [] \<or> ox_State r \<in> set states)"
      using k [OF x(1)] map_of_is_SomeI [OF d x(1)] by simp
  next
    assume r: "job s1 (ox_JobID r) = Some r \<and> ox_JobID r \<notin> set (ob_expired s1) \<and> (states = [] \<or> ox_State r \<in> set states)"
    then have "(ox_JobID r, r) \<in> set (ob_jobs s1)" by (blast intro: map_of_SomeD)
    then have "(ox_JobID r, r) \<in> set ?sel" using r unfolding set_filter mem_Collect_eq fst_conv snd_conv by blast
    then have "snd (ox_JobID r, r) \<in> snd ` set ?sel" by (rule imageI)
    then show "r \<in> snd ` set ?sel" unfolding snd_conv .
  qed
  then show "set rs = {r. job s1 (ox_JobID r) = Some r \<and> ox_JobID r \<notin> set (ob_expired s1) \<and> (states = [] \<or> ox_State r \<in> set states)}"
    using m unfolding rs set_sort set_map by blast
qed

text \<open>
  C28.  Whatever the order of the critical sections of all callers, replays, snapshots, restores and checkpoints, and whatever
  clock each reads: the running counters of the outbox describe exactly its table (pending jobs, pending and retained jobs of each peer, retained
  records and bytes), every record marked for omission is in the table, and the listing of pending jobs is sorted by enqueue time and job id
  and holds exactly the pending records not marked.
\<close>

theorem outbox_books_exact:
  assumes "NewOutbox log opt = Inr s0" "(ob_section Q)\<^sup>*\<^sup>* s0 s"
  shows "ob_pendingJobs s = int (length (filter (\<lambda>x. ox_State (snd x) = OutboxPending) (ob_jobs s))) \<and>
    (\<forall>p. getI (ob_pendingByPeer s) p = int (length (filter (\<lambda>x. ox_State (snd x) = OutboxPending \<and> ox_PeerBusID (snd x) = p) (ob_jobs s)))) \<and>
    ob_retainedJobs s = int (length (ob_jobs s)) \<and>
    (\<forall>p. getI (ob_retainedByPeer s) p = int (length (filter (\<lambda>x. ox_PeerBusID (snd x) = p) (ob_jobs s)))) \<and>
    ob_retainedBytes s = sum_list (map (\<lambda>x. getI (ob_reservationBytes s) (fst x)) (ob_jobs s)) \<and>
    set (ob_expired s) \<subseteq> set (map fst (ob_jobs s)) \<and>
    (\<forall>now rs s1. Pending now s = (rs, s1) \<longrightarrow>
       sorted_wrt (\<lambda>a b. ox_EnqueuedAt a < ox_EnqueuedAt b \<or> ox_EnqueuedAt a = ox_EnqueuedAt b \<and> ox_JobID a < ox_JobID b) rs \<and>
       set rs = {r. map_of (ob_jobs s1) (ox_JobID r) = Some r \<and> ox_JobID r \<notin> set (ob_expired s1) \<and> ox_State r = OutboxPending})"
proof -
  have b: "books_ok s" by (rule books_always [OF assms])
  have 1: "set (ob_expired s) \<subseteq> set (map fst (ob_jobs s))" using b by (simp add: books_ok_def dom_map_of_conv_image_fst)
  have "counts_ok (ob_pendingByPeer s) (\<lambda>p. cnt (\<lambda>r. owed r \<and> ox_PeerBusID r = p) (ob_jobs s))"
    "counts_ok (ob_retainedByPeer s) (\<lambda>p. cnt (\<lambda>r. ox_PeerBusID r = p) (ob_jobs s))" using b by (simp_all add: books_ok_def)
  note 2 = this [THEN getI_counts]
  show ?thesis
    using b 1 2 Jobs_exact(2,3) [OF b, of _ "[OutboxPending]"] unfolding Pending_def by (simp add: books_ok_def cnt_def bytes_total_def)
qed


definition demo_ob_options :: outbox_options where
  "demo_ob_options = \<lparr>oo_BusID = ''b1'', oo_MaxJobs = 0, oo_MaxPendingPerPeer = 0, oo_MaxRetainedJobs = 0, oo_MaxRetainedBytes = 0,
     oo_MaxRetainedPerPeer = 0, oo_RetryHorizon = 0, oo_SettledRetention = 0\<rparr>"

definition demo_ob_job :: outbox_job where
  "demo_ob_job = \<lparr>jb_PeerBusID = ''b2'', jb_OriginMessageID = ''b1-7'', jb_Size = 3, jb_ContentSHA256 = replicate 64 (CHR ''a'')\<rparr>"

definition demo_ob_record :: outbox_record where
  "demo_ob_record = pending_record demo_ob_job (1000 * sec_ns)"

definition demo_ob_codec :: outbox_codec where
  "demo_ob_codec = \<lparr>oc_record = (\<lambda>j. if j = ob_to_json demo_ob_record then Some ''1'' else None),
     un_outbox = (\<lambda>b. if b = ''1'' then Some (ob_to_json demo_ob_record) else None),
     oc_snapshot = (\<lambda>_. None), un_snapshot = (\<lambda>_. None)\<rparr>"

definition demo_ob :: outbox where
  "demo_ob = (case NewOutbox (True, False) demo_ob_options of Inr s \<Rightarrow> s)"

lemma demo_ob_new: "NewOutbox (True, False) demo_ob_options = Inr demo_ob"
proof -
  have "ValidateBusID ''b1'' = Inr ()" by code_simp
  then show ?thesis
    by (simp add: demo_ob_def NewOutbox_def demo_ob_options_def positive_or_def share_def MaxOutboxJobs_def MaxOutboxRetainedJobs_def MaxPeers_def
        DefaultQueueDepth_def OutboxRetryHorizon_def OutboxSettledRetention_def Let_def)
qed

lemma demo_ob_fields [simp]: "ob_jobs demo_ob = []" "ob_busID demo_ob = ''b1''" "ob_retryHorizon demo_ob = PeerOutageBudget"
proof -
  have "ValidateBusID ''b1'' = Inr ()" by code_simp
  then show "ob_jobs demo_ob = []" "ob_busID demo_ob = ''b1''" "ob_retryHorizon demo_ob = PeerOutageBudget"
    by (simp_all add: demo_ob_def NewOutbox_def demo_ob_options_def positive_or_def share_def MaxOutboxJobs_def MaxOutboxRetainedJobs_def
        MaxPeers_def DefaultQueueDepth_def OutboxRetryHorizon_def OutboxSettledRetention_def RetryHorizonCeiling_def Let_def)
qed

theorem outbox_books_exact_witness:
  "\<exists>s. NewOutbox (True, False) demo_ob_options = Inr demo_ob \<and> (ob_section demo_ob_codec)\<^sup>*\<^sup>* demo_ob s \<and>
     ob_jobs s = [(''b2|b1-7'', demo_ob_record)] \<and> ob_pendingJobs s = 1 \<and> getI (ob_retainedByPeer s) ''b2'' = 1"
proof -
  let ?s = "snd (ob_upsert demo_ob_codec demo_ob_record (2000 * sec_ns) demo_ob)"
  have r: "(ob_section demo_ob_codec)\<^sup>*\<^sup>* demo_ob ?s" by (rule r_into_rtranclp) (rule ob_section.folded)
  have "\<not> equal_fold ''b2'' ''b1''" by code_simp
  then have j: "ob_jobs ?s = [(''b2|b1-7'', demo_ob_record)]"
    by (simp add: ob_upsert_def ob_sweep_def Let_def demo_ob_record_def demo_ob_job_def pending_record_def DeriveJobID_def outboxJobIDSep_def
        FutureDated_def ob_Expired_def Retired_def ob_Terminal_def OutboxClockSkewAllowance_def time_sub_def maxDuration_def minDuration_def sec_ns_def
        PeerOutageBudget_def)
  have "ox_State demo_ob_record = OutboxPending" "ox_PeerBusID demo_ob_record = ''b2''"
    by (simp_all add: demo_ob_record_def pending_record_def demo_ob_job_def)
  then show ?thesis using outbox_books_exact [OF demo_ob_new r] demo_ob_new r j by auto
qed

end
